(* ===== verification/Prelude.thy ===== *)
theory Prelude
  imports Main
begin

text \<open>
  Shared vocabulary of the development.

  The C++ sources work on \<^verbatim>\<open>std::string\<close> values that are byte sequences (UTF-8 text is never
  decoded unless the code does so explicitly). Isabelle's \<^typ>\<open>char\<close> is an 8-bit value, so a
  \<^verbatim>\<open>std::string\<close> is a \<^typ>\<open>string\<close> and \<open>byte_of\<close> is the cast to
  \<^verbatim>\<open>unsigned char\<close>. \<^verbatim>\<open>std::string::npos\<close> is \<^const>\<open>None\<close>. Sizes and indices
  (\<^verbatim>\<open>size_t\<close>) are \<^typ>\<open>nat\<close>: they are bounded by the length of strings that fit in
  memory, and every subtraction is written so that it is only taken where it does not underflow.

  The character classes are those of the C locale (\<^verbatim>\<open>std::isspace\<close>, \<^verbatim>\<open>std::isalnum\<close>,
  \<^verbatim>\<open>std::ispunct\<close>, \<^verbatim>\<open>std::tolower\<close>); the search functions are
  \<^verbatim>\<open>std::string::find\<close> and \<^verbatim>\<open>std::string::rfind\<close>.
\<close>

named_theorems ctype_defs \<open>definitions of the C character classes\<close>

type_synonym bytes = string

subsection \<open>Bytes and character classes\<close>

definition byte_of :: "char \<Rightarrow> nat" where
  "byte_of c = of_char c"

definition is_space_byte :: "char \<Rightarrow> bool" where
  "is_space_byte c \<longleftrightarrow> byte_of c = 32 \<or> (9 \<le> byte_of c \<and> byte_of c \<le> 13)"

definition is_digit :: "char \<Rightarrow> bool" where
  "is_digit c \<longleftrightarrow> 48 \<le> byte_of c \<and> byte_of c \<le> 57"

definition is_upper :: "char \<Rightarrow> bool" where
  "is_upper c \<longleftrightarrow> 65 \<le> byte_of c \<and> byte_of c \<le> 90"

definition is_lower :: "char \<Rightarrow> bool" where
  "is_lower c \<longleftrightarrow> 97 \<le> byte_of c \<and> byte_of c \<le> 122"

definition is_alnum :: "char \<Rightarrow> bool" where
  "is_alnum c \<longleftrightarrow> is_digit c \<or> is_upper c \<or> is_lower c"

definition is_punct :: "char \<Rightarrow> bool" where
  "is_punct c \<longleftrightarrow> 33 \<le> byte_of c \<and> byte_of c \<le> 126 \<and> \<not> is_alnum c"

definition to_lower :: "char \<Rightarrow> char" where
  "to_lower c = (if is_upper c then char_of (byte_of c + 32) else c)"

declare byte_of_def [ctype_defs] is_space_byte_def [ctype_defs] is_digit_def [ctype_defs]
  is_upper_def [ctype_defs] is_lower_def [ctype_defs] is_alnum_def [ctype_defs]
  is_punct_def [ctype_defs] to_lower_def [ctype_defs]

subsection \<open>Searching strings\<close>

definition crlf :: string where
  "crlf = [CHR 0x0D, CHR 0x0A]"

text \<open>\<^verbatim>\<open>lower_ascii\<close>, which several files of the server define.\<close>

definition lower_ascii :: "string \<Rightarrow> string" where
  "lower_ascii s = map to_lower s"

text \<open>\<open>starts_with p s\<close> is \<^verbatim>\<open>s.compare(0, p.size(), p) == 0\<close>.\<close>

fun starts_with :: "'a list \<Rightarrow> 'a list \<Rightarrow> bool" where
  "starts_with [] s = True"
| "starts_with (p # ps) [] = False"
| "starts_with (p # ps) (c # cs) = (p = c \<and> starts_with ps cs)"

text \<open>\<open>find_sub p s\<close> is \<^verbatim>\<open>s.find(p)\<close>, \<open>find_sub_from p s i\<close> is \<^verbatim>\<open>s.find(p, i)\<close>.\<close>

fun find_sub :: "'a list \<Rightarrow> 'a list \<Rightarrow> nat option" where
  "find_sub p [] = (if p = [] then Some 0 else None)"
| "find_sub p (c # cs) =
     (if starts_with p (c # cs) then Some 0 else map_option Suc (find_sub p cs))"

definition find_sub_from :: "'a list \<Rightarrow> 'a list \<Rightarrow> nat \<Rightarrow> nat option" where
  "find_sub_from p s i = map_option (\<lambda>k. i + k) (find_sub p (drop i s))"

text \<open>First and last position of a byte satisfying a predicate.\<close>

fun find_idx :: "('a \<Rightarrow> bool) \<Rightarrow> 'a list \<Rightarrow> nat option" where
  "find_idx P [] = None"
| "find_idx P (c # cs) = (if P c then Some 0 else map_option Suc (find_idx P cs))"

fun rfind_idx :: "('a \<Rightarrow> bool) \<Rightarrow> 'a list \<Rightarrow> nat option" where
  "rfind_idx P [] = None"
| "rfind_idx P (c # cs) =
     (case rfind_idx P cs of Some i \<Rightarrow> Some (Suc i) | None \<Rightarrow> if P c then Some 0 else None)"

definition substr :: "'a list \<Rightarrow> nat \<Rightarrow> nat \<Rightarrow> 'a list" where
  "substr s pos n = take n (drop pos s)"

text \<open>The cast of a (signed) \<^verbatim>\<open>int\<close> to the 64-bit \<^verbatim>\<open>size_t\<close> wraps.\<close>

definition to_size_t :: "int \<Rightarrow> nat" where
  "to_size_t i = nat (i mod 2 ^ 64)"

subsection \<open>Errors as values\<close>

text \<open>A call that may throw returns a sum; \<open>bind_sum\<close> lets the exception pass through.\<close>

definition bind_sum :: "'e + 'a \<Rightarrow> ('a \<Rightarrow> 'e + 'b) \<Rightarrow> 'e + 'b" where
  "bind_sum r f = (case r of Inl e \<Rightarrow> Inl e | Inr x \<Rightarrow> f x)"

definition require_that :: "bool \<Rightarrow> 'e \<Rightarrow> 'e + 'a \<Rightarrow> 'e + 'a" where
  "require_that b e r = (if b then r else Inl e)"

subsection \<open>Index loops\<close>

text \<open>\<open>scan_while P n i\<close> is \<^verbatim>\<open>while (i < n && P(i)) ++i;\<close>.\<close>

function scan_while :: "(nat \<Rightarrow> bool) \<Rightarrow> nat \<Rightarrow> nat \<Rightarrow> nat" where
  "scan_while P n i = (if i < n \<and> P i then scan_while P n (Suc i) else i)"
  by pat_completeness auto
termination
  by (relation "measure (\<lambda>(P, n, i). n - i)") auto

declare scan_while.simps [simp del]

text \<open>
  \<open>scan_down P lo i\<close> is \<^verbatim>\<open>for (; i > lo; --i) if (P(i - 1)) return i;\<close>, \<^const>\<open>None\<close> when the
  loop runs out.
\<close>

fun scan_down :: "(nat \<Rightarrow> bool) \<Rightarrow> nat \<Rightarrow> nat \<Rightarrow> nat option" where
  "scan_down P lo 0 = None"
| "scan_down P lo (Suc i) = (if Suc i > lo then (if P i then Some (Suc i) else scan_down P lo i) else None)"

subsection \<open>Decimal numbers\<close>

text \<open>\<^verbatim>\<open>std::to_string\<close>.\<close>

function nat_str :: "nat \<Rightarrow> string" where
  "nat_str n = (if n < 10 then [char_of (48 + n)] else nat_str (n div 10) @ [char_of (48 + n mod 10)])"
  by pat_completeness auto
termination
  by (relation "measure id") auto

declare nat_str.simps [simp del]

definition int_str :: "int \<Rightarrow> string" where
  "int_str i = (if i < 0 then CHR ''-'' # nat_str (nat (- i)) else nat_str (nat i))"

definition digits_nat :: "string \<Rightarrow> nat" where
  "digits_nat ds = foldl (\<lambda>v c. 10 * v + (byte_of c - 48)) 0 ds"

text \<open>
  The common part of \<^verbatim>\<open>strtoll\<close> and \<^verbatim>\<open>strtoull\<close> in base 10: blanks, an optional sign,
  at least one digit. The result is the sign, the magnitude and the number of bytes consumed.
\<close>

definition c_int_scan :: "string \<Rightarrow> (bool \<times> nat \<times> nat) option" where
  "c_int_scan s =
     (let ws = takeWhile is_space_byte s;
          t = dropWhile is_space_byte s;
          signed = (t \<noteq> [] \<and> (hd t = CHR ''-'' \<or> hd t = CHR ''+''));
          neg = (t \<noteq> [] \<and> hd t = CHR ''-'');
          ds = takeWhile is_digit (if signed then tl t else t)
      in if ds = [] then None
         else Some (neg, digits_nat ds, length ws + (if signed then 1 else 0) + length ds))"

text \<open>\<^verbatim>\<open>atoi(s.c_str() + n)\<close>, zero without digits; a number beyond \<^verbatim>\<open>int\<close> is not reached by the callers.\<close>

definition c_atoi :: "string \<Rightarrow> int" where
  "c_atoi s =
     (case c_int_scan (takeWhile (\<lambda>c. c \<noteq> CHR 0x00) s) of
        None \<Rightarrow> 0
      | Some (neg, m, k) \<Rightarrow> if neg then - int m else int m)"

datatype number_error = Invalid_Argument | Out_Of_Range

text \<open>\<^verbatim>\<open>std::stoll\<close> and \<^verbatim>\<open>std::stoi\<close>: the value and the number of bytes consumed.\<close>

definition sto_signed :: "nat \<Rightarrow> string \<Rightarrow> number_error + int \<times> nat" where
  "sto_signed w s =
     (case c_int_scan s of
        None \<Rightarrow> Inl Invalid_Argument
      | Some (neg, m, k) \<Rightarrow>
          (let v = (if neg then - int m else int m) in
           if v < - (2 ^ (w - 1)) \<or> v \<ge> 2 ^ (w - 1) then Inl Out_Of_Range else Inr (v, k)))"

text \<open>\<^verbatim>\<open>std::stoull\<close> (and \<^verbatim>\<open>stoul\<close> where \<^verbatim>\<open>long\<close> has 64 bits) negates modulo \<open>2 ^ 64\<close>.\<close>

definition sto_unsigned :: "string \<Rightarrow> number_error + nat \<times> nat" where
  "sto_unsigned s =
     (case c_int_scan s of
        None \<Rightarrow> Inl Invalid_Argument
      | Some (neg, m, k) \<Rightarrow>
          (if m \<ge> 2 ^ 64 then Inl Out_Of_Range
           else Inr (if neg then (2 ^ 64 - m) mod 2 ^ 64 else m, k)))"

text \<open>\<open>parts a rs n\<close>: the index ranges \<open>rs\<close> are non-empty and cut the range from \<open>a\<close> to \<open>n\<close> without gaps.\<close>

fun parts :: "nat \<Rightarrow> (nat \<times> nat) list \<Rightarrow> nat \<Rightarrow> bool" where
  "parts a [] n \<longleftrightarrow> a = n"
| "parts a ((s, e) # rs) n \<longleftrightarrow> s = a \<and> s < e \<and> e \<le> n \<and> parts e rs n"

text \<open>What of a text is heard: the bytes that are not blanks.\<close>

definition spoken :: "string \<Rightarrow> string" where
  "spoken = filter (\<lambda>c. \<not> is_space_byte c)"

subsection \<open>Lemmas\<close>

lemma to_size_t_nonneg [simp]: "0 \<le> i \<Longrightarrow> i < 2 ^ 64 \<Longrightarrow> to_size_t i = nat i"
  by (simp add: to_size_t_def)


lemma byte_of_less [simp]: "byte_of c < 256"
  by (simp add: byte_of_def)

lemma starts_with_append [simp]: "starts_with p (p @ s)"
  by (induction p) auto

lemma starts_with_iff: "starts_with p s \<longleftrightarrow> (\<exists>t. s = p @ t)"
  by (induction p s rule: starts_with.induct) auto

lemma starts_with_length: "starts_with p s \<Longrightarrow> length p \<le> length s"
  by (auto simp: starts_with_iff)

lemma starts_with_take: "starts_with p s \<longleftrightarrow> take (length p) s = p"
  by (induction p s rule: starts_with.induct) auto

lemma find_sub_Some:
  "find_sub p s = Some i \<Longrightarrow> starts_with p (drop i s) \<and> i + length p \<le> length s"
proof (induction p s arbitrary: i rule: find_sub.induct)
  case (1 p)
  then show ?case by (simp split: if_splits)
next
  case (2 p c cs)
  show ?case
  proof (cases "starts_with p (c # cs)")
    case True
    with "2.prems" show ?thesis using starts_with_length [OF True] by simp
  next
    case False
    with "2.prems" obtain j where "find_sub p cs = Some j" and "i = Suc j" by auto
    with "2.IH" [OF False] show ?thesis by simp
  qed
qed

lemma find_sub_from_bounds:
  "find_sub_from p s i = Some k \<Longrightarrow> i \<le> k \<and> (i \<le> length s \<longrightarrow> k + length p \<le> length s)"
  by (auto simp: find_sub_from_def dest!: find_sub_Some)

lemma find_sub_least: "find_sub p s = Some i \<Longrightarrow> j < i \<Longrightarrow> \<not> starts_with p (drop j s)"
proof (induction p s arbitrary: i j rule: find_sub.induct)
  case (1 p)
  then show ?case by (simp split: if_splits)
next
  case (2 p c cs)
  then show ?case by (cases j) (auto split: if_splits)
qed

lemma find_sub_None: "find_sub p s = None \<Longrightarrow> \<not> starts_with p (drop j s)"
proof (induction p s arbitrary: j rule: find_sub.induct)
  case (1 p)
  then show ?case by (cases p) auto
next
  case (2 p c cs)
  then show ?case by (cases j) (auto split: if_splits)
qed

lemma find_sub_not_occurs: "find_sub p s = None \<longleftrightarrow> (\<forall>u v. s \<noteq> u @ p @ v)"
proof
  assume none: "find_sub p s = None"
  show "\<forall>u v. s \<noteq> u @ p @ v"
  proof (intro allI notI)
    fix u v assume "s = u @ p @ v"
    then have "starts_with p (drop (length u) s)" by simp
    with find_sub_None [OF none] show False by blast
  qed
next
  assume no: "\<forall>u v. s \<noteq> u @ p @ v"
  show "find_sub p s = None"
  proof (cases "find_sub p s")
    case (Some i)
    then obtain t where "drop i s = p @ t" using find_sub_Some starts_with_iff by blast
    then have "s = take i s @ p @ t" by (metis append_take_drop_id)
    with no show ?thesis by blast
  qed
qed

lemma find_idx_Some: "find_idx P s = Some i \<Longrightarrow> i < length s \<and> P (s ! i)"
  by (induction s arbitrary: i) (auto split: if_splits)

lemma find_idx_None: "find_idx P s = None \<longleftrightarrow> (\<forall>c\<in>set s. \<not> P c)"
  by (induction s) auto

lemma find_idx_take: "find_idx P s = Some i \<Longrightarrow> \<forall>c\<in>set (take i s). \<not> P c"
  by (induction s arbitrary: i) (auto split: if_splits)

lemma find_idx_append:
  "\<forall>c\<in>set xs. \<not> P c \<Longrightarrow> P y \<Longrightarrow> find_idx P (xs @ y # ys) = Some (length xs)"
  by (induction xs) auto

lemma rfind_idx_Some: "rfind_idx P s = Some i \<Longrightarrow> i < length s \<and> P (s ! i)"
  by (induction s arbitrary: i) (auto split: if_splits option.splits)

lemma rfind_idx_None: "rfind_idx P s = None \<longleftrightarrow> (\<forall>c\<in>set s. \<not> P c)"
  by (induction s) (auto split: option.splits)

lemma rfind_idx_drop: "rfind_idx P s = Some i \<Longrightarrow> \<forall>c\<in>set (drop (Suc i) s). \<not> P c"
  by (induction s arbitrary: i) (auto simp: rfind_idx_None split: if_splits option.splits)

subsection \<open>Lemmas on the language model\<close>

lemma filter_dropWhile_not: "filter (\<lambda>c. \<not> P c) (dropWhile P xs) = filter (\<lambda>c. \<not> P c) xs"
  by (induction xs) auto

lemma spoken_Nil [simp]: "spoken [] = []"
  by (simp add: spoken_def)

lemma spoken_append [simp]: "spoken (s @ t) = spoken s @ spoken t"
  by (simp add: spoken_def)

lemma bind_sum_simps [simp]: "bind_sum (Inl e) f = Inl e" "bind_sum (Inr x) f = f x"
  by (simp_all add: bind_sum_def)

lemma bind_sum_Inr: "bind_sum r f = Inr y \<longleftrightarrow> (\<exists>x. r = Inr x \<and> f x = Inr y)"
  by (cases r) auto

lemma require_that_Inr [simp]: "require_that b e r = Inr y \<longleftrightarrow> b \<and> r = Inr y"
  by (simp add: require_that_def)

lemma require_that_simps [simp]: "require_that True e r = r" "require_that False e r = Inl e"
  by (simp_all add: require_that_def)

lemma scan_while_ge: "i \<le> scan_while P n i"
proof (induction P n i rule: scan_while.induct)
  case (1 P n i)
  then show ?case by (subst scan_while.simps) auto
qed

lemma scan_while_le: "i \<le> n \<Longrightarrow> scan_while P n i \<le> n"
proof (induction P n i rule: scan_while.induct)
  case (1 P n i)
  then show ?case by (subst scan_while.simps) auto
qed

lemma scan_while_all: "i \<le> k \<Longrightarrow> k < scan_while P n i \<Longrightarrow> P k"
proof (induction P n i rule: scan_while.induct)
  case (1 P n i)
  then show ?case
    by (cases "i < n \<and> P i"; cases "k = i") (simp_all add: scan_while.simps [of P n i])
qed

lemma scan_while_stop: "scan_while P n i < n \<Longrightarrow> \<not> P (scan_while P n i)"
proof (induction P n i rule: scan_while.induct)
  case (1 P n i)
  then show ?case by (cases "i < n \<and> P i") (auto simp: scan_while.simps [of P n i])
qed

lemma scan_down_Some: "scan_down P lo i = Some k \<Longrightarrow> lo < k \<and> k \<le> i \<and> P (k - 1)"
  by (induction P lo i rule: scan_down.induct) (auto split: if_splits)

lemma byte_of_char_of [simp]: "n < 256 \<Longrightarrow> byte_of (char_of n) = n"
  by (simp add: byte_of_def)

lemma digits_nat_snoc [simp]: "digits_nat (ds @ [c]) = 10 * digits_nat ds + (byte_of c - 48)"
  by (simp add: digits_nat_def)

lemma digits_nat_nat_str [simp]: "digits_nat (nat_str n) = n"
proof (induction n rule: nat_str.induct)
  case (1 n)
  then show ?case
    by (cases "n < 10") (simp_all add: nat_str.simps [of n] digits_nat_def)
qed

lemma nat_str_digits: "c \<in> set (nat_str n) \<Longrightarrow> is_digit c"
proof (induction n rule: nat_str.induct)
  case (1 n)
  then show ?case
    by (cases "n < 10") (auto simp: nat_str.simps [of n] is_digit_def)
qed

lemma nat_str_not_Nil [simp]: "nat_str n \<noteq> []"
  by (subst nat_str.simps) simp

lemma takeWhile_nat_str [simp]: "takeWhile is_digit (nat_str n) = nat_str n"
  using nat_str_digits by (simp add: takeWhile_eq_all_conv)

lemma digit_class: "is_digit c \<Longrightarrow> \<not> is_space_byte c \<and> c \<noteq> CHR ''-'' \<and> c \<noteq> CHR ''+''"
  by (auto simp: ctype_defs)

lemma c_int_scan_nat_str [simp]: "c_int_scan (nat_str n) = Some (False, n, length (nat_str n))"
proof -
  obtain c cs where n: "nat_str n = c # cs" by (cases "nat_str n") simp_all
  with nat_str_digits [of c n] digit_class [of c] have c: "\<not> is_space_byte c" "c \<noteq> CHR ''-''" "c \<noteq> CHR ''+''" by simp_all
  have w: "takeWhile is_space_byte (nat_str n) = []" "dropWhile is_space_byte (nat_str n) = nat_str n"
    using c by (simp_all add: n)
  have h: "hd (nat_str n) \<noteq> CHR ''-''" "hd (nat_str n) \<noteq> CHR ''+''" using c by (simp_all add: n)
  show ?thesis unfolding c_int_scan_def w Let_def using h by simp
qed

lemma c_int_scan_neg_nat_str [simp]:
  "c_int_scan (CHR ''-'' # nat_str n) = Some (True, n, Suc (length (nat_str n)))"
  by (simp add: c_int_scan_def Let_def ctype_defs)

lemma sto_signed_int_str:
  "- (2 ^ (w - 1)) \<le> i \<Longrightarrow> i < 2 ^ (w - 1) \<Longrightarrow> sto_signed w (int_str i) = Inr (i, length (int_str i))"
  by (simp add: sto_signed_def int_str_def Let_def)

subsection \<open>Interfaces shared by the components\<close>

text \<open>
  A component with concurrent or repeated steps promises that its initial states satisfy an
  invariant and that every step keeps it. The client may then rely on the invariant in every
  reachable state, and on any consequence of it.
\<close>

locale transition_invariant =
  fixes init :: "'s \<Rightarrow> bool"
    and step :: "'s \<Rightarrow> 's \<Rightarrow> bool"
    and inv :: "'s \<Rightarrow> bool"
  assumes init_inv: "init s \<Longrightarrow> inv s"
    and step_inv: "inv s \<Longrightarrow> step s t \<Longrightarrow> inv t"
begin

lemma reachable_inv: "step\<^sup>*\<^sup>* s t \<Longrightarrow> init s \<Longrightarrow> inv t"
  by (induction rule: rtranclp_induct) (auto intro: init_inv step_inv)

lemma reachable_step_inv: "init s \<Longrightarrow> step\<^sup>*\<^sup>* s t \<Longrightarrow> step t u \<Longrightarrow> inv t \<and> inv u"
  using reachable_inv step_inv by blast

end

text \<open>
  A codec promises that decoding undoes encoding. Its clients rely on the encoding being
  injective and on what a decoded message tells about the sender's value.
\<close>

locale codec =
  fixes encode :: "'a \<Rightarrow> 'b"
    and decode :: "'b \<Rightarrow> 'e + 'a"
    and valid :: "'a \<Rightarrow> bool"
  assumes decode_encode: "valid x \<Longrightarrow> decode (encode x) = Inr x"
begin

lemma encode_inject: "valid x \<Longrightarrow> valid y \<Longrightarrow> encode x = encode y \<Longrightarrow> x = y"
  using decode_encode by (metis Inr_inject)

lemma decode_determines: "valid x \<Longrightarrow> decode (encode x) = Inr y \<Longrightarrow> y = x"
  using decode_encode by (metis Inr_inject)

end

text \<open>
  A data refinement promises that every concrete operation is matched by the abstract one under
  an abstraction function. The invariant is indexed by how many more operations it is good for,
  so that an implementation with a bounded resource (a counter that may wrap) still has one.
  Clients rely on whole runs: the answers are those of the abstract object.
\<close>

fun run_ops :: "('o \<Rightarrow> 's \<Rightarrow> 'r \<times> 's) \<Rightarrow> 'o list \<Rightarrow> 's \<Rightarrow> 'r list \<times> 's" where
  "run_ops f [] s = ([], s)"
| "run_ops f (x # xs) s = (let (r, s') = f x s; (rs, s'') = run_ops f xs s' in (r # rs, s''))"

locale data_refinement =
  fixes cstep :: "'o \<Rightarrow> 's \<Rightarrow> 'r \<times> 's"
    and astep :: "'o \<Rightarrow> 'a \<Rightarrow> 'r \<times> 'a"
    and absf :: "'s \<Rightarrow> 'a"
    and inv :: "nat \<Rightarrow> 's \<Rightarrow> bool"
  assumes step_refines: "inv (Suc n) s \<Longrightarrow> cstep x s = (r, s') \<Longrightarrow> inv n s' \<and> astep x (absf s) = (r, absf s')"
    and inv_zero: "inv n s \<Longrightarrow> inv 0 s"
begin

lemma run_refines:
  "inv n s \<Longrightarrow> length xs \<le> n \<Longrightarrow> run_ops cstep xs s = (rs, s') \<Longrightarrow>
   inv 0 s' \<and> run_ops astep xs (absf s) = (rs, absf s')"
proof (induction xs arbitrary: n s rs s')
  case Nil
  then show ?case using inv_zero by auto
next
  case (Cons x xs)
  obtain m where n: "n = Suc m" using Cons.prems(2) by (cases n) auto
  obtain r s1 where 1: "cstep x s = (r, s1)" by fastforce
  obtain rs1 s2 where 2: "run_ops cstep xs s1 = (rs1, s2)" by fastforce
  have "inv m s1" "astep x (absf s) = (r, absf s1)" using step_refines Cons.prems(1) 1 n by blast+
  with Cons.IH [OF _ _ 2, of m] Cons.prems(2,3) 1 2 n show ?case by auto
qed

end

end
