(* ===== verification/Base64.thy ===== *)
theory Base64
  imports Prelude "HOL-Library.Word"
begin

unbundle bit_operations_syntax

text \<open>
  The base64 codec of the server (\<^verbatim>\<open>app/server/base64.cpp\<close>), used for audio in JSON bodies.
  A \<^verbatim>\<open>uint8_t\<close> is an \<^typ>\<open>8 word\<close>, the 24-bit group and the decoder's bit buffer are
  \<^typ>\<open>32 word\<close> values with wrapping shifts, as in the source. The three thrown
  messages (and the data-URI one) are the constructors of \<open>base64_error\<close>.
\<close>

datatype base64_error =
  Malformed_Data_Uri | Excess_Padding | Data_After_Padding | Invalid_Character | Truncated_Quartet

subsection \<open>The codec\<close>

definition kAlphabet :: string where
  "kAlphabet = ''ABCDEFGHIJKLMNOPQRSTUVWXYZabcdefghijklmnopqrstuvwxyz0123456789+/''"

definition decode_char :: "char \<Rightarrow> int" where
  "decode_char c =
     (let b = int (byte_of c) in
      if is_upper c then b - 65
      else if is_lower c then b - 97 + 26
      else if is_digit c then b - 48 + 52
      else if c = CHR ''+'' then 62
      else if c = CHR ''/'' then 63
      else -1)"

definition alphabet_at :: "32 word \<Rightarrow> char" where
  "alphabet_at w = kAlphabet ! unat (w AND 0x3f)"

text \<open>One pass of the encoder's loop: \<open>xs\<close> are the bytes after \<open>data[i]\<close>.\<close>

definition group24 :: "32 word \<Rightarrow> 32 word \<Rightarrow> 32 word \<Rightarrow> 32 word" where
  "group24 b0 b1 b2 = push_bit 16 b0 OR push_bit 8 b1 OR b2"

definition encode_group :: "8 word \<Rightarrow> 8 word list \<Rightarrow> string" where
  "encode_group x xs =
     (let b0 = (ucast x :: 32 word);
          b1 = (if 1 \<le> length xs then ucast (xs ! 0) else 0);
          b2 = (if 2 \<le> length xs then ucast (xs ! 1) else 0);
          chunk = group24 b0 b1 b2
      in [alphabet_at (drop_bit 18 chunk), alphabet_at (drop_bit 12 chunk),
          if 1 \<le> length xs then alphabet_at (drop_bit 6 chunk) else CHR ''='',
          if 2 \<le> length xs then alphabet_at chunk else CHR ''=''])"

fun base64_encode :: "8 word list \<Rightarrow> string" where
  "base64_encode [] = []"
| "base64_encode (x # xs) = encode_group x xs @ base64_encode (drop 2 xs)"

record decoder =
  buffer :: "32 word"
  bits :: nat
  padding :: nat
  out_bytes :: "8 word list"

definition init_decoder :: decoder where
  "init_decoder = \<lparr>buffer = 0, bits = 0, padding = 0, out_bytes = []\<rparr>"

definition shift_in :: "32 word \<Rightarrow> 32 word \<Rightarrow> 32 word" where
  "shift_in buf value = push_bit 6 buf OR value"

definition top_byte :: "nat \<Rightarrow> 32 word \<Rightarrow> 8 word" where
  "top_byte n buf = ucast (drop_bit n buf AND 0xff)"

text \<open>One pass of the decoder's loop. A skipped byte leaves the state alone.\<close>

definition decode_step :: "char \<Rightarrow> decoder \<Rightarrow> base64_error + decoder" where
  "decode_step c d =
     (if c = CHR '' '' \<or> c = CHR 0x09 \<or> c = CHR 0x0D \<or> c = CHR 0x0A then Inr d
      else if c = CHR ''='' then
        (if padding d + 1 > 2 then Inl Excess_Padding
         else Inr (d\<lparr>padding := padding d + 1\<rparr>))
      else if padding d > 0 then Inl Data_After_Padding
      else if decode_char c < 0 then Inl Invalid_Character
      else
        (let buf = shift_in (buffer d) (word_of_int (decode_char c));
             n = bits d + 6
         in if n \<ge> 8
            then Inr (d\<lparr>buffer := buf, bits := n - 8,
                        out_bytes := out_bytes d @ [top_byte (n - 8) buf]\<rparr>)
            else Inr (d\<lparr>buffer := buf, bits := n\<rparr>)))"

fun decode_loop :: "string \<Rightarrow> decoder \<Rightarrow> base64_error + decoder" where
  "decode_loop [] d = Inr d"
| "decode_loop (c # cs) d =
     (case decode_step c d of Inl e \<Rightarrow> Inl e | Inr d' \<Rightarrow> decode_loop cs d')"

definition strip_data_uri :: "string \<Rightarrow> base64_error + string" where
  "strip_data_uri input =
     (if starts_with ''data:'' input then
        (case find_idx (\<lambda>c. c = CHR '','') input of
           None \<Rightarrow> Inl Malformed_Data_Uri
         | Some comma \<Rightarrow>
             if find_sub '';base64'' input = None then Inl Malformed_Data_Uri
             else Inr (drop (comma + 1) input))
      else Inr input)"

definition base64_decode :: "string \<Rightarrow> base64_error + 8 word list" where
  "base64_decode input =
     (case strip_data_uri input of
        Inl e \<Rightarrow> Inl e
      | Inr payload \<Rightarrow>
          (case decode_loop payload init_decoder of
             Inl e \<Rightarrow> Inl e
           | Inr d \<Rightarrow> if bits d \<ge> 6 then Inl Truncated_Quartet else Inr (out_bytes d)))"

subsection \<open>The alphabet\<close>

lemma decode_kAlphabet: "map decode_char kAlphabet = map int [0..<64]"
  by (simp add: kAlphabet_def decode_char_def ctype_defs upt_rec_numeral upt_conv_Cons)

lemma length_kAlphabet: "length kAlphabet = 64"
  by (simp add: kAlphabet_def)

lemma decode_alphabet: "i < 64 \<Longrightarrow> decode_char (kAlphabet ! i) = int i"
  using arg_cong [where f = "\<lambda>xs. xs ! i", OF decode_kAlphabet] by (simp add: length_kAlphabet)

lemma alphabet_no_special:
  "i < 64 \<Longrightarrow> kAlphabet ! i \<notin> {CHR '' '', CHR 0x09, CHR 0x0D, CHR 0x0A, CHR ''='', CHR '':'', CHR '',''}"
proof -
  assume "i < 64"
  moreover have "\<forall>c\<in>set kAlphabet. c \<notin> {CHR '' '', CHR 0x09, CHR 0x0D, CHR 0x0A, CHR ''='', CHR '':'', CHR '',''}"
    by (simp add: kAlphabet_def)
  ultimately show ?thesis using length_kAlphabet by (metis nth_mem)
qed

lemma sextet_less: "unat ((w :: 32 word) AND 0x3f) < 64"
proof -
  have "unat (w AND 0x3f) \<le> unat (0x3f :: 32 word)"
    by (rule word_and_le1 [THEN word_le_nat_alt [THEN iffD1]])
  then show ?thesis by simp
qed

lemma decode_alphabet_at: "decode_char (alphabet_at w) = int (unat (w AND 0x3f))"
  by (simp add: alphabet_at_def decode_alphabet sextet_less)

lemma alphabet_at_no_special:
  "alphabet_at w \<notin> {CHR '' '', CHR 0x09, CHR 0x0D, CHR 0x0A, CHR ''='', CHR '':'', CHR '',''}"
  unfolding alphabet_at_def by (rule alphabet_no_special) (rule sextet_less)

text \<open>Reading an alphabet character while no padding has been seen.\<close>

lemma decode_step_alphabet:
  assumes "padding d = 0"
  shows "decode_step (alphabet_at w) d =
    (let buf = shift_in (buffer d) (w AND 0x3f) in
     if bits d + 6 \<ge> 8
     then Inr (d\<lparr>buffer := buf, bits := bits d + 6 - 8,
                 out_bytes := out_bytes d @ [top_byte (bits d + 6 - 8) buf]\<rparr>)
     else Inr (d\<lparr>buffer := buf, bits := bits d + 6\<rparr>))"
proof -
  have "(word_of_int (decode_char (alphabet_at w)) :: 32 word) = w AND 0x3f"
    by (simp add: decode_alphabet_at)
  then show ?thesis
    using assms alphabet_at_no_special [of w] decode_alphabet_at [of w]
    by (simp add: decode_step_def Let_def)
qed

subsection \<open>Bits of a group\<close>

lemma byte_eqI:
  fixes x y :: "8 word"
  assumes "bit x 0 = bit y 0" "bit x 1 = bit y 1" "bit x 2 = bit y 2" "bit x 3 = bit y 3"
    "bit x 4 = bit y 4" "bit x 5 = bit y 5" "bit x 6 = bit y 6" "bit x 7 = bit y 7"
  shows "x = y"
proof (rule bit_word_eqI)
  fix n assume "n < LENGTH(8)"
  then have "n \<in> {0, 1, 2, 3, 4, 5, 6, 7}" by auto
  with assms show "bit x n = bit y n" by auto
qed

lemma bit_byte_high: "8 \<le> n \<Longrightarrow> \<not> bit (x :: 8 word) n"
  using bit_imp_le_length [of x n] by auto

lemmas group_bits = bit_simps bit_byte_high group24_def shift_in_def top_byte_def

text \<open>The byte read after the second, third and fourth character of a group.\<close>

lemma group_byte0:
  "top_byte 4 (shift_in (shift_in B (drop_bit 18 (group24 (ucast x) c1 c2) AND 0x3f))
     (drop_bit 12 (group24 (ucast x) c1 c2) AND 0x3f)) = x"
  if "c1 = 0 \<or> c1 = ucast (y :: 8 word)" "c2 = 0 \<or> c2 = ucast (z :: 8 word)" for x :: "8 word"
  using that by (intro byte_eqI) (auto simp: group_bits)

lemma group_byte1:
  "top_byte 2 (shift_in (shift_in B (drop_bit 12 (group24 (ucast x) (ucast y) c2) AND 0x3f))
     (drop_bit 6 (group24 (ucast x) (ucast y) c2) AND 0x3f)) = y"
  if "c2 = 0 \<or> c2 = ucast (z :: 8 word)" for x y :: "8 word"
  using that by (intro byte_eqI) (auto simp: group_bits)

lemma group_byte2:
  "top_byte 0 (shift_in (shift_in B (drop_bit 6 (group24 (ucast x) (ucast y) (ucast z)) AND 0x3f))
     (group24 (ucast x) (ucast y) (ucast z) AND 0x3f)) = z"
  for x y z :: "8 word"
  by (rule byte_eqI) (simp_all add: group_bits)

text \<open>
  Decoding one encoded group from a byte boundary. The old contents of the bit buffer do
  not matter; a final group leaves the decoder with fewer than six stray bits.
\<close>

lemma decode_pad: "padding d < 2 \<Longrightarrow> decode_step CHR ''='' d = Inr (d\<lparr>padding := padding d + 1\<rparr>)"
  by (simp add: decode_step_def)

lemma decode_group3:
  assumes "padding d = 0" "bits d = 0"
  shows "\<exists>buf. decode_loop (encode_group x (y # z # zs) @ rest) d =
    decode_loop rest (d\<lparr>buffer := buf, bits := 0, out_bytes := out_bytes d @ [x, y, z]\<rparr>)"
  using assms by (auto simp: encode_group_def Let_def decode_step_alphabet
      group_byte0 [where y = y and z = z] group_byte1 [where z = z] group_byte2)

lemma decode_group2:
  assumes "padding d = 0" "bits d = 0"
  shows "\<exists>d'. decode_loop (encode_group x [y]) d = Inr d' \<and> bits d' < 6 \<and> out_bytes d' = out_bytes d @ [x, y]"
  using assms by (simp add: encode_group_def Let_def decode_step_alphabet decode_pad
      group_byte0 [where y = y and z = 0] group_byte1 [where z = 0])

lemma decode_group1:
  assumes "padding d = 0" "bits d = 0"
  shows "\<exists>d'. decode_loop (encode_group x []) d = Inr d' \<and> bits d' < 6 \<and> out_bytes d' = out_bytes d @ [x]"
  using assms by (simp add: encode_group_def Let_def decode_step_alphabet decode_pad
      group_byte0 [where y = 0 and z = 0])

text \<open>The whole encoding decodes, byte by byte, from any byte boundary.\<close>

lemma decode_loop_encode:
  "padding d = 0 \<Longrightarrow> bits d = 0 \<Longrightarrow>
   \<exists>d'. decode_loop (base64_encode bs) d = Inr d' \<and> bits d' < 6 \<and> out_bytes d' = out_bytes d @ bs"
proof (induction bs arbitrary: d rule: base64_encode.induct)
  case 1
  then show ?case by simp
next
  case (2 x xs)
  consider "xs = []" | y where "xs = [y]" | y z zs where "xs = y # z # zs"
    by (metis list.exhaust)
  then show ?case
  proof cases
    case 1
    then show ?thesis using decode_group1 [OF "2.prems", of x] by simp
  next
    case 2
    then show ?thesis using decode_group2 [OF "2.prems", of x y] by simp
  next
    case 3
    obtain buf where step: "decode_loop (encode_group x xs @ base64_encode zs) d =
        decode_loop (base64_encode zs) (d\<lparr>buffer := buf, bits := 0, out_bytes := out_bytes d @ [x, y, z]\<rparr>)"
      using decode_group3 [OF "2.prems"] unfolding 3 by blast
    have "drop 2 xs = zs" by (simp add: 3)
    then show ?thesis
      using step "2.IH" [of "d\<lparr>buffer := buf, bits := 0, out_bytes := out_bytes d @ [x, y, z]\<rparr>"] "2.prems"
      by (simp add: 3)
  qed
qed

text \<open>No encoded text looks like a data URI: the alphabet has neither colon nor comma.\<close>

lemma encode_group_plain: "c \<in> set (encode_group x xs) \<Longrightarrow> c \<noteq> CHR '':'' \<and> c \<noteq> CHR '',''"
proof -
  assume "c \<in> set (encode_group x xs)"
  then have "c = CHR ''='' \<or> (\<exists>w. c = alphabet_at w)"
    by (auto simp: encode_group_def Let_def split: if_splits)
  with alphabet_at_no_special show ?thesis by auto
qed

lemma encode_plain: "c \<in> set (base64_encode bs) \<Longrightarrow> c \<noteq> CHR '':'' \<and> c \<noteq> CHR '',''"
  by (induction bs rule: base64_encode.induct) (auto dest: encode_group_plain)

lemma strip_data_uri_encode: "strip_data_uri (base64_encode bs) = Inr (base64_encode bs)"
proof -
  have "\<not> starts_with ''data:'' (base64_encode bs)"
  proof
    assume "starts_with ''data:'' (base64_encode bs)"
    then have "CHR '':'' \<in> set (base64_encode bs)" by (auto simp: starts_with_iff)
    then show False using encode_plain by blast
  qed
  then show ?thesis by (simp add: strip_data_uri_def)
qed

lemma strip_data_uri_header:
  assumes "CHR '','' \<notin> set h"
  shows "strip_data_uri (''data:'' @ h @ '';base64,'' @ s) = Inr s"
proof -
  have occ: "find_sub '';base64'' (''data:'' @ h @ '';base64,'' @ s) \<noteq> None"
  proof -
    have "''data:'' @ h @ '';base64,'' @ s = (''data:'' @ h) @ '';base64'' @ ('','' @ s)" by simp
    then show ?thesis by (metis find_sub_not_occurs)
  qed
  have "find_idx (\<lambda>c. c = CHR '','') ((''data:'' @ h @ '';base64'') @ CHR '','' # s) =
      Some (length (''data:'' @ h @ '';base64''))"
    using assms by (intro find_idx_append) auto
  then have "find_idx (\<lambda>c. c = CHR '','') (''data:'' @ h @ '';base64,'' @ s) = Some (12 + length h)"
    by (simp add: numeral_eq_Suc)
  moreover have "drop (12 + length h + 1) (''data:'' @ h @ '';base64,'' @ s) = s"
    by (simp add: numeral_eq_Suc)
  moreover have "starts_with ''data:'' (''data:'' @ h @ '';base64,'' @ s)"
    by (rule starts_with_append)
  ultimately show ?thesis using occ by (simp only: strip_data_uri_def if_True option.case if_False)
qed

lemma base64_decode_encode: "base64_decode (base64_encode bs) = Inr bs"
  using decode_loop_encode [of init_decoder bs]
  by (auto simp: base64_decode_def strip_data_uri_encode init_decoder_def)

interpretation b64: codec base64_encode base64_decode "\<lambda>_. True"
  by unfold_locales (rule base64_decode_encode)

subsection \<open>Properties\<close>

text \<open>
  C1. Round trip: decoding what the encoder wrote gives back the bytes, for every byte
  sequence (all three group shapes, padding included), so no two byte sequences share an
  encoding.
\<close>

theorem base64_roundtrip:
  "base64_decode (base64_encode bs) = Inr bs \<and> inj base64_encode"
  using b64.decode_encode b64.encode_inject by (auto intro: injI)

text \<open>
  A data URI whose media type has no comma decodes to the bytes its payload encodes:
  the header is cut at the first comma and nothing of the payload is lost.
\<close>

lemma base64_data_uri_roundtrip:
  "CHR '','' \<notin> set h \<Longrightarrow> base64_decode (''data:'' @ h @ '';base64,'' @ base64_encode bs) = Inr bs"
  using decode_loop_encode [of init_decoder bs] strip_data_uri_header [of h]
  by (auto simp: base64_decode_def init_decoder_def)

end
