(* ===== verification/Segmenter.thy ===== *)
theory Segmenter
  imports Prelude
begin

text \<open>
  The sentence segmenter between the LLM token stream and the synthesiser
  (\<^verbatim>\<open>app/server/segmenter.cpp\<close>): \<open>SentenceSegmenter\<close> with its options and its two
  fields, the boundary predicates, and the two free functions that judge and clean the
  text handed to the TTS. \<open>take_ready\<close> loops \<^verbatim>\<open>while (true)\<close>, so it is a
  \<^theory_text>\<open>partial_function (option)\<close>: \<^const>\<open>None\<close> is a loop that does not return.
\<close>

record seg_options =
  first_segment_min_chars :: nat
  first_segment_word_cut_chars :: nat
  max_segment_chars :: nat

definition default_seg_options :: seg_options where
  "default_seg_options =
     \<lparr>first_segment_min_chars = 28, first_segment_word_cut_chars = 40, max_segment_chars = 300\<rparr>"

record segmenter =
  seg_options :: seg_options
  pending :: string
  first_segment_emitted :: bool

definition new_segmenter :: "seg_options \<Rightarrow> segmenter" where
  "new_segmenter opts = \<lparr>seg_options = opts, pending = [], first_segment_emitted = False\<rparr>"

subsection \<open>Boundaries\<close>

definition is_ender :: "char \<Rightarrow> bool" where
  "is_ender c \<longleftrightarrow> c = CHR ''.'' \<or> c = CHR ''!'' \<or> c = CHR ''?''"

definition is_closer :: "char \<Rightarrow> bool" where
  "is_closer c \<longleftrightarrow> is_space_byte c \<or> c = CHR 0x22 \<or> c = CHR 0x27 \<or> c = CHR '')'' \<or> c = CHR ''*''"

definition cjk_enders :: "string list" where
  "cjk_enders = [[CHR 0xE3, CHR 0x80, CHR 0x82], [CHR 0xEF, CHR 0xBC, CHR 0x81],
     [CHR 0xEF, CHR 0xBC, CHR 0x9F], [CHR 0xEF, CHR 0xBC, CHR 0x9B], [CHR 0xE2, CHR 0x80, CHR 0xA6]]"

definition sentence_end_length :: "string \<Rightarrow> nat \<Rightarrow> nat" where
  "sentence_end_length text index =
     (case drop index text of
        [] \<Rightarrow> 0
      | ch # rest \<Rightarrow>
          if is_ender ch then
            (let run = length (takeWhile is_ender rest) in
             case drop run rest of
               [] \<Rightarrow> 0
             | after # _ \<Rightarrow> if is_closer after then run + 1 else 0)
          else if ch = CHR 0x0A then 1
          else if list_ex (\<lambda>e. starts_with e (ch # rest)) cjk_enders then 3
          else 0)"

definition is_ascii_clause :: "char \<Rightarrow> bool" where
  "is_ascii_clause c \<longleftrightarrow> c = CHR '','' \<or> c = CHR '';'' \<or> c = CHR '':''"

definition cjk_breaks :: "string list" where
  "cjk_breaks = [[CHR 0xE3, CHR 0x80, CHR 0x81], [CHR 0xEF, CHR 0xBC, CHR 0x8C]]"

definition is_clause_break :: "string \<Rightarrow> nat \<Rightarrow> bool" where
  "is_clause_break text index =
     (case drop index text of
        [] \<Rightarrow> False
      | ch # rest \<Rightarrow>
          if is_ascii_clause ch then (case rest of [] \<Rightarrow> True | nxt # _ \<Rightarrow> is_space_byte nxt)
          else list_ex (\<lambda>b. starts_with b (ch # rest)) cjk_breaks)"

definition trimmed :: "string \<Rightarrow> string" where
  "trimmed text = rev (dropWhile is_space_byte (rev (dropWhile is_space_byte text)))"

subsection \<open>Cutting\<close>

definition kMinClauseChars :: nat where
  "kMinClauseChars = 14"

definition sentence_cut :: "string \<Rightarrow> nat option" where
  "sentence_cut text =
     map_option (\<lambda>i. i + sentence_end_length text i)
       (List.find (\<lambda>i. sentence_end_length text i > 0) [0..<length text])"

definition clause_cut :: "string \<Rightarrow> nat option" where
  "clause_cut text =
     map_option (\<lambda>i. i + (if is_ascii_clause (text ! i) then 1 else 3))
       (List.find (is_clause_break text) (rev [kMinClauseChars..<length text]))"

definition word_cut :: "string \<Rightarrow> nat option" where
  "word_cut text =
     (case rfind_idx (\<lambda>c. c = CHR '' '') text of
        Some space \<Rightarrow> if space \<ge> kMinClauseChars then Some space else None
      | None \<Rightarrow> None)"

definition forced_cut :: "nat \<Rightarrow> string \<Rightarrow> nat" where
  "forced_cut limit text =
     (case rfind_idx (\<lambda>c. c = CHR '' '') (take (Suc limit) text) of
        Some space \<Rightarrow> if space > 0 then space else limit
      | None \<Rightarrow> limit)"

text \<open>The four rules of one pass of \<open>take_ready\<close>, each tried while \<open>cut\<close> is still npos.\<close>

definition or_else :: "'a option \<Rightarrow> bool \<Rightarrow> 'a option \<Rightarrow> 'a option" where
  "or_else found guard alt = (if found = None \<and> guard then alt else found)"

definition find_cut :: "seg_options \<Rightarrow> bool \<Rightarrow> string \<Rightarrow> nat option" where
  "find_cut opts first text =
     (let cut1 = sentence_cut text;
          cut2 = or_else cut1 (\<not> first \<and> length text \<ge> first_segment_min_chars opts) (clause_cut text);
          cut3 = or_else cut2 (\<not> first \<and> length text \<ge> first_segment_word_cut_chars opts) (word_cut text)
      in or_else cut3 (length text \<ge> max_segment_chars opts)
           (Some (forced_cut (max_segment_chars opts) text)))"

partial_function (option) take_ready_loop ::
  "seg_options \<Rightarrow> bool \<Rightarrow> string \<Rightarrow> string list \<Rightarrow> (string list \<times> bool \<times> string) option" where
  "take_ready_loop opts first text ready =
     (case find_cut opts first text of
        None \<Rightarrow> Some (ready, first, text)
      | Some n \<Rightarrow>
          if trimmed (take n text) = [] then take_ready_loop opts first (drop n text) ready
          else take_ready_loop opts True (drop n text) (ready @ [trimmed (take n text)]))"

declare take_ready_loop.simps [code]

definition take_ready :: "segmenter \<Rightarrow> (string list \<times> segmenter) option" where
  "take_ready s =
     map_option (\<lambda>(ready, first, text). (ready, s\<lparr>pending := text, first_segment_emitted := first\<rparr>))
       (take_ready_loop (seg_options s) (first_segment_emitted s) (pending s) [])"

definition seg_feed :: "string \<Rightarrow> segmenter \<Rightarrow> (string list \<times> segmenter) option" where
  "seg_feed delta s = take_ready (s\<lparr>pending := pending s @ delta\<rparr>)"

definition seg_flush :: "segmenter \<Rightarrow> string \<times> segmenter" where
  "seg_flush s = (trimmed (pending s), s\<lparr>pending := []\<rparr>)"

text \<open>A whole token stream: every delta is fed, then the rest is flushed.\<close>

fun feed_all :: "string list \<Rightarrow> segmenter \<Rightarrow> (string list \<times> segmenter) option" where
  "feed_all [] s = Some ([], s)"
| "feed_all (d # ds) s =
     (case seg_feed d s of
        None \<Rightarrow> None
      | Some (r, s') \<Rightarrow> map_option (\<lambda>(rs, s''). (r @ rs, s'')) (feed_all ds s'))"

definition segment_stream :: "seg_options \<Rightarrow> string list \<Rightarrow> string list option" where
  "segment_stream opts ds =
     map_option (\<lambda>(rs, s). rs @ (if fst (seg_flush s) = [] then [] else [fst (seg_flush s)]))
       (feed_all ds (new_segmenter opts))"

subsection \<open>Sentence-final text and speech markup\<close>

definition terminal_enders :: "string list" where
  "terminal_enders = [[CHR 0xE3, CHR 0x80, CHR 0x82], [CHR 0xEF, CHR 0xBC, CHR 0x81],
     [CHR 0xEF, CHR 0xBC, CHR 0x9F], [CHR 0xE2, CHR 0x80, CHR 0xA6]]"

definition ends_with_sentence_terminal :: "string \<Rightarrow> bool" where
  "ends_with_sentence_terminal text =
     (case dropWhile is_closer (rev text) of
        [] \<Rightarrow> False
      | ch # before \<Rightarrow>
          is_ender ch \<or> list_ex (\<lambda>e. starts_with (rev e) (ch # before)) terminal_enders)"

definition is_markup_char :: "char \<Rightarrow> bool" where
  "is_markup_char c \<longleftrightarrow> c = CHR ''*'' \<or> c = CHR ''#'' \<or> c = CHR 0x60"

text \<open>
  The main loop of \<open>strip_speech_markup\<close>: the remaining text, \<open>in_action\<close> and \<open>out\<close>. An
  \<^verbatim>\<open>index += k; continue\<close> skips \<open>k\<close> bytes after the current one.
\<close>

fun strip_loop :: "string \<Rightarrow> bool \<Rightarrow> string \<Rightarrow> string \<times> bool" where
  "strip_loop [] act out = (out, act)"
| "strip_loop (ch # rest) act out =
     (if ch = CHR ''*'' then strip_loop rest (\<not> act) out
      else if act then strip_loop rest act out
      else if ch = CHR ''#'' \<or> ch = CHR 0x60 then strip_loop rest act out
      else if byte_of ch \<ge> 0xF0 then strip_loop (drop 3 rest) act out
      else if byte_of ch = 0xE2 \<and> length rest \<ge> 2 \<and>
              0x98 \<le> byte_of (rest ! 0) \<and> byte_of (rest ! 0) \<le> 0x9E
        then strip_loop (drop 2 rest) act out
      else if byte_of ch = 0xEF \<and> length rest \<ge> 2 \<and> byte_of (rest ! 0) = 0xB8
        then strip_loop (drop 2 rest) act out
      else strip_loop rest act (out @ [ch]))"

definition strip_speech_markup :: "string \<Rightarrow> string" where
  "strip_speech_markup text =
     (let (out, act) = strip_loop text False [];
          plain = filter (\<lambda>c. \<not> is_markup_char c) text
      in trimmed (if act \<and> length out * 2 < length plain then plain else out))"

subsection \<open>Trimming\<close>

definition is_trimmed :: "string \<Rightarrow> bool" where
  "is_trimmed s \<longleftrightarrow> s \<noteq> [] \<and> \<not> is_space_byte (hd s) \<and> \<not> is_space_byte (last s)"

lemma spoken_trimmed [simp]: "spoken (trimmed s) = spoken s"
  by (simp add: spoken_def trimmed_def filter_dropWhile_not flip: rev_filter)

lemma spoken_concat_snoc [simp]: "spoken (concat (xs @ [s])) = spoken (concat xs) @ spoken s"
  by simp

lemma hd_dropWhile_rev:
  "rev (dropWhile P (rev s)) \<noteq> [] \<Longrightarrow> hd (rev (dropWhile P (rev s))) = hd s"
  by (metis hd_append takeWhile_dropWhile_id rev_append rev_rev_ident)

lemma trimmed_is_trimmed: "trimmed s \<noteq> [] \<Longrightarrow> is_trimmed (trimmed s)"
proof -
  assume ne: "trimmed s \<noteq> []"
  let ?d = "dropWhile is_space_byte s"
  have "hd (trimmed s) = hd ?d"
    using ne unfolding trimmed_def by (rule hd_dropWhile_rev)
  moreover have "?d \<noteq> []"
    using ne unfolding trimmed_def by (metis dropWhile.simps(1) rev.simps(1))
  then have "\<not> is_space_byte (hd ?d)" by (rule hd_dropWhile)
  moreover have "last (trimmed s) = hd (dropWhile is_space_byte (rev ?d))"
    by (simp add: trimmed_def last_rev)
  moreover have "\<not> is_space_byte (hd (dropWhile is_space_byte (rev ?d)))"
    by (rule hd_dropWhile) (use ne in \<open>simp add: trimmed_def\<close>)
  ultimately show ?thesis using ne by (simp add: is_trimmed_def)
qed

lemma spoken_trimmed_empty: "trimmed s = [] \<Longrightarrow> spoken s = []"
  by (metis spoken_trimmed spoken_def filter.simps(1))

subsection \<open>Cuts are inside the text\<close>

lemma sentence_end_length_bound: "i < length tx \<Longrightarrow> i + sentence_end_length tx i \<le> length tx"
proof -
  assume "i < length tx"
  then obtain ch rest where d: "drop i tx = ch # rest" and len: "length tx = i + Suc (length rest)"
    by (metis Cons_nth_drop_Suc add_diff_inverse_nat length_Cons length_drop not_less_iff_gr_or_eq)
  have "sentence_end_length tx i \<le> Suc (length rest)"
    using length_takeWhile_le [of is_ender rest]
    by (auto simp: sentence_end_length_def d Let_def cjk_enders_def split: list.splits dest: starts_with_length)
  with len show ?thesis by simp
qed

lemma find_Some_in: "List.find P xs = Some x \<Longrightarrow> x \<in> set xs \<and> P x"
  by (auto simp: find_Some_iff)

lemma sentence_cut_bound: "sentence_cut tx = Some n \<Longrightarrow> 0 < n \<and> n \<le> length tx"
  using sentence_end_length_bound by (fastforce simp: sentence_cut_def dest: find_Some_in)

lemma clause_break_bound:
  "is_clause_break tx i \<Longrightarrow> i + (if is_ascii_clause (tx ! i) then 1 else 3) \<le> length tx"
proof -
  assume b: "is_clause_break tx i"
  then have "drop i tx \<noteq> []" by (auto simp: is_clause_break_def)
  then have i: "i < length tx" by simp
  then have d: "drop i tx = tx ! i # drop (Suc i) tx" by (simp add: Cons_nth_drop_Suc)
  show ?thesis
  proof (cases "is_ascii_clause (tx ! i)")
    case False
    with b d have "3 \<le> length (drop i tx)"
      by (auto simp: is_clause_break_def cjk_breaks_def dest: starts_with_length)
    with False show ?thesis by simp
  qed (use i in simp)
qed

lemma clause_cut_bound: "clause_cut tx = Some n \<Longrightarrow> 0 < n \<and> n \<le> length tx"
proof -
  assume "clause_cut tx = Some n"
  then obtain i where "is_clause_break tx i" and "n = i + (if is_ascii_clause (tx ! i) then 1 else 3)"
    by (auto simp: clause_cut_def dest: find_Some_in)
  with clause_break_bound [of tx i] show ?thesis by auto
qed

lemma word_cut_bound: "word_cut tx = Some n \<Longrightarrow> 0 < n \<and> n \<le> length tx"
  by (auto simp: word_cut_def kMinClauseChars_def split: option.splits if_splits dest: rfind_idx_Some)

lemma forced_cut_bound:
  "0 < limit \<Longrightarrow> limit \<le> length tx \<Longrightarrow> 0 < forced_cut limit tx \<and> forced_cut limit tx \<le> length tx"
  by (auto simp: forced_cut_def split: option.splits if_splits dest: rfind_idx_Some)

lemma find_cut_bound:
  assumes "find_cut opts first tx = Some n" "0 < max_segment_chars opts"
  shows "0 < n \<and> n \<le> length tx"
  using assms sentence_cut_bound clause_cut_bound word_cut_bound forced_cut_bound
  by (auto simp: find_cut_def or_else_def Let_def split: if_splits)

lemma find_cut_None_short: "find_cut opts first tx = None \<Longrightarrow> length tx < max_segment_chars opts"
  by (auto simp: find_cut_def or_else_def Let_def split: if_splits)

subsection \<open>The loop\<close>

text \<open>
  With a positive size limit the loop returns, and its result accounts for every
  non-blank byte of the input, in order.
\<close>

lemma take_ready_loop_result:
  assumes "0 < max_segment_chars opts"
  shows "\<exists>segs first' tx'. take_ready_loop opts first tx ready = Some (ready @ segs, first', tx') \<and>
    (\<forall>x\<in>set segs. is_trimmed x) \<and> find_cut opts first' tx' = None \<and>
    spoken (concat segs @ tx') = spoken tx \<and> (first' \<longleftrightarrow> first \<or> segs \<noteq> [])"
proof (induction "length tx" arbitrary: tx first ready rule: less_induct)
  case less
  show ?case
  proof (cases "find_cut opts first tx")
    case None
    then show ?thesis
      by (intro exI [of _ "[]"] exI [of _ first] exI [of _ tx]) (simp add: take_ready_loop.simps)
  next
    case (Some n)
    let ?t = "trimmed (take n tx)"
    from find_cut_bound [OF Some assms] have shorter: "length (drop n tx) < length tx" by auto
    have split: "spoken tx = spoken ?t @ spoken (drop n tx)"
      by (simp flip: spoken_append)
    show ?thesis
    proof (cases "?t = []")
      case True
      with Some have "take_ready_loop opts first tx ready = take_ready_loop opts first (drop n tx) ready"
        by (simp add: take_ready_loop.simps [of opts first tx])
      with less [OF shorter, of first ready] split True show ?thesis
        by (simp add: spoken_def)
    next
      case False
      with Some have step: "take_ready_loop opts first tx ready =
          take_ready_loop opts True (drop n tx) (ready @ [?t])"
        by (simp add: take_ready_loop.simps [of opts first tx])
      from less [OF shorter, of True "ready @ [?t]"] obtain segs first' tx' where
        "take_ready_loop opts True (drop n tx) (ready @ [?t]) = Some (ready @ [?t] @ segs, first', tx')"
        "\<forall>x\<in>set segs. is_trimmed x" "find_cut opts first' tx' = None" "first'"
        "spoken (concat segs @ tx') = spoken (drop n tx)" by auto
      with step split trimmed_is_trimmed [OF False] show ?thesis
        by (intro exI [of _ "?t # segs"] exI [of _ first'] exI [of _ tx']) simp
    qed
  qed
qed

lemma seg_feed_result:
  assumes "0 < max_segment_chars (seg_options s)"
  shows "\<exists>segs s'. seg_feed delta s = Some (segs, s') \<and> (\<forall>x\<in>set segs. is_trimmed x) \<and>
    seg_options s' = seg_options s \<and> length (pending s') < max_segment_chars (seg_options s) \<and>
    spoken (concat segs @ pending s') = spoken (pending s @ delta)"
  using take_ready_loop_result [OF assms, of "first_segment_emitted s" "pending s @ delta" "[]"]
  by (auto simp: seg_feed_def take_ready_def dest!: find_cut_None_short)

lemma feed_all_result:
  "0 < max_segment_chars (seg_options s) \<Longrightarrow>
   \<exists>segs s'. feed_all ds s = Some (segs, s') \<and> (\<forall>x\<in>set segs. is_trimmed x) \<and>
     spoken (concat segs @ pending s') = spoken (pending s @ concat ds)"
proof (induction ds arbitrary: s)
  case Nil
  then show ?case by simp
next
  case (Cons d ds)
  obtain r s1 where f: "seg_feed d s = Some (r, s1)" "\<forall>x\<in>set r. is_trimmed x"
      "seg_options s1 = seg_options s" "spoken (concat r @ pending s1) = spoken (pending s @ d)"
    using seg_feed_result [OF Cons.prems] by blast
  then obtain rs s2 where "feed_all ds s1 = Some (rs, s2)" "\<forall>x\<in>set rs. is_trimmed x"
      "spoken (concat rs @ pending s2) = spoken (pending s1 @ concat ds)"
    using Cons.IH [of s1] Cons.prems by auto
  moreover from this f(4)
  have "spoken (concat (r @ rs) @ pending s2) = spoken (pending s @ concat (d # ds))"
    by (metis append_assoc concat.simps(2) concat_append spoken_append)
  ultimately show ?case using f by auto
qed

subsection \<open>Speech markup\<close>

lemma strip_loop_clean: "c \<in> set (fst (strip_loop tx act acc)) \<Longrightarrow> c \<in> set acc \<or> \<not> is_markup_char c"
  by (induction tx act acc rule: strip_loop.induct)
     (auto simp: is_markup_char_def split: if_splits)

lemma set_trimmed: "x \<in> set (trimmed s) \<Longrightarrow> x \<in> set s"
  unfolding trimmed_def set_rev by (metis set_dropWhileD set_rev)

subsection \<open>Properties\<close>

text \<open>
  Feeding a token delta returns (the loop ends) whenever the size limit is positive, and
  the text then still held back is shorter than the limit: a boundary-free run-on is
  never buffered for ever.
\<close>

lemma seg_feed_returns:
  "0 < max_segment_chars (seg_options s) \<Longrightarrow>
   \<exists>segs s'. seg_feed delta s = Some (segs, s') \<and>
     length (pending s') < max_segment_chars (seg_options s)"
  using seg_feed_result by blast

text \<open>
  C4. Nothing the model says is lost, repeated or reordered: over a whole token stream, cut
  into deltas in any way, the segments handed to the synthesiser spell exactly the
  non-blank bytes of the reply, and every segment is non-empty and trimmed.
\<close>

theorem segment_stream_complete:
  "0 < max_segment_chars opts \<Longrightarrow>
   \<exists>segs. segment_stream opts ds = Some segs \<and> spoken (concat segs) = spoken (concat ds) \<and>
     list_all is_trimmed segs"
proof -
  assume "0 < max_segment_chars opts"
  then obtain segs s' where "feed_all ds (new_segmenter opts) = Some (segs, s')"
      "\<forall>x\<in>set segs. is_trimmed x" "spoken (concat segs @ pending s') = spoken (concat ds)"
    using feed_all_result [of "new_segmenter opts" ds] by (auto simp: new_segmenter_def)
  then show ?thesis
    by (auto simp: segment_stream_def seg_flush_def list_all_iff
        intro: trimmed_is_trimmed dest: spoken_trimmed_empty)
qed

theorem segment_stream_complete_witness:
  "\<exists>segs. segment_stream default_seg_options [''One. T'', ''wo? '', ''Three''] = Some segs \<and>
     spoken (concat segs) = spoken (concat [''One. T'', ''wo? '', ''Three'']) \<and> list_all is_trimmed segs"
  using segment_stream_complete [of default_seg_options "[''One. T'', ''wo? '', ''Three'']"]
  by (simp add: default_seg_options_def)

text \<open>
  The text given to the synthesiser contains no asterisk, hash or backquote, whether
  or not the asterisks of the reply were balanced.
\<close>

lemma strip_speech_markup_clean:
  "filter is_markup_char (strip_speech_markup tx) = []"
proof -
  have "\<not> is_markup_char c" if "c \<in> set (strip_speech_markup tx)" for c
  proof -
    obtain body act where loop: "strip_loop tx False [] = (body, act)" by fastforce
    then have "c \<in> set body \<or> c \<in> set (filter (\<lambda>c. \<not> is_markup_char c) tx)"
      using that by (auto simp: strip_speech_markup_def Let_def split: if_splits dest: set_trimmed)
    then show ?thesis using strip_loop_clean [of c tx False "[]"] loop by auto
  qed
  then show ?thesis by (simp add: filter_empty_conv)
qed

end
