(* ===== verification/Voice_Stability.thy ===== *)
theory Voice_Stability
  imports Prelude
begin

text \<open>
  Stable-prefix tracking of streaming ASR hypotheses
  (\<^verbatim>\<open>app/server/voice_stability.cpp\<close>, class \<open>StableTracker\<close>). The tracker keeps the last
  \<open>stable_hypothesis_count\<close> tokenised hypotheses and a count of committed tokens;
  \<open>stracker_update\<close> returns whether the committed prefix grew, together with the new state.
\<close>

record stability_params =
  stable_hypothesis_count :: int
  min_stable_chars :: int

definition default_stability :: stability_params where
  "default_stability = \<lparr>stable_hypothesis_count = 2, min_stable_chars = 2\<rparr>"

record stoken =
  normalized :: string
  raw_end :: nat

record stracker =
  st_params :: stability_params
  history :: "stoken list list"
  committed_tokens :: nat
  stable :: string
  tentative :: string
  hypothesis :: string

subsection \<open>Tokens\<close>

definition is_cjk_lead :: "nat \<Rightarrow> bool" where
  "is_cjk_lead b \<longleftrightarrow> 0xE3 \<le> b \<and> b \<le> 0xE9"

text \<open>
  The length announced by a lead byte: the masks \<^verbatim>\<open>0xF8\<close>, \<^verbatim>\<open>0xF0\<close> and \<^verbatim>\<open>0xE0\<close> compare the
  top five, four and three bits.
\<close>

definition lead_length :: "nat \<Rightarrow> nat" where
  "lead_length b = (if b div 8 = 30 then 4 else if b div 16 = 14 then 3 else if b div 32 = 6 then 2 else 1)"

definition flush_token :: "nat \<Rightarrow> string \<Rightarrow> stoken list \<Rightarrow> stoken list" where
  "flush_token end current tokens =
     (if current = [] then tokens else tokens @ [\<lparr>normalized = current, raw_end = end\<rparr>])"

text \<open>
  The tokeniser's loop over the bytes from offset \<open>i\<close> on, with \<open>current\<close> and \<open>tokens\<close>.
  Flushing always leaves \<open>current\<close> empty.
\<close>

fun tokenize_from :: "string \<Rightarrow> nat \<Rightarrow> string \<Rightarrow> stoken list \<Rightarrow> stoken list" where
  "tokenize_from [] i current tokens = flush_token i current tokens"
| "tokenize_from (c # rest) i current tokens =
     (let b = byte_of c in
      if b < 0x80 then
        (if is_space_byte c then tokenize_from rest (i + 1) [] (flush_token i current tokens)
         else
           (let current' = (if is_alnum c \<or> c = CHR 0x27 then current @ [to_lower c] else current) in
            if rest = [] \<or> is_space_byte (hd rest)
            then tokenize_from rest (i + 1) [] (flush_token (i + 1) current' tokens)
            else tokenize_from rest (i + 1) current' tokens))
      else
        (let len = lead_length b;
             chunk = c # take (len - 1) rest;
             rest' = drop (len - 1) rest;
             e = i + length chunk
         in if len = 3 \<and> is_cjk_lead b then
              (let tokens' = flush_token i current tokens in
               if b = 0xE3 \<and> 2 \<le> length chunk \<and> byte_of (chunk ! 1) = 0x80
               then tokenize_from rest' e [] tokens'
               else tokenize_from rest' e [] (tokens' @ [\<lparr>normalized = chunk, raw_end = e\<rparr>]))
            else if len = 3 \<and> b = 0xEF then tokenize_from rest' e [] (flush_token i current tokens)
            else if rest' = []
              then tokenize_from rest' e [] (flush_token e (current @ chunk) tokens)
            else tokenize_from rest' e (current @ chunk) tokens))"

definition stok_tokenize :: "string \<Rightarrow> stoken list" where
  "stok_tokenize text = tokenize_from text 0 [] []"

subsection \<open>The tracker\<close>

definition new_stracker :: "stability_params \<Rightarrow> stracker" where
  "new_stracker p =
     \<lparr>st_params = (if stable_hypothesis_count p < 1 then p\<lparr>stable_hypothesis_count := 1\<rparr> else p),
      history = [], committed_tokens = 0, stable = [], tentative = [], hypothesis = []\<rparr>"

definition stracker_reset :: "stracker \<Rightarrow> stracker" where
  "stracker_reset t =
     t\<lparr>history := [], committed_tokens := 0, stable := [], tentative := [], hypothesis := []\<rparr>"

text \<open>\<^verbatim>\<open>while (history_.size() > n) history_.erase(history_.begin())\<close>\<close>

definition keep_last :: "nat \<Rightarrow> 'a list \<Rightarrow> 'a list" where
  "keep_last n xs = drop (length xs - n) xs"

text \<open>Longest token prefix on which every retained hypothesis agrees with the first.\<close>

function common_from :: "stoken list list \<Rightarrow> nat \<Rightarrow> nat \<Rightarrow> nat" where
  "common_from hs limit common =
     (if common < limit \<and> list_all (\<lambda>h. normalized (h ! common) = normalized (hd hs ! common)) hs
      then common_from hs limit (Suc common) else common)"
  by pat_completeness auto
termination
  by (relation "measure (\<lambda>(hs, limit, common). limit - common)") auto

declare common_from.simps [simp del]

definition agreed_prefix :: "stoken list list \<Rightarrow> nat" where
  "agreed_prefix hs = common_from hs (foldl (\<lambda>m h. min m (length h)) (length (hd hs)) hs) 0"

definition stracker_update :: "string \<Rightarrow> stracker \<Rightarrow> bool \<times> stracker" where
  "stracker_update hyp t =
     (let tokens = stok_tokenize hyp;
          count = to_size_t (stable_hypothesis_count (st_params t));
          hist = keep_last count (history t @ [tokens]);
          agreed = (if length hist = count
                    then max (committed_tokens t) (agreed_prefix hist)
                    else committed_tokens t);
          grew = (agreed > committed_tokens t);
          t1 = t\<lparr>hypothesis := hyp, history := hist, committed_tokens := agreed\<rparr>;
          end = raw_end (tokens ! (agreed - 1))
      in if agreed > 0 \<and> length tokens \<ge> agreed \<and> end \<ge> to_size_t (min_stable_chars (st_params t))
         then (grew, t1\<lparr>stable := take end hyp,
                        tentative := dropWhile (\<lambda>c. c = CHR '' '') (drop (min (length hyp) end) hyp)\<rparr>)
         else (False, if stable t = [] then t1\<lparr>tentative := hyp\<rparr> else t1))"

text \<open>The states a connection can reach: construction, then updates and resets.\<close>

inductive stracker_reach :: "stracker \<Rightarrow> bool" where
  st_new: "stable_hypothesis_count p < 2 ^ 31 \<Longrightarrow> stracker_reach (new_stracker p)"
| st_reset: "stracker_reach t \<Longrightarrow> stracker_reach (stracker_reset t)"
| st_update: "stracker_reach t \<Longrightarrow> stracker_reach (snd (stracker_update hyp t))"

definition st_wf :: "stracker \<Rightarrow> bool" where
  "st_wf t \<longleftrightarrow> 1 \<le> stable_hypothesis_count (st_params t) \<and> stable_hypothesis_count (st_params t) < 2 ^ 31 \<and>
     length (history t) \<le> nat (stable_hypothesis_count (st_params t))"

subsection \<open>Tokens cover the text\<close>

definition tokens_ok :: "nat \<Rightarrow> stoken list \<Rightarrow> bool" where
  "tokens_ok n ts \<longleftrightarrow> sorted (map raw_end ts) \<and> (\<forall>t\<in>set ts. raw_end t \<le> n \<and> normalized t \<noteq> [])"

lemma tokens_ok_mono: "tokens_ok m ts \<Longrightarrow> m \<le> n \<Longrightarrow> tokens_ok n ts"
  by (force simp: tokens_ok_def)

lemma tokens_ok_snoc: "tokens_ok m ts \<Longrightarrow> m \<le> e \<Longrightarrow> w \<noteq> [] \<Longrightarrow> tokens_ok e (ts @ [\<lparr>normalized = w, raw_end = e\<rparr>])"
  by (force simp: tokens_ok_def sorted_append)

lemma tokens_ok_flush: "tokens_ok m ts \<Longrightarrow> m \<le> e \<Longrightarrow> tokens_ok e (flush_token e w ts)"
  by (auto simp: flush_token_def intro: tokens_ok_snoc tokens_ok_mono)

lemma tokens_ok_if:
  "(b \<Longrightarrow> tokens_ok n x) \<Longrightarrow> (\<not> b \<Longrightarrow> tokens_ok n y) \<Longrightarrow> tokens_ok n (if b then x else y)"
  by simp

lemma tokenize_from_ok: "tokens_ok i ts \<Longrightarrow> tokens_ok (i + length s) (tokenize_from s i w ts)"
proof (induction "length s" arbitrary: s i w ts rule: less_induct)
  case less
  show ?case
  proof (cases s)
    case Nil
    with less.prems show ?thesis by (simp add: tokens_ok_flush)
  next
    case (Cons c rest)
    have key: "tokens_ok (i + length (c # rest)) (tokenize_from s' i' w' ts')"
      if "length s' \<le> length rest" "i' + length s' = i + length (c # rest)" "tokens_ok i' ts'" for s' i' w' ts'
      using less.hyps [of s' i' ts' w'] that Cons by (metis le_imp_less_Suc length_Cons)
    have fl: "tokens_ok e (flush_token e' v ts)" if "i \<le> e'" "e' \<le> e" for e e' v
      using tokens_ok_mono [OF tokens_ok_flush [OF less.prems]] that by blast
    have app: "tokens_ok e (flush_token i w ts @ [\<lparr>normalized = c # v, raw_end = e\<rparr>])" if "i \<le> e" for e v
      using fl [of i i w] that by (intro tokens_ok_snoc) auto
    show ?thesis
      unfolding Cons tokenize_from.simps Let_def
      by (intro tokens_ok_if key fl app tokens_ok_mono [OF less.prems]) simp_all
  qed
qed

lemma stok_tokenize_ok: "tokens_ok (length hyp) (stok_tokenize hyp)"
  using tokenize_from_ok [of 0 "[]" hyp "[]"] by (simp add: stok_tokenize_def tokens_ok_def)

lemma stok_raw_end: "k < length (stok_tokenize hyp) \<Longrightarrow> raw_end (stok_tokenize hyp ! k) \<le> length hyp"
  using stok_tokenize_ok [of hyp] by (auto simp: tokens_ok_def)

subsection \<open>Agreement\<close>

lemma common_from_le: "c \<le> limit \<Longrightarrow> common_from hs limit c \<le> limit"
proof (induction hs limit c rule: common_from.induct)
  case (1 hs limit c)
  then show ?case by (subst common_from.simps) auto
qed

lemma common_from_agree:
  "c \<le> k \<Longrightarrow> k < common_from hs limit c \<Longrightarrow> h \<in> set hs \<Longrightarrow> normalized (h ! k) = normalized (hd hs ! k)"
proof (induction hs limit c rule: common_from.induct)
  case (1 hs limit c)
  then show ?case
    by (cases "k = c") (auto simp: common_from.simps [of hs limit c] list_all_iff split: if_splits)
qed

lemma foldl_min_le: "foldl (\<lambda>m h. min m (length h)) m hs \<le> m \<and>
    (\<forall>h\<in>set hs. foldl (\<lambda>m h. min m (length h)) m hs \<le> length h)"
proof (induction hs arbitrary: m)
  case (Cons x hs)
  from Cons [of "min m (length x)"] show ?case by auto
qed simp

lemma agreed_prefix_le: "h \<in> set hs \<Longrightarrow> agreed_prefix hs \<le> length h"
  using common_from_le [of 0 "foldl (\<lambda>m h. min m (length h)) (length (hd hs)) hs" hs]
    foldl_min_le [where m = "length (hd hs)" and hs = hs]
  by (auto simp: agreed_prefix_def intro: order_trans)

lemma agreed_prefix_agree:
  "h \<in> set hs \<Longrightarrow> h' \<in> set hs \<Longrightarrow>
   map normalized (take (agreed_prefix hs) h) = map normalized (take (agreed_prefix hs) h')"
  using agreed_prefix_le [of h hs] agreed_prefix_le [of h' hs]
    common_from_agree [of 0 _ hs "foldl (\<lambda>m h. min m (length h)) (length (hd hs)) hs"]
  by (auto intro!: nth_equalityI simp: agreed_prefix_def)

lemma keep_last_length: "length (keep_last n xs) = min n (length xs)"
  by (simp add: keep_last_def)

lemma keep_last_snoc: "0 < n \<Longrightarrow> keep_last n (xs @ [x]) \<noteq> [] \<and> last (keep_last n (xs @ [x])) = x"
  by (auto simp: keep_last_def)

subsection \<open>The invariant\<close>

lemma st_wf_count: "st_wf t \<Longrightarrow> to_size_t (stable_hypothesis_count (st_params t)) = nat (stable_hypothesis_count (st_params t)) \<and>
    0 < nat (stable_hypothesis_count (st_params t))"
  by (auto simp: st_wf_def)

lemma update_frame [simp]: "st_params (snd (stracker_update hyp t)) = st_params t"
    "history (snd (stracker_update hyp t)) =
       keep_last (to_size_t (stable_hypothesis_count (st_params t))) (history t @ [stok_tokenize hyp])"
  by (simp_all add: stracker_update_def Let_def)

lemma update_committed:
  "committed_tokens (snd (stracker_update hyp t)) =
     (let hs = keep_last (to_size_t (stable_hypothesis_count (st_params t))) (history t @ [stok_tokenize hyp])
      in if length hs = to_size_t (stable_hypothesis_count (st_params t))
         then max (committed_tokens t) (agreed_prefix hs) else committed_tokens t)"
  by (simp add: stracker_update_def Let_def)

lemma stracker_reach_wf: "stracker_reach t \<Longrightarrow> st_wf t"
proof (induction rule: stracker_reach.induct)
  case (st_update t hyp)
  then show ?case using st_wf_count [of t] by (auto simp: st_wf_def keep_last_length)
qed (auto simp: st_wf_def new_stracker_def stracker_reset_def)

lemma update_commits:
  assumes "stracker_update hyp t = (True, t')"
  shows "committed_tokens t < committed_tokens t'"
  using assms unfolding stracker_update_def Let_def by (split if_split_asm) auto

lemma take_min_length: "take n xs = take (min (length xs) n) xs"
  by (simp add: min_def)

lemma update_shape:
  assumes "(if b then (grew, t1\<lparr>stable := take e hyp, tentative := dropWhile P (drop (min (length hyp) e) hyp)\<rparr>)
            else (False, if b' then t1\<lparr>tentative := hyp\<rparr> else t1)) = (g, t')"
    and "stable t1 = st"
  shows "(stable t' = st \<and> \<not> g) \<or>
    (\<exists>n. stable t' = take (min (length hyp) n) hyp \<and> tentative t' = dropWhile P (drop (min (length hyp) n) hyp))"
  using assms take_min_length [of e hyp] by (cases b; cases b') auto

lemma update_split_cases:
  assumes "stracker_update hyp t = (g, t')"
  shows "(stable t' = stable t \<and> \<not> g) \<or>
    (\<exists>n. stable t' = take (min (length hyp) n) hyp \<and> tentative t' = dropWhile (\<lambda>c. c = CHR '' '') (drop (min (length hyp) n) hyp))"
  by (rule update_shape [OF assms [unfolded stracker_update_def Let_def]]) simp

lemma dropWhile_eq_replicate: "\<exists>k. xs = replicate k x @ dropWhile (\<lambda>c. c = x) xs"
proof -
  have "takeWhile (\<lambda>c. c = x) xs = replicate (length (takeWhile (\<lambda>c. c = x) xs)) x"
    by (rule replicate_eqI) (auto dest: set_takeWhileD)
  then show ?thesis by (metis takeWhile_dropWhile_id)
qed

subsection \<open>Properties\<close>

text \<open>
  C6. When an update reports that the stable prefix grew, the growth is real and agreed: more
  tokens are committed than before, exactly the configured number of hypotheses is retained
  (the newest of them last), and all of them carry the same normalised tokens up to the
  commit point.
\<close>

theorem stable_growth_agreed:
  assumes "stracker_reach t" and "stracker_update hyp t = (True, t')"
  shows "committed_tokens t < committed_tokens t' \<and>
    int (length (history t')) = stable_hypothesis_count (st_params t) \<and>
    last (history t') = stok_tokenize hyp \<and>
    list_all (\<lambda>h. map normalized (take (committed_tokens t') h) =
      map normalized (take (committed_tokens t') (stok_tokenize hyp))) (history t')"
proof -
  let ?n = "nat (stable_hypothesis_count (st_params t))"
  let ?hs = "keep_last ?n (history t @ [stok_tokenize hyp])"
  have wf: "st_wf t" using assms(1) by (rule stracker_reach_wf)
  note n = st_wf_count [OF wf]
  have hist: "history t' = ?hs"
    using update_frame(2) [of hyp t] assms(2) n by simp
  have comm: "length ?hs = ?n" "committed_tokens t' = agreed_prefix ?hs"
    using update_committed [of hyp t] update_commits [OF assms(2)] n
    unfolding assms(2) by (auto simp: Let_def max_def split: if_splits)
  have last: "?hs \<noteq> []" "last ?hs = stok_tokenize hyp"
    using keep_last_snoc [of ?n "history t" "stok_tokenize hyp"] n by auto
  then have newest: "stok_tokenize hyp \<in> set ?hs" by (metis last_in_set)
  show ?thesis
    using update_commits [OF assms(2)] comm last wf agreed_prefix_agree [OF _ newest]
    unfolding hist by (auto simp: list_all_iff st_wf_def)
qed

definition lights_tracker :: stracker where
  "lights_tracker = snd (stracker_update ''turn the light'' (new_stracker default_stability))"

text \<open>
  Every update either leaves the previous stable text in place or shows the newest
  hypothesis completely: stable text, then only spaces, then the tentative tail.
\<close>

lemma stable_tentative_partition:
  assumes "stracker_update hyp t = (g, t')"
  shows "(stable t' = stable t \<and> \<not> g) \<or>
    (\<exists>k. hyp = stable t' @ replicate k CHR '' '' @ tentative t')"
proof (cases "stable t' = stable t \<and> \<not> g")
  case False
  then obtain n where "stable t' = take (min (length hyp) n) hyp"
      and "tentative t' = dropWhile (\<lambda>c. c = CHR '' '') (drop (min (length hyp) n) hyp)"
    using update_split_cases [OF assms] by auto
  moreover obtain k where "drop (min (length hyp) n) hyp =
      replicate k CHR '' '' @ dropWhile (\<lambda>c. c = CHR '' '') (drop (min (length hyp) n) hyp)"
    using dropWhile_eq_replicate [of "drop (min (length hyp) n) hyp" "CHR '' ''"] by blast
  ultimately have "hyp = stable t' @ replicate k CHR '' '' @ tentative t'"
    by (metis append_take_drop_id)
  then show ?thesis by blast
qed simp

lemmas tokenize_eval = stok_tokenize_def ctype_defs flush_token_def

lemmas stracker_eval = stracker_update_def Let_def new_stracker_def default_stability_def keep_last_def
  to_size_t_def

lemma lights_tokens:
  "stok_tokenize ''turn the light'' = [\<lparr>normalized = ''turn'', raw_end = 4\<rparr>,
     \<lparr>normalized = ''the'', raw_end = 8\<rparr>, \<lparr>normalized = ''light'', raw_end = 14\<rparr>]"
  "stok_tokenize ''turn the light now'' = [\<lparr>normalized = ''turn'', raw_end = 4\<rparr>,
     \<lparr>normalized = ''the'', raw_end = 8\<rparr>, \<lparr>normalized = ''light'', raw_end = 14\<rparr>,
     \<lparr>normalized = ''now'', raw_end = 18\<rparr>]"
  by (simp_all add: tokenize_eval)

lemma lights_agreed: "agreed_prefix [stok_tokenize ''turn the light'', stok_tokenize ''turn the light now''] = 3"
  by (simp add: agreed_prefix_def common_from.simps lights_tokens)

lemma lights_tracker_eq: "lights_tracker = \<lparr>st_params = default_stability,
    history = [stok_tokenize ''turn the light''], committed_tokens = 0, stable = [],
    tentative = ''turn the light'', hypothesis = ''turn the light''\<rparr>"
  by (simp add: lights_tracker_def stracker_eval)

lemma lights_update:
  "stracker_update ''turn the light now'' lights_tracker =
     (True, snd (stracker_update ''turn the light now'' lights_tracker))"
  using lights_agreed by (simp add: lights_tracker_eq stracker_eval lights_tokens)

lemma lights_reach: "stracker_reach lights_tracker"
  unfolding lights_tracker_def
  by (intro stracker_reach.intros) (simp add: default_stability_def)

theorem stable_growth_agreed_witness:
  "committed_tokens lights_tracker < committed_tokens (snd (stracker_update ''turn the light now'' lights_tracker))"
  using stable_growth_agreed [OF lights_reach lights_update] by blast

text \<open>
  The committed prefix is a promise about the number of tokens only: a later hypothesis that
  is long enough replaces the text of tokens committed earlier.
\<close>

lemma letters_tokens:
  "stok_tokenize ''a b'' = [\<lparr>normalized = ''a'', raw_end = 1\<rparr>, \<lparr>normalized = ''b'', raw_end = 3\<rparr>]"
  "stok_tokenize ''x y z'' = [\<lparr>normalized = ''x'', raw_end = 1\<rparr>, \<lparr>normalized = ''y'', raw_end = 3\<rparr>,
     \<lparr>normalized = ''z'', raw_end = 5\<rparr>]"
  by (simp_all add: tokenize_eval)

lemma letters_agreed:
  "agreed_prefix [stok_tokenize ''a b'', stok_tokenize ''a b''] = 2"
  "agreed_prefix [stok_tokenize ''a b'', stok_tokenize ''x y z''] = 0"
  by (simp_all add: agreed_prefix_def common_from.simps letters_tokens)

lemma letters_first: "snd (stracker_update ''a b'' (new_stracker default_stability)) =
    \<lparr>st_params = default_stability, history = [stok_tokenize ''a b''], committed_tokens = 0,
     stable = [], tentative = ''a b'', hypothesis = ''a b''\<rparr>"
  by (simp add: stracker_eval)

lemma letters_committed:
  "snd (stracker_update ''a b'' (snd (stracker_update ''a b'' (new_stracker default_stability)))) =
     \<lparr>st_params = default_stability, history = [stok_tokenize ''a b'', stok_tokenize ''a b''],
      committed_tokens = 2, stable = ''a b'', tentative = [], hypothesis = ''a b''\<rparr>"
  unfolding letters_first using letters_agreed by (simp add: stracker_eval letters_tokens)

theorem stable_text_rewritten:
  "stable (snd (stracker_update ''a b'' (snd (stracker_update ''a b'' (new_stracker default_stability))))) = ''a b'' \<and>
   stable (snd (stracker_update ''x y z'' (snd (stracker_update ''a b''
     (snd (stracker_update ''a b'' (new_stracker default_stability))))))) = ''x y''"
  unfolding letters_committed using letters_agreed by (simp add: stracker_eval letters_tokens)

end
