(* ===== verification/Busy_Guard.thy ===== *)
theory Busy_Guard
  imports Prelude "HOL-Library.Extended_Nat"
begin

text \<open>
  The per-model busy guard (\<^verbatim>\<open>app/server/busy_guard.h\<close>): the pure helpers, and
  \<open>BusyGuard::acquire\<close> with its RAII \<open>Lock\<close> as an interleaving step relation. Threads are
  numbered; the mutex is an optional owner; \<open>busy_since_ms\<close> is the atomic. Each rule is
  one atomic action of the source (an atomic load or store, a reading of the clock, a lock or unlock), and the
  clock advances between any two of them. The steady clock is positive, as on a machine that
  has been up for a millisecond.
\<close>

subsection \<open>Timeout arithmetic\<close>

definition model_run_has_overrun :: "int \<Rightarrow> int \<Rightarrow> int \<Rightarrow> bool" where
  "model_run_has_overrun busy_since now timeout =
     (if timeout \<le> 0 \<or> busy_since = 0 then False else now - busy_since > timeout)"

definition resolve_busy_timeout_ms :: "int \<Rightarrow> int option \<Rightarrow> int" where
  "resolve_busy_timeout_ms ceil requested =
     (case requested of
        None \<Rightarrow> ceil
      | Some value \<Rightarrow>
          if value \<le> 0 then ceil
          else if ceil \<le> 0 then value
          else if value < ceil then value else ceil)"

text \<open>The documented reading of a timeout: zero (or less) means unbounded.\<close>

definition timeout_bound :: "int \<Rightarrow> enat" where
  "timeout_bound ms = (if ms \<le> 0 then \<infinity> else enat (nat ms))"

definition requested_bound :: "int option \<Rightarrow> enat" where
  "requested_bound r = (case r of None \<Rightarrow> \<infinity> | Some ms \<Rightarrow> timeout_bound ms)"

subsection \<open>Acquire and release\<close>

datatype busy_error =
  Overrun int int  \<comment> \<open>\<open>now_ms - since\<close> and the timeout, as in the message\<close>
| Wait_Timed_Out int

datatype gthread =
  Outside
| Loaded int int          \<comment> \<open>timeout and the loaded \<open>since\<close>\<close>
| Queuing int             \<comment> \<open>about to call \<open>try_lock_for\<close>\<close>
| Waiting int "int option"  \<comment> \<open>timeout and the deadline of \<open>try_lock_for\<close>\<close>
| Locked                  \<comment> \<open>holds the mutex, the clock not read yet\<close>
| Stamped int             \<comment> \<open>holds the mutex and a time, \<open>busy_since_ms\<close> not stored yet\<close>
| Running int             \<comment> \<open>returned the \<open>Lock\<close>; the stored start time\<close>
| Releasing               \<comment> \<open>in the destructor, zero stored, mutex still held\<close>
| Refused busy_error      \<comment> \<open>threw \<open>ServerBusyError\<close>\<close>

record guard =
  clock :: int
  mutex_owner :: "nat option"
  busy_since_ms :: int
  gthreads :: "nat \<Rightarrow> gthread"

definition guard_init :: "guard \<Rightarrow> bool" where
  "guard_init g \<longleftrightarrow> 0 < clock g \<and> mutex_owner g = None \<and> busy_since_ms g = 0 \<and> gthreads g = (\<lambda>_. Outside)"

definition set_thread :: "nat \<Rightarrow> gthread \<Rightarrow> guard \<Rightarrow> guard" where
  "set_thread t pc g = g\<lparr>gthreads := (gthreads g)(t := pc)\<rparr>"

inductive guard_step :: "guard \<Rightarrow> guard \<Rightarrow> bool" where
  g_tick: "clock g \<le> now \<Longrightarrow> guard_step g (g\<lparr>clock := now\<rparr>)"
| g_acquire_unbounded: "gthreads g t = Outside \<Longrightarrow> timeout \<le> 0 \<Longrightarrow>
    guard_step g (set_thread t (Waiting timeout None) g)"
| g_acquire_load: "gthreads g t = Outside \<Longrightarrow> 0 < timeout \<Longrightarrow>
    guard_step g (set_thread t (Loaded timeout (busy_since_ms g)) g)"
| g_fail_fast: "gthreads g t = Loaded timeout since \<Longrightarrow> model_run_has_overrun since (clock g) timeout \<Longrightarrow>
    guard_step g (set_thread t (Refused (Overrun (clock g - since) timeout)) g)"
| g_queue: "gthreads g t = Loaded timeout since \<Longrightarrow> \<not> model_run_has_overrun since (clock g) timeout \<Longrightarrow>
    guard_step g (set_thread t (Queuing timeout) g)"
| g_wait: "gthreads g t = Queuing timeout \<Longrightarrow> guard_step g (set_thread t (Waiting timeout (Some (clock g + timeout))) g)"
| g_lock: "gthreads g t = Waiting timeout deadline \<Longrightarrow> mutex_owner g = None \<Longrightarrow>
    guard_step g (set_thread t Locked (g\<lparr>mutex_owner := Some t\<rparr>))"
| g_wait_timeout: "gthreads g t = Waiting timeout (Some deadline) \<Longrightarrow> deadline \<le> clock g \<Longrightarrow>
    guard_step g (set_thread t (Refused (Wait_Timed_Out timeout)) g)"
| g_stamp: "gthreads g t = Locked \<Longrightarrow> guard_step g (set_thread t (Stamped (clock g)) g)"
| g_store_busy: "gthreads g t = Stamped now \<Longrightarrow>
    guard_step g (set_thread t (Running now) (g\<lparr>busy_since_ms := now\<rparr>))"
| g_store_idle: "gthreads g t = Running start \<Longrightarrow>
    guard_step g (set_thread t Releasing (g\<lparr>busy_since_ms := 0\<rparr>))"
| g_unlock: "gthreads g t = Releasing \<Longrightarrow>
    guard_step g (set_thread t Outside (g\<lparr>mutex_owner := None\<rparr>))"
| g_return: "gthreads g t = Refused e \<Longrightarrow> guard_step g (set_thread t Outside g)"

definition holds_mutex :: "gthread \<Rightarrow> bool" where
  "holds_mutex pc \<longleftrightarrow> pc = Locked \<or> (\<exists>s. pc = Stamped s) \<or> (\<exists>s. pc = Running s) \<or> pc = Releasing"

text \<open>
  The invariant: the mutex owner is the one thread in its critical section, the atomic is
  non-zero exactly while a run is on (and is then its start time), and what the waiting
  threads remember is consistent.
\<close>

definition lock_agrees :: "guard \<Rightarrow> bool" where
  "lock_agrees g \<longleftrightarrow> (\<forall>t. holds_mutex (gthreads g t) \<longleftrightarrow> mutex_owner g = Some t)"

definition busy_agrees :: "guard \<Rightarrow> bool" where
  "busy_agrees g \<longleftrightarrow> 0 < clock g \<and>
     (\<forall>t s. gthreads g t = Running s \<longrightarrow> busy_since_ms g = s \<and> 0 < s \<and> s \<le> clock g) \<and>
     (busy_since_ms g \<noteq> 0 \<longrightarrow> (\<exists>t. gthreads g t = Running (busy_since_ms g)))"

definition locals_ok :: "guard \<Rightarrow> gthread \<Rightarrow> bool" where
  "locals_ok g pc \<longleftrightarrow>
     (case pc of
        Loaded k s \<Rightarrow> 0 < k \<and> 0 \<le> s \<and> s \<le> clock g
      | Queuing k \<Rightarrow> 0 < k
      | Stamped s \<Rightarrow> 0 < s \<and> s \<le> clock g
      | Waiting k (Some d) \<Rightarrow> 0 < k \<and> d \<le> clock g + k
      | Refused (Overrun e k) \<Rightarrow> 0 < k \<and> k < e
      | Refused (Wait_Timed_Out k) \<Rightarrow> 0 < k
      | _ \<Rightarrow> True)"

definition guard_inv :: "guard \<Rightarrow> bool" where
  "guard_inv g \<longleftrightarrow> lock_agrees g \<and> busy_agrees g \<and> (\<forall>t. locals_ok g (gthreads g t))"

subsection \<open>Every step keeps the invariant\<close>

lemma holds_mutex_simps [simp]:
  "holds_mutex Locked" "holds_mutex (Stamped s)" "holds_mutex (Running s)" "holds_mutex Releasing" "\<not> holds_mutex Outside"
  "\<not> holds_mutex (Loaded k s)" "\<not> holds_mutex (Queuing k)" "\<not> holds_mutex (Waiting k d)" "\<not> holds_mutex (Refused e)"
  by (simp_all add: holds_mutex_def)

lemma guard_init_inv: "guard_init g \<Longrightarrow> guard_inv g"
  by (simp add: guard_init_def guard_inv_def lock_agrees_def busy_agrees_def locals_ok_def)

lemma set_thread_simps [simp]:
  "gthreads (set_thread t pc g) = (gthreads g)(t := pc)"
  "clock (set_thread t pc g) = clock g"
  "mutex_owner (set_thread t pc g) = mutex_owner g"
  "busy_since_ms (set_thread t pc g) = busy_since_ms g"
  by (simp_all add: set_thread_def)

lemma one_holder:
  "lock_agrees g \<Longrightarrow> holds_mutex (gthreads g t) \<Longrightarrow> holds_mutex (gthreads g u) \<Longrightarrow> t = u"
  by (metis lock_agrees_def option.inject)

lemma lock_agrees_keep:
  "lock_agrees g \<Longrightarrow> gthreads h = gthreads g \<Longrightarrow> mutex_owner h = mutex_owner g \<Longrightarrow>
   holds_mutex pc = holds_mutex (gthreads g t) \<Longrightarrow> lock_agrees (set_thread t pc h)"
  by (simp add: lock_agrees_def)

lemma lock_agrees_take:
  "lock_agrees g \<Longrightarrow> mutex_owner g = None \<Longrightarrow> holds_mutex pc \<Longrightarrow>
   lock_agrees (set_thread t pc (g\<lparr>mutex_owner := Some t\<rparr>))"
  by (simp add: lock_agrees_def)

lemma lock_agrees_give:
  "lock_agrees g \<Longrightarrow> holds_mutex (gthreads g t) \<Longrightarrow> \<not> holds_mutex pc \<Longrightarrow>
   lock_agrees (set_thread t pc (g\<lparr>mutex_owner := None\<rparr>))"
  using one_holder [of g t] by (auto simp: lock_agrees_def)

lemma lock_agrees_step: "guard_step g g' \<Longrightarrow> lock_agrees g \<Longrightarrow> lock_agrees g'"
proof (induction rule: guard_step.induct)
  case (g_tick g now)
  then show ?case by (simp add: lock_agrees_def)
next
  case (g_lock g t k d)
  then show ?case by (intro lock_agrees_take) auto
next
  case (g_unlock g t)
  then show ?case by (intro lock_agrees_give) auto
qed (erule lock_agrees_keep; simp)+

lemma busy_agrees_cong:
  assumes "busy_agrees g" "clock g \<le> clock h" "busy_since_ms h = busy_since_ms g"
    and same: "\<And>u s. gthreads h u = Running s \<longleftrightarrow> gthreads g u = Running s"
  shows "busy_agrees h"
  using assms(1-3) unfolding busy_agrees_def same by (metis order.strict_trans2 order_trans)

lemma busy_agrees_keep:
  "busy_agrees g \<Longrightarrow> gthreads h = gthreads g \<Longrightarrow> clock h = clock g \<Longrightarrow> busy_since_ms h = busy_since_ms g \<Longrightarrow>
   (\<And>s. gthreads g t \<noteq> Running s) \<Longrightarrow> (\<And>s. pc \<noteq> Running s) \<Longrightarrow> busy_agrees (set_thread t pc h)"
  by (erule busy_agrees_cong) auto

lemma busy_agrees_step:
  "guard_step g g' \<Longrightarrow> lock_agrees g \<Longrightarrow> busy_agrees g \<Longrightarrow> (\<And>t. locals_ok g (gthreads g t)) \<Longrightarrow> busy_agrees g'"
proof (induction rule: guard_step.induct)
  case (g_tick g now)
  show ?case by (rule busy_agrees_cong [OF g_tick(3)]) (use g_tick in auto)
next
  case (g_store_busy g t now)
  have now: "0 < now" "now \<le> clock g" using g_store_busy(4) [of t] g_store_busy(1) by (auto simp: locals_ok_def)
  from g_store_busy have "\<not> holds_mutex (gthreads g u)" if "u \<noteq> t" for u
    using one_holder [of g t u] that by auto
  then have "gthreads g u \<noteq> Running s" if "u \<noteq> t" for u s
    using that by (metis holds_mutex_simps(3))
  with g_store_busy now show ?case by (auto simp: busy_agrees_def)
next
  case (g_store_idle g t start)
  then have "\<not> holds_mutex (gthreads g u)" if "u \<noteq> t" for u
    using one_holder [of g t u] that by auto
  then have "gthreads g u \<noteq> Running s" if "u \<noteq> t" for u s
    using that by (metis holds_mutex_simps(3))
  with g_store_idle show ?case by (auto simp: busy_agrees_def)
qed (erule busy_agrees_keep; simp)+

lemma locals_ok_mono: "locals_ok g pc \<Longrightarrow> clock g \<le> clock h \<Longrightarrow> locals_ok h pc"
  unfolding locals_ok_def by (auto split: gthread.splits option.splits)

lemma locals_ok_set:
  "(\<And>u. locals_ok g (gthreads g u)) \<Longrightarrow> clock h = clock g \<Longrightarrow> gthreads h = gthreads g \<Longrightarrow> locals_ok g pc \<Longrightarrow>
   locals_ok (set_thread t pc h) (gthreads (set_thread t pc h) u)"
  by (rule locals_ok_mono [of g]) auto

lemma locals_ok_step:
  "guard_step g g' \<Longrightarrow> busy_agrees g \<Longrightarrow> (\<And>t. locals_ok g (gthreads g t)) \<Longrightarrow> locals_ok g' (gthreads g' t)"
proof (induction rule: guard_step.induct)
  case (g_tick g now)
  show ?case by (rule locals_ok_mono [of g]) (use g_tick in auto)
next
  case (g_acquire_load g u k)
  then have "0 \<le> busy_since_ms g \<and> busy_since_ms g \<le> clock g"
    unfolding busy_agrees_def by (metis order.strict_implies_order order_refl)
  with g_acquire_load show ?case by (intro locals_ok_set [of g]) (auto simp: locals_ok_def)
next
  case (g_fail_fast g u k s)
  with g_fail_fast(4) [of u] show ?case
    by (intro locals_ok_set [of g]) (auto simp: locals_ok_def model_run_has_overrun_def split: if_splits)
next
  case (g_queue g u k s)
  with g_queue(4) [of u] show ?case by (intro locals_ok_set [of g]) (auto simp: locals_ok_def)
next
  case (g_wait g u k)
  with g_wait(3) [of u] show ?case by (intro locals_ok_set [of g]) (auto simp: locals_ok_def)
next
  case (g_stamp g u)
  then show ?case by (intro locals_ok_set [of g]) (auto simp: locals_ok_def busy_agrees_def)
next
  case (g_wait_timeout g u k d)
  with g_wait_timeout(4) [of u] show ?case by (intro locals_ok_set [of g]) (auto simp: locals_ok_def)
qed (erule locals_ok_set; simp add: locals_ok_def)+

lemma guard_step_inv: "guard_inv g \<Longrightarrow> guard_step g g' \<Longrightarrow> guard_inv g'"
  using lock_agrees_step busy_agrees_step locals_ok_step unfolding guard_inv_def by blast

interpretation bg: transition_invariant guard_init guard_step guard_inv
  by unfold_locales (rule guard_init_inv guard_step_inv; assumption)+

subsection \<open>Properties\<close>

text \<open>
  C8. One model runs one request at a time: in every state the guard can reach, at most one
  thread is between obtaining the lock and giving it back.
\<close>

theorem guard_mutual_exclusion:
  assumes "guard_init g" and "guard_step\<^sup>*\<^sup>* g g'"
    and "holds_mutex (gthreads g' t)" and "holds_mutex (gthreads g' u)"
  shows "t = u"
  using bg.reachable_inv [OF assms(2,1)] one_holder assms(3,4) by (auto simp: guard_inv_def)

definition idle_guard :: guard where
  "idle_guard = \<lparr>clock = 1, mutex_owner = None, busy_since_ms = 0, gthreads = (\<lambda>_. Outside)\<rparr>"

definition locked_guard :: guard where
  "locked_guard = set_thread 7 Locked ((set_thread 7 (Waiting 0 None) idle_guard)\<lparr>mutex_owner := Some 7\<rparr>)"

lemma locked_guard_reachable: "guard_step\<^sup>*\<^sup>* idle_guard locked_guard"
proof -
  have "guard_step idle_guard (set_thread 7 (Waiting 0 None) idle_guard)"
    by (rule g_acquire_unbounded) (simp_all add: idle_guard_def)
  moreover have "guard_step (set_thread 7 (Waiting 0 None) idle_guard) locked_guard"
    unfolding locked_guard_def by (rule g_lock) (simp_all add: idle_guard_def)
  ultimately show ?thesis by (meson rtranclp.simps)
qed

theorem guard_mutual_exclusion_witness:
  "guard_init idle_guard \<and> guard_step\<^sup>*\<^sup>* idle_guard locked_guard \<and> (7::nat) = 7"
  using guard_mutual_exclusion [OF _ locked_guard_reachable, of 7 7] locked_guard_reachable
  by (simp add: idle_guard_def guard_init_def locked_guard_def)

text \<open>
  What a refusal is based on. The execution from \<open>g\<close> to \<open>g'\<close> passes a state in which thread \<open>u\<close> holds the model since \<open>s\<close>.
\<close>

definition saw_run :: "guard \<Rightarrow> guard \<Rightarrow> int \<Rightarrow> bool" where
  "saw_run g g' s \<longleftrightarrow>
     (\<exists>g0 u. guard_step\<^sup>*\<^sup>* g g0 \<and> guard_step\<^sup>*\<^sup>* g0 g' \<and> gthreads g0 u = Running s \<and> mutex_owner g0 = Some u)"

definition based :: "guard \<Rightarrow> guard \<Rightarrow> gthread \<Rightarrow> bool" where
  "based g g' pc \<longleftrightarrow>
     (case pc of
        Loaded k s \<Rightarrow> s \<noteq> 0 \<longrightarrow> saw_run g g' s
      | Refused (Overrun e k) \<Rightarrow> \<exists>s. saw_run g g' s \<and> e \<le> clock g' - s
      | _ \<Rightarrow> True)"

lemma saw_run_step: "saw_run g g' s \<Longrightarrow> guard_step g' g'' \<Longrightarrow> saw_run g g'' s"
  unfolding saw_run_def by (meson rtranclp.rtrancl_into_rtrancl)

lemma clock_mono: "guard_step g g' \<Longrightarrow> clock g \<le> clock g'"
  by (induction rule: guard_step.induct) auto

lemma based_step:
  assumes "based g g' pc" "guard_step g' g''"
  shows "based g g'' pc"
  using assms(1) saw_run_step [OF _ assms(2)] clock_mono [OF assms(2)] unfolding based_def
  by (auto split: gthread.splits busy_error.splits) (meson diff_right_mono order_trans)

lemma guard_step_thread:
  assumes "guard_step g g'" "gthreads g' t \<noteq> gthreads g t"
  shows "(\<exists>k. gthreads g' t = Loaded k (busy_since_ms g)) \<or>
    (\<exists>k s. gthreads g t = Loaded k s \<and> model_run_has_overrun s (clock g) k \<and> gthreads g' t = Refused (Overrun (clock g - s) k)) \<or>
    (\<forall>k s. gthreads g' t \<noteq> Loaded k s) \<and> (\<forall>e k. gthreads g' t \<noteq> Refused (Overrun e k))"
  using assms by (induction rule: guard_step.induct) (auto split: if_splits)

lemma overrun_refuses:
  assumes "guard_step g g'" "gthreads g t = Loaded k s" "0 < k" "s \<noteq> 0" "k < clock g - s" "gthreads g' t \<noteq> gthreads g t"
  shows "gthreads g' t = Refused (Overrun (clock g - s) k)"
  using assms by (induction rule: guard_step.induct) (auto simp: model_run_has_overrun_def split: if_splits)

lemma holder_runs:
  assumes "guard_inv g" "busy_since_ms g \<noteq> 0"
  shows "\<exists>t. gthreads g t = Running (busy_since_ms g) \<and> mutex_owner g = Some t"
proof -
  from assms obtain t where t: "gthreads g t = Running (busy_since_ms g)" by (auto simp: guard_inv_def busy_agrees_def)
  with assms(1) have "mutex_owner g = Some t" by (metis guard_inv_def holds_mutex_simps(3) lock_agrees_def)
  with t show ?thesis by blast
qed

lemma reachable_based:
  assumes "guard_init g" "guard_step\<^sup>*\<^sup>* g g'"
  shows "based g g' (gthreads g' t)"
  using assms(2)
proof (induction arbitrary: t rule: rtranclp_induct)
  case base
  then show ?case using assms(1) by (simp add: based_def guard_init_def)
next
  case (step g1 g2)
  have inv: "guard_inv g1" using bg.reachable_inv [OF step(1) assms(1)] .
  show ?case
  proof (cases "gthreads g2 t = gthreads g1 t")
    case True
    with step.IH [of t] based_step [OF _ step(2)] show ?thesis by simp
  next
    case False
    from guard_step_thread [OF step(2) this] show ?thesis
    proof (elim disjE exE conjE)
      fix k assume t: "gthreads g2 t = Loaded k (busy_since_ms g1)"
      have "saw_run g g1 (busy_since_ms g1)" if "busy_since_ms g1 \<noteq> 0"
        using holder_runs [OF inv that] step(1) unfolding saw_run_def by blast
      with t show ?thesis using saw_run_step [OF _ step(2)] by (simp add: based_def)
    next
      fix k s assume l: "gthreads g1 t = Loaded k s" "model_run_has_overrun s (clock g1) k" "gthreads g2 t = Refused (Overrun (clock g1 - s) k)"
      then have "saw_run g g1 s"
        using step.IH [of t] by (auto simp: based_def model_run_has_overrun_def split: if_splits)
      then have "saw_run g g2 s" using step(2) by (rule saw_run_step)
      moreover have "clock g1 - s \<le> clock g2 - s" using clock_mono [OF step(2)] by simp
      ultimately show ?thesis using l(3) by (auto simp: based_def)
    qed (auto simp: based_def split: gthread.splits busy_error.splits)
  qed
qed

text \<open>
  C9. The fail-fast answer is never spurious. In every reachable state the timestamp a
  caller loads is zero or the start time of the run that holds the model at that moment, and
  an idle model shows zero. A caller that was refused without waiting, with \<open>e\<close> milliseconds in the message, has a positive
  timeout \<open>k < e\<close>, and earlier in the same execution a thread held the model, running since a time \<open>s\<close> that is
  at least \<open>e\<close> milliseconds ago: the refusal saw a run that had really overrun. Conversely a caller that has loaded
  the start of such a run never queues behind it: the next thing it does is to refuse.
\<close>

theorem guard_fail_fast_sound:
  assumes "guard_init g" and "guard_step\<^sup>*\<^sup>* g g'"
  shows "(busy_since_ms g' \<noteq> 0 \<longrightarrow> (\<exists>t. gthreads g' t = Running (busy_since_ms g') \<and> mutex_owner g' = Some t)) \<and>
    (mutex_owner g' = None \<longrightarrow> busy_since_ms g' = 0) \<and>
    (\<forall>t e k. gthreads g' t = Refused (Overrun e k) \<longrightarrow> 0 < k \<and> k < e \<and>
      (\<exists>g0 u s. guard_step\<^sup>*\<^sup>* g g0 \<and> guard_step\<^sup>*\<^sup>* g0 g' \<and> gthreads g0 u = Running s \<and> mutex_owner g0 = Some u \<and>
        e \<le> clock g' - s)) \<and>
    (\<forall>t k s g''. gthreads g' t = Loaded k s \<and> s \<noteq> 0 \<and> k < clock g' - s \<and> guard_step g' g'' \<and> gthreads g'' t \<noteq> gthreads g' t \<longrightarrow>
      gthreads g'' t = Refused (Overrun (clock g' - s) k))"
proof -
  have inv: "guard_inv g'" using bg.reachable_inv [OF assms(2,1)] .
  have "0 < k \<and> k < e" if "gthreads g' t = Refused (Overrun e k)" for t e k
    using inv that by (force simp: guard_inv_def locals_ok_def dest: spec [of _ t])
  moreover have "\<exists>g0 u s. guard_step\<^sup>*\<^sup>* g g0 \<and> guard_step\<^sup>*\<^sup>* g0 g' \<and> gthreads g0 u = Running s \<and> mutex_owner g0 = Some u \<and> e \<le> clock g' - s"
    if "gthreads g' t = Refused (Overrun e k)" for t e k
    using reachable_based [OF assms, of t] that by (simp add: based_def saw_run_def) blast
  moreover have "gthreads g'' t = Refused (Overrun (clock g' - s) k)"
    if "gthreads g' t = Loaded k s" "s \<noteq> 0" "k < clock g' - s" "guard_step g' g''" "gthreads g'' t \<noteq> gthreads g' t" for t k s g''
  proof -
    have "0 < k" using inv that(1) by (force simp: guard_inv_def locals_ok_def dest: spec [of _ t])
    with overrun_refuses that show ?thesis by blast
  qed
  moreover have "(busy_since_ms g' \<noteq> 0 \<longrightarrow> (\<exists>t. gthreads g' t = Running (busy_since_ms g') \<and> mutex_owner g' = Some t)) \<and>
      (mutex_owner g' = None \<longrightarrow> busy_since_ms g' = 0)" using holder_runs [OF inv] by fastforce
  ultimately show ?thesis by blast
qed

text \<open>One thread runs since time 1, the other comes at time 10 with a timeout of 5 and is refused.\<close>

definition running_guard :: guard where
  "running_guard = set_thread 7 (Running 1) ((set_thread 7 (Stamped 1) locked_guard)\<lparr>busy_since_ms := 1\<rparr>)"

definition refused_guard :: guard where
  "refused_guard = set_thread 8 (Refused (Overrun 9 5)) (set_thread 8 (Loaded 5 1) (running_guard\<lparr>clock := 10\<rparr>))"

lemma refused_guard_reachable: "guard_step\<^sup>*\<^sup>* idle_guard refused_guard"
proof -
  have 1: "guard_step locked_guard (set_thread 7 (Stamped 1) locked_guard)"
    using g_stamp [of locked_guard 7] by (simp add: locked_guard_def idle_guard_def)
  have 2: "guard_step (set_thread 7 (Stamped 1) locked_guard) running_guard"
    unfolding running_guard_def by (rule g_store_busy) simp
  have 3: "guard_step running_guard (running_guard\<lparr>clock := 10\<rparr>)"
    by (rule g_tick) (simp add: running_guard_def locked_guard_def idle_guard_def)
  have 4: "guard_step (running_guard\<lparr>clock := 10\<rparr>) (set_thread 8 (Loaded 5 1) (running_guard\<lparr>clock := 10\<rparr>))"
    using g_acquire_load [of "running_guard\<lparr>clock := 10\<rparr>" 8 5] by (simp add: running_guard_def locked_guard_def idle_guard_def)
  have 5: "guard_step (set_thread 8 (Loaded 5 1) (running_guard\<lparr>clock := 10\<rparr>)) refused_guard"
    using g_fail_fast [of "set_thread 8 (Loaded 5 1) (running_guard\<lparr>clock := 10\<rparr>)" 8 5 1]
    by (simp add: refused_guard_def model_run_has_overrun_def)
  note next_state = rtranclp.rtrancl_into_rtrancl [of guard_step]
  show ?thesis by (rule next_state [OF next_state [OF next_state [OF next_state [OF next_state [OF locked_guard_reachable 1] 2] 3] 4] 5])
qed

theorem guard_fail_fast_sound_witness:
  "guard_init idle_guard \<and> busy_since_ms refused_guard = 1 \<and>
   (\<exists>g0 u s. guard_step\<^sup>*\<^sup>* idle_guard g0 \<and> gthreads g0 u = Running s \<and> mutex_owner g0 = Some u \<and> 9 \<le> clock refused_guard - s)"
proof -
  have init: "guard_init idle_guard" by (simp add: guard_init_def idle_guard_def)
  have "gthreads refused_guard 8 = Refused (Overrun 9 5)" "busy_since_ms refused_guard = 1"
    by (simp_all add: refused_guard_def running_guard_def)
  with guard_fail_fast_sound [OF init refused_guard_reachable] init show ?thesis by blast
qed

text \<open>
  A client can tighten the server's bound and never weaken it: with zero read as
  unbounded, the effective timeout is the minimum of policy and request.
\<close>

lemma resolve_busy_timeout_min:
  "timeout_bound (resolve_busy_timeout_ms ceil requested) =
     min (timeout_bound ceil) (requested_bound requested)"
  by (auto simp: resolve_busy_timeout_ms_def timeout_bound_def requested_bound_def min_def
      split: option.splits)

end
