(* ===== verification/Chat_Hygiene.thy ===== *)
theory Chat_Hygiene
  imports Prelude "HOL-Library.Sublist"
begin

text \<open>
  Reply hygiene (\<^verbatim>\<open>app/server/chat_hygiene.cpp\<close>): the clean-up of a finished reply before it
  re-enters the conversation, the per-turn steering note, and the streaming scrubber that
  runs in front of the transcript and the synthesiser.

  Functions that walk a string with an \<^verbatim>\<open>index\<close> or \<^verbatim>\<open>position\<close> are written on the
  remaining suffix. \<^verbatim>\<open>std::search\<close> with a case-folding comparison is a search of the folded
  strings. The language threshold is a ratio of two numbers; comparing the products is the
  exact form of the \<^verbatim>\<open>double\<close> comparison for any text that fits in memory. Span and quote
  markers are non-empty at every call, as the recursion requires.
\<close>

subsection \<open>UTF-8\<close>

text \<open>Sequence length and payload bits announced by a lead byte.\<close>

definition utf8_lead :: "nat \<Rightarrow> (nat \<times> nat) option" where
  "utf8_lead first =
     (if first div 32 = 6 then Some (2, first mod 32)
      else if first div 16 = 14 then Some (3, first mod 16)
      else if first div 8 = 30 then Some (4, first mod 8)
      else None)"

fun utf8_continue :: "string \<Rightarrow> nat \<Rightarrow> nat option" where
  "utf8_continue [] value = Some value"
| "utf8_continue (c # cs) value =
     (if byte_of c div 64 \<noteq> 2 then None else utf8_continue cs (value * 64 + byte_of c mod 64))"

text \<open>The code point at the front of the suffix, and by how much the index advances.\<close>

definition decode_utf8 :: "string \<Rightarrow> nat \<times> nat" where
  "decode_utf8 s =
     (case s of
        [] \<Rightarrow> (0, 1)
      | c # rest \<Rightarrow>
          if byte_of c < 0x80 then (byte_of c, 1)
          else
            (case utf8_lead (byte_of c) of
               None \<Rightarrow> (0xFFFD, 1)
             | Some (len, value) \<Rightarrow>
                 if len > length s then (0xFFFD, 1)
                 else
                   (case utf8_continue (take (len - 1) rest) value of
                      None \<Rightarrow> (0xFFFD, 1)
                    | Some v \<Rightarrow> (v, len))))"

definition is_cjk :: "nat \<Rightarrow> bool" where
  "is_cjk cp \<longleftrightarrow> (0x3400 \<le> cp \<and> cp \<le> 0x9FFF) \<or> (0xF900 \<le> cp \<and> cp \<le> 0xFAFF) \<or>
     (0x20000 \<le> cp \<and> cp \<le> 0x2FA1F)"

definition is_ascii_letter :: "nat \<Rightarrow> bool" where
  "is_ascii_letter cp \<longleftrightarrow> (65 \<le> cp \<and> cp \<le> 90) \<or> (97 \<le> cp \<and> cp \<le> 122)"

text \<open>Both counters of \<open>mostly_cjk\<close> over the text.\<close>

fun cjk_counts :: "string \<Rightarrow> nat \<Rightarrow> nat \<Rightarrow> nat \<times> nat" where
  "cjk_counts [] letters cjk = (letters, cjk)"
| "cjk_counts (c # rest) letters cjk =
     (let (cp, n) = decode_utf8 (c # rest) in
      if is_cjk cp then cjk_counts (drop (n - 1) rest) (letters + 1) (cjk + 1)
      else if is_ascii_letter cp \<or> (0xC0 \<le> cp \<and> cp < 0x3000)
        then cjk_counts (drop (n - 1) rest) (letters + 1) cjk
      else cjk_counts (drop (n - 1) rest) letters cjk)"

text \<open>\<open>mostly_cjk num den text\<close>: at least \<open>num / den\<close> of the letters are CJK.\<close>

definition mostly_cjk :: "nat \<Rightarrow> nat \<Rightarrow> string \<Rightarrow> bool" where
  "mostly_cjk num den text =
     (let (letters, cjk) = cjk_counts text 0 0 in
      if letters = 0 then False else num * letters \<le> den * cjk)"

subsection \<open>Cleaning a finished reply\<close>

function strip_spans :: "string \<Rightarrow> string \<Rightarrow> string \<Rightarrow> nat \<Rightarrow> string" where
  "strip_spans s open close max_span =
     (if s = [] \<or> open = [] then s
      else
        (case find_sub open s of
           None \<Rightarrow> s
         | Some begin \<Rightarrow>
             let body = drop (begin + length open) s in
             take begin s @
             (case find_sub close body of
                None \<Rightarrow> if length body > max_span then drop begin s else []
              | Some end \<Rightarrow>
                  let rest = drop (end + length close) body in
                  if end > max_span
                  then take (length open + end + length close) (drop begin s) @
                       strip_spans rest open close max_span
                  else CHR '' '' # strip_spans rest open close max_span)))"
  by pat_completeness auto
termination
  by (relation "measure (\<lambda>(s, _). length s)") (auto dest!: find_sub_Some simp: neq_Nil_conv)

declare strip_spans.simps [simp del]

text \<open>Runs of blanks become one blank.\<close>

fun squeeze_blanks :: "string \<Rightarrow> bool \<Rightarrow> string" where
  "squeeze_blanks [] in_space = []"
| "squeeze_blanks (c # cs) in_space =
     (if c = CHR '' '' \<or> c = CHR 0x09
      then (if in_space then squeeze_blanks cs True else CHR '' '' # squeeze_blanks cs True)
      else c # squeeze_blanks cs False)"

definition is_trim_char :: "char \<Rightarrow> bool" where
  "is_trim_char c \<longleftrightarrow> c = CHR '' '' \<or> c = CHR 0x0A \<or> c = CHR 0x0D \<or> c = CHR 0x09"

definition trim_blanks :: "string \<Rightarrow> string" where
  "trim_blanks s = rev (dropWhile is_trim_char (rev (dropWhile is_trim_char s)))"

definition collapse_spaces :: "string \<Rightarrow> string" where
  "collapse_spaces s = trim_blanks (squeeze_blanks s False)"

definition kQuoteMarks :: "(string \<times> string) list" where
  "kQuoteMarks = [([CHR 0x22], [CHR 0x22]),
     ([CHR 0xE2, CHR 0x80, CHR 0x9C], [CHR 0xE2, CHR 0x80, CHR 0x9D]),
     ([CHR 0xE3, CHR 0x80, CHR 0x8C], [CHR 0xE3, CHR 0x80, CHR 0x8D])]"

text \<open>The quoted spans of one mark that are at least two bytes long, in order.\<close>

function quoted_spans :: "string \<Rightarrow> string \<Rightarrow> string \<Rightarrow> string list" where
  "quoted_spans s open close =
     (if open = [] then []
      else
        (case find_sub open s of
           None \<Rightarrow> []
         | Some begin \<Rightarrow>
             let body = drop (begin + length open) s in
             (case find_sub close body of
                None \<Rightarrow> []
              | Some end \<Rightarrow>
                  (if end \<ge> 2 then [take end body] else []) @
                  quoted_spans (drop (end + length close) body) open close)))"
  by pat_completeness auto
termination
  by (relation "measure (\<lambda>(s, _). length s)") (auto dest!: find_sub_Some simp: neq_Nil_conv)

declare quoted_spans.simps [simp del]

fun join_with_blank :: "string list \<Rightarrow> string \<Rightarrow> string" where
  "join_with_blank [] joined = joined"
| "join_with_blank (span # spans) joined =
     join_with_blank spans ((if joined = [] then [] else joined @ '' '') @ span)"

definition recover_quoted_dialogue :: "string \<Rightarrow> string" where
  "recover_quoted_dialogue text =
     (let spans = concat (map (\<lambda>(open, close). quoted_spans text open close) kQuoteMarks);
          total = sum_list (map length spans)
      in if spans = [] \<or> total < length text * 2 div 5 then text else join_with_blank spans [])"

definition cut_at :: "string \<Rightarrow> string \<Rightarrow> string" where
  "cut_at marker s = (case find_sub marker s of None \<Rightarrow> s | Some i \<Rightarrow> take i s)"

definition drop_stray_star :: "string \<Rightarrow> string" where
  "drop_stray_star s =
     (case rfind_idx (\<lambda>c. c = CHR ''*'') s of
        None \<Rightarrow> s
      | Some stray \<Rightarrow> if length s - stray \<le> 120 then take stray s else s)"

definition unwrap_quote :: "string \<times> string \<Rightarrow> string \<Rightarrow> string" where
  "unwrap_quote mark s =
     (let (open, close) = mark in
      if length s > length open + length close \<and> starts_with open s \<and> starts_with (rev close) (rev s)
      then substr s (length open) (length s - length open - length close) else s)"

definition sanitize_assistant_text :: "string \<Rightarrow> string" where
  "sanitize_assistant_text text =
     (let out1 = cut_at ''<|'' text;
          out2 = cut_at [CHR 0x0A, CHR 0x0A] out1;
          out3 = drop_stray_star (strip_spans out2 ''*'' ''*'' 120);
          out4 = strip_spans out3 [CHR 0xEF, CHR 0xBC, CHR 0x88] [CHR 0xEF, CHR 0xBC, CHR 0x89] 80;
          out5 = collapse_spaces (recover_quoted_dialogue out4)
      in collapse_spaces (fold unwrap_quote kQuoteMarks out5))"

subsection \<open>Judging messages\<close>

fun first_word_loop :: "string \<Rightarrow> string \<Rightarrow> nat \<Rightarrow> string" where
  "first_word_loop [] word cjk_count = word"
| "first_word_loop (c # rest) word cjk_count =
     (let (cp, n) = decode_utf8 (c # rest); piece = c # take (n - 1) rest; rest' = drop (n - 1) rest in
      if is_ascii_letter cp \<or> cp = 39 then
        (if cjk_count > 0 then word else first_word_loop rest' (word @ piece) cjk_count)
      else if is_cjk cp then
        (if cjk_count + 1 \<ge> 2 then word @ piece else first_word_loop rest' (word @ piece) (cjk_count + 1))
      else word)"

definition first_word :: "string \<Rightarrow> string" where
  "first_word text = first_word_loop (dropWhile is_space_byte text) [] 0"

definition contains :: "string \<Rightarrow> string \<Rightarrow> bool" where
  "contains text needle \<longleftrightarrow> find_sub needle text \<noteq> None"

definition contains_ci :: "string \<Rightarrow> string \<Rightarrow> bool" where
  "contains_ci haystack needle \<longleftrightarrow> find_sub (map to_lower needle) (map to_lower haystack) \<noteq> None"

definition word_boundaries :: "string \<Rightarrow> nat \<Rightarrow> nat \<Rightarrow> bool" where
  "word_boundaries text at after \<longleftrightarrow>
     (at = 0 \<or> \<not> is_alnum (text ! (at - 1))) \<and> (after \<ge> length text \<or> \<not> is_alnum (text ! after))"

function contains_word_from :: "string \<Rightarrow> string \<Rightarrow> nat \<Rightarrow> bool" where
  "contains_word_from text word position =
     (if position > length text then False
      else
        (case find_sub_from (map to_lower word) (map to_lower text) position of
           None \<Rightarrow> False
         | Some at \<Rightarrow>
             if word_boundaries text at (at + length word) then True
             else contains_word_from text word (at + 1)))"
  by pat_completeness auto
termination
  by (relation "measure (\<lambda>(text, word, position). Suc (length text) - position)")
     (auto dest!: find_sub_from_bounds)

declare contains_word_from.simps [simp del]

definition contains_word_ci :: "string \<Rightarrow> string \<Rightarrow> bool" where
  "contains_word_ci text word = contains_word_from text word 0"

definition has_filler :: "string \<Rightarrow> bool" where
  "has_filler text \<longleftrightarrow> contains text [CHR 0xE5, CHR 0x93, CHR 0x8E, CHR 0xE5, CHR 0x91, CHR 0x80] \<or> contains text [CHR 0xE5, CHR 0x95, CHR 0x8A, CHR 0xE5, CHR 0x91, CHR 0x80] \<or>
     contains_ci text ''aiya''"

definition mentions_ai :: "string \<Rightarrow> bool" where
  "mentions_ai text \<longleftrightarrow> contains_word_ci text ''AI'' \<or>
     contains text [CHR 0xE6, CHR 0x9C, CHR 0xBA, CHR 0xE5, CHR 0x99, CHR 0xA8, CHR 0xE4, CHR 0xBA, CHR 0xBA] \<or>
     contains text [CHR 0xE4, CHR 0xBA, CHR 0xBA, CHR 0xE5, CHR 0xB7, CHR 0xA5, CHR 0xE6, CHR 0x99, CHR 0xBA, CHR 0xE8, CHR 0x83, CHR 0xBD]"

definition is_ai_probe :: "string \<Rightarrow> bool" where
  "is_ai_probe text \<longleftrightarrow> mentions_ai text \<or> contains_word_ci text ''bot'' \<or> contains_word_ci text ''robot'' \<or>
     contains_word_ci text ''model'' \<or> contains text [CHR 0xE6, CHR 0xA8, CHR 0xA1, CHR 0xE5, CHR 0x9E, CHR 0x8B]"

definition is_memory_check :: "string \<Rightarrow> bool" where
  "is_memory_check text \<longleftrightarrow>
     contains_ci text ''what did i'' \<or> contains_ci text ''did i tell'' \<or> contains_ci text ''quiz'' \<or>
     contains_ci text ''test me'' \<or> contains_ci text ''remember when'' \<or> contains_ci text ''what was my'' \<or>
     contains_ci text ''what month'' \<or>
     contains text [CHR 0xE6, CHR 0x88, CHR 0x91, CHR 0xE8, CHR 0xAF, CHR 0xB4, CHR 0xE8, CHR 0xBF, CHR 0x87] \<or>
     contains text [CHR 0xE8, CHR 0xBF, CHR 0x98, CHR 0xE8, CHR 0xAE, CHR 0xB0, CHR 0xE5, CHR 0xBE, CHR 0x97] \<or>
     contains text [CHR 0xE8, CHR 0x80, CHR 0x83, CHR 0xE8, CHR 0x80, CHR 0x83, CHR 0xE4, CHR 0xBD, CHR 0xA0]"

text \<open>Lower-case ASCII words and CJK bigrams: the remaining text, the word being read, the
  previous CJK character and the tokens so far.\<close>

definition flush_word :: "string \<Rightarrow> string list \<Rightarrow> string list" where
  "flush_word word tokens = (if word = [] then tokens else tokens @ [word])"

fun loop_tokens_from :: "string \<Rightarrow> string \<Rightarrow> string \<Rightarrow> string list \<Rightarrow> string list" where
  "loop_tokens_from [] word prev tokens = flush_word word tokens"
| "loop_tokens_from (c # rest) word prev tokens =
     (let (cp, n) = decode_utf8 (c # rest); one = c # take (n - 1) rest; rest' = drop (n - 1) rest in
      if is_ascii_letter cp \<or> cp = 39 then loop_tokens_from rest' (word @ [to_lower (char_of cp)]) [] tokens
      else if is_cjk cp then
        (let tokens' = flush_word word tokens in
         loop_tokens_from rest' [] one (if prev = [] then tokens' else tokens' @ [prev @ one]))
      else loop_tokens_from rest' [] [] (flush_word word tokens))"

definition loop_tokens :: "string \<Rightarrow> string list" where
  "loop_tokens text = loop_tokens_from text [] [] []"

fun trigrams :: "string list \<Rightarrow> string list" where
  "trigrams (a # b # c # ws) = (a @ '' '' @ b @ '' '' @ c) # trigrams (b # c # ws)"
| "trigrams ws = []"

fun bump_count :: "string \<Rightarrow> (string \<times> nat) list \<Rightarrow> (string \<times> nat) list" where
  "bump_count gram [] = [(gram, 1)]"
| "bump_count gram ((g, n) # counts) =
     (if g = gram then (g, n + 1) # counts else (g, n) # bump_count gram counts)"

text \<open>One reply: a gram counts once per reply (\<open>seen\<close>).\<close>

fun count_reply :: "string list \<Rightarrow> string list \<Rightarrow> (string \<times> nat) list \<Rightarrow> (string \<times> nat) list" where
  "count_reply [] seen counts = counts"
| "count_reply (gram # grams) seen counts =
     (if List.member seen gram then count_reply grams seen counts
      else count_reply grams (seen @ [gram]) (bump_count gram counts))"

definition phrase_counts :: "string list \<Rightarrow> (string \<times> nat) list" where
  "phrase_counts replies = fold (\<lambda>reply counts. count_reply (trigrams (loop_tokens reply)) [] counts) replies []"

text \<open>The stable sort by falling count, then the first two grams used in two or more replies.\<close>

definition repeated_phrases :: "string list \<Rightarrow> string list" where
  "repeated_phrases replies =
     map fst (take 2 (takeWhile (\<lambda>(gram, count). \<not> count < 2)
       (sort_key (\<lambda>(gram, count). - int count) (phrase_counts replies))))"

definition ends_with_question :: "string \<Rightarrow> bool" where
  "ends_with_question reply =
     (case dropWhile is_trim_char (rev reply) of
        [] \<Rightarrow> False
      | c # before \<Rightarrow> c = CHR ''?'' \<or> starts_with [CHR 0x9F, CHR 0xBC, CHR 0xEF] (c # before))"

text \<open>Back up from \<open>max_bytes\<close> to the start of a code point.\<close>

fun utf8_boundary :: "string \<Rightarrow> nat \<Rightarrow> nat" where
  "utf8_boundary text 0 = 0"
| "utf8_boundary text (Suc e) =
     (if byte_of (text ! Suc e) div 64 = 2 then utf8_boundary text e else Suc e)"

definition utf8_prefix :: "string \<Rightarrow> nat \<Rightarrow> string" where
  "utf8_prefix text max_bytes =
     (if length text \<le> max_bytes then text else take (utf8_boundary text max_bytes) text)"

subsection \<open>The steering note\<close>

text \<open>
  The dynamic bans, each guarded by \<^verbatim>\<open>bans < 3\<close>: the list of bans so far stands for the
  counter, which is its length.
\<close>

definition add_ban :: "bool \<Rightarrow> string \<Rightarrow> string list \<Rightarrow> string list" where
  "add_ban needed ban bans = (if needed \<and> length bans < 3 then bans @ [ban] else bans)"

definition recent_filler :: "string list \<Rightarrow> bool" where
  "recent_filler recent = list_ex has_filler (drop (length recent - min (length recent) 4) recent)"

definition opener_streak :: "string list \<Rightarrow> string option" where
  "opener_streak recent =
     (if length recent \<ge> 2 then
        (let opener = first_word (recent ! (length recent - 1)) in
         if opener \<noteq> [] \<and> opener = first_word (recent ! (length recent - 2)) then Some opener else None)
      else None)"

definition turn_bans :: "string list \<Rightarrow> string list" where
  "turn_bans recent =
     (let bans1 = add_ban (recent_filler recent)
            (''Do not use aiya or '' @ [CHR 0xE5, CHR 0x93, CHR 0x8E, CHR 0xE5, CHR 0x91, CHR 0x80] @ '' this turn.'') [];
          bans2 = add_ban (recent \<noteq> [] \<and> mentions_ai (last recent))
            ''Do not mention AI, bots, or robots this turn.'' bans1;
          bans3 = add_ban (length recent \<ge> 2 \<and> ends_with_question (recent ! (length recent - 1)) \<and>
              ends_with_question (recent ! (length recent - 2)))
            ''End this reply with a warm statement, not a question.'' bans2;
          bans4 = (case opener_streak recent of
                     None \<Rightarrow> bans3
                   | Some opener \<Rightarrow>
                       add_ban True ((''Do not begin your reply with '' @ [CHR 0x27]) @ opener @ ([CHR 0x27] @ ''.'')) bans3)
      in fold (\<lambda>gram. add_ban True ((''Never say '' @ [CHR 0x27]) @ gram @ ([CHR 0x27] @ '' again; find fresh wording and fresh ideas.''))) (repeated_phrases recent) bans4)"

definition turn_topics :: "string \<Rightarrow> string list" where
  "turn_topics latest_user =
     (if is_ai_probe latest_user then
        [''They are teasing that you might be artificial: brush it off in one short playful sentence WITHOUT using the words AI, bot, or robot yourself, then change the subject.'']
      else []) @
     (if contains_ci latest_user ''third person'' \<or>
         contains latest_user [CHR 0xE7, CHR 0xAC, CHR 0xAC, CHR 0xE4, CHR 0xB8, CHR 0x89, CHR 0xE4, CHR 0xBA, CHR 0xBA, CHR 0xE7, CHR 0xA7, CHR 0xB0]
      then [''They asked for third person: playfully refuse and keep speaking as I.''] else []) @
     (if is_memory_check latest_user then
        [''This is a memory check. Search the conversation above for what THEY said and answer with their detail, speaking of it as theirs; if it is not in the conversation any more, playfully admit that you lost it -- never claim they did not tell you, never guess.'']
      else [])"

definition zh_pin :: string where
  "zh_pin = [CHR 0xE8, CHR 0xBF, CHR 0x99, CHR 0xE4, CHR 0xB8, CHR 0x80, CHR 0xE8, CHR 0xBD, CHR 0xAE, CHR 0xE5, CHR 0xBF, CHR 0x85, CHR 0xE9, CHR 0xA1, CHR 0xBB, CHR 0xE7, CHR 0x94, CHR 0xA8, CHR 0xE4, CHR 0xB8, CHR 0xAD, CHR 0xE6, CHR 0x96, CHR 0x87, CHR 0xE5, CHR 0x9B, CHR 0x9E, CHR 0xE7, CHR 0xAD, CHR 0x94, CHR 0xE3, CHR 0x80, CHR 0x82]"

definition turn_anchor :: "string \<Rightarrow> string list \<Rightarrow> string" where
  "turn_anchor latest_user recent =
     (let zh = mostly_cjk 3 10 latest_user;
          extras = turn_topics latest_user @ turn_bans recent;
          switched = (\<not> zh \<and> recent \<noteq> [] \<and> mostly_cjk 1 2 (last recent))
      in if extras = [] \<and> \<not> switched then
           (if zh then zh_pin else ''Reply in English sentences only, with no pinyin.'')
         else
           (let snippet = map (\<lambda>c. if c = CHR 0x22 then CHR 0x27 else c)
                  (map (\<lambda>c. if c = CHR 0x0A then CHR '' '' else c) (utf8_prefix latest_user 160));
                head = (if zh then
                    [CHR 0xE5, CHR 0xAF, CHR 0xB9, CHR 0xE6, CHR 0x96, CHR 0xB9, CHR 0xE5, CHR 0x88, CHR 0x9A, CHR 0xE5, CHR 0x88, CHR 0x9A, CHR 0xE8, CHR 0xAF, CHR 0xB4, CHR 0xE7, CHR 0x9A, CHR 0x84, CHR 0xE6, CHR 0x98, CHR 0xAF, CHR 0xEF, CHR 0xBC, CHR 0x9A, CHR 0xE3, CHR 0x80, CHR 0x8C] @ snippet @
                    [CHR 0xE3, CHR 0x80, CHR 0x8D, CHR 0xE3, CHR 0x80, CHR 0x82, CHR 0xE7, CHR 0x9B, CHR 0xB4, CHR 0xE6, CHR 0x8E, CHR 0xA5, CHR 0xE5, CHR 0x9B, CHR 0x9E, CHR 0xE5, CHR 0xBA, CHR 0x94, CHR 0xE8, CHR 0xBF, CHR 0x99, CHR 0xE5, CHR 0x8F, CHR 0xA5, CHR 0xE8, CHR 0xAF, CHR 0x9D, CHR 0xE3, CHR 0x80, CHR 0x82]
                  else (''Their newest message is: '' @ [CHR 0x27]) @ snippet @ ([CHR 0x27] @ '' -- answer exactly that.''));
                notes = concat (map (\<lambda>extra. '' '' @ extra) extras);
                tail = (if zh then '' '' @ zh_pin
                  else (if switched then
                      '' The conversation just switched: even though your last reply was in Chinese, this message is in English -- switch back to English NOW.''
                    else []) @
                    '' This reply MUST be written in English sentences only -- no Chinese sentences and no pinyin.'')
            in head @ notes @ tail))"

subsection \<open>The streaming scrubber\<close>

datatype scrub_state = Clean | Star | FullParen | AngleOpen | Dead

record scrubber =
  sc_state :: scrub_state
  held :: string
  sc_pending :: string

definition new_scrubber :: scrubber where
  "new_scrubber = \<lparr>sc_state = Clean, held = [], sc_pending = []\<rparr>"

text \<open>One character: the text released by it and the new state.\<close>

definition scrub_char :: "char \<Rightarrow> scrubber \<Rightarrow> string \<times> scrubber" where
  "scrub_char ch s =
     (case sc_state s of
        Dead \<Rightarrow> ([], s)
      | Clean \<Rightarrow>
          if ch = CHR ''*'' then ([], s\<lparr>sc_state := Star, held := ''*''\<rparr>)
          else if ch = CHR ''<'' then ([], s\<lparr>sc_state := AngleOpen, held := ''<''\<rparr>)
          else if byte_of ch = 0xEF then ([], s\<lparr>sc_state := FullParen, held := [ch]\<rparr>)
          else ([ch], s)
      | Star \<Rightarrow>
          (let h = held s @ [ch] in
           if ch = CHR ''*'' then ([], s\<lparr>sc_state := Clean, held := []\<rparr>)
           else if ch = CHR 0x0A \<or> length h > 120 then (h, s\<lparr>sc_state := Clean, held := []\<rparr>)
           else ([], s\<lparr>held := h\<rparr>))
      | FullParen \<Rightarrow>
          (let h = held s @ [ch] in
           if length h = 3 then
             (if h = [CHR 0xEF, CHR 0xBC, CHR 0x88] then ([], s\<lparr>held := h, sc_pending := []\<rparr>)
              else (h, s\<lparr>sc_state := Clean, held := []\<rparr>))
           else if length h > 3 then
             (let p = sc_pending s @ [ch] in
              if find_sub [CHR 0xEF, CHR 0xBC, CHR 0x89] p \<noteq> None
                then ([], s\<lparr>sc_state := Clean, held := [], sc_pending := []\<rparr>)
              else if length p > 120 then (h, s\<lparr>sc_state := Clean, held := [], sc_pending := []\<rparr>)
              else ([], s\<lparr>held := h, sc_pending := p\<rparr>))
           else ([], s\<lparr>held := h\<rparr>))
      | AngleOpen \<Rightarrow>
          if ch = CHR ''|'' then ([], s\<lparr>sc_state := Dead, held := []\<rparr>)
          else if ch = CHR ''*'' then (held s, s\<lparr>sc_state := Star, held := ''*''\<rparr>)
          else if ch = CHR ''<'' then (held s, s\<lparr>sc_state := AngleOpen, held := ''<''\<rparr>)
          else (held s @ [ch], s\<lparr>sc_state := Clean, held := []\<rparr>))"

fun scrub_feed :: "string \<Rightarrow> scrubber \<Rightarrow> string \<times> scrubber" where
  "scrub_feed [] s = ([], s)"
| "scrub_feed (ch # delta) s =
     (let (out1, s1) = scrub_char ch s; (out2, s2) = scrub_feed delta s1 in (out1 @ out2, s2))"

definition scrub_flush :: "scrubber \<Rightarrow> string \<times> scrubber" where
  "scrub_flush s =
     (if sc_state s = AngleOpen then held s else [],
      s\<lparr>sc_state := Clean, held := [], sc_pending := []\<rparr>)"

subsection \<open>Adjacent pairs\<close>

text \<open>\<open>no_pair x y s\<close>: nowhere in \<open>s\<close> is \<open>x\<close> directly followed by \<open>y\<close>.\<close>

fun no_pair :: "char \<Rightarrow> char \<Rightarrow> string \<Rightarrow> bool" where
  "no_pair x y (a # b # s) = ((a = x \<longrightarrow> b \<noteq> y) \<and> no_pair x y (b # s))"
| "no_pair x y s = True"

lemma no_pair_Cons: "no_pair x y (a # s) \<longleftrightarrow> no_pair x y s \<and> (s \<noteq> [] \<longrightarrow> a = x \<longrightarrow> hd s \<noteq> y)"
  by (cases s) auto

lemma no_pair_append: "no_pair x y (s @ t) \<longleftrightarrow> no_pair x y s \<and> no_pair x y t \<and>
    (s \<noteq> [] \<longrightarrow> t \<noteq> [] \<longrightarrow> last s = x \<longrightarrow> hd t \<noteq> y)"
  by (induction s) (auto simp: no_pair_Cons)

lemma no_pair_rev: "no_pair x y (rev s) = no_pair y x s"
  by (induction s) (auto simp: no_pair_Cons no_pair_append last_rev)

lemma no_pair_take: "no_pair x y s \<Longrightarrow> no_pair x y (take n s)"
  by (metis append_take_drop_id no_pair_append)

lemma no_pair_drop: "no_pair x y s \<Longrightarrow> no_pair x y (drop n s)"
  by (metis append_take_drop_id no_pair_append)

lemma no_pair_dropWhile: "no_pair x y s \<Longrightarrow> no_pair x y (dropWhile P s)"
  by (metis dropWhile_eq_drop no_pair_drop)

lemma no_pair_find_sub: "no_pair x y s \<longleftrightarrow> find_sub [x, y] s = None"
  by (induction s rule: no_pair.induct [of _ x y]) auto

lemma no_pair_cut_at: "no_pair x y (cut_at [x, y] s)"
proof (cases "find_sub [x, y] s")
  case None
  then show ?thesis by (simp add: cut_at_def no_pair_find_sub)
next
  case (Some i)
  have "find_sub [x, y] (take i s) = None"
  proof (rule ccontr)
    assume "find_sub [x, y] (take i s) \<noteq> None"
    then obtain j where "find_sub [x, y] (take i s) = Some j" by blast
    then have "starts_with [x, y] (drop j (take i s))" "j + 2 \<le> length (take i s)"
      using find_sub_Some by fastforce+
    then have "starts_with [x, y] (drop j s)" "j < i"
      by (auto simp: starts_with_iff) (metis append.simps(1,2) append_assoc append_take_drop_id drop_append)
    with find_sub_least [OF Some] show False by blast
  qed
  then show ?thesis by (simp add: cut_at_def Some no_pair_find_sub)
qed

lemma strip_spans_hd:
  "strip_spans s opn close n \<noteq> [] \<Longrightarrow> s \<noteq> [] \<and> (hd (strip_spans s opn close n) = hd s \<or> hd (strip_spans s opn close n) = CHR '' '')"
proof -
  assume ne: "strip_spans s opn close n \<noteq> []"
  then have s: "s \<noteq> []" by (auto simp: strip_spans.simps [of s])
  show ?thesis
  proof (cases "opn = [] \<or> find_sub opn s = None")
    case True
    with s show ?thesis by (auto simp: strip_spans.simps [of s])
  next
    case False
    then obtain b where b: "opn \<noteq> []" "find_sub opn s = Some b" by auto
    show ?thesis
    proof (cases b)
      case 0
      with s b ne show ?thesis
        by (auto simp: strip_spans.simps [of s] Let_def hd_append split: option.splits if_splits)
    next
      case (Suc k)
      with s b have "hd (strip_spans s opn close n) = hd s"
        by (auto simp: strip_spans.simps [of s] Let_def hd_append)
      with s show ?thesis by blast
    qed
  qed
qed

lemma no_pair_strip_spans:
  assumes xy: "x \<noteq> CHR '' ''" "y \<noteq> CHR '' ''"
  shows "no_pair x y s \<Longrightarrow> no_pair x y (strip_spans s opn close n)"
proof (induction "length s" arbitrary: s rule: less_induct)
  case (less s)
  show ?case
  proof (cases "s = [] \<or> opn = [] \<or> find_sub opn s = None")
    case True
    with less.prems show ?thesis by (auto simp: strip_spans.simps [of s])
  next
    case False
    then obtain b where ne: "\<not> (s = [] \<or> opn = [])" and b: "find_sub opn s = Some b" by auto
    let ?body = "drop (b + length opn) s"
    show ?thesis
    proof (cases "find_sub close ?body")
      case None
      with ne b less.prems show ?thesis
        by (auto simp: strip_spans.simps [of s] no_pair_take)
    next
      case (Some e)
      let ?rest = "drop (e + length close) ?body"
      let ?out = "strip_spans ?rest opn close n"
      have IH: "no_pair x y ?out"
        using less.hyps [of ?rest] find_sub_Some [OF b] ne no_pair_drop [OF no_pair_drop [OF less.prems]] by auto
      show ?thesis
      proof (cases "e > n")
        case True
        let ?kept = "take b s @ take (length opn + e + length close) (drop b s)"
        have "?kept = take (b + (length opn + e + length close)) s" by (simp add: take_add)
        moreover have "?rest = drop (b + (length opn + e + length close)) s" by (simp add: ac_simps)
        ultimately have split: "?kept @ ?rest = s" by (simp only: append_take_drop_id)
        have "no_pair x y (?kept @ ?out)"
          using IH less.prems xy strip_spans_hd [of ?rest opn close n]
          unfolding no_pair_append [of _ _ ?kept] by (metis split no_pair_append)
        with True ne b Some show ?thesis by (simp add: strip_spans.simps [of s])
      next
        case False
        with ne b Some IH xy less.prems show ?thesis
          by (simp add: strip_spans.simps [of s] no_pair_append no_pair_Cons no_pair_take)
      qed
    qed
  qed
qed

lemma squeeze_blanks_hd:
  "squeeze_blanks s b \<noteq> [] \<Longrightarrow> hd (squeeze_blanks s b) = CHR '' '' \<or> b \<or> hd (squeeze_blanks s b) = hd s"
  by (cases s) auto

lemma no_pair_squeeze:
  "x \<noteq> CHR '' '' \<Longrightarrow> y \<noteq> CHR '' '' \<Longrightarrow> no_pair x y s \<Longrightarrow> no_pair x y (squeeze_blanks s b)"
proof (induction s b rule: squeeze_blanks.induct)
  case (2 c cs b)
  then show ?case
    using squeeze_blanks_hd [of cs False] by (cases cs) (auto simp: no_pair_Cons split: if_splits)
qed simp

lemma no_pair_collapse:
  "x \<noteq> CHR '' '' \<Longrightarrow> y \<noteq> CHR '' '' \<Longrightarrow> no_pair x y s \<Longrightarrow> no_pair x y (collapse_spaces s)"
  by (simp add: collapse_spaces_def trim_blanks_def no_pair_rev no_pair_dropWhile no_pair_squeeze)

lemma no_pair_quoted_spans: "no_pair x y s \<Longrightarrow> t \<in> set (quoted_spans s opn close) \<Longrightarrow> no_pair x y t"
proof (induction "length s" arbitrary: s rule: less_induct)
  case (less s)
  have ne: "opn \<noteq> []" using less.prems(2) by (auto simp: quoted_spans.simps [of s])
  with less.prems(2) obtain b where b: "find_sub opn s = Some b"
    by (cases "find_sub opn s") (auto simp: quoted_spans.simps [of s])
  with ne less.prems(2) obtain e where e: "find_sub close (drop (b + length opn) s) = Some e"
    by (cases "find_sub close (drop (b + length opn) s)") (auto simp: quoted_spans.simps [of s])
  let ?body = "drop (b + length opn) s"
  have "t = take e ?body \<or> t \<in> set (quoted_spans (drop (e + length close) ?body) opn close)"
    using less.prems(2) ne b e by (auto simp: quoted_spans.simps [of s] Let_def split: if_splits)
  then show ?case
  proof
    assume "t = take e ?body"
    then show ?thesis using less.prems(1) by (simp add: no_pair_take no_pair_drop)
  next
    assume "t \<in> set (quoted_spans (drop (e + length close) ?body) opn close)"
    moreover have "length (drop (e + length close) ?body) < length s"
    proof -
      obtain c cs where "opn = c # cs" using ne by (cases opn) auto
      with find_sub_Some [OF b] show ?thesis by auto
    qed
    ultimately show ?thesis
      using less.hyps no_pair_drop [OF no_pair_drop [OF less.prems(1)]] by blast
  qed
qed

lemma no_pair_join:
  "x \<noteq> CHR '' '' \<Longrightarrow> y \<noteq> CHR '' '' \<Longrightarrow> no_pair x y joined \<Longrightarrow> (\<And>t. t \<in> set spans \<Longrightarrow> no_pair x y t) \<Longrightarrow>
   no_pair x y (join_with_blank spans joined)"
proof (induction spans arbitrary: joined)
  case (Cons span spans)
  then have "no_pair x y ((if joined = [] then [] else joined @ '' '') @ span)"
    by (auto simp: no_pair_append)
  with Cons show ?case by simp
qed simp

lemma no_pair_recover:
  "x \<noteq> CHR '' '' \<Longrightarrow> y \<noteq> CHR '' '' \<Longrightarrow> no_pair x y s \<Longrightarrow> no_pair x y (recover_quoted_dialogue s)"
  by (auto simp: recover_quoted_dialogue_def Let_def intro!: no_pair_join dest: no_pair_quoted_spans)

lemma no_pair_drop_stray: "no_pair x y s \<Longrightarrow> no_pair x y (drop_stray_star s)"
  by (auto simp: drop_stray_star_def no_pair_take split: option.splits)

lemma no_pair_unwrap: "no_pair x y s \<Longrightarrow> no_pair x y (fold unwrap_quote marks s)"
proof (induction marks arbitrary: s)
  case (Cons m marks)
  then have "no_pair x y (unwrap_quote m s)"
    by (auto simp: unwrap_quote_def substr_def no_pair_take no_pair_drop split: prod.splits)
  with Cons.IH show ?case by simp
qed simp

lemma no_pair_sanitize:
  "x \<noteq> CHR '' '' \<Longrightarrow> y \<noteq> CHR '' '' \<Longrightarrow> no_pair x y (cut_at [CHR 0x0A, CHR 0x0A] (cut_at ''<|'' s)) \<Longrightarrow>
   no_pair x y (sanitize_assistant_text s)"
  unfolding sanitize_assistant_text_def Let_def
  by (intro no_pair_collapse no_pair_unwrap no_pair_recover no_pair_strip_spans no_pair_drop_stray)

subsection \<open>The scrubber's invariant\<close>

text \<open>What each state holds back: never more than 123 bytes.\<close>

definition scrub_ok :: "scrubber \<Rightarrow> bool" where
  "scrub_ok s \<longleftrightarrow>
     (case sc_state s of
        Clean \<Rightarrow> held s = [] \<and> sc_pending s = []
      | Dead \<Rightarrow> held s = [] \<and> sc_pending s = []
      | Star \<Rightarrow> 1 \<le> length (held s) \<and> length (held s) \<le> 120 \<and> sc_pending s = []
      | AngleOpen \<Rightarrow> held s = ''<'' \<and> sc_pending s = []
      | FullParen \<Rightarrow> 1 \<le> length (held s) \<and> length (sc_pending s) \<le> 120 \<and>
          (length (held s) \<le> 2 \<longrightarrow> sc_pending s = []) \<and>
          (3 \<le> length (held s) \<longrightarrow> length (held s) = 3 + length (sc_pending s)))"

lemma scrub_ok_new: "scrub_ok new_scrubber"
  by (simp add: scrub_ok_def new_scrubber_def)

lemma scrub_char_ok: "scrub_ok s \<Longrightarrow> scrub_ok (snd (scrub_char c s))"
  by (cases "sc_state s") (auto simp: scrub_ok_def scrub_char_def Let_def)

lemma scrub_feed_append:
  "scrub_feed (a @ b) s =
     (fst (scrub_feed a s) @ fst (scrub_feed b (snd (scrub_feed a s))), snd (scrub_feed b (snd (scrub_feed a s))))"
  by (induction a arbitrary: s) (auto simp: Let_def split: prod.splits)

lemma scrub_feed_ok: "scrub_ok s \<Longrightarrow> scrub_ok (snd (scrub_feed d s))"
proof (induction d arbitrary: s)
  case (Cons c d)
  with scrub_char_ok [of s c] show ?case by (auto simp: Let_def split: prod.splits) (metis snd_conv)
qed simp

lemma scrub_char_subseq: "scrub_ok s \<Longrightarrow> subseq (fst (scrub_char c s) @ held (snd (scrub_char c s))) (held s @ [c])"
  by (cases "sc_state s") (auto simp: scrub_ok_def scrub_char_def Let_def)

lemma scrub_feed_subseq:
  "scrub_ok s \<Longrightarrow> subseq (fst (scrub_feed d s) @ held (snd (scrub_feed d s))) (held s @ d)"
proof (induction d arbitrary: s)
  case (Cons c d)
  let ?o = "fst (scrub_char c s)" and ?s = "snd (scrub_char c s)"
  have "subseq (fst (scrub_feed d ?s) @ held (snd (scrub_feed d ?s))) (held ?s @ d)"
    using Cons scrub_char_ok by blast
  then have "subseq (?o @ fst (scrub_feed d ?s) @ held (snd (scrub_feed d ?s))) (?o @ held ?s @ d)"
    by (rule list_emb_append_mono [OF subseq_order.refl])
  moreover have "subseq ((?o @ held ?s) @ d) ((held s @ [c]) @ d)"
    by (rule list_emb_append_mono [OF scrub_char_subseq [OF Cons.prems] subseq_order.refl])
  ultimately show ?case by (auto simp: Let_def split: prod.splits dest: subseq_order.trans)
qed simp

subsection \<open>What the scrubber does to clean text, actions and leaks\<close>

definition plain_char :: "char \<Rightarrow> bool" where
  "plain_char c \<longleftrightarrow> c \<noteq> CHR ''*'' \<and> c \<noteq> CHR ''<'' \<and> byte_of c \<noteq> 0xEF"

definition action_char :: "char \<Rightarrow> bool" where
  "action_char c \<longleftrightarrow> c \<noteq> CHR ''*'' \<and> c \<noteq> CHR 0x0A"

lemma scrub_plain: "sc_state s = Clean \<Longrightarrow> list_all plain_char a \<Longrightarrow> scrub_feed a s = (a, s)"
  by (induction a) (auto simp: scrub_char_def plain_char_def)

lemma scrub_dead: "sc_state s = Dead \<Longrightarrow> scrub_feed d s = ([], s)"
  by (induction d) (auto simp: scrub_char_def)

lemma scrub_star_body:
  "sc_state s = Star \<Longrightarrow> list_all action_char w \<Longrightarrow> length (held s) + length w \<le> 120 \<Longrightarrow>
   scrub_feed w s = ([], s\<lparr>held := held s @ w\<rparr>)"
proof (induction w arbitrary: s)
  case (Cons c w)
  then have "scrub_char c s = ([], s\<lparr>held := held s @ [c]\<rparr>)"
    by (auto simp: scrub_char_def action_char_def)
  with Cons show ?case by simp
qed simp

lemma scrub_action:
  assumes "sc_state s = Clean" "held s = []" "list_all action_char w" "length w \<le> 119"
  shows "scrub_feed (''*'' @ w @ ''*'') s = ([], s)"
proof -
  have "scrub_feed w (s\<lparr>sc_state := Star, held := ''*''\<rparr>) = ([], s\<lparr>sc_state := Star, held := ''*'' @ w\<rparr>)"
    using assms scrub_star_body [of "s\<lparr>sc_state := Star, held := ''*''\<rparr>" w] by simp
  then show ?thesis
    using assms(1,2) by (simp add: scrub_char_def [of _ s] scrub_feed_append) (simp add: scrub_char_def)
qed

lemma utf8_boundary_le: "utf8_boundary t e \<le> e"
  by (induction t e rule: utf8_boundary.induct) auto

lemma utf8_boundary_char: "utf8_boundary t e = 0 \<or> byte_of (t ! utf8_boundary t e) div 64 \<noteq> 2"
  by (induction t e rule: utf8_boundary.induct) auto

lemma add_ban_le: "length bans \<le> 3 \<Longrightarrow> length (add_ban b t bans) \<le> 3"
  by (simp add: add_ban_def)

lemma fold_add_ban_le: "length bans \<le> 3 \<Longrightarrow> length (fold (\<lambda>g. add_ban (P g) (f g)) gs bans) \<le> 3"
  by (induction gs arbitrary: bans) (auto simp: add_ban_le)

subsection \<open>Properties\<close>

text \<open>
  C11. A sanitised reply never carries a special-token opener (\<^verbatim>\<open><|\<close>) or a paragraph break
  into the next prompt: neither what the cuts left nor what the later clean-up joined.
\<close>

theorem sanitize_no_leak:
  "\<not> contains (sanitize_assistant_text tx) ''<|'' \<and>
   \<not> contains (sanitize_assistant_text tx) [CHR 0x0A, CHR 0x0A]"
proof -
  have "no_pair CHR ''<'' CHR ''|'' (cut_at [CHR 0x0A, CHR 0x0A] (cut_at ''<|'' tx))"
    using no_pair_cut_at [of "CHR ''<''" "CHR ''|''" tx]
    by (auto simp: cut_at_def [of "[CHR 0x0A, CHR 0x0A]"] no_pair_take split: option.splits)
  then show ?thesis
    using no_pair_sanitize [of "CHR ''<''" "CHR ''|''"] no_pair_sanitize [of "CHR 0x0A" "CHR 0x0A"]
    by (simp add: contains_def no_pair_cut_at flip: no_pair_find_sub)
qed

text \<open>
  C12. The scrubber invents nothing and loses no order: at every point of a reply, however
  the stream is cut into deltas, what it has released followed by what it still holds is
  a subsequence of the input, and it never holds back more than 123 bytes.
\<close>

theorem scrubber_subsequence:
  "subseq (fst (scrub_feed d new_scrubber) @ held (snd (scrub_feed d new_scrubber))) d \<and>
   length (held (snd (scrub_feed d new_scrubber))) \<le> 123 \<and>
   (d = d1 @ d2 \<longrightarrow> fst (scrub_feed d new_scrubber) =
      fst (scrub_feed d1 new_scrubber) @ fst (scrub_feed d2 (snd (scrub_feed d1 new_scrubber))))"
proof -
  have "scrub_ok (snd (scrub_feed d new_scrubber))"
    by (rule scrub_feed_ok) (rule scrub_ok_new)
  then have "length (held (snd (scrub_feed d new_scrubber))) \<le> 123"
    by (auto simp: scrub_ok_def split: scrub_state.splits)
  then show ?thesis
    using scrub_feed_subseq [OF scrub_ok_new, of d] by (auto simp: new_scrubber_def scrub_feed_append)
qed

theorem scrubber_subsequence_witness:
  "fst (scrub_feed ''a*b*c'' new_scrubber) =
     fst (scrub_feed ''a*b'' new_scrubber) @ fst (scrub_feed ''*c'' (snd (scrub_feed ''a*b'' new_scrubber)))"
  using scrubber_subsequence [of "''a*b*c''" "''a*b''" "''*c''"] by simp

text \<open>
  Markup is dropped and nothing else: plain text around a short \<^verbatim>\<open>*action*\<close> passes
  unchanged and the action vanishes, and a special-token opener ends the reply.
\<close>

lemma scrubber_drops_markup:
  assumes "list_all plain_char a" "list_all plain_char b" "list_all action_char w" "length w \<le> 119"
  shows "scrub_feed (a @ (''*'' @ w @ ''*'') @ b) new_scrubber = (a @ b, new_scrubber) \<and>
    fst (scrub_feed (a @ ''<|'' @ leak) new_scrubber) = a"
proof
  have clean: "sc_state new_scrubber = Clean" "held new_scrubber = []"
    by (simp_all add: new_scrubber_def)
  show "scrub_feed (a @ (''*'' @ w @ ''*'') @ b) new_scrubber = (a @ b, new_scrubber)"
    using scrub_plain [OF clean(1) assms(1)] scrub_plain [OF clean(1) assms(2)]
      scrub_action [OF clean assms(3,4)]
    by (simp only: scrub_feed_append fst_conv snd_conv append_Nil)
  have "scrub_feed (''<|'' @ leak) new_scrubber = ([], new_scrubber\<lparr>sc_state := Dead\<rparr>)"
    by (simp add: scrub_char_def new_scrubber_def scrub_dead)
  then show "fst (scrub_feed (a @ ''<|'' @ leak) new_scrubber) = a"
    using scrub_plain [OF clean(1) assms(1)] by (simp only: scrub_feed_append fst_conv snd_conv append_Nil2)
qed

text \<open>
  The steering note always ends with the language pin, and carries at most three
  dynamic bans.
\<close>

lemma turn_anchor_pin:
  "(\<exists>note. turn_anchor user recent =
      note @ (if mostly_cjk 3 10 user then zh_pin else ''no pinyin.'')) \<and>
   length (turn_bans recent) \<le> 3"
proof
  show "length (turn_bans recent) \<le> 3"
    by (auto simp: turn_bans_def Let_def intro!: fold_add_ban_le add_ban_le split: option.splits)
  have quiet: "''Reply in English sentences only, with no pinyin.'' =
      ''Reply in English sentences only, with '' @ ''no pinyin.''" by simp
  have must: "'' This reply MUST be written in English sentences only -- no Chinese sentences and no pinyin.'' =
      '' This reply MUST be written in English sentences only -- no Chinese sentences and '' @ ''no pinyin.''" by simp
  show "\<exists>note. turn_anchor user recent = note @ (if mostly_cjk 3 10 user then zh_pin else ''no pinyin.'')"
    unfolding turn_anchor_def Let_def quiet must
    by (simp only: append_assoc [symmetric] split: if_split) blast
qed

text \<open>
  The quoted snippet is cut on a code-point boundary: it is a prefix of at most the
  allowed bytes, and what follows it does not start with a continuation byte.
\<close>

lemma utf8_prefix_boundary:
  "\<exists>rest. t = utf8_prefix t n @ rest \<and> length (utf8_prefix t n) \<le> n \<and>
     (rest = [] \<or> utf8_prefix t n = [] \<or> byte_of (hd rest) div 64 \<noteq> 2)"
proof (cases "length t \<le> n")
  case False
  let ?e = "utf8_boundary t n"
  have "?e < length t" using False utf8_boundary_le [of t n] by simp
  then have "hd (drop ?e t) = t ! ?e" by (simp add: hd_drop_conv_nth)
  then have "t = take ?e t @ drop ?e t \<and> length (take ?e t) \<le> n \<and>
      (drop ?e t = [] \<or> take ?e t = [] \<or> byte_of (hd (drop ?e t)) div 64 \<noteq> 2)"
    using utf8_boundary_char [of t n] utf8_boundary_le [of t n] False by auto
  with False show ?thesis unfolding utf8_prefix_def by (metis (full_types))
qed (simp add: utf8_prefix_def)

text \<open>
  Two ways in which markup passes the scrubber: a full-width aside directly after an angle
  bracket, and a special token inside an asterisk span that a newline releases.
\<close>

theorem scrubber_leaks:
  "fst (scrub_feed ([CHR ''<'', CHR 0xEF, CHR 0xBC, CHR 0x88] @ ''x'' @ [CHR 0xEF, CHR 0xBC, CHR 0x89]) new_scrubber) =
     [CHR ''<'', CHR 0xEF, CHR 0xBC, CHR 0x88] @ ''x'' @ [CHR 0xEF, CHR 0xBC, CHR 0x89] \<and>
   fst (scrub_feed (''*<|x'' @ [CHR 0x0A]) new_scrubber) = ''*<|x'' @ [CHR 0x0A]"
  by (simp add: scrub_char_def new_scrubber_def byte_of_def)

end
