(* ===== verification/Voice_Live.thy ===== *)
theory Voice_Live
  imports Prelude Voice_Stability Complex_Main
begin

text \<open>
  One live voice connection (\<^verbatim>\<open>app/server/voice.cpp\<close>): JSON string escaping, the semantic
  endpoint test, the query parser, and \<open>VoiceLiveRunner\<close> with its audio loop and its decode
  worker as an interleaving step relation.

  A pass of the audio loop over one block, a critical section of the commit, and the worker's
  take and hand-over are the atomic steps; blocking waits are guards. Clock readings are
  integers in nanoseconds, samples and levels are reals (rounding is not modelled), and the
  event payload keeps the transcript fields without the timing numbers. The Silero session and
  the ASR are parameters: \<open>vad\<close> maps its state and a 512-sample window to activity events, the
  ASR's answer is the text and language of the worker step.
\<close>

subsection \<open>Payload text\<close>

definition hex_digit :: "nat \<Rightarrow> char" where
  "hex_digit n = (if n < 10 then char_of (48 + n) else char_of (87 + n))"

definition json_escape_char :: "char \<Rightarrow> string" where
  "json_escape_char c =
     (if c = CHR 0x22 then [CHR 0x5C, CHR 0x22]
      else if c = CHR 0x5C then [CHR 0x5C, CHR 0x5C]
      else if c = CHR 0x0A then [CHR 0x5C, CHR ''n'']
      else if c = CHR 0x0D then [CHR 0x5C, CHR ''r'']
      else if c = CHR 0x09 then [CHR 0x5C, CHR ''t'']
      else if byte_of c < 0x20
        then [CHR 0x5C, CHR ''u'', CHR ''0'', CHR ''0'', hex_digit (byte_of c div 16), hex_digit (byte_of c mod 16)]
      else [c])"

definition json_escape :: "string \<Rightarrow> string" where
  "json_escape text = concat (map json_escape_char text)"

subsection \<open>Semantic endpointing\<close>

text \<open>How many bytes of junk the reversed text starts with (0, 1 or 3).\<close>

definition tail_junk :: "string \<Rightarrow> nat" where
  "tail_junk r =
     (case r of
        [] \<Rightarrow> 0
      | back # before \<Rightarrow>
          if byte_of back < 0x80 then (if is_punct back \<or> is_space_byte back then 1 else 0)
          else
            (case before of
               second # lead # _ \<Rightarrow>
                 if (byte_of lead = 0xE3 \<and> byte_of second = 0x80) \<or> byte_of lead = 0xEF \<or>
                    (byte_of lead = 0xE2 \<and> byte_of second = 0x80)
                 then 3 else 0
             | _ \<Rightarrow> 0))"

function strip_tail :: "string \<Rightarrow> string" where
  "strip_tail r = (if tail_junk r = 0 then r else strip_tail (drop (tail_junk r) r))"
  by pat_completeness auto
termination
  by (relation "measure length") (auto simp: tail_junk_def split: list.splits if_splits)

declare strip_tail.simps [simp del]

definition kContinuationWords :: "string list" where
  "kContinuationWords = [''and'', ''but'', ''or'', ''so'', ''then'', ''because'', ''like'', ''um'', ''uh'',
     ''the'', ''a'', ''an'', ''to'', ''of'', ''with'', ''if'', ''when'', ''for'', ''in'', ''on'', ''at'', ''my'']"

definition kContinuationCjk :: "string list" where
  "kContinuationCjk = [[CHR 0xE7, CHR 0x9A, CHR 0x84], [CHR 0xE5, CHR 0x92, CHR 0x8C],
     [CHR 0xE6, CHR 0x88, CHR 0x96], [CHR 0xE8, CHR 0xB7, CHR 0x9F],
     [CHR 0xE6, CHR 0x8A, CHR 0x8A], [CHR 0xE7, CHR 0xBB, CHR 0x99],
     [CHR 0xE5, CHR 0x9C, CHR 0xA8], [CHR 0xE6, CHR 0x98, CHR 0xAF],
     [CHR 0xE5, CHR 0xB0, CHR 0xB1], [CHR 0xE8, CHR 0xBF, CHR 0x98],
     [CHR 0xE5, CHR 0x8F, CHR 0x88], [CHR 0xE5, CHR 0x97, CHR 0xAF],
     [CHR 0xE5, CHR 0x91, CHR 0x83], [CHR 0xE9, CHR 0x82, CHR 0xA3],
     [CHR 0xE8, CHR 0xBF, CHR 0x99], [CHR 0xE5, CHR 0xBE, CHR 0x88],
     [CHR 0xE5, CHR 0xA4, CHR 0xAA], [CHR 0xE8, CHR 0xA6, CHR 0x81]]"

definition hypothesis_looks_incomplete :: "string \<Rightarrow> bool" where
  "hypothesis_looks_incomplete text =
     (let t = rev (strip_tail (rev text)) in
      if t = [] then False
      else
        (let last = (case rfind_idx (\<lambda>c. c = CHR '' '') t of None \<Rightarrow> t | Some space \<Rightarrow> drop (space + 1) t) in
         if last \<noteq> [] \<and> byte_of (hd last) < 0x80
         then List.member kContinuationWords (map to_lower last)
         else length t \<ge> 3 \<and> List.member kContinuationCjk (drop (length t - 3) t)))"

subsection \<open>Turn parameters\<close>

record turn_params =
  vad_threshold :: real
  min_speech_ms :: int
  min_silence_ms :: int
  endpoint_hold_ms :: int
  endpoint_hold_incomplete_ms :: int
  max_utterance_ms :: int
  partial_interval_ms :: int
  min_partial_audio_ms :: int
  speech_pad_ms :: int
  min_speech_snr :: real
  min_speech_rms :: real
  stability :: stability_params
  language :: string

definition default_turn_params :: turn_params where
  "default_turn_params =
     \<lparr>vad_threshold = 1 / 2, min_speech_ms = 100, min_silence_ms = 120, endpoint_hold_ms = 110,
      endpoint_hold_incomplete_ms = 350, max_utterance_ms = 30000, partial_interval_ms = 280,
      min_partial_audio_ms = 700, speech_pad_ms = 240, min_speech_snr = 3, min_speech_rms = 12 / 1000,
      stability = default_stability, language = []\<rparr>"

text \<open>\<^verbatim>\<open>std::stoi\<close> ignores what follows the number; a throw is caught and keeps the default.\<close>

definition stoi :: "string \<Rightarrow> int option" where
  "stoi s = (case sto_signed 32 s of Inl _ \<Rightarrow> None | Inr (v, _) \<Rightarrow> Some v)"

definition on_some :: "('a \<Rightarrow> 'b \<Rightarrow> 'b) \<Rightarrow> 'a option \<Rightarrow> 'b \<Rightarrow> 'b" where
  "on_some f v p = (case v of None \<Rightarrow> p | Some x \<Rightarrow> f x p)"

text \<open>One \<^verbatim>\<open>key=value\<close> pair; \<open>stof\<close> is the standard library's float parser.\<close>

definition apply_turn_param :: "(string \<Rightarrow> real option) \<Rightarrow> string \<Rightarrow> string \<Rightarrow> turn_params \<Rightarrow> turn_params" where
  "apply_turn_param stof key v p =
     (if key = ''vad_threshold'' then on_some (\<lambda>x p. p\<lparr>vad_threshold := x\<rparr>) (stof v) p
      else if key = ''min_speech_ms'' then on_some (\<lambda>x p. p\<lparr>min_speech_ms := x\<rparr>) (stoi v) p
      else if key = ''min_silence_ms'' then on_some (\<lambda>x p. p\<lparr>min_silence_ms := x\<rparr>) (stoi v) p
      else if key = ''max_utterance_ms'' then on_some (\<lambda>x p. p\<lparr>max_utterance_ms := x\<rparr>) (stoi v) p
      else if key = ''partial_interval_ms'' then on_some (\<lambda>x p. p\<lparr>partial_interval_ms := x\<rparr>) (stoi v) p
      else if key = ''min_partial_audio_ms'' then on_some (\<lambda>x p. p\<lparr>min_partial_audio_ms := x\<rparr>) (stoi v) p
      else if key = ''min_speech_snr'' then on_some (\<lambda>x p. p\<lparr>min_speech_snr := x\<rparr>) (stof v) p
      else if key = ''min_speech_rms'' then on_some (\<lambda>x p. p\<lparr>min_speech_rms := x\<rparr>) (stof v) p
      else if key = ''endpoint_hold_ms'' then on_some (\<lambda>x p. p\<lparr>endpoint_hold_ms := x\<rparr>) (stoi v) p
      else if key = ''endpoint_hold_incomplete_ms''
        then on_some (\<lambda>x p. p\<lparr>endpoint_hold_incomplete_ms := x\<rparr>) (stoi v) p
      else if key = ''speech_pad_ms'' then on_some (\<lambda>x p. p\<lparr>speech_pad_ms := x\<rparr>) (stoi v) p
      else if key = ''stable_hypothesis_count'' then
        on_some (\<lambda>x p. p\<lparr>stability := (stability p)\<lparr>stable_hypothesis_count := x\<rparr>\<rparr>) (stoi v) p
      else if key = ''min_stable_chars'' then
        on_some (\<lambda>x p. p\<lparr>stability := (stability p)\<lparr>min_stable_chars := x\<rparr>\<rparr>) (stoi v) p
      else if key = ''language'' then p\<lparr>language := v\<rparr>
      else p)"

fun query_loop :: "(string \<Rightarrow> real option) \<Rightarrow> string \<Rightarrow> turn_params \<Rightarrow> turn_params" where
  "query_loop stof [] p = p"
| "query_loop stof (c # cs) p =
     (let pair = takeWhile (\<lambda>c. c \<noteq> CHR ''&'') (c # cs);
          rest = drop (length pair) cs;
          p' = (case find_idx (\<lambda>c. c = CHR ''='') pair of
                  None \<Rightarrow> p
                | Some eq \<Rightarrow> apply_turn_param stof (take eq pair) (drop (eq + 1) pair) p)
      in query_loop stof rest p')"

definition turn_params_from_query :: "(string \<Rightarrow> real option) \<Rightarrow> string \<Rightarrow> turn_params" where
  "turn_params_from_query stof query = query_loop stof query default_turn_params"

subsection \<open>The runner's state\<close>

datatype activity = SpeechStart | SpeechEnd | OtherActivity

datatype vevent =
  Speech_Started int
| Partial_Transcript int string
| Stable_Transcript int string
| Endpoint_Likely int string
| Speech_Discarded int
| Speech_Ended int
| Final_Transcript int string string
| Error_Event

record job =
  job_utterance :: int
  job_final :: bool
  job_candidate :: bool
  job_audio :: "real list"

text \<open>Where the audio thread is, and what it does once a commit is through.\<close>

datatype after_commit = Next_Block | Reset_Vad | End_Stream

datatype audio_pc =
  Reading
| Wait_Idle after_commit
| Enqueue_Final after_commit
| Wait_Final after_commit
| Joining

record 'v live =
  vad_state :: 'v
  vad_pending :: "real list"
  speaking :: bool
  utterance_id :: int
  preroll :: "real list"
  utterance :: "real list"
  speech_started_at :: int
  last_partial_enqueue :: int
  pending_end :: bool
  pending_since :: int
  gap_buffer :: "real list"
  candidate :: "string \<times> string"
  candidate_valid :: bool
  candidate_samples :: nat
  latest_hypothesis :: string
  pending_job :: "job option"
  in_flight :: "job option"
  quit :: bool
  tracker :: stracker
  last_partial_emitted :: string
  last_growth_hypothesis :: string
  hypothesis_stalls :: nat
  endpoint_likely_utt :: int
  noise_floor_rms :: real
  utterance_peak_rms :: real
  audio_pc :: audio_pc
  events :: "vevent list"

abbreviation worker_busy :: "'v live \<Rightarrow> bool" where
  "worker_busy s \<equiv> in_flight s \<noteq> None"

definition live_emit :: "vevent \<Rightarrow> 'v live \<Rightarrow> 'v live" where
  "live_emit e s = s\<lparr>events := events s @ [e]\<rparr>"

definition ns_per_ms :: int where
  "ns_per_ms = 1000000"

subsection \<open>The decode queue\<close>

definition make_job :: "bool \<Rightarrow> bool \<Rightarrow> 'v live \<Rightarrow> job" where
  "make_job final cand s =
     \<lparr>job_utterance = utterance_id s, job_final = final, job_candidate = cand, job_audio = utterance s\<rparr>"

text \<open>\<open>enqueue_decode(false)\<close>: best effort, never behind another job.\<close>

definition enqueue_partial :: "'v live \<Rightarrow> 'v live" where
  "enqueue_partial s =
     (if worker_busy s \<or> pending_job s \<noteq> None then s
      else s\<lparr>pending_job := Some (make_job False False s)\<rparr>)"

text \<open>\<open>enqueue_decode(false, true)\<close>: replaces a queued partial.\<close>

definition enqueue_candidate :: "'v live \<Rightarrow> 'v live" where
  "enqueue_candidate s = s\<lparr>pending_job := Some (make_job False True s)\<rparr>"

definition candidate_fresh :: "'v live \<Rightarrow> bool" where
  "candidate_fresh s \<longleftrightarrow> candidate_valid s \<and> candidate_samples s + 16 * 480 \<ge> length (utterance s)"

subsection \<open>Turns\<close>

definition begin_utterance :: "int \<Rightarrow> 'v live \<Rightarrow> 'v live" where
  "begin_utterance now s =
     live_emit (Speech_Started (utterance_id s + 1))
       (s\<lparr>speaking := True, pending_end := False, gap_buffer := [], utterance_id := utterance_id s + 1,
          speech_started_at := now, last_partial_enqueue := now, tracker := stracker_reset (tracker s),
          last_partial_emitted := [], last_growth_hypothesis := [], hypothesis_stalls := 0,
          endpoint_likely_utt := -1, utterance_peak_rms := 0, utterance := preroll s,
          candidate_valid := False, latest_hypothesis := []\<rparr>)"

definition begin_pending_end :: "int \<Rightarrow> 'v live \<Rightarrow> 'v live" where
  "begin_pending_end now s =
     (let s1 = s\<lparr>pending_end := True, pending_since := now, gap_buffer := []\<rparr> in
      if candidate_fresh s1 then s1 else enqueue_candidate s1)"

definition resume_from_pending :: "'v live \<Rightarrow> 'v live" where
  "resume_from_pending s =
     s\<lparr>pending_end := False, utterance := utterance s @ gap_buffer s, candidate_valid := False,
       gap_buffer := []\<rparr>"

definition handle_activity :: "int \<Rightarrow> activity \<Rightarrow> 'v live \<Rightarrow> 'v live" where
  "handle_activity now a s =
     (case a of
        SpeechStart \<Rightarrow>
          if \<not> speaking s then begin_utterance now s
          else if pending_end s then resume_from_pending s else s
      | SpeechEnd \<Rightarrow> if speaking s \<and> \<not> pending_end s then begin_pending_end now s else s
      | OtherActivity \<Rightarrow> s)"

definition noise_gate :: "turn_params \<Rightarrow> 'v live \<Rightarrow> real" where
  "noise_gate p s = max (min_speech_rms p) (min_speech_snr p * noise_floor_rms s)"

text \<open>Leaving the commit: \<open>continue\<close>, \<open>vad->reset(); continue\<close>, or the end of the stream.\<close>

definition leave_commit :: "('v \<Rightarrow> 'v) \<Rightarrow> after_commit \<Rightarrow> 'v live \<Rightarrow> 'v live" where
  "leave_commit vad_reset k s =
     (case k of
        Next_Block \<Rightarrow> s\<lparr>audio_pc := Reading\<rparr>
      | Reset_Vad \<Rightarrow> s\<lparr>audio_pc := Reading, vad_state := vad_reset (vad_state s)\<rparr>
      | End_Stream \<Rightarrow> s\<lparr>audio_pc := Joining, quit := True\<rparr>)"

text \<open>\<open>commit_utterance\<close> up to its first wait: the loudness gate drops the utterance at once.\<close>

definition commit_utterance :: "turn_params \<Rightarrow> ('v \<Rightarrow> 'v) \<Rightarrow> after_commit \<Rightarrow> 'v live \<Rightarrow> 'v live" where
  "commit_utterance p vad_reset k s =
     (let s1 = s\<lparr>speaking := False, pending_end := False, gap_buffer := []\<rparr> in
      if min_speech_snr p > 0 \<and> utterance_peak_rms s1 < noise_gate p s1
      then leave_commit vad_reset k
             ((live_emit (Speech_Discarded (utterance_id s1)) s1)
                \<lparr>utterance := [], candidate_valid := False, latest_hypothesis := []\<rparr>)
      else (live_emit (Speech_Ended (utterance_id s1)) s1)\<lparr>audio_pc := Wait_Idle k\<rparr>)"

definition commit_decide :: "('v \<Rightarrow> 'v) \<Rightarrow> after_commit \<Rightarrow> 'v live \<Rightarrow> 'v live" where
  "commit_decide vad_reset k s =
     (if candidate_fresh s
      then leave_commit vad_reset k
             ((live_emit (Final_Transcript (utterance_id s) (fst (candidate s)) (snd (candidate s)))
                 (s\<lparr>candidate_valid := False\<rparr>))\<lparr>utterance := []\<rparr>)
      else s\<lparr>audio_pc := Enqueue_Final k\<rparr>)"

subsection \<open>One block of audio\<close>

definition rms_of :: "real list \<Rightarrow> real" where
  "rms_of block = (if block = [] then 0 else sqrt (sum_list (map (\<lambda>x. x * x) block) / real (length block)))"

text \<open>Whole 512-sample windows are consumed; their activity events are collected in order.\<close>

function vad_windows :: "('v \<Rightarrow> real list \<Rightarrow> activity list \<times> 'v) \<Rightarrow> 'v \<Rightarrow> real list \<Rightarrow>
    activity list \<Rightarrow> activity list \<times> 'v \<times> real list" where
  "vad_windows vad v buf acts =
     (if length buf \<ge> 512
      then (let (a, v') = vad v (take 512 buf) in vad_windows vad v' (drop 512 buf) (acts @ a))
      else (acts, v, buf))"
  by pat_completeness auto
termination
  by (relation "measure (\<lambda>(vad, v, buf, acts). length buf)") auto

declare vad_windows.simps [simp del]

definition track_level :: "real \<Rightarrow> 'v live \<Rightarrow> 'v live" where
  "track_level rms s =
     (if speaking s then s\<lparr>utterance_peak_rms := max (utterance_peak_rms s) rms\<rparr>
      else s\<lparr>noise_floor_rms :=
        (if rms < noise_floor_rms s then 90 / 100 * noise_floor_rms s + 10 / 100 * rms
         else 995 / 1000 * noise_floor_rms s + 5 / 1000 * rms)\<rparr>)"

definition preroll_samples :: "turn_params \<Rightarrow> nat" where
  "preroll_samples p = to_size_t (speech_pad_ms p) * 16 mod 2 ^ 64"

definition buffer_block :: "turn_params \<Rightarrow> real list \<Rightarrow> 'v live \<Rightarrow> 'v live" where
  "buffer_block p block s =
     (if speaking s \<and> pending_end s then s\<lparr>gap_buffer := gap_buffer s @ block\<rparr>
      else if speaking s then s\<lparr>utterance := utterance s @ block\<rparr>
      else s\<lparr>preroll := keep_last (preroll_samples p) (preroll s @ block)\<rparr>)"

definition endpoint_hold :: "turn_params \<Rightarrow> 'v live \<Rightarrow> int" where
  "endpoint_hold p s =
     (if hypothesis_looks_incomplete (latest_hypothesis s) then endpoint_hold_incomplete_ms p
      else endpoint_hold_ms p)"

text \<open>The end of the pass: commit after the hold, close a runaway turn, or re-decode.\<close>

definition finish_block :: "turn_params \<Rightarrow> ('v \<Rightarrow> 'v) \<Rightarrow> int \<Rightarrow> 'v live \<Rightarrow> 'v live" where
  "finish_block p vad_reset now s =
     (if speaking s \<and> pending_end s \<and> now - pending_since s \<ge> endpoint_hold p s * ns_per_ms
      then commit_utterance p vad_reset Next_Block s
      else if speaking s \<and> \<not> pending_end s then
        (if now - speech_started_at s > max_utterance_ms p * ns_per_ms
         then commit_utterance p vad_reset Reset_Vad s
         else if now - last_partial_enqueue s \<ge> partial_interval_ms p * ns_per_ms \<and>
                 length (utterance s) \<ge> to_size_t (min_partial_audio_ms p) * 16 mod 2 ^ 64
         then enqueue_partial (s\<lparr>last_partial_enqueue := now\<rparr>)
         else s)
      else s)"

definition process_block :: "turn_params \<Rightarrow> ('v \<Rightarrow> real list \<Rightarrow> activity list \<times> 'v) \<Rightarrow> ('v \<Rightarrow> 'v) \<Rightarrow>
    int \<Rightarrow> real list \<Rightarrow> 'v live \<Rightarrow> 'v live" where
  "process_block p vad vad_reset now block s =
     (if block = [] then s
      else
        (let (acts, v, buf) = vad_windows vad (vad_state s) (vad_pending s @ block) [];
             s1 = track_level (rms_of block) (s\<lparr>vad_state := v, vad_pending := buf\<rparr>);
             s2 = buffer_block p block s1
         in finish_block p vad_reset now (fold (handle_activity now) acts s2)))"

subsection \<open>The worker's hand-over\<close>

definition tail_energy :: "real list \<Rightarrow> real" where
  "tail_energy xs = sum_list (map (\<lambda>x. x * x) (drop (length xs - 1600) xs))"

definition quiet_tail :: "job \<Rightarrow> 'v live \<Rightarrow> bool" where
  "quiet_tail j s \<longleftrightarrow>
     job_candidate j \<or>
     (length (job_audio j) \<ge> 1600 \<and>
      (let q = max (4 / 1000) (15 / 10 * noise_floor_rms s) in tail_energy (job_audio j) / 1600 < q * q))"

definition store_candidate :: "job \<Rightarrow> string \<Rightarrow> string \<Rightarrow> 'v live \<Rightarrow> 'v live" where
  "store_candidate j txt lang s =
     (if quiet_tail j s \<and> txt \<noteq> []
      then s\<lparr>candidate := (txt, lang), candidate_valid := True, candidate_samples := length (job_audio j)\<rparr>
      else s)"

definition emit_stability :: "job \<Rightarrow> string \<Rightarrow> 'v live \<Rightarrow> 'v live" where
  "emit_stability j txt s =
     (let (grew, t) = stracker_update txt (tracker s);
          s1 = s\<lparr>tracker := t\<rparr>;
          s2 = (if grew then live_emit (Stable_Transcript (job_utterance j) (stable t)) s1 else s1);
          tent = (if stable t = [] then hypothesis t else tentative t)
      in if tent \<noteq> [] \<and> tent \<noteq> last_partial_emitted s2
         then live_emit (Partial_Transcript (job_utterance j) tent) (s2\<lparr>last_partial_emitted := tent\<rparr>)
         else s2)"

definition anticipate_endpoint :: "job \<Rightarrow> string \<Rightarrow> 'v live \<Rightarrow> 'v live" where
  "anticipate_endpoint j txt s =
     (let s1 = (if txt = last_growth_hypothesis s then s\<lparr>hypothesis_stalls := hypothesis_stalls s + 1\<rparr>
                else s\<lparr>last_growth_hypothesis := txt, hypothesis_stalls := 0,
                       endpoint_likely_utt := (if endpoint_likely_utt s = job_utterance j then -1
                                               else endpoint_likely_utt s)\<rparr>)
      in if hypothesis_stalls s1 \<ge> 1 \<and> endpoint_likely_utt s1 \<noteq> job_utterance j \<and>
            \<not> hypothesis_looks_incomplete txt
         then live_emit (Endpoint_Likely (job_utterance j) txt) (s1\<lparr>endpoint_likely_utt := job_utterance j\<rparr>)
         else s1)"

definition handle_result :: "job \<Rightarrow> string \<Rightarrow> string \<Rightarrow> 'v live \<Rightarrow> 'v live" where
  "handle_result j txt lang s =
     (if job_final j then live_emit (Final_Transcript (job_utterance j) txt lang) s
      else
        (let s1 = store_candidate j txt lang s in
         if txt = [] then s1
         else anticipate_endpoint j txt (emit_stability j txt (s1\<lparr>latest_hypothesis := txt\<rparr>))))"

subsection \<open>The step relation\<close>

definition live_init :: "turn_params \<Rightarrow> 'v live \<Rightarrow> bool" where
  "live_init p s \<longleftrightarrow>
     vad_pending s = [] \<and> \<not> speaking s \<and> utterance_id s = 0 \<and> preroll s = [] \<and> utterance s = [] \<and>
     \<not> pending_end s \<and> gap_buffer s = [] \<and> \<not> candidate_valid s \<and> latest_hypothesis s = [] \<and>
     pending_job s = None \<and> in_flight s = None \<and> \<not> quit s \<and> tracker s = new_stracker (stability p) \<and>
     last_partial_emitted s = [] \<and> last_growth_hypothesis s = [] \<and> hypothesis_stalls s = 0 \<and>
     endpoint_likely_utt s = -1 \<and> noise_floor_rms s = 4 / 1000 \<and> utterance_peak_rms s = 0 \<and>
     audio_pc s = Reading \<and> events s = []"

inductive live_step :: "turn_params \<Rightarrow> ('v \<Rightarrow> real list \<Rightarrow> activity list \<times> 'v) \<Rightarrow> ('v \<Rightarrow> 'v) \<Rightarrow>
    'v live \<Rightarrow> 'v live \<Rightarrow> bool"
  for p vad vad_reset where
  l_block: "audio_pc s = Reading \<Longrightarrow> live_step p vad vad_reset s (process_block p vad vad_reset now block s)"
| l_stream_end: "audio_pc s = Reading \<Longrightarrow> speaking s \<Longrightarrow>
    live_step p vad vad_reset s (commit_utterance p vad_reset End_Stream s)"
| l_stream_end_idle: "audio_pc s = Reading \<Longrightarrow> \<not> speaking s \<Longrightarrow>
    live_step p vad vad_reset s (s\<lparr>audio_pc := Joining, quit := True\<rparr>)"
| l_exception: "audio_pc s = Reading \<Longrightarrow>
    live_step p vad vad_reset s ((live_emit Error_Event s)\<lparr>audio_pc := Joining, quit := True\<rparr>)"
| l_idle: "audio_pc s = Wait_Idle k \<Longrightarrow> in_flight s = None \<Longrightarrow> pending_job s = None \<Longrightarrow>
    live_step p vad vad_reset s (commit_decide vad_reset k s)"
| l_enqueue_final: "audio_pc s = Enqueue_Final k \<Longrightarrow> in_flight s = None \<Longrightarrow>
    live_step p vad vad_reset s (s\<lparr>pending_job := Some (make_job True False s), audio_pc := Wait_Final k\<rparr>)"
| l_final_done: "audio_pc s = Wait_Final k \<Longrightarrow> in_flight s = None \<Longrightarrow> pending_job s = None \<Longrightarrow>
    live_step p vad vad_reset s (leave_commit vad_reset k (s\<lparr>utterance := []\<rparr>))"
| w_take: "in_flight s = None \<Longrightarrow> pending_job s = Some j \<Longrightarrow>
    live_step p vad vad_reset s (s\<lparr>in_flight := Some j, pending_job := None\<rparr>)"
| w_result: "in_flight s = Some j \<Longrightarrow>
    live_step p vad vad_reset s ((handle_result j txt lang s)\<lparr>in_flight := None\<rparr>)"
| w_exception: "in_flight s = Some j \<Longrightarrow>
    live_step p vad vad_reset s ((live_emit Error_Event s)\<lparr>in_flight := None\<rparr>)"

text \<open>The connection is over: the audio thread joins a worker with nothing left to do.\<close>

definition live_done :: "'v live \<Rightarrow> bool" where
  "live_done s \<longleftrightarrow> audio_pc s = Joining \<and> in_flight s = None \<and> pending_job s = None"

subsection \<open>What the events say\<close>

fun started_id :: "vevent \<Rightarrow> int option" where
  "started_id (Speech_Started u) = Some u"
| "started_id _ = None"

definition starts :: "vevent list \<Rightarrow> int list" where
  "starts es = List.map_filter started_id es"

fun is_final :: "int \<Rightarrow> vevent \<Rightarrow> bool" where
  "is_final u (Final_Transcript v _ _) = (u = v)"
| "is_final u _ = False"

definition n_final :: "int \<Rightarrow> vevent list \<Rightarrow> nat" where
  "n_final u es = length (filter (is_final u) es)"

definition settled :: "vevent list \<Rightarrow> int \<Rightarrow> bool" where
  "settled es u \<longleftrightarrow> Error_Event \<in> set es \<or> Speech_Discarded u \<in> set es \<or> 0 < n_final u es"

fun quiet_event :: "vevent \<Rightarrow> bool" where
  "quiet_event (Speech_Started _) = False"
| "quiet_event (Final_Transcript _ _ _) = False"
| "quiet_event (Speech_Discarded _) = False"
| "quiet_event _ = True"

lemma starts_snoc [simp]: "starts (es @ [e]) = starts es @ (case started_id e of None \<Rightarrow> [] | Some u \<Rightarrow> [u])"
  by (simp add: starts_def List.map_filter_def split: option.splits)

lemma n_final_snoc [simp]: "n_final u (es @ [e]) = n_final u es + (if is_final u e then 1 else 0)"
  by (simp add: n_final_def)

lemma settled_snoc: "settled es u \<Longrightarrow> settled (es @ [e]) u"
  by (auto simp: settled_def)

lemma quiet_simps:
  assumes "quiet_event e"
  shows "started_id e = None" "\<not> is_final u e" "e \<noteq> Speech_Discarded u"
  using assms by (cases e; simp)+

subsection \<open>The invariant, on the fields that matter\<close>

definition final_job :: "job option \<Rightarrow> bool" where
  "final_job q = (case q of None \<Rightarrow> False | Some j \<Rightarrow> job_final j)"

definition is_open :: "bool \<Rightarrow> audio_pc \<Rightarrow> bool" where
  "is_open sp pc = (case pc of Reading \<Rightarrow> sp | Wait_Idle _ \<Rightarrow> True | Enqueue_Final _ \<Rightarrow> True | _ \<Rightarrow> False)"

definition awaiting :: "bool \<Rightarrow> audio_pc \<Rightarrow> job option \<Rightarrow> job option \<Rightarrow> bool" where
  "awaiting sp pc pj fl \<longleftrightarrow> is_open sp pc \<or> final_job pj \<or> final_job fl"

text \<open>The event part: ids in order, finals at most once and never for a discarded turn.\<close>

definition events_ok :: "int \<Rightarrow> bool \<Rightarrow> vevent list \<Rightarrow> bool" where
  "events_ok n open_turn es \<longleftrightarrow>
     0 \<le> n \<and> starts es = [1..n] \<and>
     (\<forall>u. n_final u es \<le> 1 \<and> (n < u \<longrightarrow> n_final u es = 0) \<and>
          (Speech_Discarded u \<in> set es \<longrightarrow> n_final u es = 0 \<and> u \<le> n)) \<and>
     (open_turn \<longrightarrow> n_final n es = 0 \<and> Speech_Discarded n \<notin> set es) \<and>
     (\<forall>u. 1 \<le> u \<and> u \<le> n \<and> (u = n \<longrightarrow> \<not> open_turn) \<longrightarrow> settled es u)"

text \<open>The queue part: a final job exists only while the audio thread waits for it.\<close>

definition jobs_ok :: "bool \<Rightarrow> int \<Rightarrow> audio_pc \<Rightarrow> job option \<Rightarrow> job option \<Rightarrow> bool" where
  "jobs_ok sp n pc pj fl \<longleftrightarrow>
     (pc \<noteq> Reading \<and> pc \<noteq> Joining \<longrightarrow> \<not> sp) \<and> (final_job pj \<longrightarrow> fl = None) \<and>
     (final_job pj \<or> final_job fl \<longrightarrow> (\<exists>k. pc = Wait_Final k)) \<and>
     (\<forall>j. (pj = Some j \<or> fl = Some j) \<and> job_final j \<longrightarrow> job_utterance j = n)"

definition live_inv :: "'v live \<Rightarrow> bool" where
  "live_inv s \<longleftrightarrow> jobs_ok (speaking s) (utterance_id s) (audio_pc s) (pending_job s) (in_flight s) \<and>
     events_ok (utterance_id s) (awaiting (speaking s) (audio_pc s) (pending_job s) (in_flight s)) (events s)"

lemma events_ok_quiet: "events_ok n w es \<Longrightarrow> quiet_event e \<Longrightarrow> events_ok n w (es @ [e])"
  using settled_snoc [of es _ e] by (auto simp: events_ok_def quiet_simps)

lemma events_ok_start: "events_ok n False es \<Longrightarrow> events_ok (n + 1) True (es @ [Speech_Started (n + 1)])"
  using settled_snoc [of es _ "Speech_Started (n + 1)"] by (force simp: events_ok_def upto_rec2)

lemma events_ok_discard: "events_ok n True es \<Longrightarrow> events_ok n False (es @ [Speech_Discarded n])"
proof -
  assume ok: "events_ok n True es"
  have "settled (es @ [Speech_Discarded n]) u" if "1 \<le> u" "u \<le> n" for u
    using ok that settled_snoc [of es u] by (cases "u = n") (auto simp: events_ok_def settled_def)
  with ok show ?thesis by (auto simp: events_ok_def)
qed

lemma events_ok_final: "events_ok n True es \<Longrightarrow> events_ok n False (es @ [Final_Transcript n t l])"
proof -
  assume ok: "events_ok n True es"
  have "settled (es @ [Final_Transcript n t l]) u" if "1 \<le> u" "u \<le> n" for u
    using ok that settled_snoc [of es u] by (cases "u = n") (auto simp: events_ok_def settled_def)
  with ok show ?thesis by (auto simp: events_ok_def)
qed

lemma events_ok_error: "events_ok n w es \<Longrightarrow> events_ok n False (es @ [Error_Event])"
  by (auto simp: events_ok_def settled_def)

subsection \<open>Operations keep the invariant\<close>

definition same_core :: "'v live \<Rightarrow> 'v live \<Rightarrow> bool" where
  "same_core s t \<longleftrightarrow> speaking t = speaking s \<and> utterance_id t = utterance_id s \<and> audio_pc t = audio_pc s \<and>
     pending_job t = pending_job s \<and> in_flight t = in_flight s \<and> events t = events s"

lemma same_core_inv: "same_core s t \<Longrightarrow> live_inv s \<Longrightarrow> live_inv t"
  by (simp add: same_core_def live_inv_def)

lemma live_emit_simps [simp]:
  "speaking (live_emit e s) = speaking s" "utterance_id (live_emit e s) = utterance_id s"
  "audio_pc (live_emit e s) = audio_pc s" "pending_job (live_emit e s) = pending_job s"
  "in_flight (live_emit e s) = in_flight s" "events (live_emit e s) = events s @ [e]"
  by (simp_all add: live_emit_def)

lemma live_emit_quiet: "live_inv s \<Longrightarrow> quiet_event e \<Longrightarrow> live_inv (live_emit e s)"
  by (simp add: live_inv_def events_ok_quiet)

lemma track_level_core: "same_core s (track_level r s)"
  by (simp add: same_core_def track_level_def)

lemma buffer_block_core: "same_core s (buffer_block p b s)"
  by (simp add: same_core_def buffer_block_def)

text \<open>While the audio thread reads, no final job exists, so a turn is awaited iff it is open.\<close>

lemma reading_no_final: "live_inv s \<Longrightarrow> audio_pc s = Reading \<Longrightarrow> \<not> final_job (pending_job s) \<and> \<not> final_job (in_flight s)"
  by (auto simp: live_inv_def jobs_ok_def)

lemma reading_awaiting:
  "live_inv s \<Longrightarrow> audio_pc s = Reading \<Longrightarrow>
   awaiting (speaking s) Reading (pending_job s) (in_flight s) = speaking s"
  using reading_no_final [of s] by (simp add: awaiting_def is_open_def)

lemma reading_inv_iff:
  "audio_pc s = Reading \<Longrightarrow> live_inv s \<longleftrightarrow>
   \<not> final_job (pending_job s) \<and> \<not> final_job (in_flight s) \<and> events_ok (utterance_id s) (speaking s) (events s)"
  using reading_no_final [of s] reading_awaiting [of s]
  by (auto simp: live_inv_def jobs_ok_def awaiting_def is_open_def final_job_def split: option.splits)

lemma begin_utterance_inv:
  "live_inv s \<Longrightarrow> audio_pc s = Reading \<Longrightarrow> \<not> speaking s \<Longrightarrow>
   live_inv (begin_utterance now s) \<and> audio_pc (begin_utterance now s) = Reading"
  using events_ok_start by (simp add: reading_inv_iff begin_utterance_def)

lemma set_job_inv:
  "live_inv s \<Longrightarrow> audio_pc s = Reading \<Longrightarrow> \<not> job_final j \<Longrightarrow> live_inv (s\<lparr>pending_job := Some j\<rparr>)"
  by (simp add: reading_inv_iff final_job_def)

lemma begin_pending_end_inv:
  "live_inv s \<Longrightarrow> audio_pc s = Reading \<Longrightarrow>
   live_inv (begin_pending_end now s) \<and> audio_pc (begin_pending_end now s) = Reading"
  by (simp add: begin_pending_end_def enqueue_candidate_def make_job_def reading_inv_iff final_job_def Let_def)

lemma resume_inv:
  "live_inv s \<Longrightarrow> audio_pc s = Reading \<Longrightarrow>
   live_inv (resume_from_pending s) \<and> audio_pc (resume_from_pending s) = Reading"
  by (simp add: resume_from_pending_def reading_inv_iff)

lemma handle_activity_inv:
  "live_inv s \<Longrightarrow> audio_pc s = Reading \<Longrightarrow>
   live_inv (handle_activity now a s) \<and> audio_pc (handle_activity now a s) = Reading"
  by (cases a) (simp_all add: handle_activity_def begin_utterance_inv begin_pending_end_inv resume_inv)

lemma fold_activity_inv:
  "live_inv s \<Longrightarrow> audio_pc s = Reading \<Longrightarrow>
   live_inv (fold (handle_activity now) acts s) \<and> audio_pc (fold (handle_activity now) acts s) = Reading"
  by (induction acts arbitrary: s) (auto simp: handle_activity_inv)

lemma leave_commit_inv:
  assumes "\<not> speaking s" "\<not> final_job (pending_job s)" "\<not> final_job (in_flight s)"
    "events_ok (utterance_id s) False (events s)"
  shows "live_inv (leave_commit vr k s)"
  using assms
  by (cases k) (auto simp: leave_commit_def live_inv_def jobs_ok_def awaiting_def is_open_def final_job_def
      split: option.splits)

lemma commit_utterance_inv:
  assumes "live_inv s" "audio_pc s = Reading" "speaking s"
  shows "live_inv (commit_utterance p vr k s)"
proof -
  let ?s = "s\<lparr>speaking := False, pending_end := False, gap_buffer := []\<rparr>"
  have ok: "\<not> final_job (pending_job s)" "\<not> final_job (in_flight s)" "events_ok (utterance_id s) True (events s)"
    using assms by (auto simp: reading_inv_iff)
  have "live_inv (leave_commit vr k ((live_emit (Speech_Discarded (utterance_id ?s)) ?s)
      \<lparr>utterance := [], candidate_valid := False, latest_hypothesis := []\<rparr>))"
    by (rule leave_commit_inv) (use ok events_ok_discard in auto)
  moreover have "live_inv ((live_emit (Speech_Ended (utterance_id ?s)) ?s)\<lparr>audio_pc := Wait_Idle k\<rparr>)"
    using ok events_ok_quiet
    by (auto simp: live_inv_def jobs_ok_def awaiting_def is_open_def final_job_def split: option.splits)
  ultimately show ?thesis by (simp add: commit_utterance_def Let_def)
qed

lemma finish_block_inv: "live_inv s \<Longrightarrow> audio_pc s = Reading \<Longrightarrow> live_inv (finish_block p vr now s)"
  by (auto simp: finish_block_def commit_utterance_inv enqueue_partial_def make_job_def reading_inv_iff final_job_def)

lemma process_block_inv: "live_inv s \<Longrightarrow> audio_pc s = Reading \<Longrightarrow> live_inv (process_block p vad vr now block s)"
proof -
  assume inv: "live_inv s" "audio_pc s = Reading"
  obtain acts v buf where w: "vad_windows vad (vad_state s) (vad_pending s @ block) [] = (acts, v, buf)"
    by (metis prod_cases3)
  let ?s1 = "track_level (rms_of block) (s\<lparr>vad_state := v, vad_pending := buf\<rparr>)"
  have core: "same_core s (buffer_block p block ?s1)"
    using track_level_core [of "s\<lparr>vad_state := v, vad_pending := buf\<rparr>" "rms_of block"]
      buffer_block_core [of ?s1 p block] by (simp add: same_core_def)
  have "live_inv (buffer_block p block ?s1)"
    using same_core_inv [OF core inv(1)] .
  moreover have "audio_pc (buffer_block p block ?s1) = Reading"
    using core inv(2) by (simp add: same_core_def)
  ultimately have "live_inv (finish_block p vr now (fold (handle_activity now) acts (buffer_block p block ?s1)))"
    using fold_activity_inv finish_block_inv by blast
  with inv w show ?thesis by (simp add: process_block_def Let_def)
qed

lemma commit_decide_inv:
  assumes "live_inv s" "audio_pc s = Wait_Idle k" "in_flight s = None" "pending_job s = None"
  shows "live_inv (commit_decide vr k s)"
proof -
  have ok: "\<not> speaking s" "events_ok (utterance_id s) True (events s)"
    using assms by (auto simp: live_inv_def jobs_ok_def awaiting_def is_open_def)
  have "live_inv (leave_commit vr k ((live_emit (Final_Transcript (utterance_id s) (fst (candidate s)) (snd (candidate s)))
      (s\<lparr>candidate_valid := False\<rparr>))\<lparr>utterance := []\<rparr>))"
    by (rule leave_commit_inv) (use ok assms events_ok_final in \<open>auto simp: final_job_def\<close>)
  moreover have "live_inv (s\<lparr>audio_pc := Enqueue_Final k\<rparr>)"
    using ok assms(3,4) by (simp add: live_inv_def jobs_ok_def awaiting_def is_open_def final_job_def)
  ultimately show ?thesis by (simp add: commit_decide_def)
qed

text \<open>The worker: everything it emits for a partial job is quiet.\<close>

lemma quiet_inv_job:
  assumes "same_core s t \<or> (\<exists>e. quiet_event e \<and> same_core (live_emit e s) t)" "live_inv s"
  shows "live_inv t"
  using assms same_core_inv live_emit_quiet by blast

lemma store_candidate_core: "same_core s (store_candidate j txt lang s)"
  by (simp add: same_core_def store_candidate_def)

lemma if_cases: "P x \<Longrightarrow> P y \<Longrightarrow> P (if b then x else y)"
  by simp

lemma emit_stability_inv:
  assumes "live_inv s"
  shows "live_inv (emit_stability j txt s)"
proof -
  obtain g t where u: "stracker_update txt (tracker s) = (g, t)" by fastforce
  let ?s2 = "if g then live_emit (Stable_Transcript (job_utterance j) (stable t)) (s\<lparr>tracker := t\<rparr>) else s\<lparr>tracker := t\<rparr>"
  let ?tent = "if stable t = [] then hypothesis t else tentative t"
  have "live_inv (s\<lparr>tracker := t\<rparr>)" using assms by (simp add: live_inv_def)
  then have s2: "live_inv ?s2" by (cases g) (simp_all add: live_emit_quiet)
  then have "live_inv (?s2\<lparr>last_partial_emitted := ?tent\<rparr>)"
    by (intro same_core_inv [OF _ s2]) (simp add: same_core_def)
  then have "live_inv (live_emit (Partial_Transcript (job_utterance j) ?tent) (?s2\<lparr>last_partial_emitted := ?tent\<rparr>))"
    by (rule live_emit_quiet) simp
  from this s2 show ?thesis unfolding emit_stability_def u Let_def prod.case by (rule if_cases)
qed

lemma anticipate_endpoint_inv:
  assumes "live_inv s"
  shows "live_inv (anticipate_endpoint j txt s)"
proof -
  let ?s1 = "if txt = last_growth_hypothesis s then s\<lparr>hypothesis_stalls := hypothesis_stalls s + 1\<rparr>
     else s\<lparr>last_growth_hypothesis := txt, hypothesis_stalls := 0,
            endpoint_likely_utt := (if endpoint_likely_utt s = job_utterance j then -1 else endpoint_likely_utt s)\<rparr>"
  have s1: "live_inv ?s1" by (rule same_core_inv [OF _ assms]) (simp add: same_core_def)
  then have "live_inv (?s1\<lparr>endpoint_likely_utt := job_utterance j\<rparr>)"
    by (rule same_core_inv [rotated]) (simp add: same_core_def)
  then have "live_inv (live_emit (Endpoint_Likely (job_utterance j) txt) (?s1\<lparr>endpoint_likely_utt := job_utterance j\<rparr>))"
    by (rule live_emit_quiet) simp
  from this s1 show ?thesis unfolding anticipate_endpoint_def Let_def by (rule if_cases)
qed

lemma handle_partial_inv:
  assumes "live_inv s" "\<not> job_final j"
  shows "live_inv (handle_result j txt lang s)"
proof -
  have s1: "live_inv (store_candidate j txt lang s)"
    by (rule same_core_inv [OF store_candidate_core assms(1)])
  then have "live_inv ((store_candidate j txt lang s)\<lparr>latest_hypothesis := txt\<rparr>)"
    by (rule same_core_inv [rotated]) (simp add: same_core_def)
  then have "live_inv (anticipate_endpoint j txt
      (emit_stability j txt ((store_candidate j txt lang s)\<lparr>latest_hypothesis := txt\<rparr>)))"
    by (intro anticipate_endpoint_inv emit_stability_inv)
  with s1 show ?thesis
    unfolding handle_result_def Let_def using assms(2) by (cases "txt = []") simp_all
qed

lemma handle_result_jobs:
  "speaking (handle_result j txt lang s) = speaking s" "utterance_id (handle_result j txt lang s) = utterance_id s"
  "audio_pc (handle_result j txt lang s) = audio_pc s" "pending_job (handle_result j txt lang s) = pending_job s"
  "in_flight (handle_result j txt lang s) = in_flight s"
  by (simp_all add: handle_result_def store_candidate_def emit_stability_def anticipate_endpoint_def Let_def
      split: prod.splits)

lemma drop_flight_inv: "live_inv s \<Longrightarrow> \<not> final_job (in_flight s) \<Longrightarrow> live_inv (s\<lparr>in_flight := None\<rparr>)"
  by (auto simp: live_inv_def jobs_ok_def awaiting_def final_job_def)

lemma final_flight:
  assumes "live_inv s" "in_flight s = Some j" "job_final j"
  shows "\<not> speaking s \<and> (\<exists>k. audio_pc s = Wait_Final k) \<and> \<not> final_job (pending_job s) \<and>
    job_utterance j = utterance_id s \<and> events_ok (utterance_id s) True (events s)"
  using assms by (auto simp: live_inv_def jobs_ok_def awaiting_def final_job_def)

lemma w_result_inv:
  assumes "live_inv s" "in_flight s = Some j"
  shows "live_inv ((handle_result j txt lang s)\<lparr>in_flight := None\<rparr>)"
proof (cases "job_final j")
  case True
  from final_flight [OF assms True] events_ok_final True show ?thesis
    by (auto simp: handle_result_def live_inv_def jobs_ok_def awaiting_def is_open_def final_job_def split: option.splits)
next
  case False
  with assms show ?thesis
    by (intro drop_flight_inv handle_partial_inv) (simp_all add: handle_result_jobs final_job_def)
qed

lemma live_init_inv: "live_init p s \<Longrightarrow> live_inv s"
  by (auto simp: live_init_def reading_inv_iff final_job_def events_ok_def starts_def n_final_def List.map_filter_def)

lemma enqueue_final_inv:
  assumes "live_inv s" "audio_pc s = Enqueue_Final k" "in_flight s = None"
  shows "live_inv (s\<lparr>pending_job := Some (make_job True False s), audio_pc := Wait_Final k\<rparr>)"
  using assms by (auto simp: live_inv_def jobs_ok_def awaiting_def is_open_def final_job_def make_job_def)

lemma final_done_inv:
  assumes "live_inv s" "audio_pc s = Wait_Final k" "in_flight s = None" "pending_job s = None"
  shows "live_inv (leave_commit vr k (s\<lparr>utterance := []\<rparr>))"
  using assms by (intro leave_commit_inv) (auto simp: live_inv_def jobs_ok_def awaiting_def is_open_def final_job_def)

lemma take_inv:
  assumes "live_inv s" "in_flight s = None" "pending_job s = Some j"
  shows "live_inv (s\<lparr>in_flight := Some j, pending_job := None\<rparr>)"
  using assms by (auto simp: live_inv_def jobs_ok_def awaiting_def final_job_def)

lemma w_exception_inv:
  assumes "live_inv s" "in_flight s = Some j"
  shows "live_inv ((live_emit Error_Event s)\<lparr>in_flight := None\<rparr>)"
proof (cases "job_final j")
  case True
  from final_flight [OF assms True] events_ok_error show ?thesis
    by (auto simp: live_inv_def jobs_ok_def awaiting_def is_open_def final_job_def split: option.splits)
next
  case False
  with assms show ?thesis
    by (intro drop_flight_inv live_emit_quiet) (simp_all add: final_job_def)
qed

lemma stop_inv:
  assumes "live_inv s" "audio_pc s = Reading"
    "\<not> speaking s \<and> es = events s \<or> es = events s @ [Error_Event]"
    "audio_pc t = Joining" "utterance_id t = utterance_id s" "pending_job t = pending_job s"
    "in_flight t = in_flight s" "events t = es"
  shows "live_inv t"
proof -
  have ok: "\<not> final_job (pending_job s)" "\<not> final_job (in_flight s)" "events_ok (utterance_id s) (speaking s) (events s)"
    using assms by (auto simp: reading_inv_iff)
  then have "events_ok (utterance_id s) False es"
    using assms(3) events_ok_error by auto
  with ok assms(4-) show ?thesis
    by (auto simp: live_inv_def jobs_ok_def awaiting_def is_open_def final_job_def split: option.splits)
qed

lemma live_step_inv: "live_step p vad vr s t \<Longrightarrow> live_inv s \<Longrightarrow> live_inv t"
proof (induction rule: live_step.induct)
  case (l_block s now block)
  then show ?case by (intro process_block_inv)
next
  case (l_stream_end s)
  then show ?case by (intro commit_utterance_inv)
next
  case (l_stream_end_idle s)
  then show ?case using stop_inv [of s "events s" "s\<lparr>audio_pc := Joining, quit := True\<rparr>"] by simp
next
  case (l_exception s)
  show ?case by (rule stop_inv [of s "events s @ [Error_Event]"]) (use l_exception in simp_all)
next
  case (l_idle s k)
  then show ?case by (intro commit_decide_inv)
next
  case (l_enqueue_final s k)
  then show ?case by (intro enqueue_final_inv)
next
  case (l_final_done s k)
  then show ?case by (intro final_done_inv)
next
  case (w_take s j)
  then show ?case by (intro take_inv)
next
  case (w_result s j tx lang)
  then show ?case by (intro w_result_inv)
next
  case (w_exception s j)
  then show ?case by (intro w_exception_inv)
qed

interpretation vl: transition_invariant "live_init p" "live_step p vad vr" live_inv for p vad vr
  by unfold_locales (auto intro: live_init_inv live_step_inv)

subsection \<open>Progress\<close>

text \<open>\<open>clean_run\<close>: a run that adds events but no error.\<close>

definition clean_run :: "turn_params \<Rightarrow> ('v \<Rightarrow> real list \<Rightarrow> activity list \<times> 'v) \<Rightarrow> ('v \<Rightarrow> 'v) \<Rightarrow>
    'v live \<Rightarrow> 'v live \<Rightarrow> bool" where
  "clean_run p vad vr s t \<longleftrightarrow>
     (live_step p vad vr)\<^sup>*\<^sup>* s t \<and> (\<exists>es. events t = events s @ es \<and> Error_Event \<notin> set es)"

lemma clean_refl: "clean_run p vad vr s s"
  by (simp add: clean_run_def)

lemma clean_trans: "clean_run p vad vr s t \<Longrightarrow> clean_run p vad vr t u \<Longrightarrow> clean_run p vad vr s u"
  unfolding clean_run_def by (metis UnE append.assoc rtranclp_trans set_append)

lemma clean_step:
  "live_step p vad vr s t \<Longrightarrow> events t = events s @ es \<Longrightarrow> Error_Event \<notin> set es \<Longrightarrow> clean_run p vad vr s t"
  unfolding clean_run_def by blast

text \<open>The worker can always answer what it holds and what is queued.\<close>

lemma w_final_result: "in_flight s = Some j \<Longrightarrow> job_final j \<Longrightarrow> clean_run p vad vr s
    ((handle_result j [] [] s)\<lparr>in_flight := None\<rparr>)"
  by (rule clean_step [where es = "[Final_Transcript (job_utterance j) [] []]", OF w_result])
     (simp_all add: handle_result_def)

lemma w_empty_result: "in_flight s = Some j \<Longrightarrow> \<not> job_final j \<Longrightarrow> clean_run p vad vr s
    ((handle_result j [] [] s)\<lparr>in_flight := None\<rparr>)"
  by (rule clean_step [where es = "[]", OF w_result])
     (simp_all add: handle_result_def store_candidate_def)

lemma drain_flight:
  "\<exists>t. clean_run p vad vr s t \<and> in_flight t = None \<and> pending_job t = pending_job s \<and> audio_pc t = audio_pc s"
proof (cases "in_flight s")
  case None
  then show ?thesis using clean_refl by blast
next
  case (Some j)
  then have "clean_run p vad vr s ((handle_result j [] [] s)\<lparr>in_flight := None\<rparr>)"
    using w_final_result w_empty_result by blast
  moreover have "pending_job (handle_result j [] [] s) = pending_job s" "audio_pc (handle_result j [] [] s) = audio_pc s"
    by (simp_all add: handle_result_jobs)
  ultimately show ?thesis by (intro exI [of _ "(handle_result j [] [] s)\<lparr>in_flight := None\<rparr>"]) simp
qed

lemma drain:
  "\<exists>t. clean_run p vad vr s t \<and> in_flight t = None \<and> pending_job t = None \<and> audio_pc t = audio_pc s"
proof -
  obtain t where t: "clean_run p vad vr s t" "in_flight t = None" "audio_pc t = audio_pc s"
    using drain_flight by blast
  show ?thesis
  proof (cases "pending_job t")
    case None
    then show ?thesis using t by blast
  next
    case (Some j)
    let ?u = "t\<lparr>in_flight := Some j, pending_job := None\<rparr>"
    have "clean_run p vad vr t ?u" by (rule clean_step [where es = "[]", OF w_take [OF t(2) Some]]) simp_all
    moreover obtain w where "clean_run p vad vr ?u w" "in_flight w = None" "pending_job w = None" "audio_pc w = audio_pc t"
      using drain_flight [of p vad vr ?u] by auto
    ultimately have "clean_run p vad vr s w \<and> in_flight w = None \<and> pending_job w = None \<and> audio_pc w = audio_pc s"
      using t clean_trans by metis
    then show ?thesis by blast
  qed
qed

definition can_finish :: "turn_params \<Rightarrow> ('v \<Rightarrow> real list \<Rightarrow> activity list \<times> 'v) \<Rightarrow> ('v \<Rightarrow> 'v) \<Rightarrow> 'v live \<Rightarrow> bool" where
  "can_finish p vad vr s \<longleftrightarrow> (\<exists>t. clean_run p vad vr s t \<and> live_done t)"

lemma can_finish_back: "clean_run p vad vr s t \<Longrightarrow> can_finish p vad vr t \<Longrightarrow> can_finish p vad vr s"
  unfolding can_finish_def using clean_trans by blast

lemma joining_finish: "audio_pc s = Joining \<Longrightarrow> can_finish p vad vr s"
  using drain [of p vad vr s] by (auto simp: can_finish_def live_done_def)

lemma wait_final_finish:
  assumes "audio_pc s = Wait_Final k" "\<And>t. audio_pc t = audio_pc (leave_commit vr k s) \<Longrightarrow> can_finish p vad vr t"
  shows "can_finish p vad vr s"
proof -
  obtain t where t: "clean_run p vad vr s t" "in_flight t = None" "pending_job t = None" "audio_pc t = Wait_Final k"
    using drain [of p vad vr s] assms(1) by auto
  have "clean_run p vad vr t (leave_commit vr k (t\<lparr>utterance := []\<rparr>))"
    by (rule clean_step [where es = "[]", OF l_final_done [OF t(4,2,3)]]) (cases k; simp add: leave_commit_def)+
  moreover have "can_finish p vad vr (leave_commit vr k (t\<lparr>utterance := []\<rparr>))"
    by (rule assms(2)) (cases k; simp add: leave_commit_def)
  ultimately show ?thesis using t(1) can_finish_back by blast
qed

lemma enqueue_final_finish:
  assumes "audio_pc s = Enqueue_Final k" "\<And>t. audio_pc t = Wait_Final k \<Longrightarrow> can_finish p vad vr t"
  shows "can_finish p vad vr s"
proof -
  obtain t where t: "clean_run p vad vr s t" "in_flight t = None" "audio_pc t = Enqueue_Final k"
    using drain_flight [of p vad vr s] assms(1) by auto
  have "clean_run p vad vr t (t\<lparr>pending_job := Some (make_job True False t), audio_pc := Wait_Final k\<rparr>)"
    by (rule clean_step [where es = "[]", OF l_enqueue_final [OF t(3,2)]]) simp_all
  moreover have "can_finish p vad vr (t\<lparr>pending_job := Some (make_job True False t), audio_pc := Wait_Final k\<rparr>)"
    by (rule assms(2)) simp
  ultimately show ?thesis using t(1) can_finish_back by blast
qed

lemma commit_decide_events: "\<exists>es. events (commit_decide vr k s) = events s @ es \<and> Error_Event \<notin> set es"
  by (cases k) (simp_all add: commit_decide_def leave_commit_def)

lemma wait_idle_finish:
  assumes "audio_pc s = Wait_Idle k" "\<And>t. audio_pc t = audio_pc (leave_commit vr k s) \<Longrightarrow> can_finish p vad vr t"
    "\<And>t. audio_pc t = Enqueue_Final k \<Longrightarrow> can_finish p vad vr t"
  shows "can_finish p vad vr s"
proof -
  obtain t where t: "clean_run p vad vr s t" "in_flight t = None" "pending_job t = None" "audio_pc t = Wait_Idle k"
    using drain [of p vad vr s] assms(1) by auto
  obtain es where "events (commit_decide vr k t) = events t @ es" "Error_Event \<notin> set es"
    using commit_decide_events by metis
  then have "clean_run p vad vr t (commit_decide vr k t)"
    by (rule clean_step [OF l_idle [OF t(4,2,3)]])
  moreover have "can_finish p vad vr (commit_decide vr k t)"
    by (cases "candidate_fresh t")
       (cases k; simp add: commit_decide_def leave_commit_def assms(2) assms(3))+
  ultimately show ?thesis using t(1) can_finish_back by blast
qed

lemma end_stream_finish:
  "audio_pc s \<in> {Joining, Wait_Final End_Stream, Enqueue_Final End_Stream, Wait_Idle End_Stream} \<Longrightarrow> can_finish p vad vr s"
proof -
  have final: "can_finish p vad vr t" if "audio_pc t = Wait_Final End_Stream" for t :: "'a live"
    by (rule wait_final_finish [OF that]) (simp add: leave_commit_def joining_finish)
  have enq: "can_finish p vad vr t" if "audio_pc t = Enqueue_Final End_Stream" for t :: "'a live"
    by (rule enqueue_final_finish [OF that]) (rule final)
  have "can_finish p vad vr t" if "audio_pc t = Wait_Idle End_Stream" for t :: "'a live"
    by (rule wait_idle_finish [OF that]) (simp_all add: leave_commit_def joining_finish enq)
  then show "audio_pc s \<in> {Joining, Wait_Final End_Stream, Enqueue_Final End_Stream, Wait_Idle End_Stream} \<Longrightarrow> ?thesis"
    using final enq joining_finish by auto
qed

lemma commit_end_events:
  "\<exists>es. events (commit_utterance p vr k s) = events s @ es \<and> Error_Event \<notin> set es"
  by (cases k) (simp_all add: commit_utterance_def Let_def leave_commit_def)

lemma commit_end_pc: "audio_pc (commit_utterance p vr End_Stream s) \<in> {Joining, Wait_Idle End_Stream}"
  by (simp add: commit_utterance_def Let_def leave_commit_def)

lemma reading_finish:
  assumes "audio_pc s = Reading"
  shows "can_finish p vad vr s"
proof (cases "speaking s")
  case True
  obtain es where "events (commit_utterance p vr End_Stream s) = events s @ es" "Error_Event \<notin> set es"
    using commit_end_events by metis
  then have "clean_run p vad vr s (commit_utterance p vr End_Stream s)"
    by (rule clean_step [OF l_stream_end [OF assms True]])
  moreover have "can_finish p vad vr (commit_utterance p vr End_Stream s)"
    using commit_end_pc [of p vr s] by (intro end_stream_finish) auto
  ultimately show ?thesis by (rule can_finish_back)
next
  case False
  have "clean_run p vad vr s (s\<lparr>audio_pc := Joining, quit := True\<rparr>)"
    by (rule clean_step [where es = "[]", OF l_stream_end_idle [OF assms False]]) simp_all
  then show ?thesis by (rule can_finish_back) (simp add: joining_finish)
qed

lemma live_finish: "can_finish p vad vr s"
proof -
  have out: "can_finish p vad vr t" if "audio_pc t = audio_pc (leave_commit vr k u)" for t u :: "'a live" and k
    using that by (cases k) (simp_all add: leave_commit_def reading_finish joining_finish)
  have final: "can_finish p vad vr t" if "audio_pc t = Wait_Final k" for t :: "'a live" and k
    by (rule wait_final_finish [OF that out])
  have enq: "can_finish p vad vr t" if "audio_pc t = Enqueue_Final k" for t :: "'a live" and k
    by (rule enqueue_final_finish [OF that final])
  have "can_finish p vad vr t" if "audio_pc t = Wait_Idle k" for t :: "'a live" and k
    by (rule wait_idle_finish [OF that out enq])
  with final enq reading_finish joining_finish show ?thesis by (cases "audio_pc s") blast+
qed

subsection \<open>Properties of a connection\<close>

text \<open>The state a new runner starts from.\<close>

definition new_live :: "turn_params \<Rightarrow> 'v \<Rightarrow> 'v live" where
  "new_live p v =
     \<lparr>vad_state = v, vad_pending = [], speaking = False, utterance_id = 0, preroll = [], utterance = [],
      speech_started_at = 0, last_partial_enqueue = 0, pending_end = False, pending_since = 0, gap_buffer = [],
      candidate = ([], []), candidate_valid = False, candidate_samples = 0, latest_hypothesis = [],
      pending_job = None, in_flight = None, quit = False, tracker = new_stracker (stability p),
      last_partial_emitted = [], last_growth_hypothesis = [], hypothesis_stalls = 0, endpoint_likely_utt = -1,
      noise_floor_rms = 4 / 1000, utterance_peak_rms = 0, audio_pc = Reading, events = []\<rparr>"

lemma new_live_init: "live_init p (new_live p v)"
  by (simp add: live_init_def new_live_def)

text \<open>A concrete connection: speech starts in the first window and the stream ends inside the turn.\<close>

definition eager_vad :: "unit \<Rightarrow> real list \<Rightarrow> activity list \<times> unit" where
  "eager_vad v w = ([SpeechStart], ())"

definition ungated :: turn_params where
  "ungated = default_turn_params\<lparr>min_speech_snr := 0\<rparr>"

abbreviation demo_step :: "unit live \<Rightarrow> unit live \<Rightarrow> bool" where
  "demo_step \<equiv> live_step ungated eager_vad id"

definition demo1 :: "unit live" where
  "demo1 = process_block ungated eager_vad id 0 (replicate 512 1) (new_live ungated ())"

lemma demo1_fields:
  "audio_pc demo1 = Reading" "speaking demo1" "utterance_id demo1 = 1" "pending_job demo1 = None"
  "in_flight demo1 = None" "events demo1 = [Speech_Started 1]" "candidate_valid demo1 = False"
proof -
  have w: "vad_windows eager_vad () (replicate 512 1) [] = ([SpeechStart], (), [])"
    by (simp add: vad_windows.simps [of _ _ "replicate 512 1"] vad_windows.simps [of _ _ "[]"] eager_vad_def)
  have ne: "replicate 512 (1::real) \<noteq> []" by simp
  show "audio_pc demo1 = Reading" "speaking demo1" "utterance_id demo1 = 1" "pending_job demo1 = None"
    "in_flight demo1 = None" "events demo1 = [Speech_Started 1]" "candidate_valid demo1 = False"
    by (simp_all add: demo1_def process_block_def ne new_live_def w Let_def track_level_def buffer_block_def
        handle_activity_def begin_utterance_def finish_block_def ungated_def default_turn_params_def
        ns_per_ms_def live_emit_def)
qed

lemma demo1_reach: "demo_step\<^sup>*\<^sup>* (new_live ungated ()) demo1"
proof -
  have "demo_step (new_live ungated ()) demo1"
    unfolding demo1_def by (rule l_block) (simp add: new_live_def)
  then show ?thesis by blast
qed

lemma started_in_range: "events_ok n w es \<Longrightarrow> Speech_Started u \<in> set es \<Longrightarrow> 1 \<le> u \<and> u \<le> n"
proof -
  assume ok: "events_ok n w es" and "Speech_Started u \<in> set es"
  then have "u \<in> set (starts es)"
    by (auto simp: starts_def List.map_filter_def image_iff intro!: bexI [of _ "Speech_Started u"])
  with ok show ?thesis by (auto simp: events_ok_def)
qed

text \<open>
  C16. In every reachable state of a connection, whatever the audio, the VAD, the ASR and the
  interleaving of the two threads, the announced utterances are numbered 1, 2, 3, ... in order
  and without a gap, no utterance has two final transcripts, and a discarded one has none.
\<close>

theorem live_turns_accounted:
  assumes "live_init p s0" "(live_step p vad vr)\<^sup>*\<^sup>* s0 s"
  shows "starts (events s) = [1..utterance_id s] \<and>
    (\<forall>u. n_final u (events s) \<le> (if Speech_Discarded u \<in> set (events s) then 0 else 1))"
  using vl.reachable_inv [OF assms(2,1)] by (simp add: live_inv_def events_ok_def)

theorem live_turns_accounted_witness:
  "demo_step\<^sup>*\<^sup>* (new_live ungated ()) demo1 \<and> starts (events demo1) = [1..1] \<and> n_final 1 (events demo1) \<le> 1"
  using live_turns_accounted [OF new_live_init demo1_reach] demo1_reach demo1_fields
  by (simp add: starts_def List.map_filter_def n_final_def)

text \<open>
  C17. When a connection is over (the audio thread joins an idle worker), every utterance that
  was announced got its final transcript, was discarded by the loudness gate, or an error event
  was sent on the connection: no turn is left without an answer.
\<close>

theorem live_done_settled:
  assumes "live_init p s0" "(live_step p vad vr)\<^sup>*\<^sup>* s0 s" "live_done s" "Speech_Started u \<in> set (events s)"
  shows "Error_Event \<in> set (events s) \<or> Speech_Discarded u \<in> set (events s) \<or> n_final u (events s) = 1"
proof -
  have inv: "live_inv s" by (rule vl.reachable_inv [OF assms(2,1)])
  then have ok: "events_ok (utterance_id s) False (events s)"
    using assms(3) by (simp add: live_inv_def live_done_def awaiting_def is_open_def final_job_def)
  have "settled (events s) u" "n_final u (events s) \<le> 1"
    using ok started_in_range [OF ok assms(4)] by (auto simp: events_ok_def)
  then show ?thesis by (auto simp: settled_def)
qed

theorem live_done_settled_witness:
  "\<exists>t. demo_step\<^sup>*\<^sup>* (new_live ungated ()) t \<and> live_done t \<and> Speech_Started 1 \<in> set (events t) \<and>
     (Error_Event \<in> set (events t) \<or> Speech_Discarded 1 \<in> set (events t) \<or> n_final 1 (events t) = 1)"
proof -
  obtain t es where t: "demo_step\<^sup>*\<^sup>* demo1 t" "live_done t" "events t = events demo1 @ es"
    using live_finish [of ungated eager_vad id demo1] unfolding can_finish_def clean_run_def by blast
  then have reach: "demo_step\<^sup>*\<^sup>* (new_live ungated ()) t" and s: "Speech_Started 1 \<in> set (events t)"
    using demo1_reach demo1_fields by (auto intro: rtranclp_trans)
  show ?thesis using live_done_settled [OF new_live_init reach t(2) s] reach t(2) s by blast
qed

text \<open>
  C18. The two threads cannot deadlock: from every state the connection can still be ended
  (end of the stream, the worker answering its queue) without any error event.
\<close>

theorem live_never_stuck:
  "\<exists>t es. (live_step p vad vr)\<^sup>*\<^sup>* s t \<and> live_done t \<and> events t = events s @ es \<and> Error_Event \<notin> set es"
  using live_finish [of p vad vr s] by (auto simp: can_finish_def clean_run_def)

end
