(* ===== verification/Options.thy ===== *)
theory Options
  imports Prelude Complex_Main
begin

text \<open>
  Typed access to the string-valued request and session options
  (\<^verbatim>\<open>src/framework/runtime/options.cpp\<close>), with the tensor storage names of
  \<^verbatim>\<open>src/framework/assets/tensor_source.cpp\<close>.

  An option map is a partial function, an initializer list of alias keys a list. Every throw is
  a value of \<open>option_error\<close> that carries the key of the message. \<^verbatim>\<open>std::stof\<close> is the
  argument \<open>stof\<close> of the float readers; the integer readers use the model of
  \<^verbatim>\<open>std::stoll\<close> and \<^verbatim>\<open>std::stoull\<close> of the prelude.
\<close>

type_synonym options = "string \<rightharpoonup> string"

datatype option_error =
  Conflicting string string
| Std_Error number_error
| Not_Integer string
| Not_Float string
| Not_Unsigned string
| Outside_Range string
| Not_Bool string
| Not_Finite string
| Not_Positive string
| Too_Large string
| Empty_Allowlist
| Unsupported_Storage string
| Storage_Not_Allowed string string

record option_match =
  opt_key :: string
  opt_value :: string

subsection \<open>Lookup under several names\<close>

fun match_loop :: "options \<Rightarrow> string list \<Rightarrow> option_match option \<Rightarrow> option_error + option_match option" where
  "match_loop opts [] m = Inr m"
| "match_loop opts (key # keys) m =
     (case opts key of
        None \<Rightarrow> match_loop opts keys m
      | Some v \<Rightarrow>
          if v = [] then match_loop opts keys m
          else
            (case m of
               Some first \<Rightarrow>
                 if opt_value first \<noteq> v then Inl (Conflicting (opt_key first) key) else match_loop opts keys m
             | None \<Rightarrow> match_loop opts keys (Some \<lparr>opt_key = key, opt_value = v\<rparr>)))"

definition find_option_match :: "options \<Rightarrow> string list \<Rightarrow> option_error + option_match option" where
  "find_option_match opts keys = match_loop opts keys None"

definition find_option :: "options \<Rightarrow> string list \<Rightarrow> option_error + string option" where
  "find_option opts keys = bind_sum (find_option_match opts keys) (\<lambda>m. Inr (map_option opt_value m))"

text \<open>\<^verbatim>\<open>if (const auto match = find_option_match(...)) return read(match); return nullopt;\<close>\<close>

definition with_match :: "options \<Rightarrow> string list \<Rightarrow> (option_match \<Rightarrow> option_error + 'a) \<Rightarrow> option_error + 'a option" where
  "with_match opts keys read =
     bind_sum (find_option_match opts keys)
       (\<lambda>m. case m of None \<Rightarrow> Inr None | Some x \<Rightarrow> bind_sum (read x) (\<lambda>v. Inr (Some v)))"

definition lift_std :: "number_error + 'a \<Rightarrow> option_error + 'a" where
  "lift_std r = (case r of Inl e \<Rightarrow> Inl (Std_Error e) | Inr x \<Rightarrow> Inr x)"

subsection \<open>Reading one value\<close>

definition parse_int_value :: "string \<Rightarrow> string \<Rightarrow> option_error + int" where
  "parse_int_value v key =
     bind_sum (lift_std (sto_signed 64 v)) (\<lambda>(n, parsed).
       if parsed \<noteq> length v then Inl (Not_Integer key)
       else if n < - (2 ^ 31) \<or> n > 2 ^ 31 - 1 then Inl (Outside_Range key)
       else Inr n)"

definition parse_u32_value :: "string \<Rightarrow> string \<Rightarrow> option_error + nat" where
  "parse_u32_value v key =
     (if v \<noteq> [] \<and> hd v = CHR ''-'' then Inl (Not_Unsigned key)
      else bind_sum (lift_std (sto_unsigned v)) (\<lambda>(n, parsed).
        if parsed \<noteq> length v then Inl (Not_Unsigned key)
        else if n > 2 ^ 32 - 1 then Inl (Outside_Range key)
        else Inr n))"

definition parse_u64_value :: "string \<Rightarrow> string \<Rightarrow> option_error + nat" where
  "parse_u64_value v key =
     (if v \<noteq> [] \<and> hd v = CHR ''-'' then Inl (Not_Unsigned key)
      else bind_sum (lift_std (sto_unsigned v)) (\<lambda>(n, parsed).
        if parsed \<noteq> length v then Inl (Not_Unsigned key)
        else if n > 2 ^ 64 - 1 then Inl (Outside_Range key)
        else Inr n))"

definition parse_i64_value :: "string \<Rightarrow> string \<Rightarrow> option_error + int" where
  "parse_i64_value v key =
     bind_sum (lift_std (sto_signed 64 v)) (\<lambda>(n, parsed).
       if parsed \<noteq> length v then Inl (Not_Integer key) else Inr n)"

text \<open>A \<^verbatim>\<open>float\<close> as far as the readers look at it.\<close>

datatype c_float = Finite real | Infinite bool | NaN

fun is_finite :: "c_float \<Rightarrow> bool" where
  "is_finite (Finite _) = True"
| "is_finite _ = False"

text \<open>\<open>Infinite True\<close> is minus infinity; a comparison with a NaN is false.\<close>

fun fl_less :: "c_float \<Rightarrow> c_float \<Rightarrow> bool" where
  "fl_less (Finite a) (Finite b) \<longleftrightarrow> a < b"
| "fl_less (Finite a) (Infinite neg) \<longleftrightarrow> \<not> neg"
| "fl_less (Infinite neg) (Finite b) \<longleftrightarrow> neg"
| "fl_less (Infinite neg) (Infinite neg') \<longleftrightarrow> neg \<and> \<not> neg'"
| "fl_less _ _ \<longleftrightarrow> False"

fun not_above_zero :: "c_float \<Rightarrow> bool" where
  "not_above_zero (Finite x) = (x \<le> 0)"
| "not_above_zero (Infinite neg) = neg"
| "not_above_zero NaN = False"

definition parse_float_value :: "(string \<Rightarrow> number_error + c_float \<times> nat) \<Rightarrow> string \<Rightarrow> string \<Rightarrow> option_error + c_float" where
  "parse_float_value stof v key =
     bind_sum (lift_std (stof v)) (\<lambda>(x, parsed).
       if parsed \<noteq> length v then Inl (Not_Float key) else Inr x)"

definition parse_bool_option :: "string \<Rightarrow> string \<Rightarrow> option_error + bool" where
  "parse_bool_option v key =
     (if v = ''true'' \<or> v = ''1'' \<or> v = ''yes'' \<or> v = ''on'' then Inr True
      else if v = ''false'' \<or> v = ''0'' \<or> v = ''no'' \<or> v = ''off'' then Inr False
      else Inl (Not_Bool key))"

definition checked_mib_to_bytes :: "int \<Rightarrow> string \<Rightarrow> option_error + nat" where
  "checked_mib_to_bytes mb key =
     (if mb > (2 ^ 64 - 1) div 1048576 then Inl (Too_Large key)
      else Inr (to_size_t mb * 1048576 mod 2 ^ 64))"

subsection \<open>Typed options\<close>

definition parse_int_option :: "options \<Rightarrow> string list \<Rightarrow> option_error + int option" where
  "parse_int_option opts keys = with_match opts keys (\<lambda>m. parse_int_value (opt_value m) (opt_key m))"

definition parse_float_option ::
  "(string \<Rightarrow> number_error + c_float \<times> nat) \<Rightarrow> options \<Rightarrow> string list \<Rightarrow> option_error + c_float option" where
  "parse_float_option stof opts keys = with_match opts keys (\<lambda>m. parse_float_value stof (opt_value m) (opt_key m))"

definition parse_finite_float_option ::
  "(string \<Rightarrow> number_error + c_float \<times> nat) \<Rightarrow> options \<Rightarrow> string list \<Rightarrow> option_error + c_float option" where
  "parse_finite_float_option stof opts keys =
     with_match opts keys (\<lambda>m. bind_sum (parse_float_value stof (opt_value m) (opt_key m)) (\<lambda>x.
       if \<not> is_finite x then Inl (Not_Finite (opt_key m)) else Inr x))"

definition parse_positive_finite_float_option ::
  "(string \<Rightarrow> number_error + c_float \<times> nat) \<Rightarrow> options \<Rightarrow> string list \<Rightarrow> option_error + c_float option" where
  "parse_positive_finite_float_option stof opts keys =
     with_match opts keys (\<lambda>m. bind_sum (parse_float_value stof (opt_value m) (opt_key m)) (\<lambda>x.
       if \<not> is_finite x then Inl (Not_Finite (opt_key m))
       else if not_above_zero x then Inl (Not_Positive (opt_key m)) else Inr x))"

definition parse_u32_option :: "options \<Rightarrow> string list \<Rightarrow> option_error + nat option" where
  "parse_u32_option opts keys = with_match opts keys (\<lambda>m. parse_u32_value (opt_value m) (opt_key m))"

definition parse_u64_option :: "options \<Rightarrow> string list \<Rightarrow> option_error + nat option" where
  "parse_u64_option opts keys = with_match opts keys (\<lambda>m. parse_u64_value (opt_value m) (opt_key m))"

definition parse_i64_option :: "options \<Rightarrow> string list \<Rightarrow> option_error + int option" where
  "parse_i64_option opts keys = with_match opts keys (\<lambda>m. parse_i64_value (opt_value m) (opt_key m))"

definition or_fallback :: "'a \<Rightarrow> option_error + 'a option \<Rightarrow> option_error + 'a" where
  "or_fallback d r = bind_sum r (\<lambda>v. Inr (case v of None \<Rightarrow> d | Some x \<Rightarrow> x))"

definition parse_positive_i64_option :: "options \<Rightarrow> string list \<Rightarrow> int \<Rightarrow> option_error + int" where
  "parse_positive_i64_option opts keys fallback =
     or_fallback fallback (with_match opts keys (\<lambda>m. bind_sum (parse_i64_value (opt_value m) (opt_key m)) (\<lambda>v.
       if v \<le> 0 then Inl (Not_Positive (opt_key m)) else Inr v)))"

definition parse_size_mb_option :: "options \<Rightarrow> string list \<Rightarrow> nat \<Rightarrow> option_error + nat" where
  "parse_size_mb_option opts keys fallback_bytes =
     or_fallback fallback_bytes (with_match opts keys (\<lambda>m. bind_sum (parse_i64_value (opt_value m) (opt_key m)) (\<lambda>mb.
       if mb \<le> 0 then Inl (Not_Positive (opt_key m)) else checked_mib_to_bytes mb (opt_key m))))"

subsection \<open>Tensor storage types\<close>

datatype tensor_storage_type =
  Native | F32 | F16 | BF16 | I8 | Q4_0 | Q4_1 | Q5_0 | Q5_1 | Q2_K | Q3_K | Q4_K | Q5_K | Q6_K | Q8_0

fun tensor_storage_type_name :: "tensor_storage_type \<Rightarrow> string" where
  "tensor_storage_type_name Native = ''native''"
| "tensor_storage_type_name F32 = ''f32''"
| "tensor_storage_type_name F16 = ''f16''"
| "tensor_storage_type_name BF16 = ''bf16''"
| "tensor_storage_type_name I8 = ''i8''"
| "tensor_storage_type_name Q4_0 = ''q4_0''"
| "tensor_storage_type_name Q4_1 = ''q4_1''"
| "tensor_storage_type_name Q5_0 = ''q5_0''"
| "tensor_storage_type_name Q5_1 = ''q5_1''"
| "tensor_storage_type_name Q2_K = ''q2_k''"
| "tensor_storage_type_name Q3_K = ''q3_k''"
| "tensor_storage_type_name Q4_K = ''q4_k''"
| "tensor_storage_type_name Q5_K = ''q5_k''"
| "tensor_storage_type_name Q6_K = ''q6_k''"
| "tensor_storage_type_name Q8_0 = ''q8_0''"

definition storage_names :: "(string \<times> tensor_storage_type) list" where
  "storage_names =
     [(''native'', Native), (''source'', Native), (''auto'', Native), (''orig'', Native), (''original'', Native),
      (''f32'', F32), (''float32'', F32), (''f16'', F16), (''float16'', F16), (''fp16'', F16),
      (''bf16'', BF16), (''bfloat16'', BF16), (''q4_0'', Q4_0), (''q4_1'', Q4_1), (''q5_0'', Q5_0),
      (''q5_1'', Q5_1), (''q2_k'', Q2_K), (''q3_k'', Q3_K), (''q4_k'', Q4_K), (''q5_k'', Q5_K),
      (''q6_k'', Q6_K), (''q8_0'', Q8_0)]"

definition parse_tensor_storage_type :: "string \<Rightarrow> option_error + tensor_storage_type" where
  "parse_tensor_storage_type v =
     (case map_of storage_names (map to_lower v) of
        None \<Rightarrow> Inl (Unsupported_Storage v)
      | Some t \<Rightarrow> Inr t)"

fun join_loop :: "nat \<Rightarrow> nat \<Rightarrow> tensor_storage_type list \<Rightarrow> string" where
  "join_loop n index [] = []"
| "join_loop n index (t # ts) =
     (if index \<noteq> 0 then (if index + 1 = n then '', and '' else '', '') else []) @
     tensor_storage_type_name t @ join_loop n (index + 1) ts"

definition join_tensor_storage_types :: "tensor_storage_type list \<Rightarrow> string" where
  "join_tensor_storage_types ts = join_loop (length ts) 0 ts"

definition contains_tensor_storage_type :: "tensor_storage_type list \<Rightarrow> tensor_storage_type \<Rightarrow> bool" where
  "contains_tensor_storage_type ts t = list_ex (\<lambda>x. x = t) ts"

definition parse_tensor_storage_option ::
  "options \<Rightarrow> string \<Rightarrow> tensor_storage_type \<Rightarrow> tensor_storage_type list \<Rightarrow> option_error + tensor_storage_type" where
  "parse_tensor_storage_option opts key fallback allowed =
     (if allowed = [] then Inl Empty_Allowlist
      else or_fallback fallback (with_match opts [key] (\<lambda>m.
        bind_sum (parse_tensor_storage_type (opt_value m)) (\<lambda>t.
          if contains_tensor_storage_type allowed t then Inr t
          else Inl (Storage_Not_Allowed (opt_key m) (join_tensor_storage_types allowed))))))"

definition parse_tensor_storage_option_or ::
  "options \<Rightarrow> string \<Rightarrow> string \<Rightarrow> tensor_storage_type \<Rightarrow> tensor_storage_type list \<Rightarrow> option_error + tensor_storage_type" where
  "parse_tensor_storage_option_or opts key fallback_key fallback allowed =
     bind_sum (find_option_match opts [key]) (\<lambda>m.
       if m \<noteq> None then parse_tensor_storage_option opts key fallback allowed
       else parse_tensor_storage_option opts fallback_key fallback allowed)"

subsection \<open>Lookup returns what all names agree on\<close>

definition given :: "options \<Rightarrow> string \<Rightarrow> string \<Rightarrow> bool" where
  "given opts k v \<longleftrightarrow> opts k = Some v \<and> v \<noteq> []"

definition is_given :: "options \<Rightarrow> string \<Rightarrow> bool" where
  "is_given opts k \<longleftrightarrow> (\<exists>v. given opts k v)"

lemma match_loop_agree:
  "match_loop opts keys (Some m) = Inr r \<longleftrightarrow> r = Some m \<and> (\<forall>k\<in>set keys. \<forall>v. given opts k v \<longrightarrow> v = opt_value m)"
  by (induction keys) (auto simp: given_def split: option.splits)

lemma match_loop_none:
  "match_loop opts keys None = Inr None \<longleftrightarrow> (\<forall>k\<in>set keys. \<forall>v. \<not> given opts k v)"
  by (induction keys) (auto simp: given_def match_loop_agree split: option.splits)

text \<open>The name that is reported is the first one with a non-empty value.\<close>

lemma match_loop_some:
  "match_loop opts keys None = Inr (Some m) \<longleftrightarrow>
   List.find (is_given opts) keys = Some (opt_key m) \<and>
   given opts (opt_key m) (opt_value m) \<and> (\<forall>k\<in>set keys. \<forall>v. given opts k v \<longrightarrow> v = opt_value m)"
proof (induction keys)
  case (Cons key keys)
  show ?case
  proof (cases "\<exists>v. given opts key v")
    case True
    then obtain v where v: "given opts key v" by blast
    then have "match_loop opts (key # keys) None = match_loop opts keys (Some \<lparr>opt_key = key, opt_value = v\<rparr>)"
      by (simp add: given_def)
    with v show ?thesis by (cases m) (auto simp: match_loop_agree given_def is_given_def)
  next
    case False
    then have "match_loop opts (key # keys) None = match_loop opts keys None"
      by (auto simp: given_def split: option.splits)
    with False Cons.IH show ?thesis by (auto simp: is_given_def)
  qed
qed simp

lemma match_loop_conflict:
  "match_loop opts keys None = Inl e \<Longrightarrow>
   \<exists>k\<in>set keys. \<exists>k'\<in>set keys. \<exists>v v'. given opts k v \<and> given opts k' v' \<and> v \<noteq> v'"
proof (induction keys)
  case (Cons key keys)
  show ?case
  proof (cases "is_given opts key")
    case True
    then obtain v where v: "given opts key v" by (auto simp: is_given_def)
    with Cons.prems have "match_loop opts keys (Some \<lparr>opt_key = key, opt_value = v\<rparr>) = Inl e"
      by (simp add: given_def)
    then obtain k v' where "k \<in> set keys" "given opts k v'" "v' \<noteq> v"
      using match_loop_agree [of opts keys "\<lparr>opt_key = key, opt_value = v\<rparr>"] by fastforce
    with v show ?thesis by (meson list.set_intros)
  next
    case False
    then have "match_loop opts (key # keys) None = match_loop opts keys None"
      by (auto simp: given_def is_given_def split: option.splits)
    with Cons show ?thesis by auto
  qed
qed simp

subsection \<open>Properties\<close>

text \<open>
  Looking an option up under several names succeeds with a match exactly when all the
  non-empty values agree; the match is the first name that has one, with its value.
\<close>

lemma find_option_match_agreed:
  "find_option_match opts keys = Inr (Some m) \<longleftrightarrow>
   List.find (is_given opts) keys = Some (opt_key m) \<and> opts (opt_key m) = Some (opt_value m) \<and> opt_value m \<noteq> [] \<and>
   (\<forall>k\<in>set keys. \<forall>v. given opts k v \<longrightarrow> v = opt_value m)"
  by (simp add: find_option_match_def match_loop_some given_def)

text \<open>
  A decimal number reads back: an option holding the decimal text of \<open>i\<close> is \<open>i\<close> as a
  64-bit option for every 64-bit \<open>i\<close>, and as an \<^verbatim>\<open>int\<close> option it is \<open>i\<close> or the range error,
  never a truncated value.
\<close>

lemma int_option_roundtrip:
  assumes "- (2 ^ 63) \<le> i" "i < 2 ^ 63" "opts k = Some (int_str i)"
  shows "parse_i64_option opts [k] = Inr (Some i) \<and>
    parse_int_option opts [k] = (if - (2 ^ 31) \<le> i \<and> i < 2 ^ 31 then Inr (Some i) else Inl (Outside_Range k))"
proof -
  have "int_str i \<noteq> []" by (simp add: int_str_def)
  with assms(3) have m: "find_option_match opts [k] = Inr (Some \<lparr>opt_key = k, opt_value = int_str i\<rparr>)"
    by (simp add: find_option_match_def)
  have "sto_signed 64 (int_str i) = Inr (i, length (int_str i))"
    using assms(1,2) by (intro sto_signed_int_str) simp_all
  then show ?thesis
    by (auto simp: parse_i64_option_def parse_int_option_def with_match_def m lift_std_def
        parse_i64_value_def parse_int_value_def)
qed

lemma checked_mib_exact:
  assumes "0 < mb" "checked_mib_to_bytes mb key = Inr b"
  shows "int b = mb * 1048576 \<and> b < 2 ^ 64"
proof -
  have le: "mb \<le> 17592186044415" and b: "b = to_size_t mb * 1048576 mod 2 ^ 64"
    using assms(2) by (auto simp: checked_mib_to_bytes_def split: if_splits)
  have "to_size_t mb = nat mb" using assms(1) le by simp
  moreover have "nat mb * 1048576 < 2 ^ 64" using le assms(1) by simp
  ultimately show ?thesis using b assms(1) by simp
qed

text \<open>
  A size given in MiB never wraps: when the reader returns, the byte count is the exact
  product of the positive number in the option and \<open>2 ^ 20\<close>, and it fits in 64 bits.
\<close>

lemma size_mb_exact:
  assumes "parse_size_mb_option opts keys d = Inr b" "find_option_match opts keys = Inr (Some m)"
  shows "\<exists>mb > 0. parse_i64_value (opt_value m) (opt_key m) = Inr mb \<and> int b = mb * 1048576 \<and> b < 2 ^ 64"
proof -
  obtain mb where "parse_i64_value (opt_value m) (opt_key m) = Inr mb" "0 < mb"
      "checked_mib_to_bytes mb (opt_key m) = Inr b"
    using assms by (auto simp: parse_size_mb_option_def or_fallback_def with_match_def bind_sum_Inr split: if_splits)
  then show ?thesis using checked_mib_exact by blast
qed

text \<open>
  The names the error messages print for storage types are names the parser takes back,
  in any letter case, except \<open>i8\<close>, which no spelling selects.
\<close>

lemma storage_name_roundtrip:
  "parse_tensor_storage_type (tensor_storage_type_name t) =
     (if t = I8 then Inl (Unsupported_Storage ''i8'') else Inr t) \<and>
   (\<forall>v. parse_tensor_storage_type v \<noteq> Inr I8) \<and>
   (\<forall>v. map to_lower v = tensor_storage_type_name t \<and> t \<noteq> I8 \<longrightarrow> parse_tensor_storage_type v = Inr t)"
proof -
  have low: "map to_lower (tensor_storage_type_name t) = tensor_storage_type_name t"
    by (cases t) (simp_all add: ctype_defs)
  have look: "map_of storage_names (tensor_storage_type_name t) = (if t = I8 then None else Some t)"
    by (cases t) (simp_all add: storage_names_def)
  have "(v, I8) \<notin> set storage_names" for v by (simp add: storage_names_def)
  then have "parse_tensor_storage_type v \<noteq> Inr I8" for v
    by (auto simp: parse_tensor_storage_type_def split: option.splits dest!: map_of_SomeD)
  then show ?thesis
    by (auto simp: parse_tensor_storage_type_def low look)
qed

text \<open>
  The sign check of the unsigned readers looks at the first byte only, while the number parser
  skips blanks first: a blank before the minus sign lets a negative number through.
\<close>

lemma u64_accepts_blank_minus: "parse_u64_value '' -1'' key = Inr (2 ^ 64 - 1)"
  by (simp add: parse_u64_value_def sto_unsigned_def c_int_scan_def digits_nat_def lift_std_def ctype_defs)

end
