(* ===== verification/Text_Chunking.thy ===== *)
theory Text_Chunking
  imports Prelude Options
begin

text \<open>
  Splitting a text to be spoken into chunks of a bounded number of code points
  (\<^verbatim>\<open>src/framework/text/chunking.cpp\<close>, \<^verbatim>\<open>include/engine/framework/text/utf8.h\<close>,
  \<^verbatim>\<open>src/framework/io/text.cpp\<close>).

  Spans, words and units keep the index fields of the code's structs, and the loops run over
  indices as there. Budgets are \<^typ>\<open>int\<close> (\<^verbatim>\<open>int64_t\<close>); a throw carries the label of the
  message. The lemmas show that a chunk taken by index is a concatenation of whole code points,
  that nothing but blanks is lost between chunks, and that the budget holds.
\<close>

subsection \<open>UTF-8\<close>

datatype chunk_error =
  Bad_Budget
| Invalid_Utf8 string
| Truncated_Utf8 string
| Invalid_Continuation string
| Bad_Option option_error
| Bad_Number number_error
| Size_Not_Positive string
| Unknown_Mode string

definition is_utf8_continuation :: "char \<Rightarrow> bool" where
  "is_utf8_continuation c \<longleftrightarrow> byte_of c div 64 = 2"

definition utf8_width :: "char \<Rightarrow> nat option" where
  "utf8_width c =
     (if byte_of c \<le> 0x7F then Some 1
      else if byte_of c div 32 = 6 then Some 2
      else if byte_of c div 16 = 14 then Some 3
      else if byte_of c div 8 = 30 then Some 4
      else None)"

text \<open>The checks at one position: the width of the code point that starts the rest of the text.\<close>

definition utf8_head :: "string \<Rightarrow> string \<Rightarrow> chunk_error + nat" where
  "utf8_head label rest =
     (case utf8_width (hd rest) of
        None \<Rightarrow> Inl (Invalid_Utf8 label)
      | Some w \<Rightarrow>
          if w > length rest then Inl (Truncated_Utf8 label)
          else if \<not> list_all is_utf8_continuation (take (w - 1) (tl rest)) then Inl (Invalid_Continuation label)
          else Inr w)"

lemma utf8_head_pos: "utf8_head label rest = Inr w \<Longrightarrow> 0 < w"
  by (auto simp: utf8_head_def utf8_width_def split: option.splits if_splits)

function utf8_codepoint_count :: "string \<Rightarrow> string \<Rightarrow> chunk_error + nat" where
  "utf8_codepoint_count label rest =
     (if rest = [] then Inr 0
      else
        (case utf8_head label rest of
           Inl e \<Rightarrow> Inl e
         | Inr w \<Rightarrow> bind_sum (utf8_codepoint_count label (drop w rest)) (\<lambda>n. Inr (n + 1))))"
  by pat_completeness auto
termination
  by (relation "measure (\<lambda>(label, rest). length rest)") (auto dest: utf8_head_pos)

declare utf8_codepoint_count.simps [simp del]

record utf8_span =
  span_from :: nat
  span_to :: nat
  span_text :: string

function split_spans_from :: "string \<Rightarrow> nat \<Rightarrow> string \<Rightarrow> chunk_error + utf8_span list" where
  "split_spans_from label pos rest =
     (if rest = [] then Inr []
      else
        (case utf8_head label rest of
           Inl e \<Rightarrow> Inl e
         | Inr w \<Rightarrow>
             bind_sum (split_spans_from label (pos + w) (drop w rest))
               (\<lambda>spans. Inr (\<lparr>span_from = pos, span_to = pos + w, span_text = take w rest\<rparr> # spans))))"
  by pat_completeness auto
termination
  by (relation "measure (\<lambda>(label, pos, rest). length rest)") (auto dest: utf8_head_pos)

declare split_spans_from.simps [simp del]

definition split_utf8_spans :: "string \<Rightarrow> string \<Rightarrow> chunk_error + utf8_span list" where
  "split_utf8_spans tx label =
     bind_sum (utf8_codepoint_count label tx) (\<lambda>_. split_spans_from label 0 tx)"

subsection \<open>Character classes of spans\<close>

definition is_ascii_space :: "string \<Rightarrow> bool" where
  "is_ascii_space tok \<longleftrightarrow> length tok = 1 \<and> is_space_byte (hd tok)"

definition is_ascii_line_break :: "string \<Rightarrow> bool" where
  "is_ascii_line_break tok \<longleftrightarrow> tok = [CHR 0x0A] \<or> tok = [CHR 0x0D]"

definition is_horizontal_ascii_space :: "string \<Rightarrow> bool" where
  "is_horizontal_ascii_space tok \<longleftrightarrow> tok = '' '' \<or> tok = [CHR 0x09] \<or> tok = [CHR 0x0C] \<or> tok = [CHR 0x0B]"

definition is_sentence_break :: "string \<Rightarrow> bool" where
  "is_sentence_break tok \<longleftrightarrow> List.member
     [''.'', ''!'', ''?'', [CHR 0xE3, CHR 0x80, CHR 0x82], [CHR 0xEF, CHR 0xBC, CHR 0x81], [CHR 0xEF, CHR 0xBC, CHR 0x9F]] tok"

definition is_clause_break :: "string \<Rightarrow> bool" where
  "is_clause_break tok \<longleftrightarrow> List.member
     ['','', '';'', '':'', [CHR 0xEF, CHR 0xBC, CHR 0x8C], [CHR 0xE3, CHR 0x80, CHR 0x81],
      [CHR 0xEF, CHR 0xBC, CHR 0x9B], [CHR 0xEF, CHR 0xBC, CHR 0x9A]] tok"

definition is_tag_open :: "string \<Rightarrow> bool" where
  "is_tag_open tok \<longleftrightarrow> tok = ''['' \<or> tok = ''<''"

definition is_tag_close :: "string \<Rightarrow> string \<Rightarrow> bool" where
  "is_tag_close tok opn \<longleftrightarrow> (opn = ''['' \<and> tok = '']'') \<or> (opn = ''<'' \<and> tok = ''>'')"

definition trim_ascii_whitespace :: "string \<Rightarrow> string" where
  "trim_ascii_whitespace v = rev (dropWhile is_space_byte (rev (dropWhile is_space_byte v)))"

abbreviation tok :: "utf8_span list \<Rightarrow> nat \<Rightarrow> string" where
  "tok spans i \<equiv> span_text (spans ! i)"

subsection \<open>Words and tag-aware units\<close>

record word_range =
  w_span_start :: nat
  w_span_end :: nat
  w_byte_start :: nat
  w_byte_end :: nat
  w_sentence_break :: bool
  w_clause_break :: bool

definition word_at :: "utf8_span list \<Rightarrow> nat \<Rightarrow> nat \<Rightarrow> word_range" where
  "word_at spans s e =
     \<lparr>w_span_start = s, w_span_end = e, w_byte_start = span_from (spans ! s), w_byte_end = span_to (spans ! (e - 1)),
      w_sentence_break = is_sentence_break (tok spans (e - 1)), w_clause_break = is_clause_break (tok spans (e - 1))\<rparr>"

definition skip_spaces :: "utf8_span list \<Rightarrow> nat \<Rightarrow> nat" where
  "skip_spaces spans i = scan_while (\<lambda>k. is_ascii_space (tok spans k)) (length spans) i"

definition word_end :: "utf8_span list \<Rightarrow> nat \<Rightarrow> nat" where
  "word_end spans s = scan_while (\<lambda>k. \<not> is_ascii_space (tok spans k)) (length spans) (s + 1)"

lemma skip_spaces_ge: "i \<le> skip_spaces spans i"
  by (simp add: skip_spaces_def scan_while_ge)

lemma word_end_gt: "s < word_end spans s"
  using scan_while_ge [of "s + 1"] by (fastforce simp: word_end_def Suc_le_eq)

function word_ranges_from :: "utf8_span list \<Rightarrow> nat \<Rightarrow> word_range list" where
  "word_ranges_from spans pos =
     (let s = skip_spaces spans pos in
      if s \<ge> length spans then []
      else word_at spans s (word_end spans s) # word_ranges_from spans (word_end spans s))"
  by pat_completeness auto
termination
proof (relation "measure (\<lambda>(spans, pos). length spans - pos)")
  fix spans pos s
  assume "s = skip_spaces spans pos" "\<not> length spans \<le> s"
  then show "((spans, word_end spans s), spans, pos) \<in> measure (\<lambda>(spans, pos). length spans - pos)"
    using skip_spaces_ge [of pos spans] word_end_gt [of s spans] by simp
qed simp

declare word_ranges_from.simps [simp del]

definition split_word_ranges :: "utf8_span list \<Rightarrow> word_range list" where
  "split_word_ranges spans = word_ranges_from spans 0"

record text_unit =
  u_span_start :: nat
  u_span_end :: nat
  u_byte_start :: nat
  u_byte_end :: nat
  u_tag :: bool
  u_sentence_break :: bool

definition unit_at :: "utf8_span list \<Rightarrow> nat \<Rightarrow> nat \<Rightarrow> bool \<Rightarrow> text_unit" where
  "unit_at spans s e tag =
     \<lparr>u_span_start = s, u_span_end = e, u_byte_start = span_from (spans ! s), u_byte_end = span_to (spans ! (e - 1)),
      u_tag = tag, u_sentence_break = (\<not> tag \<and> is_sentence_break (tok spans (e - 1)))\<rparr>"

text \<open>Where the unit that starts at \<open>s\<close> ends, and whether it is a closed tag.\<close>

definition unit_end :: "utf8_span list \<Rightarrow> nat \<Rightarrow> nat \<times> bool" where
  "unit_end spans s =
     (let n = length spans in
      if is_tag_open (tok spans s)
      then (let c = scan_while (\<lambda>k. \<not> is_tag_close (tok spans k) (tok spans s)) n (s + 1) in
            if c < n then (c + 1, True)
            else (scan_while (\<lambda>k. \<not> is_ascii_space (tok spans k) \<and> \<not> is_tag_open (tok spans k)) n (s + 1), False))
      else (scan_while (\<lambda>k. \<not> is_ascii_space (tok spans k) \<and> \<not> is_tag_open (tok spans k) \<and>
                            \<not> is_sentence_break (tok spans (k - 1))) n (s + 1), False))"

lemma unit_end_gt: "s < fst (unit_end spans s)"
proof -
  have "s < scan_while P n (s + 1)" for P n using scan_while_ge [of "s + 1" P n] by simp
  then show ?thesis unfolding unit_end_def Let_def by (simp add: less_SucI)
qed

function units_from :: "utf8_span list \<Rightarrow> nat \<Rightarrow> text_unit list" where
  "units_from spans pos =
     (let s = skip_spaces spans pos in
      if s \<ge> length spans then []
      else unit_at spans s (fst (unit_end spans s)) (snd (unit_end spans s)) # units_from spans (fst (unit_end spans s)))"
  by pat_completeness auto
termination
proof (relation "measure (\<lambda>(spans, pos). length spans - pos)")
  fix spans pos s
  assume "s = skip_spaces spans pos" "\<not> length spans \<le> s"
  then show "((spans, fst (unit_end spans s)), spans, pos) \<in> measure (\<lambda>(spans, pos). length spans - pos)"
    using skip_spaces_ge [of pos spans] unit_end_gt [of s spans] by simp
qed simp

declare units_from.simps [simp del]

definition split_tag_aware_units :: "utf8_span list \<Rightarrow> text_unit list" where
  "split_tag_aware_units spans = units_from spans 0"

subsection \<open>Cutting chunks\<close>

definition text_between :: "string \<Rightarrow> nat \<Rightarrow> nat \<Rightarrow> string" where
  "text_between tx from to = trim_ascii_whitespace (substr tx from (to - from))"

text \<open>\<^verbatim>\<open>if (!chunk.empty()) chunks.push_back(chunk);\<close>\<close>

definition push_chunk :: "string \<Rightarrow> string list \<Rightarrow> string list" where
  "push_chunk c cs = (if c = [] then cs else c # cs)"

text \<open>
  The cut before \<open>hard\<close>: the last sentence break in range; when that search ends at \<open>hard\<close>,
  whether it found a break there or none at all, the last clause break.
\<close>

definition best_break :: "(nat \<Rightarrow> bool) \<Rightarrow> (nat \<Rightarrow> bool) \<Rightarrow> nat \<Rightarrow> nat \<Rightarrow> nat \<Rightarrow> nat" where
  "best_break sentence clause start hard n =
     (if hard < n \<and> hard > start + 1
      then (let e = (case scan_down sentence (start + 1) hard of Some i \<Rightarrow> i | None \<Rightarrow> hard) in
            if e = hard then (case scan_down clause (start + 1) hard of Some i \<Rightarrow> i | None \<Rightarrow> hard) else e)
      else hard)"

lemma best_break_bounds: "start < hard \<Longrightarrow> start < best_break P Q start hard n \<and> best_break P Q start hard n \<le> hard"
  by (auto simp: best_break_def Let_def split: option.splits dest!: scan_down_Some)

text \<open>\<^verbatim>\<open>while (h < n && fits(h)) ++h; if (h == start) h = start + 1;\<close>\<close>

definition hard_end :: "(nat \<Rightarrow> bool) \<Rightarrow> nat \<Rightarrow> nat \<Rightarrow> nat" where
  "hard_end fits n start = (let h = scan_while fits n start in if h = start then start + 1 else h)"

lemma hard_end_bounds: "start < n \<Longrightarrow> start < hard_end fits n start \<and> hard_end fits n start \<le> n"
  using scan_while_ge [of start fits n] scan_while_le [of start n fits] by (auto simp: hard_end_def Let_def)

subsection \<open>Default mode\<close>

definition word_chunk_end :: "word_range list \<Rightarrow> int \<Rightarrow> nat \<Rightarrow> nat" where
  "word_chunk_end words budget ws =
     (let hard = hard_end (\<lambda>h. int (w_span_end (words ! h) - w_span_start (words ! ws)) \<le> budget) (length words) ws in
      best_break (\<lambda>i. w_sentence_break (words ! i)) (\<lambda>i. w_clause_break (words ! i)) ws hard (length words))"

lemma word_chunk_end_bounds:
  "ws < length words \<Longrightarrow> ws < word_chunk_end words budget ws \<and> word_chunk_end words budget ws \<le> length words"
  unfolding word_chunk_end_def Let_def using best_break_bounds hard_end_bounds by (meson le_trans)

function default_loop :: "string \<Rightarrow> word_range list \<Rightarrow> int \<Rightarrow> nat \<Rightarrow> string list" where
  "default_loop tx words budget ws =
     (if ws < length words
      then (let e = word_chunk_end words budget ws in
            push_chunk (text_between tx (w_byte_start (words ! ws)) (w_byte_end (words ! (e - 1))))
              (default_loop tx words budget e))
      else [])"
  by pat_completeness auto
termination
proof (relation "measure (\<lambda>(tx, words, budget, ws). length words - ws)")
  fix tx :: string and words :: "word_range list" and budget ws e
  assume "ws < length words" "e = word_chunk_end words budget ws"
  then show "((tx, words, budget, e), tx, words, budget, ws) \<in> measure (\<lambda>(tx, words, budget, ws). length words - ws)"
    using word_chunk_end_bounds [of ws words budget] by (simp add: diff_less_mono2)
qed simp

declare default_loop.simps [simp del]

definition split_text_chunks_default :: "string \<Rightarrow> int \<Rightarrow> chunk_error + string list" where
  "split_text_chunks_default tx budget =
     (if budget \<le> 0 then Inl Bad_Budget
      else
        (let t = trim_ascii_whitespace tx in
         if t = [] then Inr []
         else bind_sum (split_utf8_spans t ''text chunk'') (\<lambda>spans.
           if int (length spans) \<le> budget then Inr [t]
           else
             (let words = split_word_ranges spans in
              if words = [] then Inr [] else Inr (default_loop t words budget 0)))))"

subsection \<open>Tag-aware mode\<close>

definition join_units :: "string \<Rightarrow> text_unit list \<Rightarrow> nat \<Rightarrow> nat \<Rightarrow> string" where
  "join_units tx units s e =
     (if s \<ge> e then [] else text_between tx (u_byte_start (units ! s)) (u_byte_end (units ! (e - 1))))"

definition unit_range_codepoints :: "text_unit list \<Rightarrow> nat \<Rightarrow> nat \<Rightarrow> int" where
  "unit_range_codepoints units s e =
     (if s \<ge> e then 0 else int (u_span_end (units ! (e - 1)) - u_span_start (units ! s)))"

function append_piece_chunks :: "string \<Rightarrow> text_unit list \<Rightarrow> nat \<Rightarrow> nat \<Rightarrow> int \<Rightarrow> string list" where
  "append_piece_chunks tx units us e budget =
     (if us < e
      then (let h = hard_end (\<lambda>h. unit_range_codepoints units us (h + 1) \<le> budget) e us in
            push_chunk (join_units tx units us h) (append_piece_chunks tx units h e budget))
      else [])"
  by pat_completeness auto
termination
proof (relation "measure (\<lambda>(tx, units, us, e, budget). e - us)")
  fix tx :: string and units us e budget h
  assume "us < e" "h = hard_end (\<lambda>h. unit_range_codepoints units us (h + 1) \<le> budget) e us"
  then show "((tx, units, h, e, budget), tx, units, us, e, budget) \<in> measure (\<lambda>(tx, units, us, e, budget). e - us)"
    using hard_end_bounds [of us e] by (simp add: diff_less_mono2)
qed simp

declare append_piece_chunks.simps [simp del]

function sentence_ranges :: "text_unit list \<Rightarrow> nat \<Rightarrow> nat \<Rightarrow> (nat \<times> nat) list" where
  "sentence_ranges units start i =
     (if i < length units
      then (if u_sentence_break (units ! i) then (start, i + 1) # sentence_ranges units (i + 1) (i + 1)
            else sentence_ranges units start (i + 1))
      else if start < length units then [(start, length units)] else [])"
  by pat_completeness auto
termination
  by (relation "measure (\<lambda>(units, start, i). length units - i)") auto

declare sentence_ranges.simps [simp del]

function tag_body_loop :: "string \<Rightarrow> text_unit list \<Rightarrow> (nat \<times> nat) list \<Rightarrow> int \<Rightarrow> nat \<Rightarrow> string list" where
  "tag_body_loop tx units sentences budget si =
     (if si < length sentences
      then (let a = fst (sentences ! si); b = snd (sentences ! si) in
            if unit_range_codepoints units a b > budget
            then append_piece_chunks tx units a b budget @ tag_body_loop tx units sentences budget (si + 1)
            else
              (let e = hard_end (\<lambda>c. unit_range_codepoints units a (snd (sentences ! c)) \<le> budget) (length sentences) si in
               push_chunk (join_units tx units a (snd (sentences ! (e - 1))))
                 (tag_body_loop tx units sentences budget e)))
      else [])"
  by pat_completeness auto
termination
proof (relation "measure (\<lambda>(tx, units, sentences, budget, si). length sentences - si)", goal_cases)
  case (3 tx units sentences budget si a b e)
  then show ?case
    using hard_end_bounds [of si "length sentences"] by (simp add: diff_less_mono2)
qed auto

declare tag_body_loop.simps [simp del]

definition split_tag_aware_body :: "string \<Rightarrow> int \<Rightarrow> chunk_error + string list" where
  "split_tag_aware_body tx budget =
     bind_sum (split_utf8_spans tx ''tag-aware text chunk'') (\<lambda>spans.
       if int (length spans) \<le> budget then Inr [tx]
       else
         (let units = split_tag_aware_units spans in
          if units = [] then Inr []
          else Inr (tag_body_loop tx units (sentence_ranges units 0 0) budget 0)))"

definition split_leading_parenthetical_control :: "string \<Rightarrow> (string \<times> string) option" where
  "split_leading_parenthetical_control tx =
     (if tx = [] \<or> hd tx \<noteq> CHR ''('' then None
      else
        (case find_idx (\<lambda>c. c = CHR '')'') tx of
           None \<Rightarrow> None
         | Some close \<Rightarrow>
             if close + 1 \<ge> length tx then None
             else
               (let pre = trim_ascii_whitespace (take (close + 1) tx);
                    body = trim_ascii_whitespace (drop (close + 1) tx)
                in if pre = [] \<or> body = [] then None else Some (pre, body))))"

definition split_text_chunks_tag_aware :: "string \<Rightarrow> int \<Rightarrow> chunk_error + string list" where
  "split_text_chunks_tag_aware tx budget =
     (if budget \<le> 0 then Inl Bad_Budget
      else
        (let t = trim_ascii_whitespace tx in
         if t = [] then Inr []
         else
           (case split_leading_parenthetical_control t of
              None \<Rightarrow> split_tag_aware_body t budget
            | Some (pre, body) \<Rightarrow>
                bind_sum (utf8_codepoint_count ''tag-aware leading text chunk tag'' pre) (\<lambda>n.
                bind_sum (split_tag_aware_body body (max 1 (budget - int n - 1))) (\<lambda>chunks.
                Inr (map (\<lambda>c. pre @ '' '' @ c) chunks))))))"

subsection \<open>Japanese mode\<close>

definition span_chunk_end :: "utf8_span list \<Rightarrow> int \<Rightarrow> nat \<Rightarrow> nat" where
  "span_chunk_end spans budget s =
     best_break (\<lambda>i. is_sentence_break (tok spans i)) (\<lambda>i. is_clause_break (tok spans i)) s
       (min (length spans) (s + to_size_t budget)) (length spans)"

text \<open>The only caller has checked that the budget is positive; the guard on it makes the loop total.\<close>

function japanese_loop :: "string \<Rightarrow> utf8_span list \<Rightarrow> int \<Rightarrow> nat \<Rightarrow> string list" where
  "japanese_loop tx spans budget start =
     (let s = skip_spaces spans start in
      if s \<ge> length spans \<or> to_size_t budget = 0 then []
      else
        (let e = span_chunk_end spans budget s in
         push_chunk (text_between tx (span_from (spans ! s)) (span_to (spans ! (e - 1))))
           (japanese_loop tx spans budget e)))"
  by pat_completeness auto
termination
proof (relation "measure (\<lambda>(tx, spans, budget, start). length spans - start)")
  fix tx :: string and spans budget start s e
  assume "s = skip_spaces spans start" "\<not> (length spans \<le> s \<or> to_size_t budget = 0)" "e = span_chunk_end spans budget s"
  then show "((tx, spans, budget, e), tx, spans, budget, start) \<in> measure (\<lambda>(tx, spans, budget, start). length spans - start)"
    using skip_spaces_ge [of start spans] best_break_bounds [of s "min (length spans) (s + to_size_t budget)"]
    by (simp add: span_chunk_end_def diff_less_mono2 le_less_trans)
qed simp

declare japanese_loop.simps [simp del]

definition split_text_chunks_japanese :: "string \<Rightarrow> int \<Rightarrow> chunk_error + string list" where
  "split_text_chunks_japanese tx budget =
     (if budget \<le> 0 then Inl Bad_Budget
      else
        (let t = trim_ascii_whitespace tx in
         if t = [] then Inr []
         else bind_sum (split_utf8_spans t ''Japanese text chunk'') (\<lambda>spans.
           if int (length spans) \<le> budget then Inr [t] else Inr (japanese_loop t spans budget 0))))"

subsection \<open>Endline mode\<close>

definition append_endline_chunk :: "string \<Rightarrow> int \<Rightarrow> chunk_error + string list" where
  "append_endline_chunk c budget =
     (if c = [] then Inr []
      else bind_sum (utf8_codepoint_count ''endline text chunk'' c) (\<lambda>n.
        if int n \<le> budget then Inr [c] else split_text_chunks_japanese c budget))"

text \<open>Whether the sentence break at \<open>i\<close> ends its line.\<close>

definition ends_line :: "utf8_span list \<Rightarrow> nat \<Rightarrow> bool" where
  "ends_line spans i =
     (is_sentence_break (tok spans i) \<and>
      (let nxt = scan_while (\<lambda>k. is_horizontal_ascii_space (tok spans k)) (length spans) (i + 1) in
       nxt \<ge> length spans \<or> is_ascii_line_break (tok spans nxt)))"

function endline_loop :: "string \<Rightarrow> utf8_span list \<Rightarrow> int \<Rightarrow> nat \<Rightarrow> nat \<Rightarrow> chunk_error + string list" where
  "endline_loop tx spans budget start i =
     (if i < length spans
      then (if ends_line spans i
            then bind_sum (append_endline_chunk (text_between tx (span_from (spans ! start)) (span_to (spans ! i))) budget)
                   (\<lambda>here. bind_sum (endline_loop tx spans budget (i + 1) (i + 1)) (\<lambda>rest. Inr (here @ rest)))
            else endline_loop tx spans budget start (i + 1))
      else if start < length spans
      then append_endline_chunk (text_between tx (span_from (spans ! start)) (span_to (last spans))) budget
      else Inr [])"
  by pat_completeness auto
termination
  by (relation "measure (\<lambda>(tx, spans, budget, start, i). length spans - i)") auto

declare endline_loop.simps [simp del]

definition split_text_chunks_endline :: "string \<Rightarrow> int \<Rightarrow> chunk_error + string list" where
  "split_text_chunks_endline tx budget =
     (if budget \<le> 0 then Inl Bad_Budget
      else
        (let t = trim_ascii_whitespace tx in
         if t = [] then Inr []
         else bind_sum (split_utf8_spans t ''endline text chunk'') (\<lambda>spans. endline_loop t spans budget 0 0)))"

subsection \<open>Modes and overrides\<close>

datatype text_chunk_mode = Default | TagAware | Japanese | Endline

fun text_chunk_mode_name :: "text_chunk_mode \<Rightarrow> string" where
  "text_chunk_mode_name Default = ''default''"
| "text_chunk_mode_name TagAware = ''tag_aware''"
| "text_chunk_mode_name Japanese = ''japanese''"
| "text_chunk_mode_name Endline = ''endline''"

fun split_text_chunks :: "string \<Rightarrow> int \<Rightarrow> text_chunk_mode \<Rightarrow> chunk_error + string list" where
  "split_text_chunks tx budget TagAware = split_text_chunks_tag_aware tx budget"
| "split_text_chunks tx budget Japanese = split_text_chunks_japanese tx budget"
| "split_text_chunks tx budget Endline = split_text_chunks_endline tx budget"
| "split_text_chunks tx budget Default = split_text_chunks_default tx budget"

definition override_match :: "options \<Rightarrow> string list \<Rightarrow> chunk_error + option_match option" where
  "override_match opts keys =
     (case find_option_match opts keys of Inl e \<Rightarrow> Inl (Bad_Option e) | Inr m \<Rightarrow> Inr m)"

definition parse_text_chunk_size_override :: "options \<Rightarrow> chunk_error + int option" where
  "parse_text_chunk_size_override opts =
     bind_sum (override_match opts [''text_chunk_size'', ''chunk_size'']) (\<lambda>m.
       case m of
         None \<Rightarrow> Inr None
       | Some x \<Rightarrow>
           (case sto_signed 64 (opt_value x) of
              Inl e \<Rightarrow> Inl (Bad_Number e)
            | Inr (v, _) \<Rightarrow> if v \<le> 0 then Inl (Size_Not_Positive (opt_key x)) else Inr (Some v)))"

definition parse_text_chunk_mode_override :: "options \<Rightarrow> chunk_error + text_chunk_mode option" where
  "parse_text_chunk_mode_override opts =
     bind_sum (override_match opts [''text_chunk_mode'', ''chunk_mode'']) (\<lambda>m.
       case m of
         None \<Rightarrow> Inr None
       | Some x \<Rightarrow>
           (if opt_value x = ''default'' then Inr (Some Default)
            else if opt_value x = ''tag_aware'' \<or> opt_value x = ''tag-aware'' \<or> opt_value x = ''tagaware''
              then Inr (Some TagAware)
            else if opt_value x = ''japanese'' \<or> opt_value x = ''ja'' then Inr (Some Japanese)
            else if opt_value x = ''endline'' then Inr (Some Endline)
            else Inl (Unknown_Mode (opt_key x))))"

subsection \<open>Valid UTF-8 is a sequence of code points\<close>

definition valid_tok :: "string \<Rightarrow> bool" where
  "valid_tok t \<longleftrightarrow> t \<noteq> [] \<and> utf8_width (hd t) = Some (length t) \<and> list_all is_utf8_continuation (tl t)"

lemma valid_tok_not_Nil [simp]: "valid_tok t \<Longrightarrow> t \<noteq> []"
  by (simp add: valid_tok_def)

lemma utf8_head_sound:
  "utf8_head label rest = Inr w \<Longrightarrow> rest \<noteq> [] \<Longrightarrow> valid_tok (take w rest) \<and> w \<le> length rest"
  using utf8_head_pos [of label rest w]
  by (cases rest; cases w) (auto simp: utf8_head_def valid_tok_def split: option.splits if_splits)

lemma utf8_head_complete: "valid_tok t \<Longrightarrow> utf8_head label (t @ r) = Inr (length t)"
  by (cases t) (auto simp: utf8_head_def valid_tok_def)

lemma count_tok:
  "valid_tok t \<Longrightarrow> utf8_codepoint_count label (t @ r) = bind_sum (utf8_codepoint_count label r) (\<lambda>n. Inr (n + 1))"
  by (subst utf8_codepoint_count.simps) (simp add: utf8_head_complete)

lemma count_Nil [simp]: "utf8_codepoint_count label [] = Inr 0"
  by (simp add: utf8_codepoint_count.simps)

lemma count_concat: "list_all valid_tok ts \<Longrightarrow> utf8_codepoint_count label (concat ts) = Inr (length ts)"
  by (induction ts) (simp_all add: count_tok)

lemma count_sound:
  "utf8_codepoint_count label s = Inr n \<Longrightarrow> \<exists>ts. list_all valid_tok ts \<and> s = concat ts \<and> length ts = n"
proof (induction label s arbitrary: n rule: utf8_codepoint_count.induct)
  case (1 label rest)
  show ?case
  proof (cases "rest = []")
    case True
    with 1 show ?thesis by simp
  next
    case False
    with "1.prems" obtain w m where w: "utf8_head label rest = Inr w"
        and m: "utf8_codepoint_count label (drop w rest) = Inr m" "n = m + 1"
      by (auto simp: utf8_codepoint_count.simps [of label rest] bind_sum_Inr split: sum.splits)
    from "1.IH" [OF False w m(1)] obtain ts where "list_all valid_tok ts" "drop w rest = concat ts" "length ts = m"
      by blast
    then have "list_all valid_tok (take w rest # ts) \<and> rest = concat (take w rest # ts) \<and> length (take w rest # ts) = n"
      using utf8_head_sound [OF w False] m(2) append_take_drop_id [of w rest] by simp
    then show ?thesis by blast
  qed
qed

text \<open>\<open>valid_utf8\<close>: the counting loop accepts the text, under any label.\<close>

definition valid_utf8 :: "string \<Rightarrow> bool" where
  "valid_utf8 s \<longleftrightarrow> (\<exists>ts. list_all valid_tok ts \<and> s = concat ts)"

lemma valid_utf8_iff: "valid_utf8 s \<longleftrightarrow> (\<exists>n. utf8_codepoint_count label s = Inr n)"
  unfolding valid_utf8_def using count_concat count_sound by metis

fun spans_at :: "nat \<Rightarrow> utf8_span list \<Rightarrow> bool" where
  "spans_at pos [] = True"
| "spans_at pos (sp # sps) \<longleftrightarrow>
     span_from sp = pos \<and> span_to sp = pos + length (span_text sp) \<and> valid_tok (span_text sp) \<and>
     spans_at (pos + length (span_text sp)) sps"

lemma split_spans_tok:
  "valid_tok t \<Longrightarrow> split_spans_from label pos (t @ r) =
     bind_sum (split_spans_from label (pos + length t) r)
       (\<lambda>spans. Inr (\<lparr>span_from = pos, span_to = pos + length t, span_text = t\<rparr> # spans))"
  by (subst split_spans_from.simps) (simp add: utf8_head_complete)

lemma split_spans_concat:
  "list_all valid_tok ts \<Longrightarrow>
   \<exists>spans. split_spans_from label pos (concat ts) = Inr spans \<and> map span_text spans = ts \<and> spans_at pos spans"
proof (induction ts arbitrary: pos)
  case Nil
  then show ?case by (simp add: split_spans_from.simps)
next
  case (Cons t ts)
  then obtain spans where "split_spans_from label (pos + length t) (concat ts) = Inr spans"
      "map span_text spans = ts" "spans_at (pos + length t) spans"
    by fastforce
  with Cons.prems show ?case by (simp add: split_spans_tok)
qed

lemma split_utf8_spans_Inr:
  assumes "split_utf8_spans tx label = Inr spans"
  shows "spans_at 0 spans \<and> concat (map span_text spans) = tx"
proof -
  obtain n where "utf8_codepoint_count label tx = Inr n" and s: "split_spans_from label 0 tx = Inr spans"
    using assms by (auto simp: split_utf8_spans_def bind_sum_Inr)
  then obtain ts where "list_all valid_tok ts" "tx = concat ts" using count_sound by blast
  with split_spans_concat [of ts label 0] s show ?thesis by auto
qed

lemma split_utf8_spans_valid: "(\<exists>spans. split_utf8_spans tx label = Inr spans) \<longleftrightarrow> valid_utf8 tx"
proof
  assume "valid_utf8 tx"
  then obtain ts where "list_all valid_tok ts" "tx = concat ts" by (auto simp: valid_utf8_def)
  with split_spans_concat [of ts label 0] show "\<exists>spans. split_utf8_spans tx label = Inr spans"
    by (auto simp: split_utf8_spans_def count_concat)
next
  assume "\<exists>spans. split_utf8_spans tx label = Inr spans"
  then show "valid_utf8 tx" by (auto simp: split_utf8_spans_def bind_sum_Inr valid_utf8_iff [of _ label])
qed

lemma spans_at_valid: "spans_at pos spans \<Longrightarrow> list_all valid_tok (map span_text spans)"
  by (induction spans arbitrary: pos) auto

lemma spans_at_nth:
  "spans_at pos spans \<Longrightarrow> i < length spans \<Longrightarrow>
   span_from (spans ! i) = pos + length (concat (map span_text (take i spans))) \<and>
   span_to (spans ! i) = pos + length (concat (map span_text (take (Suc i) spans)))"
proof (induction spans arbitrary: pos i)
  case (Cons sp sps)
  then show ?case by (cases i) auto
qed simp

subsection \<open>Text between two span indices\<close>

definition toks :: "utf8_span list \<Rightarrow> nat \<Rightarrow> nat \<Rightarrow> string" where
  "toks spans a b = concat (map span_text (take (b - a) (drop a spans)))"

lemma toks_split: "a \<le> b \<Longrightarrow> b \<le> c \<Longrightarrow> toks spans a c = toks spans a b @ toks spans b c"
proof -
  assume "a \<le> b" "b \<le> c"
  then have "c - a = (b - a) + (c - b)" and "drop (b - a) (drop a spans) = drop b spans" by simp_all
  then have "take (c - a) (drop a spans) = take (b - a) (drop a spans) @ take (c - b) (drop b spans)"
    by (simp only: take_add)
  then show ?thesis by (simp add: toks_def)
qed

lemma toks_all: "toks spans 0 (length spans) = concat (map span_text spans)"
  by (simp add: toks_def)

lemma toks_prefix: "concat (map span_text (take b spans)) = toks spans 0 b"
  by (simp add: toks_def)

lemma substr_toks:
  assumes "spans_at 0 spans" "a < b" "b \<le> length spans"
  shows "substr (concat (map span_text spans)) (span_from (spans ! a)) (span_to (spans ! (b - 1)) - span_from (spans ! a)) =
    toks spans a b"
proof -
  have fr: "span_from (spans ! a) = length (toks spans 0 a)" and to: "span_to (spans ! (b - 1)) = length (toks spans 0 b)"
    using spans_at_nth [OF assms(1)] assms(2,3) by (simp_all add: toks_prefix)
  have "toks spans 0 b = toks spans 0 a @ toks spans a b" using assms(2) by (simp add: toks_split)
  moreover have "concat (map span_text spans) = toks spans 0 b @ toks spans b (length spans)"
    using assms(3) toks_split [of 0 b "length spans" spans] by (simp add: toks_all)
  ultimately show ?thesis by (simp add: substr_def fr to [unfolded One_nat_def])
qed

subsection \<open>Trimming removes whole code points\<close>

lemma spoken_trim [simp]: "spoken (trim_ascii_whitespace s) = spoken s"
  by (simp add: spoken_def trim_ascii_whitespace_def filter_dropWhile_not flip: rev_filter)

lemma space_byte_small: "is_space_byte c \<Longrightarrow> byte_of c < 128"
  by (auto simp: is_space_byte_def)

lemma wide_tok_no_space:
  assumes "valid_tok t" "length t \<noteq> 1" "c \<in> set t"
  shows "128 \<le> byte_of c"
proof (cases "c \<in> set (tl t)")
  case True
  with assms(1) have "byte_of c div 64 = 2" by (auto simp: valid_tok_def list_all_iff is_utf8_continuation_def)
  then show ?thesis using div_times_less_eq_dividend [of "byte_of c" 64] by linarith
next
  case False
  with assms(3) have "c = hd t" by (cases t) auto
  then have "utf8_width c \<noteq> Some 1" using assms(1,2) by (simp add: valid_tok_def)
  then have "\<not> byte_of c \<le> 0x7F" by (simp add: utf8_width_def split: if_splits)
  then show ?thesis by linarith
qed

lemma tok_cases:
  assumes "valid_tok t"
  obtains (space) c where "t = [c]" "is_space_byte c" | (ink) "\<not> is_ascii_space t" "\<forall>c\<in>set t. \<not> is_space_byte c"
proof (cases "is_ascii_space t")
  case True
  then obtain c where "t = [c]" "is_space_byte c"
    by (auto simp: is_ascii_space_def length_Suc_conv)
  then show ?thesis by (rule space)
next
  case False
  show ?thesis
  proof (cases "length t = 1")
    case True
    with False show ?thesis by (intro ink) (auto simp: is_ascii_space_def length_Suc_conv)
  next
    case wide: False
    then have "\<forall>c\<in>set t. \<not> is_space_byte c"
      using wide_tok_no_space [OF assms wide] space_byte_small by fastforce
    with False show ?thesis by (rule ink)
  qed
qed

lemma space_tok [simp]: "is_space_byte c \<Longrightarrow> is_ascii_space [c]"
  by (simp add: is_ascii_space_def)

lemma dropWhile_hd: "t \<noteq> [] \<Longrightarrow> \<forall>c\<in>set t. \<not> P c \<Longrightarrow> dropWhile P (t @ r) = t @ r"
  by (cases t) auto

lemma dropWhile_concat:
  "list_all valid_tok ts \<Longrightarrow> dropWhile is_space_byte (concat ts) = concat (dropWhile is_ascii_space ts)"
proof (induction ts)
  case (Cons t ts)
  then have v: "valid_tok t" by simp
  from this show ?case
  proof (cases rule: tok_cases)
    case space
    with Cons show ?thesis by simp
  next
    case ink
    with v show ?thesis by (simp add: dropWhile_hd)
  qed
qed simp

lemma dropWhile_rev_concat:
  "list_all valid_tok ts \<Longrightarrow>
   dropWhile is_space_byte (rev (concat ts)) = rev (concat (rev (dropWhile is_ascii_space (rev ts))))"
proof (induction ts rule: rev_induct)
  case (snoc t ts)
  then have v: "valid_tok t" by simp
  from this show ?case
  proof (cases rule: tok_cases)
    case space
    with snoc show ?thesis by simp
  next
    case ink
    with v show ?thesis by (simp add: dropWhile_hd)
  qed
qed simp

lemma list_all_dropWhile: "list_all P xs \<Longrightarrow> list_all P (dropWhile Q xs)"
  by (induction xs) auto

lemma trim_concat:
  assumes "list_all valid_tok ts"
  shows "trim_ascii_whitespace (concat ts) =
    concat (rev (dropWhile is_ascii_space (rev (dropWhile is_ascii_space ts))))"
  using assms by (simp add: trim_ascii_whitespace_def dropWhile_concat dropWhile_rev_concat list_all_dropWhile)

text \<open>\<open>fits n c\<close>: the chunk is valid UTF-8 of at most \<open>n\<close> code points.\<close>

definition fits :: "int \<Rightarrow> string \<Rightarrow> bool" where
  "fits budget c \<longleftrightarrow> (\<exists>ts. list_all valid_tok ts \<and> c = concat ts \<and> int (length ts) \<le> budget)"

lemma fits_iff: "fits budget c \<longleftrightarrow> (\<exists>n. utf8_codepoint_count label c = Inr n \<and> int n \<le> budget)"
  unfolding fits_def using count_concat count_sound by metis

lemma fits_trim: "list_all valid_tok ts \<Longrightarrow> int (length ts) \<le> budget \<Longrightarrow> fits budget (trim_ascii_whitespace (concat ts))"
proof -
  let ?us = "dropWhile is_ascii_space ts"
  let ?vs = "dropWhile is_ascii_space (rev ?us)"
  assume ts: "list_all valid_tok ts" and b: "int (length ts) \<le> budget"
  have "length ?vs \<le> length ts"
    using length_dropWhile_le [of is_ascii_space "rev ?us"] length_dropWhile_le [of is_ascii_space ts] by simp
  moreover have "list_all valid_tok (rev ?vs)"
    using ts by (simp add: list_all_dropWhile)
  ultimately show ?thesis
    using b trim_concat [OF ts] unfolding fits_def by (intro exI [of _ "rev ?vs"]) simp
qed

lemma ascii_tok: "byte_of c < 128 \<Longrightarrow> valid_tok [c]"
proof -
  assume "byte_of c < 128"
  then have "byte_of c \<le> 0x7F" by linarith
  then have "utf8_width c = Some 1" unfolding utf8_width_def by (rule if_P)
  then show ?thesis by (simp add: valid_tok_def)
qed

lemma valid_utf8_space: "list_all is_space_byte ws \<Longrightarrow> valid_utf8 s \<Longrightarrow> valid_utf8 (ws @ s) \<and> valid_utf8 (s @ ws)"
proof -
  assume ws: "list_all is_space_byte ws" and "valid_utf8 s"
  then obtain ts where ts: "list_all valid_tok ts" "s = concat ts" by (auto simp: valid_utf8_def)
  have "valid_tok [c]" if "c \<in> set ws" for c
    using ws that space_byte_small [of c] ascii_tok by (simp add: list_all_iff)
  then have one: "list_all valid_tok (map (\<lambda>c. [c]) ws)" "concat (map (\<lambda>c. [c]) ws) = ws"
    by (simp_all add: list_all_iff)
  show ?thesis unfolding valid_utf8_def
    using ts one by (metis concat_append list_all_append)
qed

lemma valid_utf8_trim [simp]: "valid_utf8 (trim_ascii_whitespace s) \<longleftrightarrow> valid_utf8 s"
proof
  let ?d = "dropWhile is_space_byte s"
  have l: "list_all is_space_byte (takeWhile is_space_byte xs)" for xs
    by (auto simp: list_all_iff dest: set_takeWhileD)
  have r: "?d = trim_ascii_whitespace s @ rev (takeWhile is_space_byte (rev ?d))"
    unfolding trim_ascii_whitespace_def by (metis rev_append rev_rev_ident takeWhile_dropWhile_id)
  assume "valid_utf8 (trim_ascii_whitespace s)"
  then have "valid_utf8 (trim_ascii_whitespace s @ rev (takeWhile is_space_byte (rev ?d)))"
    using valid_utf8_space [of "rev (takeWhile is_space_byte (rev ?d))"] l by simp
  then have "valid_utf8 ?d" by (simp only: flip: r)
  then have "valid_utf8 (takeWhile is_space_byte s @ ?d)" using valid_utf8_space l by blast
  then show "valid_utf8 s" by simp
next
  assume "valid_utf8 s"
  then show "valid_utf8 (trim_ascii_whitespace s)"
    using fits_trim unfolding valid_utf8_def fits_def by blast
qed

subsection \<open>Ranges that leave out only blanks\<close>

text \<open>
  \<open>covers spans a rs\<close>: the span ranges \<open>rs\<close> are non-empty, ordered, start at \<open>a\<close> or later, and
  leave only blanks between them and after the last one.
\<close>

fun covers :: "utf8_span list \<Rightarrow> nat \<Rightarrow> (nat \<times> nat) list \<Rightarrow> bool" where
  "covers spans a [] \<longleftrightarrow> a \<le> length spans \<and> spoken (toks spans a (length spans)) = []"
| "covers spans a ((s, e) # rs) \<longleftrightarrow>
     a \<le> s \<and> s < e \<and> e \<le> length spans \<and> spoken (toks spans a s) = [] \<and> covers spans e rs"

definition body :: "utf8_span list \<Rightarrow> (nat \<times> nat) list \<Rightarrow> string" where
  "body spans rs = concat (map (\<lambda>(s, e). spoken (toks spans s e)) rs)"

lemma covers_body: "covers spans a rs \<Longrightarrow> a \<le> length spans \<and> spoken (toks spans a (length spans)) = body spans rs"
proof (induction spans a rs rule: covers.induct)
  case (2 spans a s e rs)
  then have "toks spans a (length spans) = toks spans a s @ toks spans s e @ toks spans e (length spans)"
    using toks_split [of a s "length spans" spans] toks_split [of s e "length spans" spans] by simp
  with 2 show ?case by (simp add: body_def)
qed (simp add: body_def)

lemma covers_drop: "covers spans a rs \<Longrightarrow> i < length rs \<Longrightarrow> covers spans (fst (rs ! i)) (drop i rs)"
proof (induction spans a rs arbitrary: i rule: covers.induct)
  case (2 spans a s e rs)
  then show ?case by (cases i) (auto simp: toks_def)
qed simp

lemma covers_nth: "covers spans a rs \<Longrightarrow> i < length rs \<Longrightarrow> fst (rs ! i) < snd (rs ! i) \<and> snd (rs ! i) \<le> length spans"
proof (induction spans a rs arbitrary: i rule: covers.induct)
  case (2 spans a s e rs)
  then show ?case by (cases i) auto
qed simp

lemma covers_slice_hd:
  "covers spans a rs \<Longrightarrow> 0 < k \<Longrightarrow> k \<le> length rs \<Longrightarrow>
   a \<le> snd (rs ! (k - 1)) \<and> spoken (toks spans a (snd (rs ! (k - 1)))) = body spans (take k rs)"
proof (induction spans a rs arbitrary: k rule: covers.induct)
  case (2 spans a s e rs)
  have se: "toks spans a e = toks spans a s @ toks spans s e" using "2.prems" by (simp add: toks_split)
  show ?case
  proof (cases "k = 1")
    case True
    with 2 se show ?thesis by (simp add: body_def)
  next
    case False
    then obtain j where j: "k = Suc j" "0 < j" using "2.prems"(2) by (cases k) auto
    have nth: "((s, e) # rs) ! (k - 1) = rs ! (j - 1)" using j by simp
    have "e \<le> snd (rs ! (j - 1))" "spoken (toks spans e (snd (rs ! (j - 1)))) = body spans (take j rs)"
      using "2.IH" [of j] "2.prems" j by simp_all
    moreover from this have "toks spans a (snd (rs ! (j - 1))) = toks spans a e @ toks spans e (snd (rs ! (j - 1)))"
      using "2.prems" by (intro toks_split) auto
    ultimately have "a \<le> snd (rs ! (j - 1)) \<and> spoken (toks spans a (snd (rs ! (j - 1)))) = body spans (take (Suc j) ((s, e) # rs))"
      using "2.prems" se by (simp add: body_def)
    then show ?thesis unfolding nth unfolding j(1) .
  qed
qed simp

lemma covers_slice:
  assumes "covers spans a rs" "i < j" "j \<le> length rs"
  shows "fst (rs ! i) < snd (rs ! (j - 1)) \<and> snd (rs ! (j - 1)) \<le> length spans \<and>
    spoken (toks spans (fst (rs ! i)) (snd (rs ! (j - 1)))) = body spans (take (j - i) (drop i rs))"
proof -
  have nth: "drop i rs ! (j - i - 1) = rs ! (j - 1)" using assms by simp
  have c: "covers spans (fst (rs ! i)) (drop i rs)" using assms by (intro covers_drop) auto
  have s: "spoken (toks spans (fst (rs ! i)) (snd (rs ! (j - 1)))) = body spans (take (j - i) (drop i rs))"
    using covers_slice_hd [OF c, of "j - i"] assms nth by simp
  have "fst (rs ! i) \<le> fst (rs ! (j - 1))"
  proof (cases "j - 1 = i")
    case False
    have "fst (rs ! i) \<le> snd (rs ! (j - 2))"
      using covers_slice_hd [OF c, of "j - i - 1"] assms False by (simp add: numeral_2_eq_2)
    moreover have "snd (rs ! (j - 2)) \<le> fst (rs ! (j - 1))"
    proof -
      have "covers spans (fst (rs ! (j - 2))) (drop (j - 2) rs)" using assms False by (intro covers_drop) auto
      moreover have "drop (j - 2) rs = rs ! (j - 2) # rs ! (j - 1) # drop j rs"
      proof -
        obtain m where m: "j = Suc (Suc m)" using assms(2) False by (cases j; cases "j - 1") auto
        show ?thesis using assms(3) unfolding m by (simp add: Cons_nth_drop_Suc)
      qed
      ultimately show ?thesis by (cases "rs ! (j - 2)"; cases "rs ! (j - 1)") auto
    qed
    ultimately show ?thesis by simp
  qed simp
  moreover have "j - 1 < length rs" using assms by simp
  ultimately show ?thesis using s covers_nth [OF assms(1) \<open>j - 1 < length rs\<close>] by simp
qed

subsection \<open>Words and units cover the text\<close>

lemma spoken_space_toks:
  assumes "spans_at 0 spans" "\<And>k. a \<le> k \<Longrightarrow> k < b \<Longrightarrow> is_ascii_space (tok spans k)" "b \<le> length spans"
  shows "spoken (toks spans a b) = []"
proof -
  have "spoken (span_text sp) = []" if "sp \<in> set (take (b - a) (drop a spans))" for sp
  proof -
    obtain k where "k < b - a" "sp = spans ! (a + k)"
      using \<open>sp \<in> _\<close> assms(3) by (auto simp: in_set_conv_nth)
    then have "is_ascii_space (span_text sp)" using assms(2) [of "a + k"] by simp
    then show ?thesis by (auto simp: is_ascii_space_def spoken_def length_Suc_conv)
  qed
  then show ?thesis by (auto simp: toks_def spoken_def filter_concat)
qed

lemma skip_spaces_spoken:
  assumes "spans_at 0 spans" "pos \<le> length spans"
  shows "spoken (toks spans pos (skip_spaces spans pos)) = [] \<and> skip_spaces spans pos \<le> length spans"
proof -
  have le: "skip_spaces spans pos \<le> length spans" using assms(2) by (simp add: skip_spaces_def scan_while_le)
  moreover have "spoken (toks spans pos (skip_spaces spans pos)) = []"
    by (rule spoken_space_toks [OF assms(1) _ le]) (use scan_while_all in \<open>simp add: skip_spaces_def\<close>)
  ultimately show ?thesis by simp
qed

definition word_pairs :: "word_range list \<Rightarrow> (nat \<times> nat) list" where
  "word_pairs ws = map (\<lambda>w. (w_span_start w, w_span_end w)) ws"

definition unit_pairs :: "text_unit list \<Rightarrow> (nat \<times> nat) list" where
  "unit_pairs us = map (\<lambda>u. (u_span_start u, u_span_end u)) us"

lemma word_ranges_cover:
  "spans_at 0 spans \<Longrightarrow> pos \<le> length spans \<Longrightarrow> covers spans pos (word_pairs (word_ranges_from spans pos))"
proof (induction spans pos rule: word_ranges_from.induct)
  case (1 spans pos)
  let ?s = "skip_spaces spans pos"
  have sk: "spoken (toks spans pos ?s) = []" "?s \<le> length spans" "pos \<le> ?s"
    using skip_spaces_spoken 1 by (simp_all add: skip_spaces_ge)
  show ?case
  proof (cases "length spans \<le> ?s")
    case True
    with sk 1 show ?thesis by (simp add: word_ranges_from.simps [of spans pos] word_pairs_def Let_def)
  next
    case False
    have "word_end spans ?s \<le> length spans" using False by (simp add: word_end_def scan_while_le)
    with False sk 1 word_end_gt [of ?s spans] show ?thesis
      by (simp add: word_ranges_from.simps [of spans pos] word_pairs_def word_at_def Let_def)
  qed
qed

lemma unit_end_le: "s < length spans \<Longrightarrow> fst (unit_end spans s) \<le> length spans"
  unfolding unit_end_def Let_def by (simp add: scan_while_le)

lemma units_cover:
  "spans_at 0 spans \<Longrightarrow> pos \<le> length spans \<Longrightarrow> covers spans pos (unit_pairs (units_from spans pos))"
proof (induction spans pos rule: units_from.induct)
  case (1 spans pos)
  let ?s = "skip_spaces spans pos"
  have sk: "spoken (toks spans pos ?s) = []" "?s \<le> length spans" "pos \<le> ?s"
    using skip_spaces_spoken 1 by (simp_all add: skip_spaces_ge)
  show ?case
  proof (cases "length spans \<le> ?s")
    case True
    with sk 1 show ?thesis by (simp add: units_from.simps [of spans pos] unit_pairs_def Let_def)
  next
    case False
    have "fst (unit_end spans ?s) \<le> length spans" using False by (simp add: unit_end_le)
    with False sk 1 unit_end_gt [of ?s spans] show ?thesis
      by (simp add: units_from.simps [of spans pos] unit_pairs_def unit_at_def Let_def)
  qed
qed

lemma word_bytes:
  "w \<in> set (word_ranges_from spans pos) \<Longrightarrow>
   w_byte_start w = span_from (spans ! w_span_start w) \<and> w_byte_end w = span_to (spans ! (w_span_end w - 1))"
proof (induction spans pos rule: word_ranges_from.induct)
  case (1 spans pos)
  then show ?case
    by (cases "length spans \<le> skip_spaces spans pos")
       (auto simp: word_ranges_from.simps [of spans pos] word_at_def Let_def)
qed

lemma unit_bytes:
  "u \<in> set (units_from spans pos) \<Longrightarrow>
   u_byte_start u = span_from (spans ! u_span_start u) \<and> u_byte_end u = span_to (spans ! (u_span_end u - 1))"
proof (induction spans pos rule: units_from.induct)
  case (1 spans pos)
  then show ?case
    by (cases "length spans \<le> skip_spaces spans pos")
       (auto simp: units_from.simps [of spans pos] unit_at_def Let_def)
qed

subsection \<open>The loops lose nothing but blanks\<close>

lemma spoken_push [simp]: "spoken (concat (push_chunk c cs)) = spoken c @ spoken (concat cs)"
  by (simp add: push_chunk_def)

lemma push_chunk_set: "x \<in> set (push_chunk c cs) \<longleftrightarrow> (x = c \<and> c \<noteq> []) \<or> x \<in> set cs"
  by (auto simp: push_chunk_def)

lemma text_between_toks:
  "spans_at 0 spans \<Longrightarrow> a < b \<Longrightarrow> b \<le> length spans \<Longrightarrow>
   text_between (concat (map span_text spans)) (span_from (spans ! a)) (span_to (spans ! (b - 1))) =
   trim_ascii_whitespace (toks spans a b)"
  using substr_toks by (simp only: text_between_def)

lemma body_drop: "i \<le> j \<Longrightarrow> body spans (drop i rs) = body spans (take (j - i) (drop i rs)) @ body spans (drop j rs)"
proof -
  assume "i \<le> j"
  then have "drop i rs = take (j - i) (drop i rs) @ drop j rs"
    by (metis append_take_drop_id drop_drop le_add_diff_inverse2)
  then show ?thesis unfolding body_def by (metis concat_append map_append)
qed

text \<open>A run of words, cut by the byte fields of its first and last one, is the text of its spans.\<close>

lemma word_run:
  assumes "spans_at 0 spans" "words = word_ranges_from spans 0" "i < j" "j \<le> length words"
  shows "text_between (concat (map span_text spans)) (w_byte_start (words ! i)) (w_byte_end (words ! (j - 1))) =
      trim_ascii_whitespace (toks spans (w_span_start (words ! i)) (w_span_end (words ! (j - 1)))) \<and>
    spoken (toks spans (w_span_start (words ! i)) (w_span_end (words ! (j - 1)))) =
      body spans (take (j - i) (drop i (word_pairs words))) \<and>
    w_span_start (words ! i) < w_span_end (words ! (j - 1)) \<and> w_span_end (words ! (j - 1)) \<le> length spans"
proof -
  have cov: "covers spans 0 (word_pairs words)" using assms(1,2) by (simp add: word_ranges_cover)
  have len: "length (word_pairs words) = length words" by (simp add: word_pairs_def)
  have nth: "word_pairs words ! k = (w_span_start (words ! k), w_span_end (words ! k))" if "k < length words" for k
    using that by (simp add: word_pairs_def)
  have k: "i < length words" "j - 1 < length words" using assms(3,4) by auto
  note sl = covers_slice [OF cov assms(3), unfolded len, OF assms(4), unfolded nth [OF k(1)] nth [OF k(2)] fst_conv snd_conv]
  have "w_byte_start (words ! i) = span_from (spans ! w_span_start (words ! i))"
    "w_byte_end (words ! (j - 1)) = span_to (spans ! (w_span_end (words ! (j - 1)) - 1))"
    using word_bytes [of _ spans 0] k assms(2) nth_mem by auto
  with sl show ?thesis using text_between_toks [OF assms(1)] by metis
qed

lemma unit_run:
  assumes "spans_at 0 spans" "units = units_from spans 0" "i < j" "j \<le> length units"
  shows "join_units (concat (map span_text spans)) units i j =
      trim_ascii_whitespace (toks spans (u_span_start (units ! i)) (u_span_end (units ! (j - 1)))) \<and>
    spoken (toks spans (u_span_start (units ! i)) (u_span_end (units ! (j - 1)))) =
      body spans (take (j - i) (drop i (unit_pairs units)))"
proof -
  have cov: "covers spans 0 (unit_pairs units)" using assms(1,2) by (simp add: units_cover)
  have len: "length (unit_pairs units) = length units" by (simp add: unit_pairs_def)
  have nth: "unit_pairs units ! k = (u_span_start (units ! k), u_span_end (units ! k))" if "k < length units" for k
    using that by (simp add: unit_pairs_def)
  have k: "i < length units" "j - 1 < length units" using assms(3,4) by auto
  note sl = covers_slice [OF cov assms(3), unfolded len, OF assms(4), unfolded nth [OF k(1)] nth [OF k(2)] fst_conv snd_conv]
  have "u_byte_start (units ! i) = span_from (spans ! u_span_start (units ! i))"
    "u_byte_end (units ! (j - 1)) = span_to (spans ! (u_span_end (units ! (j - 1)) - 1))"
    using unit_bytes [of _ spans 0] k assms(2) nth_mem by auto
  with sl assms(3) show ?thesis using text_between_toks [OF assms(1)] unfolding join_units_def by (metis not_le)
qed

lemma default_loop_spoken:
  assumes "spans_at 0 spans" "words = word_ranges_from spans 0"
  shows "ws \<le> length words \<Longrightarrow>
    spoken (concat (default_loop (concat (map span_text spans)) words budget ws)) = body spans (drop ws (word_pairs words))"
proof (induction "length words - ws" arbitrary: ws rule: less_induct)
  case less
  show ?case
  proof (cases "ws < length words")
    case False
    then show ?thesis by (simp add: default_loop.simps [of _ words] word_pairs_def body_def)
  next
    case True
    let ?e = "word_chunk_end words budget ws"
    have e: "ws < ?e" "?e \<le> length words" using word_chunk_end_bounds [OF True] by simp_all
    have IH: "spoken (concat (default_loop (concat (map span_text spans)) words budget ?e)) = body spans (drop ?e (word_pairs words))"
      by (rule less.hyps) (use e True in auto)
    show ?thesis
      using True IH word_run [OF assms e] body_drop [of ws ?e spans "word_pairs words"] e(1)
      by (simp add: default_loop.simps [of _ words budget ws] Let_def)
  qed
qed

lemma piece_spoken:
  assumes "spans_at 0 spans" "units = units_from spans 0" "b \<le> length units"
  shows "us \<le> b \<Longrightarrow>
    spoken (concat (append_piece_chunks (concat (map span_text spans)) units us b budget)) =
      body spans (take (b - us) (drop us (unit_pairs units)))"
proof (induction "b - us" arbitrary: us rule: less_induct)
  case less
  show ?case
  proof (cases "us < b")
    case False
    then show ?thesis by (simp add: append_piece_chunks.simps [of _ units] body_def)
  next
    case True
    let ?h = "hard_end (\<lambda>h. unit_range_codepoints units us (h + 1) \<le> budget) b us"
    have h: "us < ?h" "?h \<le> b" using hard_end_bounds [OF True] by blast+
    have IH: "spoken (concat (append_piece_chunks (concat (map span_text spans)) units ?h b budget)) =
        body spans (take (b - ?h) (drop ?h (unit_pairs units)))"
      by (rule less.hyps) (use h True in auto)
    have sp: "take (b - us) (drop us (unit_pairs units)) =
        take (?h - us) (drop us (unit_pairs units)) @ take (b - ?h) (drop ?h (unit_pairs units))"
    proof -
      have "b - us = (?h - us) + (b - ?h)" "drop (?h - us) (drop us (unit_pairs units)) = drop ?h (unit_pairs units)"
        using h by simp_all
      then show ?thesis by (simp only: take_add)
    qed
    have "spoken (join_units (concat (map span_text spans)) units us ?h) = body spans (take (?h - us) (drop us (unit_pairs units)))"
      using unit_run [OF assms(1,2) h(1)] h(2) assms(3) by simp
    then show ?thesis
      using True IH sp by (simp add: append_piece_chunks.simps [of _ units us b] Let_def body_def)
  qed
qed

text \<open>Sentences partition the units.\<close>

lemma sentence_ranges_parts:
  "start \<le> i \<Longrightarrow> i \<le> length units \<Longrightarrow> parts start (sentence_ranges units start i) (length units)"
proof (induction units start i rule: sentence_ranges.induct)
  case (1 units start i)
  show ?case
  proof (cases "i < length units")
    case True
    with 1 show ?thesis by (auto simp: sentence_ranges.simps [of units start i])
  next
    case False
    with 1 show ?thesis by (subst sentence_ranges.simps) auto
  qed
qed

definition part_start :: "(nat \<times> nat) list \<Rightarrow> nat \<Rightarrow> nat \<Rightarrow> nat" where
  "part_start rs n i = (if i < length rs then fst (rs ! i) else n)"

lemma parts_nth:
  "parts a rs n \<Longrightarrow> i < length rs \<Longrightarrow>
   fst (rs ! i) < snd (rs ! i) \<and> snd (rs ! i) \<le> n \<and> snd (rs ! i) = part_start rs n (Suc i)"
proof (induction a rs n arbitrary: i rule: parts.induct)
  case (2 a s e rs n)
  show ?case
  proof (cases i)
    case 0
    with 2 show ?thesis by (cases rs) (auto simp: part_start_def)
  next
    case (Suc j)
    with 2(1) [of j] 2(2,3) show ?thesis by (auto simp: part_start_def)
  qed
qed simp

lemma part_start_mono:
  assumes "parts a rs n"
  shows "i < j \<Longrightarrow> j \<le> length rs \<Longrightarrow> part_start rs n i < part_start rs n j"
proof (induction j)
  case (Suc j)
  then have "part_start rs n j < part_start rs n (Suc j)"
    using parts_nth [OF assms, of j] by (simp add: part_start_def)
  with Suc show ?case by (cases "i = j") auto
qed simp

lemma part_start_le: "parts a rs n \<Longrightarrow> part_start rs n i \<le> n"
  using parts_nth [of a rs n i] by (force simp: part_start_def)

lemma tag_body_loop_spoken:
  assumes "spans_at 0 spans" "units = units_from spans 0" "parts 0 rs (length units)"
  shows "si \<le> length rs \<Longrightarrow>
    spoken (concat (tag_body_loop (concat (map span_text spans)) units rs budget si)) =
      body spans (drop (part_start rs (length units) si) (unit_pairs units))"
proof (induction "length rs - si" arbitrary: si rule: less_induct)
  case less
  let ?t = "concat (map span_text spans)" and ?n = "length units" and ?p = "unit_pairs units"
  show ?case
  proof (cases "si < length rs")
    case False
    with less.prems show ?thesis
      by (simp add: tag_body_loop.simps [of _ units] part_start_def body_def unit_pairs_def)
  next
    case True
    let ?a = "fst (rs ! si)"
    have a: "part_start rs ?n si = ?a" using True by (simp add: part_start_def)
    have IH: "spoken (concat (tag_body_loop ?t units rs budget e)) = body spans (drop (part_start rs ?n e) ?p)"
      if "si < e" "e \<le> length rs" for e
      by (rule less.hyps) (use that True in auto)
    have nxt: "snd (rs ! (e - 1)) = part_start rs ?n e" if "si < e" "e \<le> length rs" for e
      using parts_nth [OF assms(3), of "e - 1"] that by simp
    have cut: "body spans (drop ?a ?p) = body spans (take (part_start rs ?n e - ?a) (drop ?a ?p)) @ body spans (drop (part_start rs ?n e) ?p)"
      if "si < e" "e \<le> length rs" for e
      using part_start_mono [OF assms(3) that] a by (intro body_drop) simp
    show ?thesis
    proof (cases "unit_range_codepoints units ?a (snd (rs ! si)) > budget")
      case big: True
      have s: "snd (rs ! si) = part_start rs ?n (si + 1)" "?a \<le> snd (rs ! si)" "snd (rs ! si) \<le> ?n"
        using parts_nth [OF assms(3) True] by simp_all
      have "spoken (concat (append_piece_chunks ?t units ?a (snd (rs ! si)) budget)) =
          body spans (take (part_start rs ?n (si + 1) - ?a) (drop ?a ?p))"
        using piece_spoken [OF assms(1,2) s(3,2)] s(1) by simp
      then show ?thesis
        using True big IH [of "si + 1"] cut [of "si + 1"] a
        by (simp add: tag_body_loop.simps [of ?t units rs budget si] Let_def)
    next
      case small: False
      let ?e = "hard_end (\<lambda>c. unit_range_codepoints units ?a (snd (rs ! c)) \<le> budget) (length rs) si"
      have e: "si < ?e" "?e \<le> length rs" using hard_end_bounds [OF True] by blast+
      have "?a < snd (rs ! (?e - 1))" "snd (rs ! (?e - 1)) \<le> ?n"
        using part_start_mono [OF assms(3) e] part_start_le [OF assms(3)] nxt [OF e] a by simp_all
      then have "spoken (join_units ?t units ?a (snd (rs ! (?e - 1)))) =
          body spans (take (part_start rs ?n ?e - ?a) (drop ?a ?p))"
        using unit_run [OF assms(1,2)] nxt [OF e] by simp
      then show ?thesis
        using True small IH [OF e] cut [OF e] a
        by (simp add: tag_body_loop.simps [of ?t units rs budget si] Let_def)
    qed
  qed
qed

lemma japanese_loop_spoken:
  assumes "spans_at 0 spans" "0 < to_size_t budget"
  shows "start \<le> length spans \<Longrightarrow>
    spoken (concat (japanese_loop (concat (map span_text spans)) spans budget start)) =
      spoken (toks spans start (length spans))"
proof (induction "length spans - start" arbitrary: start rule: less_induct)
  case less
  let ?t = "concat (map span_text spans)" and ?s = "skip_spaces spans start"
  have sk: "spoken (toks spans start ?s) = []" "?s \<le> length spans" "start \<le> ?s"
    using skip_spaces_spoken [OF assms(1) less.prems] skip_spaces_ge by simp_all
  have sp: "spoken (toks spans start (length spans)) = spoken (toks spans ?s (length spans))"
    using toks_split [OF sk(3,2), of spans] sk(1) by simp
  show ?case
  proof (cases "?s \<ge> length spans")
    case True
    with sk have "toks spans ?s (length spans) = []" by (simp add: toks_def)
    with True sp show ?thesis by (simp add: japanese_loop.simps [of ?t spans budget start] Let_def)
  next
    case False
    let ?e = "span_chunk_end spans budget ?s"
    have "?s < min (length spans) (?s + to_size_t budget)" using False assms(2) by simp
    from best_break_bounds [OF this] have e: "?s < ?e" "?e \<le> length spans"
      by (simp_all add: span_chunk_end_def)
    have IH: "spoken (concat (japanese_loop ?t spans budget ?e)) = spoken (toks spans ?e (length spans))"
      by (rule less.hyps) (use e sk False in auto)
    have "spoken (toks spans ?s (length spans)) = spoken (toks spans ?s ?e) @ spoken (toks spans ?e (length spans))"
      using toks_split [of ?s ?e "length spans" spans] e by simp
    then show ?thesis
      using False IH sp text_between_toks [OF assms(1) e] assms(2)
      by (simp add: japanese_loop.simps [of ?t spans budget start] Let_def)
  qed
qed

subsection \<open>Whole splitters\<close>

lemma split_japanese_Inr:
  assumes "split_text_chunks_japanese tx budget = Inr cs" "budget < 2 ^ 63"
  shows "spoken (concat cs) = spoken tx"
proof -
  let ?t = "trim_ascii_whitespace tx"
  have b: "0 < budget" using assms(1) by (auto simp: split_text_chunks_japanese_def split: if_splits)
  with assms(2) have w: "0 < to_size_t budget" by simp
  show ?thesis
  proof (cases "?t = []")
    case True
    then have "spoken tx = []" by (metis spoken_trim spoken_Nil)
    with True assms(1) b show ?thesis by (simp add: split_text_chunks_japanese_def)
  next
    case False
    with assms(1) b obtain spans where s: "split_utf8_spans ?t ''Japanese text chunk'' = Inr spans"
        and cs: "cs = (if int (length spans) \<le> budget then [?t] else japanese_loop ?t spans budget 0)"
      by (auto simp: split_text_chunks_japanese_def bind_sum_Inr Let_def split: if_splits)
    note ok = split_utf8_spans_Inr [OF s]
    then have "spoken (concat (japanese_loop ?t spans budget 0)) = spoken ?t"
      using japanese_loop_spoken [of spans budget 0] w by (simp add: toks_all)
    with cs show ?thesis by simp
  qed
qed

lemma append_endline_Inr:
  "append_endline_chunk c budget = Inr cs \<Longrightarrow> budget < 2 ^ 63 \<Longrightarrow> spoken (concat cs) = spoken c"
  by (auto simp: append_endline_chunk_def bind_sum_Inr split_japanese_Inr split: if_splits)

lemma endline_loop_spoken:
  assumes "spans_at 0 spans" "budget < 2 ^ 63"
  shows "start \<le> i \<Longrightarrow> i \<le> length spans \<Longrightarrow> endline_loop (concat (map span_text spans)) spans budget start i = Inr cs \<Longrightarrow>
    spoken (concat cs) = spoken (toks spans start (length spans))"
proof (induction "length spans - i" arbitrary: start i cs rule: less_induct)
  case less
  let ?t = "concat (map span_text spans)"
  note unf = endline_loop.simps [of ?t spans budget start i]
  show ?case
  proof (cases "i < length spans")
    case False
    show ?thesis
    proof (cases "start < length spans")
      case True
      then have "spans \<noteq> []" by auto
      with less.prems(3) False True have "append_endline_chunk (text_between ?t (span_from (spans ! start)) (span_to (spans ! (length spans - 1)))) budget = Inr cs"
        by (simp only: unf last_conv_nth [OF \<open>spans \<noteq> []\<close>] if_True if_False)
      with append_endline_Inr [OF this assms(2)] text_between_toks [OF assms(1) True] show ?thesis by simp
    next
      case out: False
      with False less.prems(3) have "cs = []" unfolding unf by simp
      with out show ?thesis by (simp add: toks_def)
    qed
  next
    case True
    show ?thesis
    proof (cases "ends_line spans i")
      case False
      with True less.prems(3) have rec: "endline_loop ?t spans budget start (i + 1) = Inr cs" by (simp add: unf)
      show ?thesis by (rule less.hyps [OF _ _ _ rec]) (use True less.prems in auto)
    next
      case ends: True
      then obtain here rest where here: "append_endline_chunk (text_between ?t (span_from (spans ! start)) (span_to (spans ! (i + 1 - 1)))) budget = Inr here"
          and rest: "endline_loop ?t spans budget (i + 1) (i + 1) = Inr rest" and cs: "cs = here @ rest"
        using True less.prems(3) by (auto simp: unf bind_sum_Inr)
      have IH: "spoken (concat rest) = spoken (toks spans (i + 1) (length spans))"
        by (rule less.hyps [OF _ _ _ rest]) (use True in auto)
      have "spoken (concat here) = spoken (toks spans start (i + 1))"
        using append_endline_Inr [OF here assms(2)] text_between_toks [OF assms(1), of start "i + 1"] True less.prems(1) by simp
      then show ?thesis
        using IH cs toks_split [of start "i + 1" "length spans" spans] True less.prems(1) by simp
    qed
  qed
qed

lemma spoken_trim_Nil: "trim_ascii_whitespace tx = [] \<Longrightarrow> spoken tx = []"
  by (metis spoken_trim spoken_Nil)

lemma split_endline_Inr:
  assumes "split_text_chunks_endline tx budget = Inr cs" "budget < 2 ^ 63"
  shows "spoken (concat cs) = spoken tx"
proof (cases "trim_ascii_whitespace tx = []")
  case True
  with assms(1) show ?thesis by (auto simp: split_text_chunks_endline_def spoken_trim_Nil split: if_splits)
next
  case False
  let ?t = "trim_ascii_whitespace tx"
  from False assms(1) obtain spans where s: "split_utf8_spans ?t ''endline text chunk'' = Inr spans"
      and l: "endline_loop ?t spans budget 0 0 = Inr cs"
    by (auto simp: split_text_chunks_endline_def bind_sum_Inr Let_def split: if_splits)
  note ok = split_utf8_spans_Inr [OF s]
  with l have "endline_loop (concat (map span_text spans)) spans budget 0 0 = Inr cs" by simp
  with ok endline_loop_spoken [of spans budget 0 0 cs] assms(2) show ?thesis by (simp add: toks_all)
qed

lemma split_default_Inr:
  assumes "split_text_chunks_default tx budget = Inr cs"
  shows "spoken (concat cs) = spoken tx"
proof (cases "trim_ascii_whitespace tx = []")
  case True
  with assms show ?thesis by (auto simp: split_text_chunks_default_def spoken_trim_Nil split: if_splits)
next
  case False
  let ?t = "trim_ascii_whitespace tx"
  from False assms obtain spans where s: "split_utf8_spans ?t ''text chunk'' = Inr spans"
      and cs: "cs = (if int (length spans) \<le> budget then [?t]
        else if split_word_ranges spans = [] then [] else default_loop ?t (split_word_ranges spans) budget 0)"
    by (auto simp: split_text_chunks_default_def bind_sum_Inr Let_def split: if_splits)
  note ok = split_utf8_spans_Inr [OF s]
  have "spoken (concat (default_loop ?t (split_word_ranges spans) budget 0)) = spoken ?t"
    using default_loop_spoken [of spans "split_word_ranges spans" 0 budget] ok
      covers_body [OF word_ranges_cover [of spans 0]] by (simp add: split_word_ranges_def toks_all)
  moreover have "default_loop ?t [] budget 0 = []" by (simp add: default_loop.simps)
  ultimately show ?thesis using cs by (metis concat.simps(1) concat.simps(2) self_append_conv spoken_trim)
qed

lemma split_body_Inr:
  assumes "split_tag_aware_body tx budget = Inr cs"
  shows "spoken (concat cs) = spoken tx"
proof -
  from assms obtain spans where s: "split_utf8_spans tx ''tag-aware text chunk'' = Inr spans"
      and cs: "cs = (if int (length spans) \<le> budget then [tx] else if split_tag_aware_units spans = [] then []
        else tag_body_loop tx (split_tag_aware_units spans) (sentence_ranges (split_tag_aware_units spans) 0 0) budget 0)"
    by (auto simp: split_tag_aware_body_def bind_sum_Inr Let_def split: if_splits)
  let ?u = "split_tag_aware_units spans" and ?r = "sentence_ranges (split_tag_aware_units spans) 0 0"
  note ok = split_utf8_spans_Inr [OF s]
  have parts: "parts 0 ?r (length ?u)" by (rule sentence_ranges_parts) simp_all
  have start: "part_start ?r (length ?u) 0 = 0" using parts by (cases ?r) (auto simp: part_start_def)
  have body: "body spans (unit_pairs ?u) = spoken tx"
    using covers_body [OF units_cover [of spans 0]] ok by (simp add: split_tag_aware_units_def toks_all)
  have "spoken (concat (tag_body_loop tx ?u ?r budget 0)) = spoken tx"
    using tag_body_loop_spoken [of spans ?u ?r 0 budget] ok parts start body by (simp add: split_tag_aware_units_def)
  moreover have "spoken tx = []" if "?u = []" using body that by (simp add: unit_pairs_def body_def)
  ultimately show ?thesis using cs by simp
qed

lemma split_parenthetical_spoken:
  assumes "split_leading_parenthetical_control t = Some (pre, rest)"
  shows "spoken t = spoken pre @ spoken rest"
proof -
  obtain c where "pre = trim_ascii_whitespace (take (c + 1) t)" "rest = trim_ascii_whitespace (drop (c + 1) t)"
    using assms by (auto simp: split_leading_parenthetical_control_def Let_def split: if_splits option.splits)
  then have "spoken pre @ spoken rest = spoken (take (c + 1) t) @ spoken (drop (c + 1) t)" by simp
  also have "\<dots> = spoken t" by (metis append_take_drop_id spoken_append)
  finally show ?thesis by simp
qed

subsection \<open>The budget\<close>

lemma toks_fits:
  assumes "spans_at 0 spans" "int (b - a) \<le> budget"
  shows "fits budget (trim_ascii_whitespace (toks spans a b))"
proof -
  have "list_all valid_tok (map span_text (take (b - a) (drop a spans)))"
    using spans_at_valid [OF assms(1)] by (auto simp: list_all_iff dest: in_set_takeD in_set_dropD)
  moreover have "int (length (map span_text (take (b - a) (drop a spans)))) \<le> budget"
    using assms(2) by simp
  ultimately show ?thesis unfolding toks_def by (rule fits_trim)
qed

lemma toks_valid: "spans_at 0 spans \<Longrightarrow> valid_utf8 (toks spans a b)"
  unfolding valid_utf8_def toks_def using spans_at_valid [of 0 spans]
  by (intro exI [of _ "map span_text (take (b - a) (drop a spans))"])
     (auto simp: list_all_iff dest: in_set_takeD in_set_dropD)

lemma valid_utf8_append: "valid_utf8 a \<Longrightarrow> valid_utf8 b \<Longrightarrow> valid_utf8 (a @ b)"
  unfolding valid_utf8_def by (metis concat_append list_all_append)

lemma fits_valid: "fits budget c \<Longrightarrow> valid_utf8 c"
  by (auto simp: fits_def valid_utf8_def)

lemma japanese_loop_fits:
  assumes "spans_at 0 spans" "0 < budget" "budget < 2 ^ 63"
  shows "start \<le> length spans \<Longrightarrow> c \<in> set (japanese_loop (concat (map span_text spans)) spans budget start) \<Longrightarrow>
    c \<noteq> [] \<and> fits budget c"
proof (induction "length spans - start" arbitrary: start rule: less_induct)
  case less
  let ?t = "concat (map span_text spans)" and ?s = "skip_spaces spans start"
  have w: "to_size_t budget = nat budget" using assms(2,3) by simp
  have sk: "?s \<le> length spans" "start \<le> ?s"
    using skip_spaces_spoken [OF assms(1) less.prems(1)] skip_spaces_ge by simp_all
  note unf = japanese_loop.simps [of ?t spans budget start]
  show ?case
  proof (cases "?s \<ge> length spans")
    case True
    with less.prems show ?thesis by (simp add: unf Let_def)
  next
    case False
    let ?e = "span_chunk_end spans budget ?s"
    have "?s < min (length spans) (?s + to_size_t budget)" using False assms(2) w by simp
    from best_break_bounds [OF this] have e: "?s < ?e" "?e \<le> length spans" "?e \<le> ?s + nat budget"
      by (simp_all add: span_chunk_end_def w)
    have "c = trim_ascii_whitespace (toks spans ?s ?e) \<and> c \<noteq> [] \<or> c \<in> set (japanese_loop ?t spans budget ?e)"
      using less.prems(2) False w assms(2) text_between_toks [OF assms(1) e(1,2)]
      by (auto simp: unf Let_def push_chunk_set)
    then show ?thesis
    proof
      assume "c \<in> set (japanese_loop ?t spans budget ?e)"
      then show ?thesis by (intro less.hyps) (use e sk False in auto)
    qed (use toks_fits [OF assms(1), of ?e ?s budget] e assms(2) in auto)
  qed
qed

lemma split_japanese_fits:
  assumes "split_text_chunks_japanese tx budget = Inr cs" "budget < 2 ^ 63" "c \<in> set cs"
  shows "c \<noteq> [] \<and> fits budget c"
proof -
  let ?t = "trim_ascii_whitespace tx"
  have b: "0 < budget" and ne: "?t \<noteq> []"
    using assms by (auto simp: split_text_chunks_japanese_def Let_def split: if_splits)
  with assms(1) obtain spans where s: "split_utf8_spans ?t ''Japanese text chunk'' = Inr spans"
      and cs: "cs = (if int (length spans) \<le> budget then [?t] else japanese_loop ?t spans budget 0)"
    by (auto simp: split_text_chunks_japanese_def bind_sum_Inr Let_def split: if_splits)
  note ok = split_utf8_spans_Inr [OF s]
  have "fits budget ?t" if "int (length spans) \<le> budget"
    unfolding fits_def using ok spans_at_valid [of 0 spans] that
    by (intro exI [of _ "map span_text spans"]) simp
  with cs assms(3) ne show ?thesis
    using japanese_loop_fits [of spans budget 0 c] ok b assms(2) by (auto split: if_splits)
qed

lemma append_endline_fits:
  assumes "append_endline_chunk x budget = Inr cs" "budget < 2 ^ 63" "c \<in> set cs"
  shows "c \<noteq> [] \<and> fits budget c"
proof (cases "split_text_chunks_japanese x budget = Inr cs")
  case True
  then show ?thesis using split_japanese_fits assms(2,3) by blast
next
  case False
  with assms obtain n where "utf8_codepoint_count ''endline text chunk'' x = Inr n" "int n \<le> budget" "cs = [x]" "x \<noteq> []"
    by (auto simp: append_endline_chunk_def bind_sum_Inr split: if_splits)
  then show ?thesis using assms(3) fits_iff by auto
qed

lemma endline_loop_fits:
  assumes "budget < 2 ^ 63"
  shows "endline_loop t spans budget start i = Inr cs \<Longrightarrow> c \<in> set cs \<Longrightarrow> c \<noteq> [] \<and> fits budget c"
proof (induction "length spans - i" arbitrary: start i cs rule: less_induct)
  case less
  note unf = endline_loop.simps [of t spans budget start i]
  show ?case
  proof (cases "i < length spans")
    case False
    with less.prems obtain x where "append_endline_chunk x budget = Inr cs"
      unfolding unf by (auto split: if_splits)
    then show ?thesis using append_endline_fits assms less.prems(2) by blast
  next
    case True
    show ?thesis
    proof (cases "ends_line spans i")
      case False
      with True less.prems(1) have "endline_loop t spans budget start (i + 1) = Inr cs" unfolding unf by simp
      then show ?thesis by (rule less.hyps [rotated]) (use True less.prems(2) in auto)
    next
      case ends: True
      with True less.prems(1) obtain x here rest where "append_endline_chunk x budget = Inr here"
          "endline_loop t spans budget (i + 1) (i + 1) = Inr rest" "cs = here @ rest"
        unfolding unf by (auto simp: bind_sum_Inr)
      moreover have "length spans - (i + 1) < length spans - i" using True by linarith
      ultimately show ?thesis
        using append_endline_fits [OF _ assms] less.hyps [of "i + 1" "i + 1" rest] less.prems(2) by auto
    qed
  qed
qed

text \<open>In default mode a chunk of one word has no blank in it.\<close>

lemma toks_mem:
  assumes "c \<in> set (toks spans a b)" "b \<le> length spans"
  obtains k where "a \<le> k" "k < b" "c \<in> set (tok spans k)"
proof -
  obtain sp where "sp \<in> set (take (b - a) (drop a spans))" "c \<in> set (span_text sp)"
    using assms(1) by (auto simp: toks_def)
  then obtain j where "j < b - a" "sp = spans ! (a + j)" using assms(2) by (auto simp: in_set_conv_nth)
  with \<open>c \<in> set (span_text sp)\<close> show ?thesis by (intro that [of "a + j"]) auto
qed

lemma word_end_ink:
  assumes "s = skip_spaces spans pos" "s < length spans" "s \<le> k" "k < word_end spans s"
  shows "\<not> is_ascii_space (tok spans k)"
proof (cases "k = s")
  case True
  with assms(1,2) scan_while_stop show ?thesis unfolding skip_spaces_def by fastforce
next
  case False
  with assms(3,4) scan_while_all [of "s + 1" k] show ?thesis unfolding word_end_def by fastforce
qed

lemma valid_ink: "valid_tok t \<Longrightarrow> \<not> is_ascii_space t \<Longrightarrow> c \<in> set t \<Longrightarrow> \<not> is_space_byte c"
  by (metis tok_cases space_tok)

lemma word_no_space:
  "spans_at 0 spans \<Longrightarrow> w \<in> set (word_ranges_from spans pos) \<Longrightarrow>
   c \<in> set (toks spans (w_span_start w) (w_span_end w)) \<Longrightarrow> \<not> is_space_byte c"
proof (induction spans pos rule: word_ranges_from.induct)
  case (1 spans pos)
  let ?s = "skip_spaces spans pos"
  show ?case
  proof (cases "length spans \<le> ?s \<or> w \<in> set (word_ranges_from spans (word_end spans ?s))")
    case True
    with 1 show ?thesis
      by (cases "length spans \<le> ?s") (simp_all add: word_ranges_from.simps [of spans pos] Let_def)
  next
    case False
    with "1.prems"(2) have w: "w_span_start w = ?s" "w_span_end w = word_end spans ?s"
      by (auto simp: word_ranges_from.simps [of spans pos] Let_def word_at_def)
    have le: "word_end spans ?s \<le> length spans" using False by (simp add: word_end_def scan_while_le)
    obtain k where k: "?s \<le> k" "k < word_end spans ?s" "c \<in> set (tok spans k)"
      using toks_mem [OF "1.prems"(3) [unfolded w] le] by blast
    have "valid_tok (tok spans k)" using spans_at_valid [OF "1.prems"(1)] k le by (auto simp: list_all_iff)
    moreover have "\<not> is_ascii_space (tok spans k)" by (rule word_end_ink [OF refl _ k(1,2)]) (use False in simp)
    ultimately show ?thesis using k(3) by (rule valid_ink)
  qed
qed

lemma trim_subset: "set (trim_ascii_whitespace s) \<subseteq> set s"
  unfolding trim_ascii_whitespace_def by (metis set_rev set_dropWhileD subsetI)

lemma word_chunk_fits:
  assumes "ws < length words" "word_chunk_end words budget ws \<noteq> ws + 1"
  shows "int (w_span_end (words ! (word_chunk_end words budget ws - 1)) - w_span_start (words ! ws)) \<le> budget"
proof -
  let ?P = "\<lambda>h. int (w_span_end (words ! h) - w_span_start (words ! ws)) \<le> budget"
  let ?h = "hard_end ?P (length words) ws" and ?e = "word_chunk_end words budget ws"
  have e: "ws < ?e" "?e \<le> ?h"
    unfolding word_chunk_end_def Let_def using best_break_bounds hard_end_bounds [OF assms(1)] by blast+
  then have "?h \<noteq> ws + 1" using assms(2) by linarith
  then have "?h = scan_while ?P (length words) ws" by (simp add: hard_end_def Let_def split: if_splits)
  then show ?thesis using scan_while_all [of ws "?e - 1" ?P "length words"] e by simp
qed

lemma default_loop_fits:
  assumes "spans_at 0 spans" "words = word_ranges_from spans 0"
  shows "ws \<le> length words \<Longrightarrow> c \<in> set (default_loop (concat (map span_text spans)) words budget ws) \<Longrightarrow>
    c \<noteq> [] \<and> valid_utf8 c \<and> (fits budget c \<or> (\<forall>x\<in>set c. \<not> is_space_byte x))"
proof (induction "length words - ws" arbitrary: ws rule: less_induct)
  case less
  let ?t = "concat (map span_text spans)" and ?e = "word_chunk_end words budget ws"
  show ?case
  proof (cases "ws < length words")
    case False
    with less.prems(2) show ?thesis by (simp add: default_loop.simps [of ?t words])
  next
    case True
    have e: "ws < ?e" "?e \<le> length words" using word_chunk_end_bounds [OF True] by simp_all
    let ?x = "toks spans (w_span_start (words ! ws)) (w_span_end (words ! (?e - 1)))"
    have "c = trim_ascii_whitespace ?x \<and> c \<noteq> [] \<or> c \<in> set (default_loop ?t words budget ?e)"
      using less.prems(2) True word_run [OF assms e] by (auto simp: default_loop.simps [of ?t words budget ws] Let_def push_chunk_set)
    then show ?thesis
    proof
      assume "c \<in> set (default_loop ?t words budget ?e)"
      then show ?thesis by (intro less.hyps) (use e True in auto)
    next
      assume c: "c = trim_ascii_whitespace ?x \<and> c \<noteq> []"
      show ?thesis
      proof (cases "?e = ws + 1")
        case one: True
        then have "\<not> is_space_byte x" if "x \<in> set ?x" for x
          using word_no_space [OF assms(1), of "words ! ws" 0 x] that True assms(2) by (simp add: nth_mem)
        with trim_subset have "\<forall>x\<in>set (trim_ascii_whitespace ?x). \<not> is_space_byte x" by blast
        with c toks_valid [OF assms(1)] show ?thesis by auto
      next
        case False
        with c toks_fits [OF assms(1)] word_chunk_fits [OF True] toks_valid [OF assms(1)] show ?thesis by auto
      qed
    qed
  qed
qed

lemma split_default_fits:
  assumes "split_text_chunks_default tx budget = Inr cs" "c \<in> set cs"
  shows "c \<noteq> [] \<and> valid_utf8 c \<and> (fits budget c \<or> (\<forall>x\<in>set c. \<not> is_space_byte x))"
proof -
  let ?t = "trim_ascii_whitespace tx"
  have ne: "?t \<noteq> []"
    using assms by (auto simp: split_text_chunks_default_def Let_def split: if_splits)
  with assms(1) obtain spans where s: "split_utf8_spans ?t ''text chunk'' = Inr spans"
      and cs: "cs = (if int (length spans) \<le> budget then [?t]
        else if split_word_ranges spans = [] then [] else default_loop ?t (split_word_ranges spans) budget 0)"
    by (auto simp: split_text_chunks_default_def bind_sum_Inr Let_def split: if_splits)
  note ok = split_utf8_spans_Inr [OF s]
  have "fits budget ?t" if "int (length spans) \<le> budget"
    unfolding fits_def using ok spans_at_valid [of 0 spans] that
    by (intro exI [of _ "map span_text spans"]) simp
  moreover from this have "valid_utf8 ?t" if "int (length spans) \<le> budget" using that fits_valid by blast
  ultimately show ?thesis
    using cs assms(2) ne default_loop_fits [of spans "split_word_ranges spans" 0 c budget] ok
    by (auto simp: split_word_ranges_def split: if_splits)
qed

subsection \<open>The shape of a unit\<close>

text \<open>What tag-aware mode never cuts: a run without blanks, or a closed tag with all that is in it.\<close>

definition closed_tag :: "string \<Rightarrow> bool" where
  "closed_tag u \<longleftrightarrow> (\<exists>inner. u = ''['' @ inner @ '']'' \<and> CHR '']'' \<notin> set inner \<or> u = ''<'' @ inner @ ''>'' \<and> CHR ''>'' \<notin> set inner)"

definition kept_whole :: "string \<Rightarrow> bool" where
  "kept_whole u \<longleftrightarrow> (\<forall>x\<in>set u. \<not> is_space_byte x) \<or> closed_tag u"

lemma trim_ends: "u \<noteq> [] \<Longrightarrow> \<not> is_space_byte (hd u) \<Longrightarrow> \<not> is_space_byte (last u) \<Longrightarrow> trim_ascii_whitespace u = u"
proof -
  assume u: "u \<noteq> []" "\<not> is_space_byte (hd u)" "\<not> is_space_byte (last u)"
  then have "dropWhile is_space_byte u = u" by (cases u) simp_all
  moreover have "dropWhile is_space_byte (rev u) = rev u" using u by (cases u rule: rev_cases) simp_all
  ultimately show ?thesis by (simp add: trim_ascii_whitespace_def)
qed

lemma hd_trim: "trim_ascii_whitespace s \<noteq> [] \<Longrightarrow> \<not> is_space_byte (hd (trim_ascii_whitespace s))"
proof -
  let ?d = "dropWhile is_space_byte s"
  assume ne: "trim_ascii_whitespace s \<noteq> []"
  obtain ys where ys: "rev ?d = ys @ dropWhile is_space_byte (rev ?d)" by (metis takeWhile_dropWhile_id)
  then have "?d = trim_ascii_whitespace s @ rev ys" by (metis rev_append rev_rev_ident trim_ascii_whitespace_def)
  then have "hd ?d = hd (trim_ascii_whitespace s)" "?d \<noteq> []" using ne by (auto simp: hd_append)
  with hd_dropWhile [of is_space_byte s] show ?thesis by simp
qed

lemma trim_trim [simp]: "trim_ascii_whitespace (trim_ascii_whitespace s) = trim_ascii_whitespace s"
proof (cases "trim_ascii_whitespace s = []")
  case False
  have "\<not> is_space_byte (last (trim_ascii_whitespace s))"
    using False hd_dropWhile [of is_space_byte "rev (dropWhile is_space_byte s)"] by (simp add: trim_ascii_whitespace_def last_rev)
  with False hd_trim show ?thesis by (intro trim_ends) auto
next
  case True
  then show ?thesis by (simp only: True) (simp add: trim_ascii_whitespace_def)
qed

lemma trim_kept: "kept_whole u \<Longrightarrow> trim_ascii_whitespace u = u"
proof (cases "u = []")
  case False
  assume "kept_whole u"
  with False show ?thesis by (intro trim_ends) (auto simp: kept_whole_def closed_tag_def ctype_defs)
qed (simp add: trim_ascii_whitespace_def)

lemma ascii_in_tok: "valid_tok t \<Longrightarrow> x \<in> set t \<Longrightarrow> byte_of x < 128 \<Longrightarrow> t = [x]"
  using wide_tok_no_space [of t] by (cases "length t = 1") (fastforce simp: length_Suc_conv)+

lemma toks_one: "a < length spans \<Longrightarrow> toks spans a (Suc a) = tok spans a"
  by (simp add: toks_def take_Suc_conv_app_nth)

lemma tok_valid: "spans_at 0 spans \<Longrightarrow> k < length spans \<Longrightarrow> valid_tok (tok spans k)"
  using spans_at_valid by (auto simp: list_all_iff)

lemma ink_toks:
  assumes "spans_at 0 spans" "b \<le> length spans" "\<And>k. a \<le> k \<Longrightarrow> k < b \<Longrightarrow> \<not> is_ascii_space (tok spans k)"
  shows "kept_whole (toks spans a b)"
proof -
  have "\<not> is_space_byte x" if x: "x \<in> set (toks spans a b)" for x
  proof -
    obtain k where "a \<le> k" "k < b" "x \<in> set (tok spans k)" using toks_mem [OF x assms(2)] by blast
    with assms(2,3) show ?thesis using valid_ink [OF tok_valid [OF assms(1), of k], of x] by simp
  qed
  then show ?thesis by (simp add: kept_whole_def)
qed

lemma tag_toks:
  assumes sp: "spans_at 0 spans" and s: "is_tag_open (tok spans s)" and c: "s < c" "c < length spans"
    "is_tag_close (tok spans c) (tok spans s)" and no: "\<And>k. s < k \<Longrightarrow> k < c \<Longrightarrow> \<not> is_tag_close (tok spans k) (tok spans s)"
  shows "kept_whole (toks spans s (Suc c))"
proof -
  have "toks spans s (Suc c) = tok spans s @ toks spans (Suc s) c @ tok spans c"
    using c toks_split [of s "Suc s" "Suc c" spans] toks_split [of "Suc s" c "Suc c" spans] by (simp add: toks_one)
  moreover have "x \<notin> set (toks spans (Suc s) c)" if "byte_of x < 128" "is_tag_close [x] (tok spans s)" for x
  proof
    assume x: "x \<in> set (toks spans (Suc s) c)"
    obtain k where k: "Suc s \<le> k" "k < c" "x \<in> set (tok spans k)" by (rule toks_mem [OF x]) (use c in auto)
    then have "tok spans k = [x]" using ascii_in_tok [OF tok_valid [OF sp]] c(2) that(1) by simp
    with no [of k] k that(2) show False by simp
  qed
  ultimately show ?thesis
    using s c(3) by (auto simp: kept_whole_def closed_tag_def is_tag_open_def is_tag_close_def byte_of_def)
qed

lemma unit_end_kept:
  assumes sp: "spans_at 0 spans" and s: "s < length spans" "\<not> is_ascii_space (tok spans s)"
  shows "kept_whole (toks spans s (fst (unit_end spans s)))"
proof -
  let ?n = "length spans" and ?close = "\<lambda>k. \<not> is_tag_close (tok spans k) (tok spans s)"
  have run: "kept_whole (toks spans s (scan_while P ?n (s + 1)))"
    if P: "\<And>k. P k \<Longrightarrow> \<not> is_ascii_space (tok spans k)" for P
  proof (rule ink_toks [OF sp])
    show "scan_while P ?n (s + 1) \<le> ?n" using s(1) by (simp add: scan_while_le)
    show "\<not> is_ascii_space (tok spans k)" if "s \<le> k" "k < scan_while P ?n (s + 1)" for k
      using that s(2) P scan_while_all [of "s + 1" k P ?n] by (cases "k = s") auto
  qed
  consider (tag) "is_tag_open (tok spans s)" "scan_while ?close ?n (s + 1) < ?n"
    | (run) P where "fst (unit_end spans s) = scan_while P ?n (s + 1)" "\<And>k. P k \<Longrightarrow> \<not> is_ascii_space (tok spans k)"
    unfolding unit_end_def Let_def by (cases "is_tag_open (tok spans s)"; cases "scan_while ?close ?n (s + 1) < ?n") auto
  then show ?thesis
  proof cases
    case tag
    let ?c = "scan_while ?close ?n (s + 1)"
    have "s < ?c" using scan_while_ge [of "s + 1" ?close ?n] by simp
    moreover have "is_tag_close (tok spans ?c) (tok spans s)" using scan_while_stop [OF tag(2)] by simp
    moreover have "?close k" if "s < k" "k < ?c" for k using scan_while_all [of "s + 1" k ?close ?n] that by simp
    ultimately have "kept_whole (toks spans s (Suc ?c))" by (intro tag_toks [OF sp tag(1) _ tag(2)])
    with tag show ?thesis by (simp add: unit_end_def Let_def)
  next
    case hyps: (run P)
    from run [OF hyps(2)] hyps(1) show ?thesis by simp
  qed
qed

lemma unit_kept:
  "spans_at 0 spans \<Longrightarrow> u \<in> set (units_from spans pos) \<Longrightarrow> kept_whole (toks spans (u_span_start u) (u_span_end u))"
proof (induction spans pos rule: units_from.induct)
  case (1 spans pos)
  let ?s = "skip_spaces spans pos"
  show ?case
  proof (cases "length spans \<le> ?s \<or> u \<in> set (units_from spans (fst (unit_end spans ?s)))")
    case True
    with 1 show ?thesis by (cases "length spans \<le> ?s") (simp_all add: units_from.simps [of spans pos] Let_def)
  next
    case False
    with "1.prems"(2) have u: "u_span_start u = ?s" "u_span_end u = fst (unit_end spans ?s)"
      by (auto simp: units_from.simps [of spans pos] Let_def unit_at_def)
    have "\<not> is_ascii_space (tok spans ?s)"
      using False scan_while_stop [of "\<lambda>k. is_ascii_space (tok spans k)" "length spans" pos] by (simp add: skip_spaces_def)
    with False u unit_end_kept [OF "1.prems"(1), of ?s] show ?thesis by simp
  qed
qed

text \<open>A chunk of the body: not empty, valid, no blank in front, and within the budget unless it is a single unit.\<close>

definition body_chunk :: "int \<Rightarrow> string \<Rightarrow> bool" where
  "body_chunk budget c \<longleftrightarrow> c \<noteq> [] \<and> \<not> is_space_byte (hd c) \<and> valid_utf8 c \<and> (fits budget c \<or> kept_whole c)"

lemma body_chunk_toks:
  assumes "spans_at 0 spans" "c = trim_ascii_whitespace (toks spans a b)" "c \<noteq> []" "int (b - a) \<le> budget \<or> kept_whole (toks spans a b)"
  shows "body_chunk budget c"
  using assms hd_trim toks_valid [OF assms(1)] toks_fits [OF assms(1)] trim_kept by (auto simp: body_chunk_def)

text \<open>A chunk behind its control: the blank and the control count too.\<close>

lemma control_chunk:
  assumes "body_chunk (max 1 (budget - int n - 1)) u" "utf8_codepoint_count lb pre = Inr n"
  shows "u \<noteq> [] \<and> valid_utf8 (pre @ '' '' @ u) \<and> (fits budget (pre @ '' '' @ u) \<or> kept_whole u)"
proof -
  have u: "u \<noteq> []" "\<not> is_space_byte (hd u)" "valid_utf8 u" "fits (max 1 (budget - int n - 1)) u \<or> kept_whole u"
    using assms(1) by (auto simp: body_chunk_def)
  obtain ps where ps: "list_all valid_tok ps" "pre = concat ps" "length ps = n" using count_sound [OF assms(2)] by blast
  have blank: "valid_tok '' ''" by (rule ascii_tok) (simp add: byte_of_def)
  have v: "valid_utf8 (pre @ '' '' @ u)"
  proof -
    have "valid_utf8 pre" "valid_utf8 '' ''" unfolding valid_utf8_def using ps blank by (auto intro: exI [of _ "['' '']"])
    then show ?thesis using u(3) by (intro valid_utf8_append)
  qed
  have "fits budget (pre @ '' '' @ u) \<or> kept_whole u" if f: "fits (max 1 (budget - int n - 1)) u"
  proof -
    obtain ts where ts: "list_all valid_tok ts" "u = concat ts" "int (length ts) \<le> max 1 (budget - int n - 1)"
      using f by (auto simp: fits_def)
    show ?thesis
    proof (cases "1 \<le> budget - int n - 1")
      case True
      with ts ps blank show ?thesis unfolding fits_def by (intro disjI1 exI [of _ "ps @ ['' ''] @ ts"]) auto
    next
      case False
      with ts u(1) obtain c where c: "ts = [c]" by (cases ts; cases "tl ts") auto
      with ts u(2) have "valid_tok u" "\<not> is_ascii_space u" by (auto simp: is_ascii_space_def)
      then show ?thesis using valid_ink [of u] by (auto simp: kept_whole_def)
    qed
  qed
  with u v show ?thesis by blast
qed

lemma hard_end_last:
  assumes "us < n" "hard_end P n us \<noteq> us + 1 \<or> P us"
  shows "P (hard_end P n us - 1)"
proof (cases "scan_while P n us = us")
  case True
  with assms show ?thesis by (auto simp: hard_end_def)
next
  case False
  then have "us \<le> scan_while P n us - 1" "scan_while P n us - 1 < scan_while P n us" using scan_while_ge [of us P n] by simp_all
  from scan_while_all [OF this] False show ?thesis by (simp add: hard_end_def Let_def)
qed

lemma piece_chunks_ok:
  assumes "spans_at 0 spans" "units = units_from spans 0" "b \<le> length units"
  shows "c \<in> set (append_piece_chunks (concat (map span_text spans)) units us b budget) \<Longrightarrow> body_chunk budget c"
proof (induction "b - us" arbitrary: us rule: less_induct)
  case less
  let ?t = "concat (map span_text spans)"
  show ?case
  proof (cases "us < b")
    case False
    with less.prems show ?thesis by (simp add: append_piece_chunks.simps [of _ units])
  next
    case True
    let ?P = "\<lambda>h. unit_range_codepoints units us (h + 1) \<le> budget"
    let ?h = "hard_end ?P b us"
    have h: "us < ?h" "?h \<le> b" using hard_end_bounds [OF True] by blast+
    have run: "join_units ?t units us ?h = trim_ascii_whitespace (toks spans (u_span_start (units ! us)) (u_span_end (units ! (?h - 1))))"
      using unit_run [OF assms(1,2) h(1)] h(2) assms(3) by simp
    have "c \<in> set (append_piece_chunks ?t units ?h b budget) \<or> c = join_units ?t units us ?h \<and> c \<noteq> []"
      using less.prems True by (auto simp: append_piece_chunks.simps [of _ units us b] Let_def push_chunk_set)
    then show ?thesis
    proof
      assume "c \<in> set (append_piece_chunks ?t units ?h b budget)"
      then show ?thesis by (intro less.hyps) (use h True in auto)
    next
      assume c: "c = join_units ?t units us ?h \<and> c \<noteq> []"
      have "int (u_span_end (units ! (?h - 1)) - u_span_start (units ! us)) \<le> budget \<or>
          kept_whole (toks spans (u_span_start (units ! us)) (u_span_end (units ! (?h - 1))))"
      proof (cases "?h = us + 1")
        case one: True
        have "units ! us \<in> set (units_from spans 0)" using True assms(2,3) by simp
        from unit_kept [OF assms(1) this] one show ?thesis by simp
      next
        case False
        with hard_end_last [OF True, of ?P] h show ?thesis by (simp add: unit_range_codepoints_def)
      qed
      with c run show ?thesis by (intro body_chunk_toks [OF assms(1)]) auto
    qed
  qed
qed

lemma tag_body_ok:
  assumes "spans_at 0 spans" "units = units_from spans 0" "parts 0 rs (length units)"
  shows "c \<in> set (tag_body_loop (concat (map span_text spans)) units rs budget si) \<Longrightarrow> body_chunk budget c"
proof (induction "length rs - si" arbitrary: si rule: less_induct)
  case less
  let ?t = "concat (map span_text spans)"
  show ?case
  proof (cases "si < length rs")
    case False
    with less.prems show ?thesis by (simp add: tag_body_loop.simps [of _ units])
  next
    case True
    let ?a = "fst (rs ! si)"
    have IH: "body_chunk budget c" if "c \<in> set (tag_body_loop ?t units rs budget e)" "si < e" for e
      by (rule less.hyps) (use that True in auto)
    show ?thesis
    proof (cases "unit_range_codepoints units ?a (snd (rs ! si)) > budget")
      case big: True
      with less.prems True have "c \<in> set (append_piece_chunks ?t units ?a (snd (rs ! si)) budget) \<or> c \<in> set (tag_body_loop ?t units rs budget (si + 1))"
        by (auto simp: tag_body_loop.simps [of ?t units rs budget si] Let_def)
      then show ?thesis using piece_chunks_ok [OF assms(1,2)] parts_nth [OF assms(3) True] IH [of "si + 1"] by auto
    next
      case small: False
      let ?P = "\<lambda>c. unit_range_codepoints units ?a (snd (rs ! c)) \<le> budget"
      let ?e = "hard_end ?P (length rs) si"
      have e: "si < ?e" "?e \<le> length rs" using hard_end_bounds [OF True] by blast+
      let ?b = "snd (rs ! (?e - 1))"
      have b: "?a < ?b" "?b \<le> length units"
        using parts_nth [OF assms(3), of "?e - 1"] part_start_mono [OF assms(3) e] part_start_le [OF assms(3)] e True
        by (simp_all add: part_start_def split: if_splits)
      have "?P (?e - 1)" by (rule hard_end_last [OF True]) (use small in simp)
      then have "int (u_span_end (units ! (?b - 1)) - u_span_start (units ! ?a)) \<le> budget"
        using b(1) by (simp add: unit_range_codepoints_def)
      moreover have "c \<in> set (tag_body_loop ?t units rs budget ?e) \<or> c = join_units ?t units ?a ?b \<and> c \<noteq> []"
        using less.prems True small by (auto simp: tag_body_loop.simps [of ?t units rs budget si] Let_def push_chunk_set)
      ultimately show ?thesis using IH e(1) unit_run [OF assms(1,2) b] body_chunk_toks [OF assms(1)] by blast
    qed
  qed
qed

lemma split_body_ok:
  assumes "split_tag_aware_body tx budget = Inr cs" "c \<in> set cs" "tx \<noteq> []" "\<not> is_space_byte (hd tx)"
  shows "body_chunk budget c"
proof -
  from assms obtain spans where s: "split_utf8_spans tx ''tag-aware text chunk'' = Inr spans"
      and cs: "cs = (if int (length spans) \<le> budget then [tx] else if split_tag_aware_units spans = [] then []
        else tag_body_loop tx (split_tag_aware_units spans) (sentence_ranges (split_tag_aware_units spans) 0 0) budget 0)"
    by (auto simp: split_tag_aware_body_def bind_sum_Inr Let_def split: if_splits)
  let ?u = "split_tag_aware_units spans"
  note ok = split_utf8_spans_Inr [OF s]
  have fit: "fits budget tx" if "int (length spans) \<le> budget"
    unfolding fits_def using ok spans_at_valid [of 0 spans] that by (intro exI [of _ "map span_text spans"]) simp
  have parts: "parts 0 (sentence_ranges ?u 0 0) (length ?u)" by (rule sentence_ranges_parts) simp_all
  show ?thesis
  proof (cases "int (length spans) \<le> budget")
    case True
    with cs assms fit fits_valid show ?thesis by (auto simp: body_chunk_def)
  next
    case False
    with cs assms(2) tag_body_ok [OF _ _ parts, of spans c budget 0] ok show ?thesis
      by (auto simp: split_tag_aware_units_def split: if_splits)
  qed
qed

subsection \<open>When the splitters return\<close>

lemma valid_utf8_Nil [simp]: "valid_utf8 []"
  by (simp add: valid_utf8_iff [of _ "[]"])

lemma valid_utf8_blank: "trim_ascii_whitespace tx = [] \<Longrightarrow> valid_utf8 tx"
  using valid_utf8_trim [of tx] by simp

lemma valid_utf8_cut:
  assumes "valid_utf8 (xs @ c # ys)" "byte_of c < 128"
  shows "valid_utf8 (xs @ [c]) \<and> valid_utf8 ys"
proof -
  have "list_all valid_tok ts \<Longrightarrow> concat ts = xs @ c # ys \<Longrightarrow> valid_utf8 (xs @ [c]) \<and> valid_utf8 ys" for ts
  proof (induction ts arbitrary: xs)
    case (Cons t ts)
    then have t: "valid_tok t" and ts: "list_all valid_tok ts" by simp_all
    show ?case
    proof (cases "length t \<le> length xs")
      case True
      with Cons.prems(2) obtain xs' where xs: "xs = t @ xs'" "concat ts = xs' @ c # ys"
        by (auto simp: append_eq_append_conv_if) (metis append_take_drop_id)
      from Cons.IH [OF ts xs(2)] have "valid_utf8 (xs' @ [c])" "valid_utf8 ys" by simp_all
      moreover have "valid_utf8 t" unfolding valid_utf8_def using t by (intro exI [of _ "[t]"]) simp
      ultimately show ?thesis using xs(1) valid_utf8_append [of t "xs' @ [c]"] by simp
    next
      case False
      with Cons.prems(2) have "c = (t @ concat ts) ! length xs" "length xs < length t" by simp_all
      then have "c \<in> set t" by (simp add: nth_append)
      with wide_tok_no_space [OF t] assms(2) have "length t = 1" by fastforce
      moreover from this False have "xs = []" by (cases xs) auto
      ultimately have "xs = []" "t = [c]" "ys = concat ts"
        using Cons.prems(2) by (auto simp: length_Suc_conv)
      with t ts show ?thesis unfolding valid_utf8_def by (auto intro: exI [of _ "[[c]]"])
    qed
  qed simp
  with assms(1) show ?thesis unfolding valid_utf8_def by metis
qed

lemma split_parenthetical_valid:
  assumes "split_leading_parenthetical_control t = Some (pre, rest)"
  shows "valid_utf8 t \<longleftrightarrow> valid_utf8 pre \<and> valid_utf8 rest"
proof -
  obtain k where k: "find_idx (\<lambda>c. c = CHR '')'') t = Some k"
      and p: "pre = trim_ascii_whitespace (take (k + 1) t)" "rest = trim_ascii_whitespace (drop (k + 1) t)"
    using assms by (auto simp: split_leading_parenthetical_control_def Let_def split: if_splits option.splits)
  from find_idx_Some [OF k] have t: "t = take k t @ CHR '')'' # drop (k + 1) t" "take (k + 1) t = take k t @ [CHR '')'']"
    using id_take_nth_drop [of k t] by (auto simp: take_Suc_conv_app_nth)
  have "valid_utf8 t \<longleftrightarrow> valid_utf8 (take (k + 1) t) \<and> valid_utf8 (drop (k + 1) t)"
    using valid_utf8_cut [of "take k t" "CHR '')''" "drop (k + 1) t"] valid_utf8_append [of "take (k + 1) t" "drop (k + 1) t"]
      t by (auto simp: byte_of_def)
  with p show ?thesis by simp
qed

lemma body_total: "(\<exists>cs. split_tag_aware_body tx budget = Inr cs) \<longleftrightarrow> valid_utf8 tx"
proof -
  have "(\<exists>cs. split_tag_aware_body tx budget = Inr cs) \<longleftrightarrow> (\<exists>spans. split_utf8_spans tx ''tag-aware text chunk'' = Inr spans)"
    by (auto simp: split_tag_aware_body_def bind_sum_Inr Let_def)
  then show ?thesis by (simp add: split_utf8_spans_valid)
qed

lemma japanese_total: "(\<exists>cs. split_text_chunks_japanese tx budget = Inr cs) \<longleftrightarrow> 0 < budget \<and> valid_utf8 tx"
proof -
  have "(\<exists>cs. split_text_chunks_japanese tx budget = Inr cs) \<longleftrightarrow> 0 < budget \<and>
      (trim_ascii_whitespace tx = [] \<or> (\<exists>spans. split_utf8_spans (trim_ascii_whitespace tx) ''Japanese text chunk'' = Inr spans))"
    by (auto simp: split_text_chunks_japanese_def bind_sum_Inr Let_def)
  then show ?thesis by (auto simp: split_utf8_spans_valid valid_utf8_blank)
qed

lemma default_total: "(\<exists>cs. split_text_chunks_default tx budget = Inr cs) \<longleftrightarrow> 0 < budget \<and> valid_utf8 tx"
proof -
  have "(\<exists>cs. split_text_chunks_default tx budget = Inr cs) \<longleftrightarrow> 0 < budget \<and>
      (trim_ascii_whitespace tx = [] \<or> (\<exists>spans. split_utf8_spans (trim_ascii_whitespace tx) ''text chunk'' = Inr spans))"
    by (auto simp: split_text_chunks_default_def bind_sum_Inr Let_def)
  then show ?thesis by (auto simp: split_utf8_spans_valid valid_utf8_blank)
qed

lemma append_endline_total: "0 < budget \<Longrightarrow> valid_utf8 c \<Longrightarrow> \<exists>cs. append_endline_chunk c budget = Inr cs"
  using japanese_total [of c budget] valid_utf8_iff [of c "''endline text chunk''"]
  by (auto simp: append_endline_chunk_def)

lemma endline_loop_total:
  assumes "spans_at 0 spans" "0 < budget"
  shows "start \<le> i \<Longrightarrow> i \<le> length spans \<Longrightarrow>
    \<exists>cs. endline_loop (concat (map span_text spans)) spans budget start i = Inr cs"
proof (induction "length spans - i" arbitrary: start i rule: less_induct)
  case less
  let ?t = "concat (map span_text spans)"
  note unf = endline_loop.simps [of ?t spans budget start i]
  have ap: "\<exists>cs. append_endline_chunk (text_between ?t (span_from (spans ! a)) (span_to (spans ! (b - 1)))) budget = Inr cs"
    if "a < b" "b \<le> length spans" for a b
    using text_between_toks [OF assms(1) that] append_endline_total [OF assms(2)] toks_valid [OF assms(1)] by simp
  show ?case
  proof (cases "i < length spans")
    case False
    show ?thesis
    proof (cases "start < length spans")
      case True
      then have "spans \<noteq> []" by auto
      with False True ap [of start "length spans"] show ?thesis
        by (simp only: unf last_conv_nth [OF \<open>spans \<noteq> []\<close>] if_True if_False)
    next
      case out: False
      with False show ?thesis unfolding unf by simp
    qed
  next
    case True
    have rec: "\<exists>cs. endline_loop ?t spans budget a (i + 1) = Inr cs" if "a \<le> i + 1" for a
      by (rule less.hyps) (use True that in auto)
    show ?thesis
    proof (cases "ends_line spans i")
      case False
      with True rec [of start] less.prems(1) show ?thesis unfolding unf by simp
    next
      case ends: True
      obtain rest where "endline_loop ?t spans budget (i + 1) (i + 1) = Inr rest" using rec by blast
      moreover obtain here where
        "append_endline_chunk (text_between ?t (span_from (spans ! start)) (span_to (spans ! i))) budget = Inr here"
        using ap [of start "i + 1"] True less.prems(1) by auto
      ultimately show ?thesis using True ends unfolding unf by simp
    qed
  qed
qed

lemma endline_total: "(\<exists>cs. split_text_chunks_endline tx budget = Inr cs) \<longleftrightarrow> 0 < budget \<and> valid_utf8 tx"
proof -
  let ?t = "trim_ascii_whitespace tx"
  have "\<exists>cs. endline_loop ?t spans budget 0 0 = Inr cs"
    if "split_utf8_spans ?t ''endline text chunk'' = Inr spans" "0 < budget" for spans
    using endline_loop_total [of spans budget 0 0] split_utf8_spans_Inr [OF that(1)] that(2) by simp
  then have "(\<exists>cs. split_text_chunks_endline tx budget = Inr cs) \<longleftrightarrow> 0 < budget \<and>
      (?t = [] \<or> (\<exists>spans. split_utf8_spans ?t ''endline text chunk'' = Inr spans))"
    by (auto simp: split_text_chunks_endline_def bind_sum_Inr Let_def)
  then show ?thesis by (auto simp: split_utf8_spans_valid valid_utf8_blank)
qed

lemma tag_aware_total: "(\<exists>cs. split_text_chunks_tag_aware tx budget = Inr cs) \<longleftrightarrow> 0 < budget \<and> valid_utf8 tx"
proof (cases "0 < budget \<and> trim_ascii_whitespace tx \<noteq> []")
  case False
  then show ?thesis
    using valid_utf8_blank [of tx] by (auto simp: split_text_chunks_tag_aware_def)
next
  case True
  let ?t = "trim_ascii_whitespace tx"
  show ?thesis
  proof (cases "split_leading_parenthetical_control ?t")
    case None
    with True show ?thesis using body_total by (simp add: split_text_chunks_tag_aware_def)
  next
    case (Some pb)
    obtain pre rest where pb: "pb = (pre, rest)" by fastforce
    have "(\<exists>cs. split_text_chunks_tag_aware tx budget = Inr cs) \<longleftrightarrow>
        (\<exists>n. utf8_codepoint_count ''tag-aware leading text chunk tag'' pre = Inr n \<and>
          (\<exists>cs. split_tag_aware_body rest (max 1 (budget - int n - 1)) = Inr cs))"
      using True Some pb by (auto simp: split_text_chunks_tag_aware_def bind_sum_Inr)
    also have "\<dots> \<longleftrightarrow> valid_utf8 pre \<and> valid_utf8 rest"
      using body_total valid_utf8_iff [of pre "''tag-aware leading text chunk tag''"] by auto
    also have "\<dots> \<longleftrightarrow> valid_utf8 tx" using split_parenthetical_valid [of ?t pre rest] Some pb by simp
    finally show ?thesis using True by simp
  qed
qed

lemma chunks_total: "(\<exists>cs. split_text_chunks tx budget mode = Inr cs) \<longleftrightarrow> 0 < budget \<and> valid_utf8 tx"
  by (cases mode) (simp_all add: default_total tag_aware_total japanese_total endline_total)

lemma valid_utf8_ascii: "list_all (\<lambda>c. byte_of c < 128) s \<Longrightarrow> valid_utf8 s"
proof -
  assume a: "list_all (\<lambda>c. byte_of c < 128) s"
  have "list_all valid_tok (map (\<lambda>c. [c]) s)"
    using a ascii_tok by (simp add: list_all_iff)
  then show ?thesis unfolding valid_utf8_def by (intro exI [of _ "map (\<lambda>c. [c]) s"]) simp
qed

subsection \<open>The leading control\<close>

text \<open>
  The text to be spoken begins with \<open>pre\<close>, an opening bracket up to the first closing one, and \<open>rest\<close>
  follows, which is not all blanks.
\<close>

definition leading_control :: "string \<Rightarrow> string \<Rightarrow> string \<Rightarrow> bool" where
  "leading_control tx pre rest \<longleftrightarrow>
     (\<exists>bl inner. list_all is_space_byte bl \<and> tx = bl @ pre @ rest \<and> pre = ''('' @ inner @ '')'' \<and> CHR '')'' \<notin> set inner) \<and>
     spoken rest \<noteq> []"

lemma dropWhile_blanks: "list_all P bl \<Longrightarrow> dropWhile P (bl @ s) = dropWhile P s"
  by (induction bl) auto

lemma spoken_Nil_iff: "spoken s = [] \<longleftrightarrow> list_all is_space_byte s"
  by (auto simp: spoken_def filter_empty_conv list_all_iff)

lemma trim_front:
  assumes "list_all is_space_byte bl" "\<not> is_space_byte (hd pre)" "pre \<noteq> []" "spoken rest \<noteq> []"
  shows "trim_ascii_whitespace (bl @ pre @ rest) = pre @ rev (dropWhile is_space_byte (rev rest))"
proof -
  have "dropWhile is_space_byte (bl @ pre @ rest) = pre @ rest"
    using assms(1-3) by (cases pre) (simp_all add: dropWhile_blanks)
  moreover have "\<exists>x\<in>set (rev rest). \<not> is_space_byte x" using assms(4) by (auto simp: spoken_Nil_iff list_all_iff)
  then have "dropWhile is_space_byte (rev rest @ rev pre) = dropWhile is_space_byte (rev rest) @ rev pre"
    by (metis dropWhile_append1)
  ultimately show ?thesis by (simp add: trim_ascii_whitespace_def)
qed

lemma trim_tail: "\<exists>bl bl'. list_all is_space_byte bl \<and> list_all is_space_byte bl' \<and> s = bl @ trim_ascii_whitespace s @ bl'"
proof -
  let ?d = "dropWhile is_space_byte s"
  have s: "s = takeWhile is_space_byte s @ ?d" by simp
  have "rev ?d = takeWhile is_space_byte (rev ?d) @ dropWhile is_space_byte (rev ?d)" by simp
  then have "?d = trim_ascii_whitespace s @ rev (takeWhile is_space_byte (rev ?d))"
    by (metis rev_append rev_rev_ident trim_ascii_whitespace_def)
  moreover have "list_all is_space_byte (takeWhile is_space_byte r)" for r by (metis list_all_iff set_takeWhileD)
  ultimately show ?thesis using s by (metis list_all_rev)
qed

lemma leading_control_split:
  assumes "leading_control tx pre rest"
  shows "\<exists>b. split_leading_parenthetical_control (trim_ascii_whitespace tx) = Some (pre, b) \<and> spoken b = spoken rest"
proof -
  obtain bl inner where bl: "list_all is_space_byte bl" "tx = bl @ pre @ rest" and pre: "pre = ''('' @ inner @ '')''"
    and no: "CHR '')'' \<notin> set inner" and rest: "spoken rest \<noteq> []"
    using assms by (auto simp: leading_control_def)
  let ?r = "rev (dropWhile is_space_byte (rev rest))"
  have sp: "spoken ?r = spoken rest" by (simp add: spoken_def filter_dropWhile_not flip: rev_filter)
  have t: "trim_ascii_whitespace tx = pre @ ?r"
    unfolding bl(2) by (rule trim_front [OF bl(1) _ _ rest]) (simp_all add: pre ctype_defs)
  have "find_idx (\<lambda>c. c = CHR '')'') (pre @ ?r) = Some (Suc (length inner))"
    using find_idx_append [of "CHR ''('' # inner" "\<lambda>c. c = CHR '')''" "CHR '')''" ?r] no by (auto simp: pre)
  moreover have "trim_ascii_whitespace pre = pre" by (rule trim_ends) (simp_all add: pre ctype_defs)
  moreover have "?r \<noteq> []" using rest sp by (metis spoken_Nil)
  moreover have "trim_ascii_whitespace ?r \<noteq> []" using rest sp spoken_trim [of ?r] by (metis spoken_Nil)
  ultimately have "split_leading_parenthetical_control (pre @ ?r) = Some (pre, trim_ascii_whitespace ?r)"
    by (simp add: split_leading_parenthetical_control_def pre Let_def)
  with t sp show ?thesis by simp
qed

lemma split_leading_control:
  assumes "split_leading_parenthetical_control (trim_ascii_whitespace tx) = Some (pre, b)"
  shows "(\<exists>rest. leading_control tx pre rest) \<and> b = trim_ascii_whitespace b \<and> b \<noteq> []"
proof -
  let ?t = "trim_ascii_whitespace tx"
  obtain bl bl' where bl: "list_all is_space_byte bl" "tx = bl @ ?t @ bl'" using trim_tail by blast
  obtain k where t: "?t \<noteq> []" "hd ?t = CHR ''(''" and k: "find_idx (\<lambda>c. c = CHR '')'') ?t = Some k"
    and p: "pre = trim_ascii_whitespace (take (k + 1) ?t)" "b = trim_ascii_whitespace (drop (k + 1) ?t)" "b \<noteq> []"
    using assms by (auto simp: split_leading_parenthetical_control_def Let_def split: if_splits option.splits)
  note f = find_idx_Some [OF k] find_idx_take [OF k]
  obtain s where s: "?t = CHR ''('' # s" using t by (cases ?t) auto
  then obtain m where m: "k = Suc m" using f(1) by (cases k) auto
  have mf: "m < length s" "s ! m = CHR '')''" "\<forall>c\<in>set (take m s). c \<noteq> CHR '')''" using f m s by simp_all
  have tk: "take (k + 1) ?t = ''('' @ take m s @ '')''" using mf by (simp add: s m take_Suc_conv_app_nth)
  have "trim_ascii_whitespace (take (k + 1) ?t) = take (k + 1) ?t"
    unfolding tk by (rule trim_ends) (simp_all add: ctype_defs)
  then have pre: "pre = ''('' @ take m s @ '')''" using p(1) tk by simp
  have no: "CHR '')'' \<notin> set (take m s)" using mf by blast
  have left: "spoken (drop (k + 1) ?t) \<noteq> []" using p(2,3) hd_trim [of "drop (k + 1) ?t"]
    by (metis list.set_sel(1) list_all_iff spoken_Nil_iff spoken_trim)
  have "leading_control tx pre (drop (k + 1) ?t @ bl')"
    unfolding leading_control_def
  proof (rule conjI, rule exI [of _ bl], rule exI [of _ "take m s"], intro conjI)
    show "tx = bl @ pre @ drop (k + 1) ?t @ bl'" using bl(2) pre tk append_take_drop_id [of "k + 1" ?t] by (metis append.assoc)
  qed (use bl(1) pre no left in simp_all)
  moreover have "trim_ascii_whitespace b = b"
    using p(2) by (simp add: trim_trim)
  ultimately show ?thesis using p(3) by auto
qed

lemma tag_aware_cases:
  assumes "split_text_chunks tx budget TagAware = Inr chunks"
  obtains (blank) "trim_ascii_whitespace tx = []" "chunks = []" "\<nexists>pre rest. leading_control tx pre rest"
  | (plain) "trim_ascii_whitespace tx \<noteq> []" "split_tag_aware_body (trim_ascii_whitespace tx) budget = Inr chunks"
      "\<nexists>pre rest. leading_control tx pre rest"
  | (control) pre rest b n cs where "leading_control tx pre rest" "spoken b = spoken rest" "b \<noteq> []" "trim_ascii_whitespace b = b"
      "utf8_codepoint_count ''tag-aware leading text chunk tag'' pre = Inr n"
      "split_tag_aware_body b (max 1 (budget - int n - 1)) = Inr cs" "chunks = map (\<lambda>c. pre @ '' '' @ c) cs"
proof (cases "trim_ascii_whitespace tx = []")
  case True
  then have "\<not> leading_control tx pre rest" for pre rest
    using leading_control_split [of tx pre rest] by (auto simp: split_leading_parenthetical_control_def)
  with True assms blank show ?thesis by (auto simp: split_text_chunks_tag_aware_def split: if_splits)
next
  case ne: False
  show ?thesis
  proof (cases "split_leading_parenthetical_control (trim_ascii_whitespace tx)")
    case None
    then have "\<not> leading_control tx pre rest" for pre rest using leading_control_split [of tx pre rest] by auto
    with None ne assms plain show ?thesis by (auto simp: split_text_chunks_tag_aware_def split: if_splits)
  next
    case (Some pb)
    obtain pre b where pb: "pb = (pre, b)" by fastforce
    note s = Some [unfolded pb]
    from split_leading_control [OF s] obtain rest where r: "leading_control tx pre rest" "b \<noteq> []" "trim_ascii_whitespace b = b" by auto
    moreover have "spoken b = spoken rest" using leading_control_split [OF r(1)] s by auto
    moreover obtain n cs where "utf8_codepoint_count ''tag-aware leading text chunk tag'' pre = Inr n"
        "split_tag_aware_body b (max 1 (budget - int n - 1)) = Inr cs" "chunks = map (\<lambda>c. pre @ '' '' @ c) cs"
      using s ne assms by (auto simp: split_text_chunks_tag_aware_def bind_sum_Inr split: if_splits)
    ultimately show ?thesis using control by blast
  qed
qed

subsection \<open>Properties\<close>

text \<open>
  C23. Splitting keeps the text: the chunks, put together, spell the non-blank bytes of the input in order, in every mode.
  Only when tag-aware mode meets a text that begins with a parenthetical control it puts that control and a blank before
  each chunk, and the chunks without it spell what follows the control.
\<close>

theorem chunks_keep_text:
  assumes "split_text_chunks tx budget mode = Inr chunks" "budget < 2 ^ 63"
  shows "if mode = TagAware \<and> (\<exists>pre rest. leading_control tx pre rest)
    then \<exists>pre rest cs. leading_control tx pre rest \<and> chunks = map (\<lambda>c. pre @ '' '' @ c) cs \<and> spoken (concat cs) = spoken rest
    else spoken (concat chunks) = spoken tx"
proof (cases mode)
  case TagAware
  from assms(1) [unfolded TagAware] show ?thesis
  proof (cases rule: tag_aware_cases)
    case blank
    then show ?thesis by (simp add: spoken_trim_Nil)
  next
    case plain
    with split_body_Inr [OF plain(2)] show ?thesis by simp
  next
    case (control pre rest b n cs)
    with split_body_Inr [OF control(6)] TagAware show ?thesis by auto
  qed
qed (use assms split_default_Inr split_japanese_Inr split_endline_Inr in auto)

lemma demo_control: "leading_control ''(sad) a b'' ''(sad)'' '' a b''"
  unfolding leading_control_def by (intro conjI exI [of _ "[]"] exI [of _ "''sad''"]) (simp_all add: spoken_def ctype_defs)

theorem chunks_keep_text_witness:
  "(\<exists>chunks. split_text_chunks ''a b, c. d'' 4 Japanese = Inr chunks \<and> spoken (concat chunks) = ''ab,c.d'') \<and>
   (\<exists>pre rest cs. leading_control ''(sad) a b'' pre rest \<and> split_text_chunks ''(sad) a b'' 4 TagAware = Inr (map (\<lambda>c. pre @ '' '' @ c) cs) \<and>
      spoken (concat cs) = spoken rest)"
proof
  have "valid_utf8 ''a b, c. d''" by (rule valid_utf8_ascii) (simp add: byte_of_def)
  then obtain chunks where c: "split_text_chunks ''a b, c. d'' 4 Japanese = Inr chunks"
    using chunks_total [of "''a b, c. d''" 4 Japanese] by auto
  from chunks_keep_text [OF c] have "spoken (concat chunks) = spoken ''a b, c. d''" by simp
  with c show "\<exists>chunks. split_text_chunks ''a b, c. d'' 4 Japanese = Inr chunks \<and> spoken (concat chunks) = ''ab,c.d''"
    by (simp add: spoken_def ctype_defs)
next
  have "valid_utf8 ''(sad) a b''" by (rule valid_utf8_ascii) (simp add: byte_of_def)
  then obtain chunks where c: "split_text_chunks ''(sad) a b'' 4 TagAware = Inr chunks"
    using chunks_total [of "''(sad) a b''" 4 TagAware] by auto
  from chunks_keep_text [OF c] demo_control c
  show "\<exists>pre rest cs. leading_control ''(sad) a b'' pre rest \<and>
      split_text_chunks ''(sad) a b'' 4 TagAware = Inr (map (\<lambda>c. pre @ '' '' @ c) cs) \<and> spoken (concat cs) = spoken rest"
    by (auto split: if_splits)
qed

text \<open>
  C24. The budget holds: in every mode no chunk is empty and every chunk is valid UTF-8 of at most the allowed number of
  code points, counted with the repeated control, but for two exceptions. In default mode a single word that is longer
  than the budget is kept whole; in tag-aware mode so is a single unit, a run without blanks or a closed tag, after the
  control if there is one.
\<close>

theorem chunks_within_budget:
  assumes "split_text_chunks tx budget mode = Inr chunks" "budget < 2 ^ 63" "c \<in> set chunks"
  shows "c \<noteq> [] \<and> (\<exists>n. utf8_codepoint_count label c = Inr n \<and>
    (int n \<le> budget \<or>
     mode = Default \<and> (\<forall>x\<in>set c. \<not> is_space_byte x) \<or>
     mode = TagAware \<and> (kept_whole c \<or> (\<exists>pre rest u. leading_control tx pre rest \<and> c = pre @ '' '' @ u \<and> u \<noteq> [] \<and> kept_whole u))))"
proof (cases mode)
  case Default
  with assms split_default_fits have "c \<noteq> [] \<and> valid_utf8 c \<and> (fits budget c \<or> (\<forall>x\<in>set c. \<not> is_space_byte x))" by simp
  with Default show ?thesis by (auto simp: fits_iff [of _ _ label] valid_utf8_iff [of _ label])
next
  case Japanese
  with assms split_japanese_fits have "c \<noteq> [] \<and> fits budget c" by simp
  then show ?thesis by (auto simp: fits_iff [of _ _ label])
next
  case Endline
  with assms(1,3) obtain t spans where "endline_loop t spans budget 0 0 = Inr chunks"
    by (auto simp: split_text_chunks_endline_def bind_sum_Inr Let_def split: if_splits)
  with assms(2,3) endline_loop_fits have "c \<noteq> [] \<and> fits budget c" by blast
  then show ?thesis by (auto simp: fits_iff [of _ _ label])
next
  case TagAware
  from assms(1) [unfolded TagAware] show ?thesis
  proof (cases rule: tag_aware_cases)
    case blank
    with assms(3) show ?thesis by simp
  next
    case plain
    from split_body_ok [OF plain(2) assms(3) plain(1) hd_trim [OF plain(1)]] TagAware show ?thesis
      by (auto simp: body_chunk_def fits_iff [of _ _ label] valid_utf8_iff [of _ label])
  next
    case (control pre rest b n cs)
    then obtain u where c: "c = pre @ '' '' @ u" "u \<in> set cs" using assms(3) by auto
    have "body_chunk (max 1 (budget - int n - 1)) u"
      by (rule split_body_ok [OF control(6) c(2) control(3)]) (use control(3,4) hd_trim [of b] in simp)
    from control_chunk [OF this control(5)] c control(1) TagAware show ?thesis
      by (auto simp: fits_iff [of _ _ label] valid_utf8_iff [of _ label])
  qed
qed

theorem chunks_within_budget_witness:
  "(\<exists>chunks. split_text_chunks ''a b, c. d'' 4 Japanese = Inr chunks \<and> chunks \<noteq> [] \<and>
     (\<exists>n. utf8_codepoint_count ''x'' (hd chunks) = Inr n \<and> int n \<le> 4))"
proof -
  have v: "valid_utf8 ''a b, c. d''" by (rule valid_utf8_ascii) (simp add: byte_of_def)
  then obtain chunks where c: "split_text_chunks ''a b, c. d'' 4 Japanese = Inr chunks"
    using chunks_total [of "''a b, c. d''" 4 Japanese] by auto
  have "spoken (concat chunks) = spoken ''a b, c. d''" using c split_japanese_Inr [of _ 4] by simp
  then have "chunks \<noteq> []" by (auto simp: spoken_def ctype_defs)
  with chunks_within_budget [OF c, of "hd chunks" "''x''"] c show ?thesis by auto
qed

text \<open>
  The splitters return exactly on valid input: a positive budget and valid UTF-8; everything
  else is an error, in every mode, and no loop runs forever.
\<close>

lemma chunks_defined:
  "(\<exists>chunks. split_text_chunks tx budget mode = Inr chunks) \<longleftrightarrow>
   0 < budget \<and> (\<exists>n. utf8_codepoint_count label tx = Inr n)"
  using chunks_total valid_utf8_iff [of tx label] by simp

text \<open>
  A sentence break exactly at the hard limit counts as not found: an earlier clause break wins.
\<close>

lemma best_break_prefers_clause:
  "best_break (\<lambda>i. i = 3) (\<lambda>i. i = 1) 0 4 6 = 2"
  by (simp add: best_break_def numeral_eq_Suc)

end
