(* ===== verification/Cache_Slots.thy ===== *)
theory Cache_Slots
  imports Prelude "HOL-Library.Multiset"
begin

text \<open>
  The fixed-size least-recently-used cache of prepared state
  (\<^verbatim>\<open>include/engine/framework/runtime/cache_slots.h\<close>): entries in an unordered vector, each
  with the tick of its last use, a 64-bit tick counter, and eviction by a scan for the smallest
  tick. The template's \<^verbatim>\<open>Equal\<close> is the argument \<open>eq\<close>.

  The specification is a list with the most recently used entry first; the refinement shows that
  the vector with ticks behaves like it for any sequence of fewer than \<open>2 ^ 64\<close> operations.
\<close>

subsection \<open>The code\<close>

record ('k, 'v) slot_entry =
  slot_key :: 'k
  slot_value :: 'v
  last_used :: nat

record ('k, 'v) cache_slots =
  capacity :: nat
  tick :: nat
  entries :: "('k, 'v) slot_entry list"

definition new_cache_slots :: "nat \<Rightarrow> ('k, 'v) cache_slots" where
  "new_cache_slots c = \<lparr>capacity = c, tick = 0, entries = []\<rparr>"

text \<open>\<^verbatim>\<open>++tick_\<close> on \<^verbatim>\<open>uint64_t\<close>.\<close>

definition next_tick :: "('k, 'v) cache_slots \<Rightarrow> nat" where
  "next_tick s = (tick s + 1) mod 2 ^ 64"

text \<open>The scan of \<open>erase_lru\<close>: the first index with the smallest tick.\<close>

fun oldest_loop :: "('k, 'v) slot_entry list \<Rightarrow> nat \<Rightarrow> nat \<Rightarrow> nat \<Rightarrow> nat" where
  "oldest_loop es oldest i 0 = oldest"
| "oldest_loop es oldest i (Suc n) =
     oldest_loop es (if last_used (es ! i) < last_used (es ! oldest) then i else oldest) (i + 1) n"

definition erase_lru :: "('k, 'v) slot_entry list \<Rightarrow> ('k, 'v) slot_entry list" where
  "erase_lru es =
     (if es = [] then []
      else (let k = oldest_loop es 0 1 (length es - 1) in take k es @ drop (k + 1) es))"

lemma oldest_loop_spec:
  "oldest < i \<Longrightarrow> (\<forall>j<i. last_used (es ! oldest) \<le> last_used (es ! j)) \<Longrightarrow>
   oldest_loop es oldest i n < i + n \<and> (\<forall>j<i + n. last_used (es ! oldest_loop es oldest i n) \<le> last_used (es ! j))"
proof (induction es oldest i n rule: oldest_loop.induct)
  case (2 es oldest i n)
  let ?o = "if last_used (es ! i) < last_used (es ! oldest) then i else oldest"
  have "?o < i + 1" using "2.prems" by simp
  moreover have "\<forall>j<i + 1. last_used (es ! ?o) \<le> last_used (es ! j)"
    using "2.prems" by (auto simp: less_Suc_eq)
  ultimately show ?case using "2.IH" by simp
qed simp

lemma oldest_index:
  assumes "es \<noteq> []"
  shows "oldest_loop es 0 1 (length es - 1) < length es \<and>
    (\<forall>j<length es. last_used (es ! oldest_loop es 0 1 (length es - 1)) \<le> last_used (es ! j))"
  using oldest_loop_spec [of 0 1 es "length es - 1"] assms by (cases es) auto

lemma erase_lru_length [simp]: "length (erase_lru es) = length es - 1"
  using oldest_index [of es] by (auto simp: erase_lru_def Let_def)

function evict_to_capacity :: "nat \<Rightarrow> ('k, 'v) slot_entry list \<Rightarrow> ('k, 'v) slot_entry list" where
  "evict_to_capacity c es = (if length es > c then evict_to_capacity c (erase_lru es) else es)"
  by pat_completeness auto
termination
  by (relation "measure (\<lambda>(c, es). length es)") auto

declare evict_to_capacity.simps [simp del]

definition set_capacity :: "nat \<Rightarrow> ('k, 'v) cache_slots \<Rightarrow> ('k, 'v) cache_slots" where
  "set_capacity c s = s\<lparr>capacity := c, entries := evict_to_capacity c (entries s)\<rparr>"

text \<open>The first entry with an equal key, replaced by \<open>f entry\<close>; \<^const>\<open>None\<close> when there is none.\<close>

fun update_first :: "('k \<Rightarrow> 'k \<Rightarrow> bool) \<Rightarrow> 'k \<Rightarrow> (('k, 'v) slot_entry \<Rightarrow> ('k, 'v) slot_entry) \<Rightarrow>
    ('k, 'v) slot_entry list \<Rightarrow> (('k, 'v) slot_entry \<times> ('k, 'v) slot_entry list) option" where
  "update_first eq key f [] = None"
| "update_first eq key f (e # es) =
     (if eq (slot_key e) key then Some (e, f e # es)
      else map_option (\<lambda>(x, es'). (x, e # es')) (update_first eq key f es))"

definition cache_find :: "('k \<Rightarrow> 'k \<Rightarrow> bool) \<Rightarrow> 'k \<Rightarrow> ('k, 'v) cache_slots \<Rightarrow> 'v option \<times> ('k, 'v) cache_slots" where
  "cache_find eq key s =
     (case update_first eq key (\<lambda>e. e\<lparr>last_used := next_tick s\<rparr>) (entries s) of
        None \<Rightarrow> (None, s)
      | Some (e, es) \<Rightarrow> (Some (slot_value e), s\<lparr>tick := next_tick s, entries := es\<rparr>))"

text \<open>The \<^verbatim>\<open>const\<close> overload does not touch the ticks.\<close>

definition cache_peek :: "('k \<Rightarrow> 'k \<Rightarrow> bool) \<Rightarrow> 'k \<Rightarrow> ('k, 'v) cache_slots \<Rightarrow> 'v option" where
  "cache_peek eq key s = map_option slot_value (List.find (\<lambda>e. eq (slot_key e) key) (entries s))"

definition cache_put :: "('k \<Rightarrow> 'k \<Rightarrow> bool) \<Rightarrow> 'k \<Rightarrow> 'v \<Rightarrow> ('k, 'v) cache_slots \<Rightarrow> ('k, 'v) cache_slots" where
  "cache_put eq key v s =
     (if capacity s = 0 then s\<lparr>entries := []\<rparr>
      else
        (let new = \<lparr>slot_key = key, slot_value = v, last_used = next_tick s\<rparr> in
         case update_first eq key (\<lambda>_. new) (entries s) of
           Some (_, es) \<Rightarrow> s\<lparr>tick := next_tick s, entries := es\<rparr>
         | None \<Rightarrow>
             (let es = (if length (entries s) \<ge> capacity s then erase_lru (entries s) else entries s)
              in s\<lparr>tick := next_tick s, entries := es @ [new]\<rparr>)))"

definition cache_clear :: "('k, 'v) cache_slots \<Rightarrow> ('k, 'v) cache_slots" where
  "cache_clear s = s\<lparr>entries := []\<rparr>"

subsection \<open>The specification: a list in order of recency\<close>

datatype ('k, 'v) cache_op = Find 'k | Peek 'k | Put 'k 'v | Set_Capacity nat | Clear

fun cache_step :: "('k \<Rightarrow> 'k \<Rightarrow> bool) \<Rightarrow> ('k, 'v) cache_op \<Rightarrow> ('k, 'v) cache_slots \<Rightarrow>
    'v option \<times> ('k, 'v) cache_slots" where
  "cache_step eq (Find k) s = cache_find eq k s"
| "cache_step eq (Peek k) s = (cache_peek eq k s, s)"
| "cache_step eq (Put k v) s = (None, cache_put eq k v s)"
| "cache_step eq (Set_Capacity c) s = (None, set_capacity c s)"
| "cache_step eq Clear s = (None, cache_clear s)"

type_synonym ('k, 'v) lru = "nat \<times> ('k \<times> 'v) list"

definition lru_lookup :: "('k \<Rightarrow> 'k \<Rightarrow> bool) \<Rightarrow> 'k \<Rightarrow> ('k \<times> 'v) list \<Rightarrow> ('k \<times> 'v) option" where
  "lru_lookup eq k l = List.find (\<lambda>e. eq (fst e) k) l"

definition without :: "('k \<Rightarrow> 'k \<Rightarrow> bool) \<Rightarrow> 'k \<Rightarrow> ('k \<times> 'v) list \<Rightarrow> ('k \<times> 'v) list" where
  "without eq k l = filter (\<lambda>e. \<not> eq (fst e) k) l"

fun lru_step :: "('k \<Rightarrow> 'k \<Rightarrow> bool) \<Rightarrow> ('k, 'v) cache_op \<Rightarrow> ('k, 'v) lru \<Rightarrow> 'v option \<times> ('k, 'v) lru" where
  "lru_step eq (Find k) (c, l) =
     (case lru_lookup eq k l of None \<Rightarrow> (None, c, l) | Some e \<Rightarrow> (Some (snd e), c, e # without eq k l))"
| "lru_step eq (Peek k) (c, l) = (map_option snd (lru_lookup eq k l), c, l)"
| "lru_step eq (Put k v) (c, l) = (None, c, take c ((k, v) # without eq k l))"
| "lru_step eq (Set_Capacity c') (c, l) = (None, c', take c' l)"
| "lru_step eq Clear (c, l) = (None, c, [])"

subsection \<open>Abstraction and invariant\<close>

definition recency :: "('k, 'v) slot_entry list \<Rightarrow> ('k, 'v) slot_entry list" where
  "recency es = rev (sort_key last_used es)"

definition kv :: "('k, 'v) slot_entry \<Rightarrow> 'k \<times> 'v" where
  "kv e = (slot_key e, slot_value e)"

definition slots_abs :: "('k, 'v) cache_slots \<Rightarrow> ('k, 'v) lru" where
  "slots_abs s = (capacity s, map kv (recency (entries s)))"

fun keys_apart :: "('k \<Rightarrow> 'k \<Rightarrow> bool) \<Rightarrow> ('k, 'v) slot_entry list \<Rightarrow> bool" where
  "keys_apart eq [] = True"
| "keys_apart eq (e # es) \<longleftrightarrow> (\<forall>x\<in>set es. \<not> eq (slot_key e) (slot_key x)) \<and> keys_apart eq es"

definition slots_inv :: "('k \<Rightarrow> 'k \<Rightarrow> bool) \<Rightarrow> nat \<Rightarrow> ('k, 'v) cache_slots \<Rightarrow> bool" where
  "slots_inv eq n s \<longleftrightarrow>
     tick s + n < 2 ^ 64 \<and> (\<forall>e\<in>set (entries s). last_used e \<le> tick s) \<and> distinct (map last_used (entries s)) \<and>
     keys_apart eq (entries s) \<and> length (entries s) \<le> capacity s"

subsection \<open>Recency order\<close>

lemma recency_unique:
  "mset es = mset xs \<Longrightarrow> distinct (map last_used xs) \<Longrightarrow> sorted (map last_used (rev xs)) \<Longrightarrow> recency es = xs"
  unfolding recency_def
  by (metis distinct_map mset_rev rev_rev_ident set_mset_mset sort_key_inj_key_eq)

lemma recency_mset [simp]: "mset (recency es) = mset es"
  by (simp add: recency_def)

lemma recency_set [simp]: "set (recency es) = set es"
  by (simp add: recency_def)

lemma recency_length [simp]: "length (recency es) = length es"
  by (simp add: recency_def)

lemma recency_sorted: "sorted (map last_used (rev (recency es)))"
  by (simp add: recency_def)

lemma recency_distinct: "distinct (map last_used es) \<Longrightarrow> distinct (map last_used (recency es))"
  by (metis distinct_map mset_eq_imp_distinct_iff recency_mset recency_set mset_map)

lemma recency_filter: "filter P (recency es) = recency (filter P es)"
  by (simp add: recency_def filter_sort flip: rev_filter)

text \<open>A use makes an entry the first in the order.\<close>

lemma recency_newest:
  assumes "mset es = add_mset e (mset xs)" "distinct (map last_used xs)" "\<forall>x\<in>set xs. last_used x < last_used e"
  shows "recency es = e # recency xs"
proof (rule recency_unique)
  show "mset es = mset (e # recency xs)" using assms(1) by simp
  show "distinct (map last_used (e # recency xs))" using assms recency_distinct by fastforce
  show "sorted (map last_used (rev (e # recency xs)))"
    using assms(3) recency_sorted [of xs] by (auto simp: sorted_append less_imp_le)
qed

text \<open>The entry that \<open>erase_lru\<close> drops is the last in the order.\<close>

lemma recency_erase:
  assumes "distinct (map last_used es)"
  shows "recency (erase_lru es) = butlast (recency es)"
proof (cases "es = []")
  case False
  let ?k = "oldest_loop es 0 1 (length es - 1)"
  let ?r = "take ?k es @ drop (?k + 1) es" and ?e = "es ! ?k"
  have k: "?k < length es" "\<forall>j<length es. last_used ?e \<le> last_used (es ! j)" using oldest_index [OF False] by auto
  have es: "es = take ?k es @ ?e # drop (?k + 1) es" using k(1) by (simp add: id_take_nth_drop)
  have d: "distinct (map last_used (take ?k es @ ?e # drop (?k + 1) es))" using assms es by simp
  have le: "\<forall>x\<in>set ?r. last_used ?e \<le> last_used x"
    using k(2) by (auto dest!: in_set_takeD in_set_dropD simp: in_set_conv_nth)
  have "recency es = recency ?r @ [?e]"
  proof (rule recency_unique)
    have "mset es = mset (take ?k es @ ?e # drop (?k + 1) es)" using es by simp
    then show "mset es = mset (recency ?r @ [?e])" by simp
    show "distinct (map last_used (recency ?r @ [?e]))" using d recency_distinct [of ?r] by auto
    show "sorted (map last_used (rev (recency ?r @ [?e])))" using le recency_sorted [of ?r] by auto
  qed
  with False show ?thesis by (simp add: erase_lru_def Let_def)
qed (simp add: erase_lru_def recency_def)

lemma erase_lru_sub: "set (erase_lru es) \<subseteq> set es"
  by (auto simp: erase_lru_def Let_def dest: in_set_takeD in_set_dropD)

lemma erase_lru_split: "\<exists>xs ys zs. es = xs @ ys @ zs \<and> erase_lru es = xs @ zs"
proof (cases "es = []")
  case False
  let ?k = "oldest_loop es 0 1 (length es - 1)"
  have "es = take ?k es @ [es ! ?k] @ drop (?k + 1) es" using oldest_index [OF False] by (simp add: id_take_nth_drop)
  with False show ?thesis unfolding erase_lru_def Let_def by metis
qed (simp add: erase_lru_def)

lemma keys_apart_append: "keys_apart eq (xs @ ys) \<longleftrightarrow>
   keys_apart eq xs \<and> keys_apart eq ys \<and> (\<forall>x\<in>set xs. \<forall>y\<in>set ys. \<not> eq (slot_key x) (slot_key y))"
  by (induction xs) auto

lemma erase_lru_keeps:
  assumes "keys_apart eq es" "distinct (map last_used es)"
  shows "keys_apart eq (erase_lru es) \<and> distinct (map last_used (erase_lru es))"
proof -
  obtain xs ys zs where "es = xs @ ys @ zs" "erase_lru es = xs @ zs" using erase_lru_split by blast
  with assms show ?thesis by (auto simp: keys_apart_append)
qed

lemma evict_spec:
  "keys_apart eq es \<Longrightarrow> distinct (map last_used es) \<Longrightarrow>
   recency (evict_to_capacity c es) = take c (recency es) \<and> set (evict_to_capacity c es) \<subseteq> set es \<and>
   keys_apart eq (evict_to_capacity c es) \<and> distinct (map last_used (evict_to_capacity c es)) \<and>
   length (evict_to_capacity c es) \<le> c"
proof (induction c es rule: evict_to_capacity.induct)
  case (1 c es)
  show ?case
  proof (cases "length es > c")
    case True
    have "take c (butlast (recency es)) = take c (recency es)"
      using True by (simp add: take_butlast)
    then show ?thesis
      using True 1 erase_lru_keeps [OF "1.prems"] erase_lru_sub [of es] recency_erase [OF "1.prems"(2)]
      by (simp add: evict_to_capacity.simps [of c es]) blast
  next
    case False
    with 1 show ?thesis by (simp add: evict_to_capacity.simps [of c es])
  qed
qed

subsection \<open>Finding and updating an entry\<close>

lemma update_first_None: "update_first eq k f es = None \<longleftrightarrow> (\<forall>e\<in>set es. \<not> eq (slot_key e) k)"
  by (induction es) auto

lemma update_first_Some:
  "update_first eq k f es = Some (e, es') \<Longrightarrow>
   \<exists>xs ys. es = xs @ e # ys \<and> es' = xs @ f e # ys \<and> eq (slot_key e) k \<and> (\<forall>x\<in>set xs. \<not> eq (slot_key x) k)"
proof (induction es arbitrary: es')
  case (Cons x es)
  show ?case
  proof (cases "eq (slot_key x) k")
    case True
    with Cons.prems have "x # es = [] @ e # es" "es' = [] @ f e # es" "eq (slot_key e) k" by auto
    then show ?thesis by (metis empty_iff empty_set)
  next
    case False
    with Cons.prems obtain es1 where "update_first eq k f es = Some (e, es1)" "es' = x # es1" by auto
    with Cons.IH [of es1] obtain xs ys where "es = xs @ e # ys" "es' = (x # xs) @ f e # ys" "eq (slot_key e) k"
        "\<forall>z\<in>set (x # xs). \<not> eq (slot_key z) k"
      using False by auto
    moreover from this have "x # es = (x # xs) @ e # ys" by simp
    ultimately show ?thesis by blast
  qed
qed simp

lemma filter_others:
  assumes "equivp eq" "keys_apart eq (xs @ e # ys)" "eq (slot_key e) k"
  shows "filter (\<lambda>x. \<not> eq (slot_key x) k) (xs @ e # ys) = xs @ ys"
proof -
  have "\<not> eq (slot_key x) k" if x: "x \<in> set xs \<union> set ys" for x
  proof
    assume "eq (slot_key x) k"
    then have "eq (slot_key x) (slot_key e)" "eq (slot_key e) (slot_key x)"
      using assms(1,3) by (meson equivp_symp equivp_transp)+
    with assms(2) x show False by (auto simp: keys_apart_append)
  qed
  then show ?thesis using assms(3) by (auto simp: filter_id_conv)
qed

lemma find_unique:
  assumes "distinct (map f es)" "\<And>x y. x \<in> set es \<Longrightarrow> y \<in> set es \<Longrightarrow> P x \<Longrightarrow> P y \<Longrightarrow> x = y" "mset es = mset xs"
  shows "List.find P es = List.find P xs"
proof -
  have s: "set es = set xs" using assms(3) by (metis set_mset_mset)
  have hit: "\<exists>x\<in>set zs. P x \<and> List.find P zs = Some x" if "\<exists>x\<in>set zs. P x" for zs
    using that by (induction zs) auto
  have miss: "List.find P zs = None" if "\<not> (\<exists>x\<in>set zs. P x)" for zs
    using that by (induction zs) auto
  show ?thesis using hit [of es] hit [of xs] miss [of es] miss [of xs] assms(2) s by metis
qed

lemma keys_apart_unique:
  assumes "equivp eq" "keys_apart eq es" "x \<in> set es" "y \<in> set es" "eq (slot_key x) k" "eq (slot_key y) k"
  shows "x = y"
proof -
  have "eq (slot_key x) (slot_key y)" "eq (slot_key y) (slot_key x)"
    using assms(1,5,6) by (meson equivp_symp equivp_transp)+
  with assms(2,3,4) show ?thesis by (induction es) auto
qed

lemma find_map: "List.find P (map g xs) = map_option g (List.find (P \<circ> g) xs)"
  by (induction xs) auto

lemma lookup_abs:
  assumes "equivp eq" "keys_apart eq es" "distinct (map last_used es)"
  shows "lru_lookup eq k (map kv (recency es)) = map_option kv (List.find (\<lambda>e. eq (slot_key e) k) es)"
proof -
  have "List.find (\<lambda>e. eq (slot_key e) k) es = List.find (\<lambda>e. eq (slot_key e) k) (recency es)"
    by (rule find_unique [OF assms(3) keys_apart_unique [OF assms(1,2)]]) simp_all
  then show ?thesis by (simp add: lru_lookup_def find_map comp_def kv_def)
qed

lemma without_abs: "without eq k (map kv es) = map kv (filter (\<lambda>e. \<not> eq (slot_key e) k) es)"
  by (simp add: without_def filter_map comp_def kv_def)

subsection \<open>Every operation refines its specification\<close>

lemma next_tick_eq: "slots_inv eq (Suc n) s \<Longrightarrow> next_tick s = tick s + 1"
  by (simp add: slots_inv_def next_tick_def)

text \<open>Replacing an entry by a fresh one with the newest tick keeps the invariant and moves it to the front.\<close>

lemma renew:
  assumes inv: "slots_inv eq (Suc n) s" and eq: "equivp eq" and es: "entries s = xs @ e # ys" "eq (slot_key e) k"
    and f: "last_used e' = next_tick s" "eq (slot_key e') k"
  shows "slots_inv eq n (s\<lparr>tick := next_tick s, entries := xs @ e' # ys\<rparr>) \<and>
    map kv (recency (xs @ e' # ys)) = kv e' # without eq k (map kv (recency (entries s)))"
proof -
  have t: "next_tick s = tick s + 1" by (rule next_tick_eq [OF inv])
  have lu: "\<forall>x\<in>set (xs @ e # ys). last_used x \<le> tick s" "distinct (map last_used (xs @ e # ys))"
    and ka: "keys_apart eq (xs @ e # ys)" and len: "tick s + Suc n < 2 ^ 64" "length (xs @ e # ys) \<le> capacity s"
    using inv es(1) by (auto simp: slots_inv_def)
  have oth: "filter (\<lambda>x. \<not> eq (slot_key x) k) (xs @ e # ys) = xs @ ys" by (rule filter_others [OF eq ka es(2)])
  have ne: "\<not> eq (slot_key x) (slot_key e') \<and> \<not> eq (slot_key e') (slot_key x)" if x: "x \<in> set xs \<union> set ys" for x
  proof -
    have "x \<in> set (filter (\<lambda>x. \<not> eq (slot_key x) k) (xs @ e # ys))" unfolding oth using x by simp
    then have "\<not> eq (slot_key x) k" by (auto split: if_splits)
    then show ?thesis using eq f(2) by (meson equivp_symp equivp_transp)
  qed
  have ka': "keys_apart eq (xs @ e' # ys)" using ka ne by (auto simp: keys_apart_append)
  have new: "\<forall>x\<in>set (xs @ ys). last_used x < last_used e'" using lu(1) t f(1) by (auto simp: less_Suc_eq_le)
  have d: "distinct (map last_used (xs @ ys))" using lu(2) by auto
  have "slots_inv eq n (s\<lparr>tick := next_tick s, entries := xs @ e' # ys\<rparr>)"
    unfolding slots_inv_def using lu ka' len t f(1) new d by (auto simp: le_SucI)
  moreover have "recency (xs @ e' # ys) = e' # recency (xs @ ys)"
    using new d by (intro recency_newest) simp_all
  ultimately show ?thesis using oth es(1) by (simp add: without_abs recency_filter)
qed

lemma inv_weaken: "slots_inv eq (Suc n) s \<Longrightarrow> slots_inv eq n s"
  by (simp add: slots_inv_def)

lemma find_refines:
  assumes inv: "slots_inv eq (Suc n) s" and eq: "equivp eq" and f: "cache_find eq k s = (r, s')"
  shows "slots_inv eq n s' \<and> lru_step eq (Find k) (slots_abs s) = (r, slots_abs s')"
proof -
  let ?f = "\<lambda>e. e\<lparr>last_used := next_tick s\<rparr>"
  have ok: "keys_apart eq (entries s)" "distinct (map last_used (entries s))" using inv by (simp_all add: slots_inv_def)
  show ?thesis
  proof (cases "update_first eq k ?f (entries s)")
    case None
    then have "List.find (\<lambda>e. eq (slot_key e) k) (entries s) = None"
      by (auto simp: update_first_None find_None_iff)
    with None f inv lookup_abs [OF eq ok] show ?thesis
      by (auto simp: cache_find_def slots_abs_def inv_weaken)
  next
    case (Some p)
    obtain e es' where p: "p = (e, es')" by fastforce
    from update_first_Some [OF Some [unfolded p]] obtain xs ys where es: "entries s = xs @ e # ys" "es' = xs @ ?f e # ys"
        "eq (slot_key e) k" "\<forall>x\<in>set xs. \<not> eq (slot_key x) k" by auto
    have rs: "r = Some (slot_value e)" "s' = s\<lparr>tick := next_tick s, entries := xs @ ?f e # ys\<rparr>"
      using f Some p es(2) by (auto simp: cache_find_def)
    have "List.find (\<lambda>e. eq (slot_key e) k) (entries s) = Some e"
      using es(3,4) unfolding es(1) by (induction xs) auto
    with renew [OF inv eq es(1,3), of "?f e"] es(3) rs lookup_abs [OF eq ok, of k] show ?thesis
      by (simp add: slots_abs_def kv_def)
  qed
qed

lemma put_refines:
  assumes inv: "slots_inv eq (Suc n) s" and eq: "equivp eq"
  shows "slots_inv eq n (cache_put eq k v s) \<and> lru_step eq (Put k v) (slots_abs s) = (None, slots_abs (cache_put eq k v s))"
proof (cases "capacity s = 0")
  case True
  with inv show ?thesis by (auto simp: cache_put_def slots_inv_def slots_abs_def recency_def)
next
  case False
  let ?new = "\<lparr>slot_key = k, slot_value = v, last_used = next_tick s\<rparr>"
  have ok: "keys_apart eq (entries s)" "distinct (map last_used (entries s))" "length (entries s) \<le> capacity s"
    "\<forall>e\<in>set (entries s). last_used e \<le> tick s" "tick s + Suc n < 2 ^ 64"
    using inv by (simp_all add: slots_inv_def)
  have kk: "eq k k" using eq by (simp add: equivp_reflp)
  show ?thesis
  proof (cases "update_first eq k (\<lambda>_. ?new) (entries s)")
    case (Some p)
    obtain e es' where p: "p = (e, es')" by fastforce
    from update_first_Some [OF Some [unfolded p]] obtain xs ys where es: "entries s = xs @ e # ys" "es' = xs @ ?new # ys"
        "eq (slot_key e) k" by auto
    have "length (without eq k (map kv (recency (entries s)))) < length (entries s)"
      using filter_others [OF eq _ es(3), of xs ys] ok(1) es(1) by (simp add: without_abs recency_filter)
    then show ?thesis
      using renew [OF inv eq es(1,3), of ?new] kk Some p es(2) False ok(3)
      by (simp add: cache_put_def slots_abs_def kv_def)
  next
    case None
    then have none: "\<forall>e\<in>set (entries s). \<not> eq (slot_key e) k" by (simp add: update_first_None)
    let ?es = "if length (entries s) \<ge> capacity s then erase_lru (entries s) else entries s"
    have kept: "keys_apart eq ?es" "distinct (map last_used ?es)" "set ?es \<subseteq> set (entries s)" "length ?es < capacity s"
      "recency ?es = take (capacity s - 1) (recency (entries s))"
      using erase_lru_keeps [OF ok(1,2)] erase_lru_sub [of "entries s"] ok False recency_erase [OF ok(2)]
      by (auto simp: butlast_conv_take)
    have t: "next_tick s = tick s + 1" by (rule next_tick_eq [OF inv])
    have lt: "\<forall>x\<in>set ?es. last_used x < last_used ?new" using kept(3) ok(4) t by (auto simp: less_Suc_eq_le)
    have "recency (?es @ [?new]) = ?new # recency ?es"
      using kept(2) lt by (intro recency_newest) simp_all
    moreover have "without eq k (map kv (recency (entries s))) = map kv (recency (entries s))"
      using none by (simp add: without_abs filter_id_conv)
    moreover have "slots_inv eq n (s\<lparr>tick := next_tick s, entries := ?es @ [?new]\<rparr>)"
      unfolding slots_inv_def using kept lt none ok(4,5) t
      by (auto simp: keys_apart_append subset_iff le_SucI)
    moreover have "cache_put eq k v s = s\<lparr>tick := next_tick s, entries := ?es @ [?new]\<rparr>"
      using None False by (simp add: cache_put_def Let_def)
    ultimately show ?thesis
      using kept(5) False by (simp add: slots_abs_def kv_def take_Cons' take_map)
  qed
qed

lemma set_capacity_refines:
  assumes "slots_inv eq (Suc n) s"
  shows "slots_inv eq n (set_capacity c s) \<and> lru_step eq (Set_Capacity c) (slots_abs s) = (None, slots_abs (set_capacity c s))"
proof -
  have "keys_apart eq (entries s)" "distinct (map last_used (entries s))" using assms by (simp_all add: slots_inv_def)
  from evict_spec [OF this, of c] assms show ?thesis
    by (auto simp: set_capacity_def slots_abs_def slots_inv_def take_map)
qed

lemma peek_refines:
  assumes "slots_inv eq (Suc n) s" "equivp eq"
  shows "lru_step eq (Peek k) (slots_abs s) = (cache_peek eq k s, slots_abs s)"
proof -
  have "keys_apart eq (entries s)" "distinct (map last_used (entries s))" using assms(1) by (simp_all add: slots_inv_def)
  from lookup_abs [OF assms(2) this, of k] show ?thesis
    by (cases "List.find (\<lambda>e. eq (slot_key e) k) (entries s)") (simp_all add: slots_abs_def cache_peek_def kv_def)
qed

lemma cache_step_refines:
  assumes "slots_inv eq (Suc n) s" "equivp eq" "cache_step eq x s = (r, s')"
  shows "slots_inv eq n s' \<and> lru_step eq x (slots_abs s) = (r, slots_abs s')"
proof (cases x)
  case (Find k)
  with assms find_refines show ?thesis by fastforce
next
  case (Peek k)
  with assms peek_refines [OF assms(1,2)] inv_weaken [OF assms(1)] show ?thesis by auto
next
  case (Put k v)
  with assms put_refines [OF assms(1,2)] show ?thesis by auto
next
  case (Set_Capacity c)
  with assms set_capacity_refines [OF assms(1)] show ?thesis by auto
next
  case Clear
  with assms show ?thesis by (auto simp: cache_clear_def slots_inv_def slots_abs_def recency_def)
qed

text \<open>The interface of the cache, for the equality a client instantiates the template with.\<close>

locale key_equality =
  fixes eq :: "'k \<Rightarrow> 'k \<Rightarrow> bool"
  assumes equivalence: "equivp eq"

sublocale key_equality \<subseteq> data_refinement "cache_step eq" "lru_step eq" slots_abs "slots_inv eq"
proof unfold_locales
  fix n s x r s'
  show "slots_inv eq (Suc n) s \<Longrightarrow> cache_step eq x s = (r, s') \<Longrightarrow>
      slots_inv eq n s' \<and> lru_step eq x (slots_abs s) = (r, slots_abs s')"
    using cache_step_refines equivalence by blast
  show "slots_inv eq n s \<Longrightarrow> slots_inv eq 0 s" by (simp add: slots_inv_def)
qed

interpretation std_equal: key_equality "(=)"
  by unfold_locales (rule identity_equivp)

subsection \<open>Properties\<close>

lemma new_slots_inv: "slots_inv eq (2 ^ 64 - 1) (new_cache_slots c)"
  by (simp add: slots_inv_def new_cache_slots_def)

lemma new_slots_abs: "slots_abs (new_cache_slots c) = (c, [])"
  by (simp add: slots_abs_def new_cache_slots_def recency_def)

text \<open>
  C26. The cache is an LRU cache: any sequence of fewer than \<open>2 ^ 64\<close> operations on a new cache
  (under the default equality) gives the answers of the specification, a list in order of
  recency, and leaves the state that the specification is in; the order is by the last find or
  put, and eviction drops its end.
\<close>

theorem cache_slots_refines_lru:
  assumes "length ops < 2 ^ 64" "run_ops (cache_step (=)) ops (new_cache_slots c) = (answers, s)"
  shows "run_ops (lru_step (=)) ops (c, []) = (answers, slots_abs s)"
  using std_equal.run_refines [OF new_slots_inv _ assms(2)] assms(1) by (simp add: new_slots_abs)

theorem cache_slots_refines_lru_witness:
  "\<exists>s. run_ops (cache_step (=)) [Put 1 ''a'', Put 2 ''b'', Find 1, Put (3::nat) ''c'', Find 2, Find 1] (new_cache_slots 2) =
         ([None, None, Some ''a'', None, None, Some ''a''], s) \<and> slots_abs s = (2, [(1, ''a''), (3, ''c'')])"
proof -
  let ?ops = "[Put 1 ''a'', Put 2 ''b'', Find 1, Put (3::nat) ''c'', Find 2, Find 1]"
  obtain rs s where r: "run_ops (cache_step (=)) ?ops (new_cache_slots 2) = (rs, s)" by fastforce
  have "run_ops (lru_step (=)) ?ops (2, []) = (rs, slots_abs s)"
    using cache_slots_refines_lru [OF _ r] by simp
  then show ?thesis using r by (simp add: lru_lookup_def without_def numeral_2_eq_2)
qed

text \<open>
  The cache never holds more entries than its capacity, and no two entries with the same key,
  after any such sequence of operations, including shrinking the capacity.
\<close>

lemma cache_slots_bounded:
  assumes "length ops < 2 ^ 64" "run_ops (cache_step (=)) ops (new_cache_slots c) = (answers, s)"
  shows "length (entries s) \<le> capacity s \<and> distinct (map slot_key (entries s))"
proof -
  have "slots_inv (=) 0 s"
    using std_equal.run_refines [OF new_slots_inv _ assms(2)] assms(1) by simp
  moreover have "keys_apart (=) es \<Longrightarrow> distinct (map slot_key es)" for es :: "('a, 'b) slot_entry list"
    by (induction es) auto
  ultimately show ?thesis by (simp add: slots_inv_def)
qed

end
