(* ===== verification/KV_Cache.thy ===== *)
theory KV_Cache
  imports Prelude
begin

text \<open>
  The transformer key/value caches (\<^verbatim>\<open>src/framework/runtime/kv_cache.cpp\<close>): bookkeeping of
  valid steps over fixed-size tensors, and import and export of their contents, for one sequence
  and for a batch.

  A tensor is its storage type, its element count and its contents as floats. The conversions
  of ggml to and from half precision are the argument \<open>half\<close>, a rounding function per storage
  type; f32 tensors keep their values. Step and element counts (\<^verbatim>\<open>int64_t\<close>) are \<^typ>\<open>int\<close>:
  products of tensor dimensions that are allocated in memory do not overflow. An operation that
  throws half way returns the state it leaves behind together with the error.
\<close>

subsection \<open>Tensors\<close>

datatype storage = S_F32 | S_F16 | S_BF16 | S_Other

record 'f tensor =
  t_type :: storage
  t_elements :: nat
  t_data :: "'f list"

record kv_options =
  allow_f16_storage :: bool
  allow_bf16_storage :: bool

datatype kv_error =
  Unsupported_Cache_Tensor
| Element_Count
| Bad_Step_Elems
| Bad_Batch_Shape
| Layer_Counts
| State_Layers
| State_Batch
| Steps_Exceed_Capacity
| Inconsistent_Steps
| Key_Value_Sizes
| Source_Size
| Append_Exceeds_Capacity
| Prefix_Exceeds_State
| Import_Exceeds_Capacity

definition validate_cache_tensor :: "'f tensor \<Rightarrow> kv_options \<Rightarrow> kv_error option" where
  "validate_cache_tensor t opts =
     (if t_type t = S_F32 then None
      else if allow_f16_storage opts \<and> t_type t = S_F16 then None
      else if allow_bf16_storage opts \<and> t_type t = S_BF16 then None
      else Some Unsupported_Cache_Tensor)"

definition stored :: "(storage \<Rightarrow> 'f \<Rightarrow> 'f) \<Rightarrow> storage \<Rightarrow> 'f \<Rightarrow> 'f" where
  "stored half ty x = (if ty = S_F32 then x else half ty x)"

text \<open>\<open>core::write_tensor_*\<close> check the count, convert and overwrite the whole tensor.\<close>

definition write_cache_tensor :: "(storage \<Rightarrow> 'f \<Rightarrow> 'f) \<Rightarrow> 'f tensor \<Rightarrow> 'f list \<Rightarrow> kv_options \<Rightarrow> kv_error + 'f tensor" where
  "write_cache_tensor half t vs opts =
     (case validate_cache_tensor t opts of
        Some e \<Rightarrow> Inl e
      | None \<Rightarrow>
          if t_elements t \<noteq> length vs then Inl Element_Count
          else Inr (t\<lparr>t_data := map (stored half (t_type t)) vs\<rparr>))"

definition read_cache_tensor :: "'f tensor \<Rightarrow> kv_options \<Rightarrow> kv_error + 'f list" where
  "read_cache_tensor t opts =
     (case validate_cache_tensor t opts of Some e \<Rightarrow> Inl e | None \<Rightarrow> Inr (t_data t))"

subsection \<open>One sequence\<close>

record 'f kv_layer_state =
  ls_valid_steps :: int
  ls_key :: "'f list"
  ls_value :: "'f list"

record 'f kv_state =
  st_current_end :: int
  st_layers :: "'f kv_layer_state list"

record 'f layer_cache =
  key_tensor :: "'f tensor"
  value_tensor :: "'f tensor"
  import_key_scratch :: "'f list"
  import_value_scratch :: "'f list"

record 'f kv_cache =
  cache_steps :: int
  step_elems :: int
  valid_steps :: int
  current_end :: int
  kv_opts :: kv_options
  layers :: "'f layer_cache list"

fun make_layers :: "'f \<Rightarrow> nat \<Rightarrow> kv_options \<Rightarrow> 'f tensor list \<Rightarrow> 'f tensor list \<Rightarrow> kv_error + 'f layer_cache list" where
  "make_layers z n opts (k # ks) (v # vs) =
     (case validate_cache_tensor k opts of
        Some e \<Rightarrow> Inl e
      | None \<Rightarrow>
          (case validate_cache_tensor v opts of
             Some e \<Rightarrow> Inl e
           | None \<Rightarrow>
               bind_sum (make_layers z n opts ks vs) (\<lambda>ls.
                 Inr (\<lparr>key_tensor = k, value_tensor = v, import_key_scratch = replicate n z,
                       import_value_scratch = replicate n z\<rparr> # ls))))"
| "make_layers z n opts _ _ = Inr []"

definition new_kv_cache :: "'f \<Rightarrow> int \<Rightarrow> int \<Rightarrow> 'f tensor list \<Rightarrow> 'f tensor list \<Rightarrow> kv_options \<Rightarrow> kv_error + 'f kv_cache" where
  "new_kv_cache z steps elems keys vals opts =
     (let steps' = max 0 steps; elems' = max 0 elems in
      if elems' \<le> 0 then Inl Bad_Step_Elems
      else if length keys \<noteq> length vals then Inl Layer_Counts
      else bind_sum (make_layers z (to_size_t (steps' * elems')) opts keys vals) (\<lambda>ls.
        Inr \<lparr>cache_steps = steps', step_elems = elems', valid_steps = 0, current_end = 0, kv_opts = opts, layers = ls\<rparr>))"

text \<open>\<^verbatim>\<open>std::copy\<close> of a whole range to the front of a zeroed scratch buffer.\<close>

definition fill_scratch :: "'f \<Rightarrow> 'f list \<Rightarrow> 'f list \<Rightarrow> 'f list" where
  "fill_scratch z scratch src = src @ drop (length src) (replicate (length scratch) z)"

text \<open>The scratch buffers are filled, then written to the key and to the value tensor.\<close>

definition write_layer :: "(storage \<Rightarrow> 'f \<Rightarrow> 'f) \<Rightarrow> kv_options \<Rightarrow> 'f list \<Rightarrow> 'f list \<Rightarrow> 'f layer_cache \<Rightarrow>
    kv_error option \<times> 'f layer_cache" where
  "write_layer half opts ks vs lc =
     (let lc1 = lc\<lparr>import_key_scratch := ks, import_value_scratch := vs\<rparr> in
      case write_cache_tensor half (key_tensor lc) ks opts of
        Inl e \<Rightarrow> (Some e, lc1)
      | Inr kt \<Rightarrow>
          (let lc2 = lc1\<lparr>key_tensor := kt\<rparr> in
           case write_cache_tensor half (value_tensor lc) vs opts of
             Inl e \<Rightarrow> (Some e, lc2)
           | Inr vt \<Rightarrow> (None, lc2\<lparr>value_tensor := vt\<rparr>)))"

definition import_layer :: "(storage \<Rightarrow> 'f \<Rightarrow> 'f) \<Rightarrow> 'f \<Rightarrow> 'f kv_cache \<Rightarrow> int \<Rightarrow> 'f layer_cache \<Rightarrow> 'f kv_layer_state \<Rightarrow>
    kv_error option \<times> 'f layer_cache" where
  "import_layer half z c steps lc src =
     (let keep = to_size_t (ls_valid_steps src * step_elems c) in
      if ls_valid_steps src \<noteq> steps then (Some Inconsistent_Steps, lc)
      else if length (ls_key src) \<noteq> length (ls_value src) then (Some Key_Value_Sizes, lc)
      else if length (ls_key src) \<noteq> keep then (Some Source_Size, lc)
      else if cache_steps c > 0 then
        write_layer half (kv_opts c) (fill_scratch z (import_key_scratch lc) (ls_key src))
          (fill_scratch z (import_value_scratch lc) (ls_value src)) lc
      else (None, lc))"

text \<open>The layers already written keep their new contents when a later layer throws.\<close>

fun import_each :: "('l \<Rightarrow> 's \<Rightarrow> kv_error option \<times> 'l) \<Rightarrow> 'l list \<Rightarrow> 's list \<Rightarrow> kv_error option \<times> 'l list" where
  "import_each f (lc # lcs) (src # srcs) =
     (case f lc src of
        (Some e, lc') \<Rightarrow> (Some e, lc' # lcs)
      | (None, lc') \<Rightarrow> (let (e, ls) = import_each f lcs srcs in (e, lc' # ls)))"
| "import_each f lcs _ = (None, lcs)"

definition import_state :: "(storage \<Rightarrow> 'f \<Rightarrow> 'f) \<Rightarrow> 'f \<Rightarrow> 'f kv_state \<Rightarrow> 'f kv_cache \<Rightarrow> kv_error option \<times> 'f kv_cache" where
  "import_state half z st c =
     (let c1 = c\<lparr>current_end := st_current_end st\<rparr> in
      if layers c = [] then (None, c1\<lparr>valid_steps := 0\<rparr>)
      else if length (st_layers st) \<noteq> length (layers c) then (Some State_Layers, c1)
      else
        (let steps = (case st_layers st of [] \<Rightarrow> 0 | l # _ \<Rightarrow> ls_valid_steps l) in
         if steps > cache_steps c then (Some Steps_Exceed_Capacity, c1)
         else (let (e, ls) = import_each (import_layer half z c steps) (layers c) (st_layers st) in
               (e, c1\<lparr>valid_steps := steps, layers := ls\<rparr>))))"

definition export_layer :: "'f kv_cache \<Rightarrow> 'f layer_cache \<Rightarrow> kv_error + 'f kv_layer_state" where
  "export_layer c lc =
     (let keep = to_size_t (valid_steps c * step_elems c) in
      if keep = 0 then Inr \<lparr>ls_valid_steps = valid_steps c, ls_key = [], ls_value = []\<rparr>
      else bind_sum (read_cache_tensor (key_tensor lc) (kv_opts c)) (\<lambda>ks.
           bind_sum (read_cache_tensor (value_tensor lc) (kv_opts c)) (\<lambda>vs.
           Inr \<lparr>ls_valid_steps = valid_steps c, ls_key = take keep ks, ls_value = take keep vs\<rparr>)))"

fun map_sum_list :: "('a \<Rightarrow> 'e + 'b) \<Rightarrow> 'a list \<Rightarrow> 'e + 'b list" where
  "map_sum_list f [] = Inr []"
| "map_sum_list f (x # xs) = bind_sum (f x) (\<lambda>y. bind_sum (map_sum_list f xs) (\<lambda>ys. Inr (y # ys)))"

definition export_state :: "'f kv_cache \<Rightarrow> kv_error + 'f kv_state" where
  "export_state c =
     bind_sum (map_sum_list (export_layer c) (layers c)) (\<lambda>ls.
       Inr \<lparr>st_current_end = current_end c, st_layers = ls\<rparr>)"

definition advance_after_direct_append :: "int \<Rightarrow> 'f kv_cache \<Rightarrow> kv_error option \<times> 'f kv_cache" where
  "advance_after_direct_append steps c =
     (if steps \<le> 0 then (None, c)
      else if valid_steps c + steps > cache_steps c then (Some Append_Exceeds_Capacity, c)
      else (None, c\<lparr>valid_steps := valid_steps c + steps, current_end := current_end c + steps\<rparr>))"

definition retain_prefix :: "int \<Rightarrow> 'f kv_cache \<Rightarrow> kv_error option \<times> 'f kv_cache" where
  "retain_prefix n c =
     (if n < 0 \<or> n > valid_steps c then (Some Prefix_Exceeds_State, c)
      else (None, c\<lparr>valid_steps := n, current_end := n\<rparr>))"

definition mark_device_import :: "int \<Rightarrow> 'f kv_cache \<Rightarrow> kv_error option \<times> 'f kv_cache" where
  "mark_device_import steps c =
     (if steps < 0 \<or> steps > cache_steps c then (Some Import_Exceeds_Capacity, c)
      else (None, c\<lparr>valid_steps := steps, current_end := steps\<rparr>))"

subsection \<open>A batch of sequences\<close>

record 'f batched_state =
  bst_batch_size :: int
  bst_current_end :: int
  bst_layers :: "'f kv_layer_state list"

record 'f batched_cache =
  b_cache_steps :: int
  b_batch_size :: int
  row_elems :: int
  b_valid_steps :: int
  b_current_end :: int
  b_opts :: kv_options
  b_layers :: "'f layer_cache list"

definition new_batched_cache :: "'f \<Rightarrow> int \<Rightarrow> int \<Rightarrow> int \<Rightarrow> 'f tensor list \<Rightarrow> 'f tensor list \<Rightarrow> kv_options \<Rightarrow>
    kv_error + 'f batched_cache" where
  "new_batched_cache z steps batch elems keys vals opts =
     (let steps' = max 0 steps; batch' = max 0 batch; elems' = max 0 elems in
      if steps' \<le> 0 \<or> batch' \<le> 0 \<or> elems' \<le> 0 then Inl Bad_Batch_Shape
      else if length keys \<noteq> length vals then Inl Layer_Counts
      else bind_sum (make_layers z (to_size_t (batch' * steps' * elems')) opts keys vals) (\<lambda>ls.
        Inr \<lparr>b_cache_steps = steps', b_batch_size = batch', row_elems = elems', b_valid_steps = 0, b_current_end = 0,
             b_opts = opts, b_layers = ls\<rparr>))"

text \<open>\<^verbatim>\<open>std::copy\<close> of \<open>seg\<close> into \<open>xs\<close> at offset \<open>dst\<close>.\<close>

definition splice :: "nat \<Rightarrow> 'f list \<Rightarrow> 'f list \<Rightarrow> 'f list" where
  "splice dst seg xs = take dst xs @ seg @ drop (dst + length seg) xs"

text \<open>The per-batch copies between buffers of stride \<open>from\<close> and \<open>to\<close>.\<close>

definition copy_batches :: "nat \<Rightarrow> nat \<Rightarrow> nat \<Rightarrow> nat \<Rightarrow> 'f list \<Rightarrow> 'f list \<Rightarrow> 'f list" where
  "copy_batches n copy stride_src stride_dst src buf =
     fold (\<lambda>b. splice (b * stride_dst) (substr src (b * stride_src) copy)) [0..<n] buf"

definition import_batched_layer :: "(storage \<Rightarrow> 'f \<Rightarrow> 'f) \<Rightarrow> 'f \<Rightarrow> 'f batched_cache \<Rightarrow> int \<Rightarrow> 'f layer_cache \<Rightarrow>
    'f kv_layer_state \<Rightarrow> kv_error option \<times> 'f layer_cache" where
  "import_batched_layer half z c steps lc src =
     (let copy = to_size_t (steps * row_elems c);
          n = to_size_t (b_batch_size c);
          stride = to_size_t (b_cache_steps c * row_elems c)
      in
      if ls_valid_steps src \<noteq> steps then (Some Inconsistent_Steps, lc)
      else if length (ls_key src) \<noteq> length (ls_value src) \<or> length (ls_key src) \<noteq> n * copy then (Some Source_Size, lc)
      else
        write_layer half (b_opts c)
          (copy_batches n copy copy stride (ls_key src) (replicate (length (import_key_scratch lc)) z))
          (copy_batches n copy copy stride (ls_value src) (replicate (length (import_value_scratch lc)) z)) lc)"

definition import_batched_state :: "(storage \<Rightarrow> 'f \<Rightarrow> 'f) \<Rightarrow> 'f \<Rightarrow> 'f batched_state \<Rightarrow> 'f batched_cache \<Rightarrow>
    kv_error option \<times> 'f batched_cache" where
  "import_batched_state half z st c =
     (if bst_batch_size st \<noteq> b_batch_size c then (Some State_Batch, c)
      else
        (let c1 = c\<lparr>b_current_end := bst_current_end st\<rparr> in
         if b_layers c = [] then (None, c1\<lparr>b_valid_steps := 0\<rparr>)
         else if length (bst_layers st) \<noteq> length (b_layers c) then (Some State_Layers, c1)
         else
           (let steps = (case bst_layers st of [] \<Rightarrow> 0 | l # _ \<Rightarrow> ls_valid_steps l) in
            if steps > b_cache_steps c then (Some Steps_Exceed_Capacity, c1)
            else (let (e, ls) = import_each (import_batched_layer half z c steps) (b_layers c) (bst_layers st) in
                  (e, c1\<lparr>b_valid_steps := steps, b_layers := ls\<rparr>)))))"

definition export_batched_layer :: "'f \<Rightarrow> 'f batched_cache \<Rightarrow> 'f layer_cache \<Rightarrow> kv_error + 'f kv_layer_state" where
  "export_batched_layer z c lc =
     (let copy = to_size_t (b_valid_steps c * row_elems c);
          n = to_size_t (b_batch_size c);
          stride = to_size_t (b_cache_steps c * row_elems c);
          blank = replicate (n * copy) z
      in
      if copy = 0 then Inr \<lparr>ls_valid_steps = b_valid_steps c, ls_key = blank, ls_value = blank\<rparr>
      else bind_sum (read_cache_tensor (key_tensor lc) (b_opts c)) (\<lambda>ks.
           bind_sum (read_cache_tensor (value_tensor lc) (b_opts c)) (\<lambda>vs.
           Inr \<lparr>ls_valid_steps = b_valid_steps c, ls_key = copy_batches n copy stride copy ks blank,
                ls_value = copy_batches n copy stride copy vs blank\<rparr>)))"

definition export_batched_state :: "'f \<Rightarrow> 'f batched_cache \<Rightarrow> kv_error + 'f batched_state" where
  "export_batched_state z c =
     bind_sum (map_sum_list (export_batched_layer z c) (b_layers c)) (\<lambda>ls.
       Inr \<lparr>bst_batch_size = b_batch_size c, bst_current_end = b_current_end c, bst_layers = ls\<rparr>)"

definition batched_advance :: "int \<Rightarrow> 'f batched_cache \<Rightarrow> kv_error option \<times> 'f batched_cache" where
  "batched_advance steps c =
     (if steps \<le> 0 then (None, c)
      else if b_valid_steps c + steps > b_cache_steps c then (Some Append_Exceeds_Capacity, c)
      else (None, c\<lparr>b_valid_steps := b_valid_steps c + steps, b_current_end := b_current_end c + steps\<rparr>))"

subsection \<open>Invariant\<close>

definition layer_ok :: "nat \<Rightarrow> kv_options \<Rightarrow> 'f layer_cache \<Rightarrow> bool" where
  "layer_ok n opts lc \<longleftrightarrow>
     validate_cache_tensor (key_tensor lc) opts = None \<and> validate_cache_tensor (value_tensor lc) opts = None \<and>
     length (import_key_scratch lc) = n \<and> length (import_value_scratch lc) = n \<and>
     t_elements (key_tensor lc) = n \<and> t_elements (value_tensor lc) = n \<and>
     length (t_data (key_tensor lc)) = n \<and> length (t_data (value_tensor lc)) = n"

definition kv_inv :: "'f kv_cache \<Rightarrow> bool" where
  "kv_inv c \<longleftrightarrow>
     0 \<le> valid_steps c \<and> valid_steps c \<le> cache_steps c \<and> 0 < step_elems c \<and> cache_steps c * step_elems c < 2 ^ 63 \<and>
     (\<forall>lc\<in>set (layers c). layer_ok (nat (cache_steps c * step_elems c)) (kv_opts c) lc)"

lemma to_size_t_prod:
  fixes v e k :: int
  assumes "0 \<le> v" "v \<le> k" "0 < e" "k * e < 2 ^ 63"
  shows "to_size_t (v * e) = nat (v * e)" "nat (v * e) \<le> nat (k * e)"
proof -
  have le: "v * e \<le> k * e" using assms(2,3) by (simp add: mult_right_mono)
  moreover have "(2::int) ^ 63 < 2 ^ 64" by simp
  ultimately have "v * e < 2 ^ 64" using assms(4) by linarith
  moreover have "0 \<le> v * e" using assms(1,3) by simp
  ultimately show "to_size_t (v * e) = nat (v * e)" by (intro to_size_t_nonneg)
  show "nat (v * e) \<le> nat (k * e)" using le by (rule nat_mono)
qed

lemma write_layer_ok:
  assumes "layer_ok n opts lc" "length ks = n" "length vs = n"
  shows "write_layer half opts ks vs lc =
    (None, lc\<lparr>import_key_scratch := ks, import_value_scratch := vs,
       key_tensor := (key_tensor lc)\<lparr>t_data := map (stored half (t_type (key_tensor lc))) ks\<rparr>,
       value_tensor := (value_tensor lc)\<lparr>t_data := map (stored half (t_type (value_tensor lc))) vs\<rparr>\<rparr>)"
  using assms by (simp add: write_layer_def write_cache_tensor_def layer_ok_def Let_def)

lemma validate_data [simp]: "validate_cache_tensor (t\<lparr>t_data := d\<rparr>) opts = validate_cache_tensor t opts"
  by (simp add: validate_cache_tensor_def)

lemma write_layer_inv:
  assumes "layer_ok n opts lc" "length ks = n" "length vs = n" "write_layer half opts ks vs lc = (e, lc')"
  shows "layer_ok n opts lc' \<and> e = None"
  using assms(1-3) assms(4) [unfolded write_layer_ok [OF assms(1-3)]] by (auto simp: layer_ok_def)

lemma fill_scratch_length: "length src \<le> length scratch \<Longrightarrow> length (fill_scratch z scratch src) = length scratch"
  by (simp add: fill_scratch_def)

text \<open>What one layer holds after a successful import.\<close>

definition holds :: "(storage \<Rightarrow> 'f \<Rightarrow> 'f) \<Rightarrow> 'f kv_layer_state \<Rightarrow> 'f layer_cache \<Rightarrow> bool" where
  "holds half src lc \<longleftrightarrow>
     take (length (ls_key src)) (t_data (key_tensor lc)) = map (stored half (t_type (key_tensor lc))) (ls_key src) \<and>
     take (length (ls_value src)) (t_data (value_tensor lc)) = map (stored half (t_type (value_tensor lc))) (ls_value src)"

definition types_of :: "'f layer_cache \<Rightarrow> storage \<times> storage" where
  "types_of lc = (t_type (key_tensor lc), t_type (value_tensor lc))"

lemma import_layer_spec:
  assumes inv: "layer_ok (nat (cache_steps c * step_elems c)) (kv_opts c) lc"
    and c: "0 < step_elems c" "cache_steps c * step_elems c < 2 ^ 63" "0 \<le> steps" "steps \<le> cache_steps c"
    and imp: "import_layer half z c steps lc src = (e, lc')"
  shows "layer_ok (nat (cache_steps c * step_elems c)) (kv_opts c) lc' \<and> types_of lc' = types_of lc \<and>
    (e = None \<longrightarrow> holds half src lc' \<and> ls_valid_steps src = steps \<and>
      length (ls_key src) = nat (steps * step_elems c) \<and> length (ls_value src) = nat (steps * step_elems c))"
proof (cases "ls_valid_steps src = steps \<and> length (ls_key src) = length (ls_value src) \<and>
    length (ls_key src) = nat (steps * step_elems c)")
  case False
  then have "e \<noteq> None \<and> lc' = lc"
    using imp to_size_t_prod(1) [OF c(3,4,1,2)] by (auto simp: import_layer_def split: if_splits)
  with inv show ?thesis by auto
next
  case True
  have le: "nat (steps * step_elems c) \<le> nat (cache_steps c * step_elems c)" by (rule to_size_t_prod(2) [OF c(3,4,1,2)])
  show ?thesis
  proof (cases "cache_steps c > 0")
    case False
    then have "steps * step_elems c = 0" using c by simp
    with True False imp to_size_t_prod(1) [OF c(3,4,1,2)] inv show ?thesis
      by (auto simp: import_layer_def holds_def)
  next
    case pos: True
    let ?n = "nat (cache_steps c * step_elems c)"
    let ?ks = "fill_scratch z (import_key_scratch lc) (ls_key src)" and ?vs = "fill_scratch z (import_value_scratch lc) (ls_value src)"
    have len: "length ?ks = ?n" "length ?vs = ?n"
      using inv True le by (simp_all add: fill_scratch_length layer_ok_def)
    have w: "write_layer half (kv_opts c) ?ks ?vs lc = (e, lc')"
      using imp True pos to_size_t_prod(1) [OF c(3,4,1,2)] by (simp add: import_layer_def)
    from write_layer_inv [OF inv len w] w [unfolded write_layer_ok [OF inv len]] True show ?thesis
      by (auto simp: holds_def types_of_def fill_scratch_def)
  qed
qed

lemma import_each_spec:
  assumes one: "\<And>lc src e lc'. ok lc \<Longrightarrow> f lc src = (e, lc') \<Longrightarrow> ok lc' \<and> g lc' = g lc \<and> (e = None \<longrightarrow> Q src lc')"
  shows "length lcs = length srcs \<Longrightarrow> \<forall>lc\<in>set lcs. ok lc \<Longrightarrow> import_each f lcs srcs = (e, lcs') \<Longrightarrow>
    (\<forall>lc\<in>set lcs'. ok lc) \<and> map g lcs' = map g lcs \<and> (e = None \<longrightarrow> list_all2 Q srcs lcs')"
proof (induction lcs srcs arbitrary: e lcs' rule: list_induct2)
  case (Cons lc lcs src srcs)
  obtain e1 lc1 where 1: "f lc src = (e1, lc1)" by fastforce
  obtain e2 ls where 2: "import_each f lcs srcs = (e2, ls)" by fastforce
  have ok1: "ok lc1 \<and> g lc1 = g lc \<and> (e1 = None \<longrightarrow> Q src lc1)" using one [OF _ 1] Cons.prems(1) by simp
  show ?case
  proof (cases e1)
    case None
    with Cons.prems 1 2 ok1 Cons.IH [OF _ 2] show ?thesis by auto
  next
    case (Some err)
    with Cons.prems 1 ok1 show ?thesis by auto
  qed
qed simp

text \<open>Import, on every path, including the ones that throw.\<close>

definition nonneg_steps :: "'f kv_layer_state list \<Rightarrow> bool" where
  "nonneg_steps ls \<longleftrightarrow> list_all (\<lambda>l. 0 \<le> ls_valid_steps l) ls"

lemma import_state_cases:
  assumes "kv_inv c" "nonneg_steps (st_layers st)" "import_state half z st c = (e, c')"
  shows "kv_inv c' \<and> map types_of (layers c') = map types_of (layers c) \<and> step_elems c' = step_elems c \<and> kv_opts c' = kv_opts c \<and>
    current_end c' = st_current_end st \<and>
    (e = None \<and> layers c \<noteq> [] \<longrightarrow> length (st_layers st) = length (layers c') \<and>
      list_all2 (\<lambda>src lc. holds half src lc \<and> ls_valid_steps src = valid_steps c' \<and>
        length (ls_key src) = nat (valid_steps c' * step_elems c) \<and>
        length (ls_value src) = nat (valid_steps c' * step_elems c)) (st_layers st) (layers c'))"
proof -
  let ?steps = "case st_layers st of [] \<Rightarrow> 0 | l # _ \<Rightarrow> ls_valid_steps l"
  have c: "0 < step_elems c" "cache_steps c * step_elems c < 2 ^ 63"
    "\<forall>lc\<in>set (layers c). layer_ok (nat (cache_steps c * step_elems c)) (kv_opts c) lc" "0 \<le> cache_steps c"
    using assms(1) by (auto simp: kv_inv_def)
  have s0: "0 \<le> ?steps" using assms(2) by (auto simp: nonneg_steps_def split: list.splits)
  show ?thesis
  proof (cases "layers c = [] \<or> length (st_layers st) \<noteq> length (layers c) \<or> ?steps > cache_steps c")
    case True
    with assms(1,3) c(4) show ?thesis by (auto simp: import_state_def kv_inv_def Let_def split: if_splits)
  next
    case False
    obtain e1 ls where l: "import_each (import_layer half z c ?steps) (layers c) (st_layers st) = (e1, ls)" by fastforce
    have c': "c' = c\<lparr>current_end := st_current_end st, valid_steps := ?steps, layers := ls\<rparr>" "e = e1"
      using assms(3) False l by (auto simp: import_state_def Let_def)
    have le: "?steps \<le> cache_steps c" and len: "length (layers c) = length (st_layers st)" using False by auto
    let ?Q = "\<lambda>src lc. holds half src lc \<and> ls_valid_steps src = ?steps \<and>
      length (ls_key src) = nat (?steps * step_elems c) \<and> length (ls_value src) = nat (?steps * step_elems c)"
    from import_each_spec [where Q = ?Q and g = types_of, OF import_layer_spec [where half = half and z = z, OF _ c(1,2) s0 le] len c(3) l] c c' s0 False
    show ?thesis
      by (auto simp: kv_inv_def dest: list_all2_lengthD)
  qed
qed

lemma export_layer_holds:
  assumes "layer_ok n (kv_opts c) lc" "to_size_t (valid_steps c * step_elems c) = k" "length (ls_key src) = k" "length (ls_value src) = k"
    "holds half src lc"
  shows "export_layer c lc = Inr \<lparr>ls_valid_steps = valid_steps c, ls_key = map (stored half (fst (types_of lc))) (ls_key src),
    ls_value = map (stored half (snd (types_of lc))) (ls_value src)\<rparr>"
  using assms by (auto simp: export_layer_def read_cache_tensor_def layer_ok_def holds_def types_of_def Let_def)

lemma map_sum_list_all2: "list_all2 (\<lambda>x y. f x = Inr y) xs ys \<Longrightarrow> map_sum_list f xs = Inr ys"
  by (induction rule: list_all2_induct) auto

lemma map_sum_list_Inr: "map_sum_list f xs = Inr ys \<longleftrightarrow> list_all2 (\<lambda>x y. f x = Inr y) xs ys"
  by (induction xs arbitrary: ys) (auto simp: bind_sum_Inr list_all2_Cons1)

text \<open>The layer as it comes back: rounded to the storage types of its tensors.\<close>

definition rounded :: "(storage \<Rightarrow> 'f \<Rightarrow> 'f) \<Rightarrow> 'f layer_cache \<Rightarrow> 'f kv_layer_state \<Rightarrow> 'f kv_layer_state" where
  "rounded half lc src =
     src\<lparr>ls_key := map (stored half (fst (types_of lc))) (ls_key src), ls_value := map (stored half (snd (types_of lc))) (ls_value src)\<rparr>"

lemma rounded_types: "types_of lc = types_of lc' \<Longrightarrow> rounded half lc src = rounded half lc' src"
  by (simp add: rounded_def)

lemma map2_rounded_types:
  "map types_of lcs = map types_of lcs' \<Longrightarrow> map2 (rounded half) lcs srcs = map2 (rounded half) lcs' srcs"
proof (induction lcs arbitrary: lcs' srcs)
  case (Cons lc lcs)
  then obtain lc' ls where "lcs' = lc' # ls" "types_of lc = types_of lc'" "map types_of lcs = map types_of ls" by (cases lcs') auto
  with Cons.IH [of ls] rounded_types [of lc lc'] show ?case by (cases srcs) auto
qed simp

subsection \<open>Any sequence of operations\<close>

definition kv_init :: "'f \<Rightarrow> 'f kv_cache \<Rightarrow> bool" where
  "kv_init z c \<longleftrightarrow>
     (\<exists>steps elems keys vals opts. new_kv_cache z steps elems keys vals opts = Inr c \<and> max 0 steps * elems < 2 ^ 63 \<and>
       (\<forall>t\<in>set keys \<union> set vals. t_elements t = nat (max 0 steps * elems) \<and> length (t_data t) = nat (max 0 steps * elems)))"

text \<open>
  The callers: an import of a state whose step counts are not negative (a state comes from an
  export), an append of rows written on the device, a rollback to a prefix, or a device import,
  whether the call succeeds or throws; and the device overwriting tensor contents in place.
\<close>

definition same_shape :: "'f layer_cache \<Rightarrow> 'f layer_cache \<Rightarrow> bool" where
  "same_shape a b \<longleftrightarrow>
     (\<exists>k v. length k = length (t_data (key_tensor a)) \<and> length v = length (t_data (value_tensor a)) \<and>
        b = a\<lparr>key_tensor := (key_tensor a)\<lparr>t_data := k\<rparr>, value_tensor := (value_tensor a)\<lparr>t_data := v\<rparr>\<rparr>)"

inductive kv_step :: "(storage \<Rightarrow> 'f \<Rightarrow> 'f) \<Rightarrow> 'f \<Rightarrow> 'f kv_cache \<Rightarrow> 'f kv_cache \<Rightarrow> bool" for half z where
  kv_import: "nonneg_steps (st_layers st) \<Longrightarrow> import_state half z st c = (e, c') \<Longrightarrow> kv_step half z c c'"
| kv_append: "advance_after_direct_append n c = (e, c') \<Longrightarrow> kv_step half z c c'"
| kv_retain: "retain_prefix n c = (e, c') \<Longrightarrow> kv_step half z c c'"
| kv_device: "mark_device_import n c = (e, c') \<Longrightarrow> kv_step half z c c'"
| kv_compute: "list_all2 same_shape (layers c) ls \<Longrightarrow> kv_step half z c (c\<lparr>layers := ls\<rparr>)"

lemma make_layers_ok:
  "make_layers z n opts keys vals = Inr ls \<Longrightarrow> \<forall>t\<in>set keys \<union> set vals. t_elements t = n \<and> length (t_data t) = n \<Longrightarrow>
   \<forall>lc\<in>set ls. layer_ok n opts lc"
proof (induction z n opts keys vals arbitrary: ls rule: make_layers.induct)
  case (1 z n opts k ks v vs)
  then show ?case by (auto simp: bind_sum_Inr layer_ok_def split: option.splits)
qed auto

lemma kv_init_inv: "kv_init z c \<Longrightarrow> kv_inv c"
proof -
  assume "kv_init z c"
  then obtain steps elems keys vals opts where n: "new_kv_cache z steps elems keys vals opts = Inr c"
    and lt: "max 0 steps * elems < 2 ^ 63"
    and t: "\<forall>t\<in>set keys \<union> set vals. t_elements t = nat (max 0 steps * elems) \<and> length (t_data t) = nat (max 0 steps * elems)"
    unfolding kv_init_def by blast
  have e: "0 < elems" using n by (auto simp: new_kv_cache_def Let_def split: if_splits)
  then have me: "max 0 elems = elems" by simp
  have sz: "to_size_t (max 0 steps * elems) = nat (max 0 steps * elems)"
    using to_size_t_prod(1) [of "max 0 steps" "max 0 steps" elems] e lt by simp
  obtain ls where ls: "make_layers z (nat (max 0 steps * elems)) opts keys vals = Inr ls"
    and c: "c = \<lparr>cache_steps = max 0 steps, step_elems = elems, valid_steps = 0, current_end = 0, kv_opts = opts, layers = ls\<rparr>"
    using n e unfolding new_kv_cache_def Let_def me sz by (auto simp: bind_sum_Inr split: if_splits)
  have "\<forall>lc\<in>set ls. layer_ok (nat (max 0 steps * elems)) opts lc" by (rule make_layers_ok [OF ls t])
  with e lt show ?thesis unfolding kv_inv_def c by simp
qed

lemma same_shape_ok: "same_shape a b \<Longrightarrow> layer_ok n opts a \<Longrightarrow> layer_ok n opts b"
  by (auto simp: same_shape_def layer_ok_def)

lemma kv_step_inv: "kv_step half z c c' \<Longrightarrow> kv_inv c \<Longrightarrow> kv_inv c'"
proof (induction rule: kv_step.induct)
  case (kv_import st c e c')
  then show ?case using import_state_cases [OF kv_import(3,1,2)] by simp
next
  case (kv_append n c e c')
  then show ?case by (auto simp: advance_after_direct_append_def kv_inv_def split: if_splits)
next
  case (kv_retain n c e c')
  then show ?case by (auto simp: retain_prefix_def kv_inv_def split: if_splits)
next
  case (kv_device n c e c')
  then show ?case by (auto simp: mark_device_import_def kv_inv_def split: if_splits)
next
  case (kv_compute c ls)
  have "layer_ok (nat (cache_steps c * step_elems c)) (kv_opts c) lc" if "lc \<in> set ls" for lc
    using kv_compute that same_shape_ok by (fastforce simp: kv_inv_def list_all2_conv_all_nth in_set_conv_nth)
  with kv_compute show ?case by (simp add: kv_inv_def)
qed

interpretation kv: transition_invariant "kv_init z" "kv_step half z" kv_inv for half z
  by unfold_locales (auto intro: kv_init_inv kv_step_inv)

subsection \<open>Stride copies\<close>

lemma splice_at: "length p = d \<Longrightarrow> length seg \<le> length q \<Longrightarrow> splice d seg (p @ q) = p @ seg @ drop (length seg) q"
  by (simp add: splice_def)

lemma length_blocks: "\<forall>b<n. length (f b) = w \<Longrightarrow> length (concat (map f [0..<n])) = n * w"
  by (induction n) auto

lemma fold_splice:
  assumes "\<forall>b<n. length (seg b) = w" "w \<le> s"
  shows "k \<le> n \<Longrightarrow> fold (\<lambda>b. splice (b * s) (seg b)) [0..<k] (replicate (n * s) z) =
    concat (map (\<lambda>b. seg b @ replicate (s - w) z) [0..<k]) @ replicate ((n - k) * s) z"
proof (induction k)
  case (Suc k)
  let ?p = "concat (map (\<lambda>b. seg b @ replicate (s - w) z) [0..<k])"
  have lp: "length ?p = k * s"
    using assms Suc.prems by (intro length_blocks) auto
  have ls: "length (seg k) = w" using assms(1) Suc.prems by simp
  have nk: "(n - k) * s = s + (n - Suc k) * s" using Suc.prems by (metis Suc_diff_Suc Suc_le_lessD mult_Suc)
  have "fold (\<lambda>b. splice (b * s) (seg b)) [0..<Suc k] (replicate (n * s) z) =
      splice (k * s) (seg k) (?p @ replicate ((n - k) * s) z)"
    using Suc by simp
  also have "\<dots> = ?p @ seg k @ replicate ((n - k) * s - w) z"
    using splice_at [OF lp, of "seg k"] ls assms(2) nk by simp
  also have "(n - k) * s - w = (s - w) + (n - Suc k) * s" using nk assms(2) by simp
  finally show ?case by (simp add: replicate_add)
qed simp

lemma copy_batches_eq:
  assumes "\<forall>b<n. b * src_s + w \<le> length src" "w \<le> s"
  shows "copy_batches n w src_s s src (replicate (n * s) z) =
    concat (map (\<lambda>b. substr src (b * src_s) w @ replicate (s - w) z) [0..<n])"
proof -
  have "\<forall>b<n. length (substr src (b * src_s) w) = w" using assms(1) by (auto simp: substr_def)
  from fold_splice [OF this assms(2), of n] show ?thesis by (simp add: copy_batches_def)
qed

lemma block_nth:
  "\<forall>b<n. length (f b) = s \<Longrightarrow> b < n \<Longrightarrow> substr (concat (map f [0..<n])) (b * s) s = f b"
proof (induction n)
  case (Suc n)
  have len: "length (concat (map f [0..<n])) = n * s" by (rule length_blocks) (use Suc.prems in auto)
  show ?case
  proof (cases "b = n")
    case True
    with Suc.prems len show ?thesis by (simp add: substr_def)
  next
    case False
    then have b: "b < n" using Suc.prems(2) by simp
    then have "b * s + s \<le> n * s" by (metis Suc_leI mult_Suc mult_le_mono1 add.commute)
    then have "substr (concat (map f [0..<Suc n])) (b * s) s = substr (concat (map f [0..<n])) (b * s) s"
      using len by (simp add: substr_def)
    with Suc b show ?thesis by simp
  qed
qed simp

lemma blocks_join: "length xs = n * w \<Longrightarrow> concat (map (\<lambda>b. substr xs (b * w) w) [0..<n]) = xs"
proof (induction n arbitrary: xs)
  case (Suc n)
  have "concat (map (\<lambda>b. substr xs (b * w) w) [0..<n]) = concat (map (\<lambda>b. substr (take (n * w) xs) (b * w) w) [0..<n])"
  proof -
    have "substr xs (b * w) w = substr (take (n * w) xs) (b * w) w" if "b < n" for b
    proof -
      have "b * w + w \<le> n * w" using that by (metis Suc_leI mult_Suc mult_le_mono1 add.commute)
      then show ?thesis by (simp add: substr_def drop_take min_def)
    qed
    then show ?thesis by (intro arg_cong [of _ _ concat] map_cong) auto
  qed
  also have "\<dots> = take (n * w) xs" using Suc.prems by (intro Suc.IH) simp
  finally have "concat (map (\<lambda>b. substr xs (b * w) w) [0..<Suc n]) = take (n * w) xs @ take w (drop (n * w) xs)"
    by (simp add: substr_def)
  also have "\<dots> = xs" using Suc.prems by (metis add.commute append_take_drop_id length_drop diff_add_inverse2 mult_Suc take_all_iff order_refl)
  finally show ?case .
qed simp

text \<open>Scattering rows to the cache stride and gathering them again is the identity, through any rounding.\<close>

lemma scatter_gather:
  assumes "length src = n * w" "w \<le> s"
  shows "copy_batches n w s w (map f (copy_batches n w w s src (replicate (n * s) z))) (replicate (n * w) z') = map f src"
proof -
  have inb: "\<forall>b<n. b * w + w \<le> length src"
    using assms(1) by (metis Suc_leI mult_Suc mult_le_mono1 add.commute)
  let ?blk = "\<lambda>b. substr src (b * w) w @ replicate (s - w) z"
  have len: "\<forall>b<n. length (substr src (b * w) w) = w" using inb by (auto simp: substr_def)
  have bl: "\<forall>b<n. length (map f (?blk b)) = s" using len assms(2) by simp
  let ?m = "concat (map (\<lambda>b. map f (?blk b)) [0..<n])"
  have m: "map f (copy_batches n w w s src (replicate (n * s) z)) = ?m"
    using copy_batches_eq [OF inb assms(2), of z] by (simp add: map_concat comp_def)
  have lm: "length ?m = n * s" by (rule length_blocks [OF bl])
  have "b * s + w \<le> length ?m" if "b < n" for b
  proof -
    have "b * s + s \<le> n * s" using that by (metis Suc_leI mult_Suc mult_le_mono1 add.commute)
    with assms(2) lm show ?thesis by simp
  qed
  then have "copy_batches n w s w ?m (replicate (n * w) z') = concat (map (\<lambda>b. substr ?m (b * s) w) [0..<n])"
    using copy_batches_eq [of n s w ?m w z'] by simp
  also have "\<dots> = concat (map (\<lambda>b. map f (substr src (b * w) w)) [0..<n])"
  proof -
    have "substr ?m (b * s) w = map f (substr src (b * w) w)" if "b < n" for b
    proof -
      have "substr ?m (b * s) w = take w (substr ?m (b * s) s)" using assms(2) by (simp add: substr_def min_def)
      also have "\<dots> = take w (map f (?blk b))" using block_nth [OF bl that] by simp
      also have "\<dots> = map f (substr src (b * w) w)" using len that by simp
      finally show ?thesis .
    qed
    then show ?thesis by (intro arg_cong [of _ _ concat] map_cong) auto
  qed
  also have "\<dots> = map f src" using blocks_join [OF assms(1)] by (metis (no_types, lifting) map_concat map_map comp_def map_cong)
  finally show ?thesis by (simp only: m)
qed

subsection \<open>Batches\<close>

definition batched_inv :: "'f batched_cache \<Rightarrow> bool" where
  "batched_inv c \<longleftrightarrow>
     0 \<le> b_valid_steps c \<and> b_valid_steps c \<le> b_cache_steps c \<and> 0 < row_elems c \<and> 0 < b_batch_size c \<and>
     b_batch_size c < 2 ^ 63 \<and> b_cache_steps c * row_elems c < 2 ^ 63 \<and>
     (\<forall>lc\<in>set (b_layers c). layer_ok (nat (b_batch_size c) * nat (b_cache_steps c * row_elems c)) (b_opts c) lc)"

definition holds_rows :: "(storage \<Rightarrow> 'f \<Rightarrow> 'f) \<Rightarrow> 'f \<Rightarrow> nat \<Rightarrow> nat \<Rightarrow> nat \<Rightarrow> 'f kv_layer_state \<Rightarrow> 'f layer_cache \<Rightarrow> bool" where
  "holds_rows half z n w s src lc \<longleftrightarrow>
     length (ls_key src) = n * w \<and> length (ls_value src) = n * w \<and>
     t_data (key_tensor lc) = map (stored half (t_type (key_tensor lc))) (copy_batches n w w s (ls_key src) (replicate (n * s) z)) \<and>
     t_data (value_tensor lc) = map (stored half (t_type (value_tensor lc))) (copy_batches n w w s (ls_value src) (replicate (n * s) z))"

lemma copy_batches_length:
  "length src = n * w \<Longrightarrow> w \<le> s \<Longrightarrow> length (copy_batches n w w s src (replicate (n * s) z)) = n * s"
proof -
  assume l: "length src = n * w" and ws: "w \<le> s"
  have inb: "\<forall>b<n. b * w + w \<le> length src" using l by (metis Suc_leI mult_Suc mult_le_mono1 add.commute)
  then have "\<forall>b<n. length (substr src (b * w) w @ replicate (s - w) z) = s" using ws by (auto simp: substr_def)
  from length_blocks [OF this] copy_batches_eq [OF inb ws, of z] show ?thesis by simp
qed

lemma import_batched_layer_spec:
  assumes inv: "layer_ok (nat (b_batch_size c) * nat (b_cache_steps c * row_elems c)) (b_opts c) lc"
    and c: "0 < row_elems c" "b_cache_steps c * row_elems c < 2 ^ 63" "0 \<le> steps" "steps \<le> b_cache_steps c"
      "0 < b_batch_size c" "b_batch_size c < 2 ^ 63"
    and imp: "import_batched_layer half z c steps lc src = (e, lc')"
  shows "layer_ok (nat (b_batch_size c) * nat (b_cache_steps c * row_elems c)) (b_opts c) lc' \<and> types_of lc' = types_of lc \<and>
    (e = None \<longrightarrow> ls_valid_steps src = steps \<and>
      holds_rows half z (nat (b_batch_size c)) (nat (steps * row_elems c)) (nat (b_cache_steps c * row_elems c)) src lc')"
proof -
  let ?n = "nat (b_batch_size c)" and ?w = "nat (steps * row_elems c)" and ?s = "nat (b_cache_steps c * row_elems c)"
  have sz: "to_size_t (steps * row_elems c) = ?w" "to_size_t (b_cache_steps c * row_elems c) = ?s" "to_size_t (b_batch_size c) = ?n"
    and ws: "?w \<le> ?s"
    using to_size_t_prod [OF c(3,4,1,2)] to_size_t_prod(1) [of "b_cache_steps c" "b_cache_steps c" "row_elems c"] c by simp_all
  show ?thesis
  proof (cases "ls_valid_steps src = steps \<and> length (ls_key src) = length (ls_value src) \<and> length (ls_key src) = ?n * ?w")
    case False
    then have "e \<noteq> None \<and> lc' = lc"
      using imp unfolding import_batched_layer_def Let_def sz by (auto split: if_splits)
    with inv show ?thesis by auto
  next
    case True
    let ?ks = "copy_batches ?n ?w ?w ?s (ls_key src) (replicate (?n * ?s) z)"
      and ?vs = "copy_batches ?n ?w ?w ?s (ls_value src) (replicate (?n * ?s) z)"
    have len: "length ?ks = ?n * ?s" "length ?vs = ?n * ?s" using True ws by (simp_all add: copy_batches_length)
    have w: "write_layer half (b_opts c) ?ks ?vs lc = (e, lc')"
      using imp True inv unfolding import_batched_layer_def Let_def sz by (simp add: layer_ok_def)
    from write_layer_inv [OF inv len w] w [unfolded write_layer_ok [OF inv len]] True show ?thesis
      by (auto simp: holds_rows_def types_of_def)
  qed
qed

lemma import_batched_cases:
  assumes "batched_inv c" "nonneg_steps (bst_layers st)" "import_batched_state half z st c = (None, c')" "b_layers c \<noteq> []"
  shows "batched_inv c' \<and> map types_of (b_layers c') = map types_of (b_layers c) \<and> row_elems c' = row_elems c \<and>
    b_batch_size c' = bst_batch_size st \<and> b_cache_steps c' = b_cache_steps c \<and> b_opts c' = b_opts c \<and>
    b_current_end c' = bst_current_end st \<and> length (bst_layers st) = length (b_layers c') \<and>
    list_all2 (\<lambda>src lc. ls_valid_steps src = b_valid_steps c' \<and>
      holds_rows half z (nat (b_batch_size c)) (nat (b_valid_steps c' * row_elems c)) (nat (b_cache_steps c * row_elems c)) src lc)
      (bst_layers st) (b_layers c')"
proof -
  let ?steps = "case bst_layers st of [] \<Rightarrow> 0 | l # _ \<Rightarrow> ls_valid_steps l"
  have c: "0 < row_elems c" "b_cache_steps c * row_elems c < 2 ^ 63" "0 < b_batch_size c" "b_batch_size c < 2 ^ 63"
    "\<forall>lc\<in>set (b_layers c). layer_ok (nat (b_batch_size c) * nat (b_cache_steps c * row_elems c)) (b_opts c) lc"
    using assms(1) by (auto simp: batched_inv_def)
  have s0: "0 \<le> ?steps" using assms(2) by (auto simp: nonneg_steps_def split: list.splits)
  obtain e1 ls where l: "import_each (import_batched_layer half z c ?steps) (b_layers c) (bst_layers st) = (e1, ls)" by fastforce
  have le: "?steps \<le> b_cache_steps c" and len: "length (b_layers c) = length (bst_layers st)" and b: "bst_batch_size st = b_batch_size c"
    and c': "c' = c\<lparr>b_current_end := bst_current_end st, b_valid_steps := ?steps, b_layers := ls\<rparr>" "e1 = None"
    using assms(3,4) l by (auto simp: import_batched_state_def Let_def split: if_splits)
  let ?Q = "\<lambda>src lc. ls_valid_steps src = ?steps \<and>
    holds_rows half z (nat (b_batch_size c)) (nat (?steps * row_elems c)) (nat (b_cache_steps c * row_elems c)) src lc"
  from import_each_spec [where Q = ?Q and g = types_of, OF import_batched_layer_spec [where half = half and z = z, OF _ c(1,2) s0 le c(3,4)] len c(5) l] c c' s0 le b
  show ?thesis
    by (auto simp: batched_inv_def dest: list_all2_lengthD)
qed

lemma export_rows:
  assumes "layer_ok m (b_opts c) lc" "holds_rows half z n w s src lc" "w \<le> s"
    "to_size_t (b_valid_steps c * row_elems c) = w" "to_size_t (b_batch_size c) = n" "to_size_t (b_cache_steps c * row_elems c) = s"
    "ls_valid_steps src = b_valid_steps c"
  shows "export_batched_layer z c lc = Inr (rounded half lc src)"
proof (cases "w = 0")
  case True
  with assms show ?thesis by (simp add: export_batched_layer_def holds_rows_def rounded_def)
next
  case False
  with assms scatter_gather [of "ls_key src" n w s "stored half (t_type (key_tensor lc))" z z]
    scatter_gather [of "ls_value src" n w s "stored half (t_type (value_tensor lc))" z z]
  show ?thesis
    by (simp add: export_batched_layer_def Let_def read_cache_tensor_def layer_ok_def holds_rows_def rounded_def types_of_def)
qed

subsection \<open>Properties\<close>

text \<open>A concrete cache: two steps of one element, one f32 layer.\<close>

definition demo_tensor :: "int tensor" where
  "demo_tensor = \<lparr>t_type = S_F32, t_elements = 2, t_data = [0, 0]\<rparr>"

definition demo_cache :: "int kv_cache" where
  "demo_cache = \<lparr>cache_steps = 2, step_elems = 1, valid_steps = 0, current_end = 0,
     kv_opts = \<lparr>allow_f16_storage = False, allow_bf16_storage = False\<rparr>,
     layers = [\<lparr>key_tensor = demo_tensor, value_tensor = demo_tensor, import_key_scratch = [0, 0], import_value_scratch = [0, 0]\<rparr>]\<rparr>"

definition demo_state :: "int kv_state" where
  "demo_state = \<lparr>st_current_end = 9, st_layers = [\<lparr>ls_valid_steps = 1, ls_key = [5], ls_value = [7]\<rparr>]\<rparr>"

lemma demo_new:
  "new_kv_cache 0 2 1 [demo_tensor] [demo_tensor] \<lparr>allow_f16_storage = False, allow_bf16_storage = False\<rparr> = Inr demo_cache"
  by (simp add: new_kv_cache_def demo_cache_def demo_tensor_def validate_cache_tensor_def numeral_2_eq_2)

lemma demo_init: "kv_init 0 demo_cache"
  unfolding kv_init_def
  by (intro exI conjI, rule demo_new) (simp_all add: demo_tensor_def)

lemma demo_import: "\<exists>c. import_state (\<lambda>_ x. x) 0 demo_state demo_cache = (None, c)"
  by (simp add: import_state_def demo_state_def demo_cache_def demo_tensor_def import_layer_def write_layer_def
      write_cache_tensor_def validate_cache_tensor_def fill_scratch_def Let_def)

text \<open>
  C28. Import then export gives the state back: whatever the cache held before, after a successful
  import the export has the same position and, layer by layer, the same step count and the same
  keys and values, rounded to the storage type of the tensors (f32 tensors round nothing).
\<close>

theorem kv_import_export:
  assumes "kv_inv c" "layers c \<noteq> []" "nonneg_steps (st_layers st)" "import_state half z st c = (None, c')"
  shows "export_state c' = Inr (st\<lparr>st_layers := map2 (rounded half) (layers c) (st_layers st)\<rparr>)"
proof -
  let ?P = "\<lambda>src lc. holds half src lc \<and> ls_valid_steps src = valid_steps c' \<and>
    length (ls_key src) = nat (valid_steps c' * step_elems c) \<and> length (ls_value src) = nat (valid_steps c' * step_elems c)"
  from import_state_cases [OF assms(1,3,4)] assms(2) have inv: "kv_inv c'" and ty: "map types_of (layers c') = map types_of (layers c)"
    and el: "step_elems c' = step_elems c" and ce: "current_end c' = st_current_end st"
    and len: "length (st_layers st) = length (layers c')" and all: "list_all2 ?P (st_layers st) (layers c')" by simp_all
  have k: "to_size_t (valid_steps c' * step_elems c') = nat (valid_steps c' * step_elems c)"
    using inv el by (auto simp: kv_inv_def intro!: to_size_t_prod)
  have "export_layer c' lc = Inr (rounded half lc src)" if "?P src lc" "lc \<in> set (layers c')" for src lc
    using export_layer_holds [OF _ k, of "nat (cache_steps c' * step_elems c')" lc src half] that inv
    by (simp add: kv_inv_def rounded_def)
  then have "list_all2 (\<lambda>lc y. export_layer c' lc = Inr y) (layers c') (map2 (rounded half) (layers c') (st_layers st))"
    using all len by (auto simp: list_all2_conv_all_nth)
  from map_sum_list_all2 [OF this] show ?thesis
    using map2_rounded_types [OF ty, of half "st_layers st"] ce by (simp add: export_state_def)
qed

theorem kv_import_export_witness:
  "\<exists>c. import_state (\<lambda>_ x. x) 0 demo_state demo_cache = (None, c) \<and> export_state c = Inr demo_state"
proof -
  obtain c where c: "import_state (\<lambda>_ x. x) 0 demo_state demo_cache = (None, c)" using demo_import by blast
  have "layers demo_cache \<noteq> []" "nonneg_steps (st_layers demo_state)"
    by (simp_all add: demo_cache_def nonneg_steps_def demo_state_def)
  from kv_import_export [OF kv_init_inv [OF demo_init] this c] c show ?thesis
    by (simp add: demo_state_def demo_cache_def rounded_def types_of_def demo_tensor_def stored_def)
qed

lemma export_total:
  assumes "kv_inv c"
  shows "\<exists>st. export_state c = Inr st \<and> st_current_end st = current_end c \<and> length (st_layers st) = length (layers c) \<and>
    list_all (\<lambda>l. ls_valid_steps l = valid_steps c \<and> length (ls_key l) = nat (valid_steps c * step_elems c) \<and>
      length (ls_value l) = nat (valid_steps c * step_elems c)) (st_layers st)"
proof -
  have k: "to_size_t (valid_steps c * step_elems c) = nat (valid_steps c * step_elems c)"
    "nat (valid_steps c * step_elems c) \<le> nat (cache_steps c * step_elems c)"
    using assms by (auto simp: kv_inv_def intro!: to_size_t_prod)
  let ?out = "\<lambda>lc. \<lparr>ls_valid_steps = valid_steps c, ls_key = take (nat (valid_steps c * step_elems c)) (t_data (key_tensor lc)),
    ls_value = take (nat (valid_steps c * step_elems c)) (t_data (value_tensor lc))\<rparr>"
  have "export_layer c lc = Inr (?out lc)" if "lc \<in> set (layers c)" for lc
    using assms that k unfolding export_layer_def Let_def k(1)
    by (auto simp: read_cache_tensor_def kv_inv_def layer_ok_def)
  then have "list_all2 (\<lambda>lc y. export_layer c lc = Inr y) (layers c) (map ?out (layers c))"
    by (simp add: list_all2_conv_all_nth)
  from map_sum_list_all2 [OF this] show ?thesis
    using assms k(2) by (auto simp: export_state_def list_all_iff kv_inv_def layer_ok_def)
qed

text \<open>
  Through any sequence of imports, appends, rollbacks, device imports and computation on the
  tensors, successful or throwing, the number of valid steps stays between zero and the capacity,
  and the state can always be exported, with exactly that many steps in every layer.
\<close>

lemma kv_cache_bounds:
  assumes "kv_init z c0" "(kv_step half z)\<^sup>*\<^sup>* c0 c"
  shows "0 \<le> valid_steps c \<and> valid_steps c \<le> cache_steps c \<and>
    (\<exists>st. export_state c = Inr st \<and> length (st_layers st) = length (layers c) \<and>
      list_all (\<lambda>l. ls_valid_steps l = valid_steps c \<and> length (ls_key l) = nat (valid_steps c * step_elems c)) (st_layers st))"
proof -
  have inv: "kv_inv c" by (rule kv.reachable_inv [OF assms(2,1)])
  from export_total [OF inv] inv show ?thesis by (auto simp: kv_inv_def list_all_iff)
qed

text \<open>
  Rolling back to a prefix is exactly truncation: the export after the rollback is the export
  before it, cut to the kept steps in every layer.
\<close>

lemma retain_prefix_truncates:
  assumes "kv_inv c" "retain_prefix n c = (None, c')" "export_state c = Inr st"
  shows "export_state c' = Inr \<lparr>st_current_end = n,
    st_layers = map (\<lambda>l. \<lparr>ls_valid_steps = n, ls_key = take (nat (n * step_elems c)) (ls_key l),
      ls_value = take (nat (n * step_elems c)) (ls_value l)\<rparr>) (st_layers st)\<rparr>"
proof -
  have n: "0 \<le> n" "n \<le> valid_steps c" and c': "c' = c\<lparr>valid_steps := n, current_end := n\<rparr>"
    using assms(2) by (auto simp: retain_prefix_def split: if_splits)
  have c: "0 < step_elems c" "cache_steps c * step_elems c < 2 ^ 63" "0 \<le> valid_steps c" "valid_steps c \<le> cache_steps c"
    using assms(1) by (auto simp: kv_inv_def)
  have v: "to_size_t (valid_steps c * step_elems c) = nat (valid_steps c * step_elems c)"
    by (rule to_size_t_prod(1) [OF c(3,4,1,2)])
  have le: "nat (n * step_elems c) \<le> nat (valid_steps c * step_elems c)"
    using n(2) c(1) by (intro nat_mono mult_right_mono) auto
  have k: "to_size_t (n * step_elems c) = nat (n * step_elems c)"
    using to_size_t_prod(1) [OF n(1) _ c(1,2)] n(2) c(4) by simp
  have one: "export_layer c' lc = Inr \<lparr>ls_valid_steps = n, ls_key = take (nat (n * step_elems c)) (ls_key l),
      ls_value = take (nat (n * step_elems c)) (ls_value l)\<rparr>" if "export_layer c lc = Inr l" for lc l
    using that le unfolding export_layer_def Let_def c' by (auto simp: v k bind_sum_Inr min_def split: if_splits)
  obtain ls where ls: "map_sum_list (export_layer c) (layers c) = Inr ls" "st = \<lparr>st_current_end = current_end c, st_layers = ls\<rparr>"
    using assms(3) by (auto simp: export_state_def bind_sum_Inr)
  have "list_all2 (\<lambda>lc y. export_layer c' lc = Inr y) (layers c) (map (\<lambda>l. \<lparr>ls_valid_steps = n,
      ls_key = take (nat (n * step_elems c)) (ls_key l), ls_value = take (nat (n * step_elems c)) (ls_value l)\<rparr>) ls)"
    using ls(1) one by (auto simp: map_sum_list_Inr list_all2_conv_all_nth)
  from map_sum_list_all2 [OF this] show ?thesis using ls(2) c' by (simp add: export_state_def)
qed

text \<open>
  The batched cache round trip: rows scattered to the cache stride by the import are gathered
  by the export to the state that was imported, batch by batch and layer by layer, again up to
  rounding to the storage type.
\<close>

lemma batched_import_export:
  assumes "batched_inv c" "b_layers c \<noteq> []" "nonneg_steps (bst_layers st)" "import_batched_state half z st c = (None, c')"
  shows "export_batched_state z c' = Inr (st\<lparr>bst_layers := map2 (rounded half) (b_layers c) (bst_layers st)\<rparr>)"
proof -
  note spec = import_batched_cases [OF assms(1,3,4,2)]
  have b: "bst_batch_size st = b_batch_size c" using assms(4) by (auto simp: import_batched_state_def split: if_splits)
  have inv: "batched_inv c'" using spec by simp
  have sz: "to_size_t (b_valid_steps c' * row_elems c') = nat (b_valid_steps c' * row_elems c)"
    "to_size_t (b_cache_steps c' * row_elems c') = nat (b_cache_steps c * row_elems c)" "to_size_t (b_batch_size c') = nat (b_batch_size c)"
    "nat (b_valid_steps c' * row_elems c) \<le> nat (b_cache_steps c * row_elems c)"
    using inv spec b to_size_t_prod [of "b_valid_steps c'" "b_cache_steps c'" "row_elems c'"]
      to_size_t_prod(1) [of "b_cache_steps c'" "b_cache_steps c'" "row_elems c'"]
    by (auto simp: batched_inv_def)
  have "export_batched_layer z c' lc = Inr (rounded half lc src)"
    if "ls_valid_steps src = b_valid_steps c'" "lc \<in> set (b_layers c')"
      "holds_rows half z (nat (b_batch_size c)) (nat (b_valid_steps c' * row_elems c)) (nat (b_cache_steps c * row_elems c)) src lc" for lc src
    using inv that(2) by (intro export_rows [OF _ that(3) sz(4) sz(1) sz(3) sz(2) that(1)]) (auto simp: batched_inv_def)
  then have "list_all2 (\<lambda>lc y. export_batched_layer z c' lc = Inr y) (b_layers c') (map2 (rounded half) (b_layers c') (bst_layers st))"
    using spec by (auto simp: list_all2_conv_all_nth)
  from map_sum_list_all2 [OF this] show ?thesis
    using map2_rounded_types [of "b_layers c'" "b_layers c" half "bst_layers st"] spec by (simp add: export_batched_state_def)
qed

definition demo_batched :: "int batched_cache" where
  "demo_batched = \<lparr>b_cache_steps = 2, b_batch_size = 2, row_elems = 1, b_valid_steps = 0, b_current_end = 0,
     b_opts = \<lparr>allow_f16_storage = False, allow_bf16_storage = False\<rparr>,
     b_layers = [\<lparr>key_tensor = \<lparr>t_type = S_F32, t_elements = 4, t_data = [0, 0, 0, 0]\<rparr>,
       value_tensor = \<lparr>t_type = S_F32, t_elements = 4, t_data = [0, 0, 0, 0]\<rparr>,
       import_key_scratch = [0, 0, 0, 0], import_value_scratch = [0, 0, 0, 0]\<rparr>]\<rparr>"

definition demo_batched_state :: "int batched_state" where
  "demo_batched_state = \<lparr>bst_batch_size = 2, bst_current_end = 1,
     bst_layers = [\<lparr>ls_valid_steps = 1, ls_key = [5, 6], ls_value = [7, 8]\<rparr>]\<rparr>"

text \<open>
  An import that throws has already replaced the bookkeeping: here the tensors are untouched, yet
  the cache claims a valid step and a new position.
\<close>

lemma failed_import_changes_bookkeeping:
  "import_state (\<lambda>_ x. x) 0 (demo_state\<lparr>st_layers := [\<lparr>ls_valid_steps = 1, ls_key = [], ls_value = []\<rparr>]\<rparr>) demo_cache =
     (Some Source_Size, demo_cache\<lparr>valid_steps := 1, current_end := 9\<rparr>)"
  by (simp add: import_state_def demo_state_def demo_cache_def import_layer_def Let_def)

end
