(* ===== verification/Rounding.thy ===== *)
theory Rounding
  imports Complex_Main "HOL-Library.Signed_Division"
begin

text \<open>Rounding of second-valued times to samples and ticks, on reals instead of doubles.\<close>

text \<open>\<^verbatim>\<open>std::llround\<close>: to the nearest integer, halves away from zero.\<close>

definition llround :: "real \<Rightarrow> int" where
  "llround x = (if x \<ge> 0 then \<lfloor>x + 1 / 2\<rfloor> else - \<lfloor>- x + 1 / 2\<rfloor>)"

lemma llround_mono: "x \<le> y \<Longrightarrow> llround x \<le> llround y"
proof -
  assume xy: "x \<le> y"
  have up: "\<lfloor>x + 1 / 2\<rfloor> \<le> \<lfloor>y + 1 / 2\<rfloor>" "\<lfloor>- y + 1 / 2\<rfloor> \<le> \<lfloor>- x + 1 / 2\<rfloor>" using xy by (auto intro: floor_mono)
  show ?thesis
  proof (cases "0 \<le> x \<or> y < 0")
    case True
    with up xy show ?thesis by (auto simp: llround_def)
  next
    case False
    then have "0 \<le> \<lfloor>- x + 1 / 2\<rfloor>" "0 \<le> \<lfloor>y + 1 / 2\<rfloor>" by simp_all
    moreover have "llround x = - \<lfloor>- x + 1 / 2\<rfloor>" "llround y = \<lfloor>y + 1 / 2\<rfloor>" using False unfolding llround_def by simp_all
    ultimately show ?thesis by linarith
  qed
qed

text \<open>C++ division truncates; on non-negative numbers it is \<open>div\<close>.\<close>

lemma c_div_nonneg: "0 \<le> a \<Longrightarrow> 0 < b \<Longrightarrow> a sdiv b = a div (b :: int)" "0 \<le> a \<Longrightarrow> 0 < b \<Longrightarrow> a smod b = a mod (b :: int)"
proof -
  show d: "a sdiv b = a div b" if "0 \<le> a" "0 < b" using that by (cases "a = 0") (auto simp: signed_divide_int_def)
  show "a smod b = a mod b" if "0 \<le> a" "0 < b"
    using that by (cases "a = 0") (auto simp: signed_modulo_int_def)
qed

end
