(* ===== verification/Subtitle.thy ===== *)
theory Subtitle
  imports Prelude Rounding
begin

text \<open>
  Subtitles from word timestamps (\<^verbatim>\<open>src/framework/text/subtitle.cpp\<close>): validation, line
  wrapping, grouping of words into blocks by pause, duration and text size, and the SRT text.

  Times in samples are \<^typ>\<open>int\<close>, the second-valued options are reals and \<^verbatim>\<open>std::llround\<close>
  rounds half away from zero, C++ division truncates (\<open>sdiv\<close>, \<open>smod\<close>); the index loop over the
  words is kept.
\<close>

subsection \<open>The code\<close>

record subtitle_options =
  sample_rate :: int
  max_chars_per_line :: int
  max_lines :: int
  max_block_seconds :: real
  max_gap_seconds :: real

record word_timestamp =
  start_sample :: int
  end_sample :: int
  ts_word :: string

record subtitle_block =
  block_index :: nat
  block_start :: int
  block_end :: int
  block_lines :: "string list"

datatype subtitle_error =
  Bad_Sample_Rate | Bad_Chars | Bad_Lines | Bad_Block_Seconds | Bad_Gap_Seconds
| Empty_Word | Newline_In_Word | Negative_Timestamp | Invalid_Span | Unsorted_Words

definition validate_options :: "subtitle_options \<Rightarrow> subtitle_error option" where
  "validate_options opts =
     (if sample_rate opts \<le> 0 then Some Bad_Sample_Rate
      else if max_chars_per_line opts \<le> 0 then Some Bad_Chars
      else if max_lines opts \<le> 0 then Some Bad_Lines
      else if \<not> (max_block_seconds opts > 0) then Some Bad_Block_Seconds
      else if max_gap_seconds opts < 0 then Some Bad_Gap_Seconds
      else None)"

definition validate_word :: "word_timestamp \<Rightarrow> int \<Rightarrow> subtitle_error option" where
  "validate_word w previous_start =
     (if ts_word w = [] then Some Empty_Word
      else if find_idx (\<lambda>c. c = CHR 0x0A) (ts_word w) \<noteq> None \<or> find_idx (\<lambda>c. c = CHR 0x0D) (ts_word w) \<noteq> None
        then Some Newline_In_Word
      else if start_sample w < 0 \<or> end_sample w < 0 then Some Negative_Timestamp
      else if end_sample w < start_sample w then Some Invalid_Span
      else if start_sample w < previous_start then Some Unsorted_Words
      else None)"

definition seconds_to_samples :: "real \<Rightarrow> int \<Rightarrow> int" where
  "seconds_to_samples seconds rate = llround (seconds * real_of_int rate)"

fun wrap_loop :: "nat \<Rightarrow> string list \<Rightarrow> string \<Rightarrow> string list \<Rightarrow> string list" where
  "wrap_loop m [] line lines = (if line \<noteq> [] then lines @ [line] else lines)"
| "wrap_loop m (w # ws) line lines =
     (if line = [] then wrap_loop m ws w lines
      else if length line + 1 + length w \<le> m then wrap_loop m ws (line @ '' '' @ w) lines
      else wrap_loop m ws w (lines @ [line]))"

definition slice :: "'a list \<Rightarrow> nat \<Rightarrow> nat \<Rightarrow> 'a list" where
  "slice xs b e = take (e - b) (drop b xs)"

definition wrap_words :: "word_timestamp list \<Rightarrow> nat \<Rightarrow> nat \<Rightarrow> int \<Rightarrow> string list" where
  "wrap_words words b e max_chars = wrap_loop (to_size_t max_chars) (map ts_word (slice words b e)) [] []"

definition would_exceed_text_limit :: "word_timestamp list \<Rightarrow> nat \<Rightarrow> nat \<Rightarrow> subtitle_options \<Rightarrow> bool" where
  "would_exceed_text_limit words b e opts =
     (int (length (wrap_words words b e (max_chars_per_line opts))) > max_lines opts)"

definition make_block :: "word_timestamp list \<Rightarrow> subtitle_options \<Rightarrow> nat \<Rightarrow> nat \<Rightarrow> nat \<Rightarrow> subtitle_block" where
  "make_block words opts idx b e =
     \<lparr>block_index = idx, block_start = start_sample (words ! b), block_end = end_sample (words ! (e - 1)),
      block_lines = wrap_words words b e (max_chars_per_line opts)\<rparr>"

definition block_break :: "word_timestamp list \<Rightarrow> subtitle_options \<Rightarrow> int \<Rightarrow> int \<Rightarrow> nat \<Rightarrow> nat \<Rightarrow> bool" where
  "block_break words opts max_block max_gap b i =
     (start_sample (words ! i) - end_sample (words ! (i - 1)) > max_gap \<or>
      end_sample (words ! i) - start_sample (words ! b) > max_block \<or>
      would_exceed_text_limit words b (i + 1) opts)"

function block_loop :: "word_timestamp list \<Rightarrow> subtitle_options \<Rightarrow> int \<Rightarrow> int \<Rightarrow> nat \<Rightarrow> nat \<Rightarrow> int \<Rightarrow>
    subtitle_block list \<Rightarrow> subtitle_error + subtitle_block list" where
  "block_loop words opts max_block max_gap b i prev blocks =
     (if i < length words
      then
        (case validate_word (words ! i) prev of
           Some e \<Rightarrow> Inl e
         | None \<Rightarrow>
             if i = b \<or> \<not> block_break words opts max_block max_gap b i
             then block_loop words opts max_block max_gap b (i + 1) (start_sample (words ! i)) blocks
             else block_loop words opts max_block max_gap i (i + 1) (start_sample (words ! i))
                    (blocks @ [make_block words opts (length blocks + 1) b i]))
      else Inr (blocks @ [make_block words opts (length blocks + 1) b (length words)]))"
  by pat_completeness auto
termination
  by (relation "measure (\<lambda>(words, opts, mb, mg, b, i, prev, blocks). length words - i)") auto

declare block_loop.simps [simp del]

definition build_subtitle_blocks :: "word_timestamp list \<Rightarrow> subtitle_options \<Rightarrow> subtitle_error + subtitle_block list" where
  "build_subtitle_blocks words opts =
     (case validate_options opts of
        Some e \<Rightarrow> Inl e
      | None \<Rightarrow>
          if words = [] then Inr []
          else block_loop words opts (seconds_to_samples (max_block_seconds opts) (sample_rate opts))
                 (seconds_to_samples (max_gap_seconds opts) (sample_rate opts)) 0 0 0 [])"

text \<open>\<^verbatim>\<open>std::setfill('0') << std::setw(n)\<close>.\<close>

definition zero_pad :: "nat \<Rightarrow> string \<Rightarrow> string" where
  "zero_pad n s = replicate (n - length s) CHR ''0'' @ s"

definition format_time :: "int \<Rightarrow> int \<Rightarrow> string" where
  "format_time sample rate =
     (let ms = (sample * 1000 + rate sdiv 2) sdiv rate in
      zero_pad 2 (int_str (ms sdiv 3600000)) @ '':'' @ zero_pad 2 (int_str ((ms sdiv 60000) smod 60)) @ '':'' @
      zero_pad 2 (int_str ((ms sdiv 1000) smod 60)) @ '','' @ zero_pad 3 (int_str (ms smod 1000)))"

definition nl :: string where
  "nl = [CHR 0x0A]"

definition format_block :: "subtitle_options \<Rightarrow> subtitle_block \<Rightarrow> string" where
  "format_block opts b =
     nat_str (block_index b) @ nl @ format_time (block_start b) (sample_rate opts) @ '' --> '' @
     format_time (block_end b) (sample_rate opts) @ nl @ concat (map (\<lambda>l. l @ nl) (block_lines b)) @ nl"

definition format_srt :: "word_timestamp list \<Rightarrow> subtitle_options \<Rightarrow> subtitle_error + string" where
  "format_srt words opts =
     bind_sum (build_subtitle_blocks words opts) (\<lambda>blocks. Inr (concat (map (format_block opts) blocks)))"

subsection \<open>Wrapping\<close>

text \<open>A text as words joined by single blanks.\<close>

fun join_words :: "string list \<Rightarrow> string" where
  "join_words [] = []"
| "join_words [w] = w"
| "join_words (w # ws) = w @ '' '' @ join_words ws"

lemma join_words_snoc: "ws \<noteq> [] \<Longrightarrow> join_words (ws @ [w]) = join_words ws @ '' '' @ w"
  by (induction ws rule: join_words.induct) auto

text \<open>A wrapping of \<open>ws\<close>: the lines split the words in order, and each keeps the limit or is one word.\<close>

definition wraps :: "nat \<Rightarrow> string list \<Rightarrow> string list \<Rightarrow> bool" where
  "wraps m ws lines \<longleftrightarrow>
     (\<exists>gs. concat gs = ws \<and> map join_words gs = lines \<and>
       (\<forall>g\<in>set gs. g \<noteq> [] \<and> (length (join_words g) \<le> m \<or> length g = 1)))"

definition good_line :: "nat \<Rightarrow> string list \<Rightarrow> bool" where
  "good_line m g \<longleftrightarrow> g \<noteq> [] \<and> (length (join_words g) \<le> m \<or> length g = 1)"

lemma join_words_Nil: "[] \<notin> set g \<Longrightarrow> join_words g = [] \<longleftrightarrow> g = []"
  by (cases g rule: join_words.cases) auto

lemma wrap_loop_groups:
  "[] \<notin> set ws \<Longrightarrow> [] \<notin> set g \<Longrightarrow> line = join_words g \<Longrightarrow> g = [] \<or> good_line m g \<Longrightarrow>
   lines = map join_words gs \<Longrightarrow> list_all (good_line m) gs \<Longrightarrow>
   \<exists>gs'. concat gs' = concat gs @ g @ ws \<and> map join_words gs' = wrap_loop m ws line lines \<and> list_all (good_line m) gs'"
proof (induction m ws line lines arbitrary: g gs rule: wrap_loop.induct)
  case (1 m line lines)
  show ?case
  proof (cases "g = []")
    case True
    with 1 show ?thesis by (intro exI [of _ gs]) simp
  next
    case False
    with 1 join_words_Nil [of g] show ?thesis by (intro exI [of _ "gs @ [g]"]) simp
  qed
next
  case (2 m w ws line lines)
  have w: "w \<noteq> []" "[] \<notin> set ws" using "2.prems"(1) by auto
  show ?case
  proof (cases "g = []")
    case True
    have "\<exists>gs'. concat gs' = concat gs @ [w] @ ws \<and> map join_words gs' = wrap_loop m ws w lines \<and> list_all (good_line m) gs'"
      by (rule "2.IH"(1) [OF _ w(2)]) (use "2.prems" w True in \<open>simp_all add: good_line_def\<close>)
    with True "2.prems"(3) show ?thesis by simp
  next
    case False
    then have line: "line \<noteq> []" using "2.prems"(2,3) join_words_Nil [of g] by simp
    show ?thesis
    proof (cases "length line + 1 + length w \<le> m")
      case True
      have "\<exists>gs'. concat gs' = concat gs @ (g @ [w]) @ ws \<and>
          map join_words gs' = wrap_loop m ws (line @ '' '' @ w) lines \<and> list_all (good_line m) gs'"
        by (rule "2.IH"(2) [OF line True w(2)])
           (use "2.prems" w False True in \<open>simp_all add: good_line_def join_words_snoc\<close>)
      with True line show ?thesis by simp
    next
      case over: False
      have "\<exists>gs'. concat gs' = concat (gs @ [g]) @ [w] @ ws \<and>
          map join_words gs' = wrap_loop m ws w (lines @ [line]) \<and> list_all (good_line m) gs'"
        by (rule "2.IH"(3) [OF line over w(2)])
           (use "2.prems" w False in \<open>simp_all add: good_line_def\<close>)
      with over line show ?thesis by simp
    qed
  qed
qed

lemma wrap_words_wraps:
  assumes "\<forall>w\<in>set (slice words b e). ts_word w \<noteq> []"
  shows "wraps (to_size_t m) (map ts_word (slice words b e)) (wrap_words words b e m)"
proof -
  have "[] \<notin> set (map ts_word (slice words b e))" using assms by auto
  from wrap_loop_groups [OF this, of "[]" "[]" "to_size_t m" "[]" "[]"] show ?thesis
    by (auto simp: wraps_def wrap_words_def list_all_iff good_line_def)
qed

subsection \<open>Blocks\<close>

definition block_ok :: "word_timestamp list \<Rightarrow> subtitle_options \<Rightarrow> int \<Rightarrow> int \<Rightarrow> nat \<Rightarrow> nat \<Rightarrow> bool" where
  "block_ok words opts mb mg b e \<longleftrightarrow> (\<forall>i. b < i \<and> i < e \<longrightarrow> \<not> block_break words opts mb mg b i)"

fun numbered :: "word_timestamp list \<Rightarrow> subtitle_options \<Rightarrow> nat \<Rightarrow> (nat \<times> nat) list \<Rightarrow> subtitle_block list" where
  "numbered words opts k [] = []"
| "numbered words opts k ((b, e) # rs) = make_block words opts k b e # numbered words opts (k + 1) rs"

lemma block_loop_spec:
  "block_loop words opts mb mg b i prev blocks = Inr out \<Longrightarrow> b \<le> i \<Longrightarrow> b < length words \<Longrightarrow> i \<le> length words \<Longrightarrow>
   block_ok words opts mb mg b i \<Longrightarrow>
   \<exists>cuts. parts b cuts (length words) \<and> out = blocks @ numbered words opts (length blocks + 1) cuts \<and>
     (\<forall>(s, e)\<in>set cuts. block_ok words opts mb mg s e) \<and> (\<forall>j. i \<le> j \<and> j < length words \<longrightarrow> ts_word (words ! j) \<noteq> [])"
proof (induction words opts mb mg b i prev blocks rule: block_loop.induct)
  case (1 words opts mb mg b i prev blocks)
  note unf = block_loop.simps [of words opts mb mg b i prev blocks]
  show ?case
  proof (cases "i < length words")
    case False
    with "1.prems" show ?thesis
      by (intro exI [of _ "[(b, length words)]"]) (auto simp: unf)
  next
    case True
    have v: "validate_word (words ! i) prev = None" using "1.prems"(1) True by (auto simp: unf split: option.splits)
    then have w: "ts_word (words ! i) \<noteq> []" by (auto simp: validate_word_def split: if_splits)
    have all: "\<forall>j. i \<le> j \<and> j < length words \<longrightarrow> ts_word (words ! j) \<noteq> []"
      if "\<forall>j. i + 1 \<le> j \<and> j < length words \<longrightarrow> ts_word (words ! j) \<noteq> []"
      using that w by (metis Suc_eq_plus1 Suc_leI le_neq_implies_less)
    show ?thesis
    proof (cases "i = b \<or> \<not> block_break words opts mb mg b i")
      case keep: True
      have rec: "block_loop words opts mb mg b (i + 1) (start_sample (words ! i)) blocks = Inr out"
        using "1.prems"(1) True v keep by (simp add: unf)
      have "block_ok words opts mb mg b (i + 1)"
        using "1.prems"(5) keep by (auto simp: block_ok_def less_Suc_eq)
      from "1.IH"(1) [OF True v keep rec _ _ _ this] "1.prems" True all show ?thesis by auto
    next
      case brk: False
      have rec: "block_loop words opts mb mg i (i + 1) (start_sample (words ! i)) (blocks @ [make_block words opts (length blocks + 1) b i]) = Inr out"
        using "1.prems"(1) True v brk by (simp add: unf)
      have ok: "block_ok words opts mb mg i (i + 1)" by (auto simp: block_ok_def)
      from "1.IH"(2) [OF True v brk rec _ True _ ok] obtain cuts where c: "parts i cuts (length words)"
        "out = (blocks @ [make_block words opts (length blocks + 1) b i]) @
          numbered words opts (length (blocks @ [make_block words opts (length blocks + 1) b i]) + 1) cuts"
        "\<forall>(s, e)\<in>set cuts. block_ok words opts mb mg s e" "\<forall>j. i + 1 \<le> j \<and> j < length words \<longrightarrow> ts_word (words ! j) \<noteq> []"
        using True by auto
      with "1.prems" True brk all show ?thesis
        by (intro exI [of _ "(b, i) # cuts"]) auto
    qed
  qed
qed

lemma single_line: "ts_word (words ! b) \<noteq> [] \<Longrightarrow> b < length words \<Longrightarrow> wrap_words words b (b + 1) m = [ts_word (words ! b)]"
proof -
  assume w: "ts_word (words ! b) \<noteq> []" "b < length words"
  then have "slice words b (b + 1) = [words ! b]" by (simp add: slice_def take_Suc hd_drop_conv_nth)
  with w show ?thesis by (simp add: wrap_words_def)
qed

lemma block_lines_bound:
  assumes "block_ok words opts mb mg b e" "b < e" "e \<le> length words" "ts_word (words ! b) \<noteq> []" "0 < max_lines opts"
  shows "int (length (wrap_words words b e (max_chars_per_line opts))) \<le> max_lines opts"
proof (cases "e = b + 1")
  case True
  with single_line [of words b] assms show ?thesis by simp
next
  case False
  then have "b < e - 1" "e - 1 < e" "e - 1 + 1 = e" using assms(2) by auto
  with assms(1) have "\<not> would_exceed_text_limit words b e opts" unfolding block_ok_def block_break_def by metis
  then show ?thesis by (simp add: would_exceed_text_limit_def)
qed

lemma parts_range: "parts a rs n \<Longrightarrow> (b, e) \<in> set rs \<Longrightarrow> a \<le> b \<and> b < e \<and> e \<le> n"
  by (induction a rs n rule: parts.induct) fastforce+

subsection \<open>Properties\<close>

text \<open>
  C32. The blocks cut the words in order without gap or overlap and are numbered from 1; each
  block's lines are its words in order, wrapped so that a line keeps the character limit unless it
  is a single word; no block has more lines than allowed; and inside a block no pause exceeds the
  allowed gap and no word ends later than the allowed duration after the block's start.
\<close>

theorem subtitle_blocks_sound:
  assumes "build_subtitle_blocks words opts = Inr blocks" "words \<noteq> []"
  shows "\<exists>cuts. parts 0 cuts (length words) \<and> blocks = numbered words opts 1 cuts \<and>
    (\<forall>(b, e)\<in>set cuts.
      wraps (to_size_t (max_chars_per_line opts)) (map ts_word (slice words b e)) (wrap_words words b e (max_chars_per_line opts)) \<and>
      int (length (wrap_words words b e (max_chars_per_line opts))) \<le> max_lines opts \<and>
      (\<forall>i. b < i \<and> i < e \<longrightarrow>
        start_sample (words ! i) - end_sample (words ! (i - 1)) \<le> seconds_to_samples (max_gap_seconds opts) (sample_rate opts) \<and>
        end_sample (words ! i) - start_sample (words ! b) \<le> seconds_to_samples (max_block_seconds opts) (sample_rate opts)))"
proof -
  let ?mb = "seconds_to_samples (max_block_seconds opts) (sample_rate opts)"
    and ?mg = "seconds_to_samples (max_gap_seconds opts) (sample_rate opts)"
  have vo: "validate_options opts = None" and l: "block_loop words opts ?mb ?mg 0 0 0 [] = Inr blocks"
    using assms by (auto simp: build_subtitle_blocks_def split: option.splits)
  have ml: "0 < max_lines opts" using vo by (auto simp: validate_options_def split: if_splits)
  obtain cuts where c: "parts 0 cuts (length words)" "blocks = numbered words opts 1 cuts"
    "\<forall>(s, e)\<in>set cuts. block_ok words opts ?mb ?mg s e" "\<forall>j<length words. ts_word (words ! j) \<noteq> []"
    using block_loop_spec [OF l] assms(2) by (auto simp: block_ok_def)
  have ok: "wraps (to_size_t (max_chars_per_line opts)) (map ts_word (slice words b e)) (wrap_words words b e (max_chars_per_line opts)) \<and>
      int (length (wrap_words words b e (max_chars_per_line opts))) \<le> max_lines opts \<and>
      (\<forall>i. b < i \<and> i < e \<longrightarrow> start_sample (words ! i) - end_sample (words ! (i - 1)) \<le> ?mg \<and>
        end_sample (words ! i) - start_sample (words ! b) \<le> ?mb)" if "(b, e) \<in> set cuts" for b e
  proof (intro conjI)
    have r: "b < e" "e \<le> length words" using parts_range [OF c(1) that] by simp_all
    have bok: "block_ok words opts ?mb ?mg b e" using c(3) that by auto
    have "\<forall>w\<in>set (slice words b e). ts_word w \<noteq> []"
      using c(4) by (auto simp: slice_def in_set_conv_nth)
    then show "wraps (to_size_t (max_chars_per_line opts)) (map ts_word (slice words b e)) (wrap_words words b e (max_chars_per_line opts))"
      by (rule wrap_words_wraps)
    show "int (length (wrap_words words b e (max_chars_per_line opts))) \<le> max_lines opts"
      using block_lines_bound [OF bok r _ ml] c(4) r by simp
    show "\<forall>i. b < i \<and> i < e \<longrightarrow> start_sample (words ! i) - end_sample (words ! (i - 1)) \<le> ?mg \<and>
        end_sample (words ! i) - start_sample (words ! b) \<le> ?mb"
      using bok unfolding block_ok_def block_break_def by (meson not_less)
  qed
  then show ?thesis using c(1,2) by blast
qed

definition demo_words :: "word_timestamp list" where
  "demo_words = [\<lparr>start_sample = 0, end_sample = 5, ts_word = ''hello''\<rparr>, \<lparr>start_sample = 6, end_sample = 9, ts_word = ''you''\<rparr>,
     \<lparr>start_sample = 40, end_sample = 45, ts_word = ''there''\<rparr>]"

definition demo_options :: subtitle_options where
  "demo_options = \<lparr>sample_rate = 10, max_chars_per_line = 42, max_lines = 2, max_block_seconds = 6, max_gap_seconds = 1\<rparr>"

lemma demo_blocks:
  "build_subtitle_blocks demo_words demo_options =
     Inr [\<lparr>block_index = 1, block_start = 0, block_end = 9, block_lines = [''hello you'']\<rparr>,
          \<lparr>block_index = 2, block_start = 40, block_end = 45, block_lines = [''there'']\<rparr>]"
  by (simp add: build_subtitle_blocks_def validate_options_def demo_options_def demo_words_def block_loop.simps
      validate_word_def seconds_to_samples_def llround_def block_break_def would_exceed_text_limit_def wrap_words_def
      slice_def make_block_def numeral_2_eq_2)

theorem subtitle_blocks_sound_witness:
  "\<exists>blocks cuts. build_subtitle_blocks demo_words demo_options = Inr blocks \<and> length blocks = 2 \<and>
     parts 0 cuts 3 \<and> blocks = numbered demo_words demo_options 1 cuts"
proof -
  have "demo_words \<noteq> []" "length demo_words = 3" by (simp_all add: demo_words_def)
  then obtain cuts where "parts 0 cuts 3"
    "[\<lparr>block_index = 1, block_start = 0, block_end = 9, block_lines = [''hello you'']\<rparr>,
      \<lparr>block_index = 2, block_start = 40, block_end = 45, block_lines = [''there'']\<rparr>] = numbered demo_words demo_options 1 cuts"
    using subtitle_blocks_sound [OF demo_blocks] by metis
  moreover have "length [\<lparr>block_index = 1, block_start = 0, block_end = 9, block_lines = [''hello you'']\<rparr>,
      \<lparr>block_index = 2, block_start = 40, block_end = 45, block_lines = [''there'']\<rparr>] = 2" by simp
  ultimately show ?thesis using demo_blocks by blast
qed

lemma nat_str_one: "n < 10 \<Longrightarrow> length (nat_str n) = 1"
  by (simp add: nat_str.simps [of n])

lemma nat_str_Suc: "10 \<le> n \<Longrightarrow> length (nat_str n) = length (nat_str (n div 10)) + 1"
  by (simp add: nat_str.simps [of n])

lemma nat_str_short: "n < 10 \<Longrightarrow> length (nat_str n) = 1" "10 \<le> n \<Longrightarrow> n < 100 \<Longrightarrow> length (nat_str n) = 2"
  "100 \<le> n \<Longrightarrow> n < 1000 \<Longrightarrow> length (nat_str n) = 3"
proof -
  show "length (nat_str n) = 1" if "n < 10" using that by (rule nat_str_one)
  show "length (nat_str n) = 2" if "10 \<le> n" "n < 100"
    using nat_str_Suc [OF that(1)] nat_str_one [of "n div 10"] that(2) by linarith
  show "length (nat_str n) = 3" if "100 \<le> n" "n < 1000"
  proof -
    have "10 \<le> n" "10 \<le> n div 10" "n div 10 div 10 < 10" using that by linarith+
    then show ?thesis using nat_str_Suc [of n] nat_str_Suc [of "n div 10"] nat_str_one [of "n div 10 div 10"] by linarith
  qed
qed

lemma zero_pad_two: "n < 100 \<Longrightarrow> length (zero_pad 2 (nat_str n)) = 2"
  using nat_str_short(1,2) [of n] by (cases "n < 10") (auto simp: zero_pad_def)

lemma zero_pad_three: "n < 1000 \<Longrightarrow> length (zero_pad 3 (nat_str n)) = 3"
  using nat_str_short [of n] by (cases "n < 10"; cases "n < 100") (auto simp: zero_pad_def)

lemma half_distance: "0 \<le> d \<Longrightarrow> d < r \<Longrightarrow> 2 * q \<le> r \<Longrightarrow> r \<le> 2 * q + 1 \<Longrightarrow> 2 * \<bar>q - d\<bar> \<le> (r :: int)"
  by (cases "d \<le> q") simp_all

lemma round_div: "0 < r \<Longrightarrow> 2 * \<bar>(x + r div 2) div r * r - x\<bar> \<le> (r :: int)"
proof -
  assume r: "0 < r"
  let ?y = "x + r div 2"
  have y: "?y div r * r + ?y mod r = ?y" by simp
  have m: "0 \<le> ?y mod r" "?y mod r < r" using r by simp_all
  have h: "2 * (r div 2) \<le> r" "r \<le> 2 * (r div 2) + 1" by presburger+
  have e: "?y div r * r - x = r div 2 - ?y mod r" using y by linarith
  from half_distance [OF m h] have "2 * \<bar>r div 2 - ?y mod r\<bar> \<le> r" .
  then show ?thesis by (simp only: e)
qed

lemma clock_sum: "((t div 3600000 * 60 + t div 60000 mod 60) * 60 + t div 1000 mod 60) * 1000 + t mod 1000 = (t :: nat)"
proof -
  have s: "t div 60000 = t div 1000 div 60" "t div 3600000 = t div 1000 div 60 div 60" by (simp_all add: div_mult2_eq [symmetric])
  define u where "u = t div 1000"
  have "u div 60 div 60 * 60 + u div 60 mod 60 = u div 60" "u div 60 * 60 + u mod 60 = u" "u * 1000 + t mod 1000 = t"
    by (simp_all add: u_def)
  then show ?thesis by (simp only: s u_def [symmetric])
qed

text \<open>
  An SRT time stamp is a clock reading: minutes and seconds below 60, milliseconds below 1000,
  all of fixed width, and it is the sample position rounded to the nearest millisecond.
\<close>

lemma format_time_correct:
  assumes "0 \<le> sample" "0 < rate"
  shows "\<exists>h m s ms. format_time sample rate =
      zero_pad 2 (nat_str h) @ '':'' @ zero_pad 2 (nat_str m) @ '':'' @ zero_pad 2 (nat_str s) @ '','' @ zero_pad 3 (nat_str ms) \<and>
    m < 60 \<and> s < 60 \<and> ms < 1000 \<and> length (zero_pad 2 (nat_str m)) = 2 \<and> length (zero_pad 2 (nat_str s)) = 2 \<and>
    length (zero_pad 3 (nat_str ms)) = 3 \<and>
    2 * \<bar>int (((h * 60 + m) * 60 + s) * 1000 + ms) * rate - sample * 1000\<bar> \<le> rate"
proof -
  define t where "t = nat ((sample * 1000 + rate div 2) div rate)"
  have "0 \<le> (sample * 1000 + rate div 2) div rate" using assms by (simp add: pos_imp_zdiv_nonneg_iff)
  then have t: "(sample * 1000 + rate div 2) div rate = int t" by (simp add: t_def)
  let ?h = "t div 3600000" and ?m = "t div 60000 mod 60" and ?s = "t div 1000 mod 60" and ?ms = "t mod 1000"
  have f: "format_time sample rate = zero_pad 2 (nat_str ?h) @ '':'' @ zero_pad 2 (nat_str ?m) @
      '':'' @ zero_pad 2 (nat_str ?s) @ '','' @ zero_pad 3 (nat_str ?ms)"
  proof -
    have n: "int_str (int k) = nat_str k" for k by (simp add: int_str_def)
    have z: "int t sdiv 3600000 = int ?h" "(int t sdiv 60000) smod 60 = int ?m"
      "(int t sdiv 1000) smod 60 = int ?s" "int t smod 1000 = int ?ms"
      by (simp_all add: c_div_nonneg zdiv_int zmod_int)
    have "(sample * 1000 + rate sdiv 2) sdiv rate = int t"
      using assms t by (simp add: c_div_nonneg)
    then show ?thesis by (simp only: format_time_def Let_def z n)
  qed
  have sum: "((?h * 60 + ?m) * 60 + ?s) * 1000 + ?ms = t" by (rule clock_sum)
  have "2 * \<bar>int t * rate - sample * 1000\<bar> \<le> rate"
    using round_div [OF assms(2), of "sample * 1000"] t by simp
  then have near: "2 * \<bar>int (((?h * 60 + ?m) * 60 + ?s) * 1000 + ?ms) * rate - sample * 1000\<bar> \<le> rate"
    by (simp only: sum)
  have lim: "?m < 60" "?s < 60" "?ms < 1000" by simp_all
  have len: "length (zero_pad 2 (nat_str ?m)) = 2" "length (zero_pad 2 (nat_str ?s)) = 2" "length (zero_pad 3 (nat_str ?ms)) = 3"
    by (rule zero_pad_two zero_pad_three, use lim in linarith)+
  show ?thesis using f near lim len by blast
qed

lemma replicate_numeral: "replicate (numeral k) x = x # replicate (pred_numeral k) x"
  by (simp add: numeral_eq_Suc)

lemma nat_str_numerals: "nat_str 0 = ''0''" "nat_str 3 = ''3''" "nat_str 600 = ''600''"
  by (simp_all add: nat_str.simps [of 0] nat_str.simps [of 3] nat_str.simps [of 600] nat_str.simps [of 60] nat_str.simps [of 6]
      char_of_def bit_Suc_0_iff)

end
