(* ===== verification/Std_Sort.thy ===== *)
theory Std_Sort
  imports Prelude "HOL-Library.Multiset"
begin

text \<open>
  The contract of \<^verbatim>\<open>std::sort\<close>. The order it leaves equivalent elements in is not specified,
  so the models that sort take the sorting function as an argument and their lemmas are proved for
  every function with this contract; insertion sort is one.
\<close>

subsection \<open>The contract\<close>

definition strict_weak :: "('a \<Rightarrow> 'a \<Rightarrow> bool) \<Rightarrow> bool" where
  "strict_weak lt \<longleftrightarrow> (\<forall>x y. lt x y \<longrightarrow> \<not> lt y x) \<and> (\<forall>x y z. lt x z \<longrightarrow> lt x y \<or> lt y z)"

lemma strict_weak_key: "strict_weak (\<lambda>x y. (f x :: 'b :: linorder) < f y)"
  by (auto simp: strict_weak_def)

locale std_sort =
  fixes srt :: "('a \<Rightarrow> 'a \<Rightarrow> bool) \<Rightarrow> 'a list \<Rightarrow> 'a list"
  assumes srt_perm: "strict_weak lt \<Longrightarrow> mset (srt lt xs) = mset xs"
    and srt_ordered: "strict_weak lt \<Longrightarrow> sorted_wrt (\<lambda>x y. \<not> lt y x) (srt lt xs)"
begin

lemma srt_set: "strict_weak lt \<Longrightarrow> set (srt lt xs) = set xs"
  by (metis srt_perm mset_eq_setD)

lemma srt_length: "strict_weak lt \<Longrightarrow> length (srt lt xs) = length xs"
  by (metis srt_perm mset_eq_length)

text \<open>Sorting by a key.\<close>

lemma srt_by_key: "sorted (map f (srt (\<lambda>x y. (f x :: 'b :: linorder) < f y) xs))"
  using srt_ordered [OF strict_weak_key, of f xs] by (simp add: sorted_map not_less)

end

text \<open>A symmetric relation between all pairs of a list does not depend on their order.\<close>

lemma pairwise_perm:
  assumes "mset ys = mset xs" "sorted_wrt R xs" and sym: "\<And>x y. R x y \<Longrightarrow> R y x"
  shows "sorted_wrt R ys"
  using assms(1,2)
proof (induction xs arbitrary: ys)
  case (Cons x xs)
  then have "x \<in> set ys" by (metis list.set_intros(1) set_mset_mset)
  then obtain us vs where ys: "ys = us @ x # vs" by (meson split_list)
  with Cons.prems have m: "mset (us @ vs) = mset xs" by simp
  with Cons have "sorted_wrt R (us @ vs)" by simp
  moreover have "\<forall>y\<in>set us \<union> set vs. R x y"
    using Cons.prems(2) mset_eq_setD [OF m] by auto
  ultimately show ?case using sym by (auto simp: ys sorted_wrt_append)
qed simp

subsection \<open>Insertion sort\<close>

fun insert_by :: "('a \<Rightarrow> 'a \<Rightarrow> bool) \<Rightarrow> 'a \<Rightarrow> 'a list \<Rightarrow> 'a list" where
  "insert_by lt x [] = [x]"
| "insert_by lt x (y # ys) = (if lt y x then y # insert_by lt x ys else x # y # ys)"

definition insertion_sort :: "('a \<Rightarrow> 'a \<Rightarrow> bool) \<Rightarrow> 'a list \<Rightarrow> 'a list" where
  "insertion_sort lt xs = foldr (insert_by lt) xs []"

lemma mset_insert_by: "mset (insert_by lt x ys) = add_mset x (mset ys)"
  by (induction ys) auto

lemma mset_insertion_sort: "mset (insertion_sort lt xs) = mset xs"
  by (induction xs) (auto simp: insertion_sort_def mset_insert_by)

lemma sorted_insert_by:
  assumes "strict_weak lt" "sorted_wrt (\<lambda>x y. \<not> lt y x) ys"
  shows "sorted_wrt (\<lambda>x y. \<not> lt y x) (insert_by lt x ys)"
  using assms(2)
proof (induction ys)
  case (Cons y ys)
  have s: "set (insert_by lt x ys) = insert x (set ys)" by (metis mset_insert_by set_mset_add_mset_insert set_mset_mset)
  show ?case
  proof (cases "lt y x")
    case True
    with Cons s assms(1) show ?thesis by (auto simp: strict_weak_def)
  next
    case False
    with Cons.prems assms(1) show ?thesis by (simp add: strict_weak_def) blast
  qed
qed simp

interpretation insertion: std_sort insertion_sort
proof
  fix lt :: "'a \<Rightarrow> 'a \<Rightarrow> bool" and xs
  assume lt: "strict_weak lt"
  show "mset (insertion_sort lt xs) = mset xs" by (rule mset_insertion_sort)
  show "sorted_wrt (\<lambda>x y. \<not> lt y x) (insertion_sort lt xs)"
    by (induction xs) (auto simp: insertion_sort_def sorted_insert_by [OF lt])
qed

end
