(* ===== verification/Midi.thy ===== *)
theory Midi
  imports Prelude Rounding Std_Sort "HOL-Library.Word" "HOL-Library.Product_Lexorder"
begin

unbundle bit_operations_syntax

text \<open>
  The MIDI file writer (\<^verbatim>\<open>src/framework/midi/midi_file.cpp\<close>): cleaning of the transcribed notes,
  the note-on and note-off events, and the bytes of a type 1 standard MIDI file with one track per
  program.

  Times are reals. \<^verbatim>\<open>std::sort\<close> is an argument of the functions that sort (\<open>nsrt\<close> for notes,
  \<open>esrt\<close> for events) with the contract of \<open>std_sort\<close>. A \<^verbatim>\<open>std::map\<close> that is iterated is the sorted
  list of its keys with the values as a function of the key, one that is only looked up is a map.
  \<^verbatim>\<open>append_x(out, v)\<close> becomes a function that returns the extended byte list.
\<close>

subsection \<open>Notes\<close>










subsection \<open>Cleaning\<close>










subsection \<open>Events\<close>







subsection \<open>Bytes\<close>

type_synonym octets = "8 word list"








lemma unat_drop_7: "unat (drop_bit 7 (v :: 32 word)) = unat v div 128"
  using unat_drop_bit_eq [of 7 v] by (simp only: drop_bit_eq_div) simp

text \<open>
  The loop of \<^verbatim>\<open>append_varlen\<close>: \<open>buf\<close> is the filled part \<^verbatim>\<open>buffer[index..4]\<close>, so the index stays in
  the array exactly as long as \<open>buf\<close> has at most five elements.
\<close>

function varlen_loop :: "32 word \<Rightarrow> octets \<Rightarrow> octets" where
  "varlen_loop value buf =
     (if drop_bit 7 value \<noteq> 0
      then varlen_loop (drop_bit 7 value) (ucast ((drop_bit 7 value AND 0x7f) OR 0x80) # buf)
      else buf)"
  by pat_completeness auto
termination
proof (relation "measure (\<lambda>(v, buf). unat v)")
  fix v :: "32 word" and buf :: octets
  assume "drop_bit 7 v \<noteq> 0"
  then have "unat v div 128 \<noteq> 0" by (metis unat_drop_7 unat_eq_zero)
  then have "unat v div 128 < unat v" by simp
  then show "((drop_bit 7 v, ucast ((drop_bit 7 v AND 0x7f) OR 0x80) # buf), v, buf) \<in> measure (\<lambda>(v, buf). unat v)"
    by (simp add: unat_drop_7)
qed simp

declare varlen_loop.simps [simp del]

definition append_varlen :: "octets \<Rightarrow> 32 word \<Rightarrow> octets" where
  "append_varlen out value = out @ varlen_loop value [ucast (value AND 0x7f)]"

subsection \<open>The file\<close>















subsection \<open>A reader\<close>

text \<open>
  The format as a reader sees it, after the one of \<^verbatim>\<open>tests/unittests/test_midi_file.cpp\<close>: a variable-length number has at
  most four bytes (\<open>k\<close> counts those that are left), and a track is a list of meta events, program changes (status and
  program) and notes (tick, status byte and the two data bytes) up to the end-of-track mark.
\<close>

fun read_varlen :: "nat \<Rightarrow> nat \<Rightarrow> octets \<Rightarrow> (nat \<times> octets) option" where
  "read_varlen 0 acc bs = None"
| "read_varlen (Suc k) acc [] = None"
| "read_varlen (Suc k) acc (b # bs) =
     (if unat b < 128 then Some (acc * 128 + unat b, bs) else read_varlen k (acc * 128 + (unat b - 128)) bs)"






subsection \<open>Variable-length numbers\<close>

lemma septet_mask: "unat (v AND 0x7f) = unat (v :: 32 word) mod 128"
proof -
  have "v AND 0x7f = take_bit 7 v" by (simp add: take_bit_eq_mask mask_eq_exp_minus_1)
  then show ?thesis by (simp add: take_bit_eq_mod unat_mod)
qed

lemma low_septet: "unat (ucast (v AND 0x7f) :: 8 word) = unat (v :: 32 word) mod 128"
proof -
  have "unat v mod 128 < 256" by (rule less_trans [OF mod_less_divisor]) simp_all
  then show ?thesis by (simp add: unsigned_ucast_eq take_bit_eq_mod septet_mask)
qed

lemma high_septet: "unat (ucast ((v AND 0x7f) OR 0x80) :: 8 word) = unat (v :: 32 word) mod 128 + 128"
proof -
  have "(v AND 0x7f) AND 0x80 = 0" by (simp add: and.assoc)
  then have e: "(v AND 0x7f) OR 0x80 = (v AND 0x7f) + 0x80" by (simp add: disjunctive_add_eq_or)
  have m: "unat v mod 128 < 128" by simp
  then have "unat ((v AND 0x7f) + 0x80) = unat v mod 128 + 128"
    by (subst unat_add_lem [THEN iffD1]) (simp_all add: septet_mask)
  then show ?thesis using m by (simp add: unsigned_ucast_eq take_bit_eq_mod e)
qed

lemma varlen_loop_more: "length buf \<le> length (varlen_loop v buf)"
proof (induction v buf rule: varlen_loop.induct)
  case (1 v buf)
  then show ?case by (cases "drop_bit 7 v = 0") (simp_all add: varlen_loop.simps [of v])
qed

text \<open>Behind the bytes that the loop has put in front of \<open>buf\<close> the reader holds what is left of the number.\<close>

lemma read_varlen_loop:
  "read_varlen (k + (length (varlen_loop v buf) - length buf)) 0 (varlen_loop v buf @ rest) = read_varlen k (unat v div 128) (buf @ rest)"
proof (induction v buf arbitrary: k rule: varlen_loop.induct)
  case (1 v buf)
  show ?case
  proof (cases "drop_bit 7 v = 0")
    case True
    then have "unat v div 128 = 0" by (metis unat_0 unat_drop_7)
    with True show ?thesis by (simp add: varlen_loop.simps [of v])
  next
    case False
    let ?h = "ucast ((drop_bit 7 v AND 0x7f) OR 0x80) :: 8 word"
    have l: "varlen_loop v buf = varlen_loop (drop_bit 7 v) (?h # buf)"
      using False by (subst varlen_loop.simps) (simp only: if_True simp_thms)
    have m: "k + (length (varlen_loop v buf) - length buf) = Suc k + (length (varlen_loop (drop_bit 7 v) (?h # buf)) - length (?h # buf))"
      using varlen_loop_more [of "?h # buf" "drop_bit 7 v"] unfolding l by simp
    have "unat v div 128 div 128 * 128 + unat v div 128 mod 128 = unat v div 128" by (rule div_mult_mod_eq)
    then show ?thesis
      unfolding m using "1.IH" [OF False, of "Suc k"] high_septet [of "drop_bit 7 v"] unat_drop_7 [of v] by (simp add: l)
  qed
qed

lemma read_varlen_enough:
  assumes "length (varlen_loop v [ucast (v AND 0x7f)]) \<le> k"
  shows "read_varlen k 0 (varlen_loop v [ucast (v AND 0x7f)] @ rest) = Some (unat v, rest)"
proof -
  let ?l = "length (varlen_loop v [ucast (v AND 0x7f)])"
  have "1 \<le> ?l" using varlen_loop_more [of "[ucast (v AND 0x7f)]" v] by simp
  with assms have "k = Suc (k - ?l) + (?l - length [ucast (v AND 0x7f) :: 8 word])" by simp
  then have "read_varlen k 0 (varlen_loop v [ucast (v AND 0x7f)] @ rest) = read_varlen (Suc (k - ?l)) (unat v div 128) ([ucast (v AND 0x7f)] @ rest)"
    using read_varlen_loop by metis
  then show ?thesis using low_septet [of v] by simp
qed

lemma varlen_loop_length: "unat v < 128 ^ Suc n \<Longrightarrow> length (varlen_loop v buf) \<le> length buf + n"
proof (induction n arbitrary: v buf)
  case 0
  then have "drop_bit 7 v = 0" using unat_drop_7 [of v] by (metis div_less power_one_right unat_eq_zero One_nat_def)
  then show ?case by (simp add: varlen_loop.simps [of v])
next
  case (Suc n)
  have "unat v div 128 < 128 ^ Suc n" using Suc.prems by (simp add: div_less_iff_less_mult mult.commute)
  from Suc.IH [of "drop_bit 7 v" "ucast ((drop_bit 7 v AND 0x7f) OR 0x80) # buf"] this show ?case
    by (simp add: varlen_loop.simps [of v] unat_drop_7)
qed

lemma varlen_loop_long: "128 ^ n \<le> unat v \<Longrightarrow> length buf + n \<le> length (varlen_loop v buf)"
proof (induction n arbitrary: v buf)
  case 0
  then show ?case by (simp add: varlen_loop_more)
next
  case (Suc n)
  have "128 ^ n \<le> unat (drop_bit 7 v)" using Suc.prems by (simp add: unat_drop_7 less_eq_div_iff_mult_less_eq mult.commute)
  moreover from this have "drop_bit 7 v \<noteq> 0" by (metis One_nat_def Suc_leI not_le unat_0 zero_less_numeral zero_less_power)
  ultimately show ?case using Suc.IH [of "drop_bit 7 v" "ucast ((drop_bit 7 v AND 0x7f) OR 0x80) # buf"]
    by (simp add: varlen_loop.simps [of v])
qed

lemma read_append_varlen:
  assumes "unat v < 2 ^ 28"
  shows "read_varlen 4 0 (varlen_loop v [ucast (v AND 0x7f)] @ rest) = Some (unat v, rest)"
proof -
  have "unat v < 128 ^ Suc 3" using assms by simp
  from varlen_loop_length [OF this, of "[ucast (v AND 0x7f)]"] show ?thesis by (intro read_varlen_enough) simp
qed

text \<open>
  A variable-length number below \<open>2 ^ 28\<close> reads back as the number written. The writer fills at most the five bytes of
  its buffer, for every 32-bit value; from \<open>2 ^ 28\<close> on it uses all five, and a reader that stops after four, as the
  format allows and as the repository's own one does, refuses the number.
\<close>

lemma varlen_roundtrip:
  "1 \<le> length (append_varlen [] v)" "length (append_varlen [] v) \<le> 5"
  "unat v < 2 ^ 28 \<Longrightarrow> read_varlen 4 0 (append_varlen [] v @ rest) = Some (unat v, rest)"
proof -
  have "unat v < 2 ^ 32" using unsigned_less [of v] by simp
  also have "(2 :: nat) ^ 32 < 128 ^ Suc 4" by simp
  finally show "length (append_varlen [] v) \<le> 5"
    using varlen_loop_length [of v 4 "[ucast (v AND 0x7f)]"] by (simp add: append_varlen_def)
  show "1 \<le> length (append_varlen [] v)" using varlen_loop_more [of "[ucast (v AND 0x7f)]" v] by (simp add: append_varlen_def)
qed (simp add: append_varlen_def read_append_varlen)

lemma varlen_too_long:
  assumes "2 ^ 28 \<le> unat v"
  shows "length (append_varlen [] v) = 5 \<and> read_varlen 4 0 (append_varlen [] v @ rest) = None"
proof -
  let ?l = "varlen_loop v [ucast (v AND 0x7f)]"
  have "(128 :: nat) ^ 4 \<le> unat v" using assms by simp
  from varlen_loop_long [OF this, of "[ucast (v AND 0x7f)]"] have "length ?l = 5"
    using varlen_roundtrip(2) [of v] by (simp add: append_varlen_def)
  then show ?thesis using read_varlen_loop [of 0 v "[ucast (v AND 0x7f)]" rest] by (simp add: append_varlen_def)
qed

subsection \<open>Cleaned notes\<close>






















subsection \<open>Reading a track back\<close>















subsection \<open>The writer\<close>
















subsection \<open>The file\<close>





















subsection \<open>From notes to the file\<close>













subsection \<open>What a track plays\<close>













subsection \<open>The file that is written\<close>









end
