(* ===== verification/Multipart.thy ===== *)
theory Multipart
  imports Prelude
begin

text \<open>
  The multipart/form-data parser of the upload endpoints (\<^verbatim>\<open>app/server/multipart.cpp\<close>): the
  boundary of a content type, the parts of a body and the parameters of their header.

  The part of a successful parse is the record of the source; a malformed body gives fewer parts,
  the code has no error result. The index loops keep their positions.
\<close>

subsection \<open>The code\<close>

record multipart_part =
  part_name :: string
  part_filename :: string
  part_data :: string

definition quote :: char where
  "quote = CHR 0x22"

definition trim :: "string \<Rightarrow> string" where
  "trim s = rev (dropWhile is_space_byte (rev (dropWhile is_space_byte s)))"

text \<open>The search for \<open>key=\<close> that stands at the start of a parameter.\<close>

function param_pos :: "string \<Rightarrow> string \<Rightarrow> string \<Rightarrow> nat \<Rightarrow> nat option" where
  "param_pos key lowered header pos =
     (case find_sub_from (key @ ''='') lowered pos of
        None \<Rightarrow> None
      | Some p \<Rightarrow>
          if p = 0 \<or> header ! (p - 1) = CHR '' '' \<or> header ! (p - 1) = CHR '';'' then Some p
          else param_pos key lowered header (p + length (key @ ''='')))"
  by pat_completeness auto
termination
proof (relation "measure (\<lambda>(key, lowered, header, pos). length lowered - pos)")
  fix key lowered header :: string and pos p :: nat
  assume "find_sub_from (key @ ''='') lowered pos = Some p"
  then obtain k where "find_sub (key @ ''='') (drop pos lowered) = Some k" "p = pos + k" by (auto simp: find_sub_from_def)
  then have "pos + k + length (key @ ''='') \<le> length lowered" using find_sub_Some by fastforce
  then show "((key, lowered, header, p + length (key @ ''='')), key, lowered, header, pos)
      \<in> measure (\<lambda>(key, lowered, header, pos). length lowered - pos)"
    using \<open>p = pos + k\<close> by simp
qed simp

declare param_pos.simps [simp del]

definition extract_header_param :: "string \<Rightarrow> string \<Rightarrow> string" where
  "extract_header_param header key =
     (case param_pos key (lower_ascii header) header 0 of
        None \<Rightarrow> []
      | Some p \<Rightarrow>
          (let start = p + length (key @ ''='') in
           if start < length header \<and> header ! start = quote then
             (case find_idx (\<lambda>c. c = quote) (drop (start + 1) header) of
                None \<Rightarrow> drop (start + 1) header
              | Some k \<Rightarrow> substr header (start + 1) k)
           else
             (case find_idx (\<lambda>c. c = CHR '';'') (drop start header) of
                None \<Rightarrow> trim (drop start header)
              | Some k \<Rightarrow> trim (substr header start k))))"

definition strip_trailing_newline :: "string \<Rightarrow> string" where
  "strip_trailing_newline s =
     (if length s \<ge> 2 \<and> drop (length s - 2) s = crlf then take (length s - 2) s
      else if s \<noteq> [] \<and> List.last s = CHR 0x0A then take (length s - 1) s
      else s)"

text \<open>\<^verbatim>\<open>std::getline\<close> over a whole stream.\<close>

function getlines :: "string \<Rightarrow> string list" where
  "getlines s =
     (if s = [] then []
      else case find_idx (\<lambda>c. c = CHR 0x0A) s of
        None \<Rightarrow> [s]
      | Some i \<Rightarrow> take i s # getlines (drop (i + 1) s))"
  by pat_completeness auto
termination
  by (relation "measure length") (auto dest!: find_idx_Some)

declare getlines.simps [simp del]

definition drop_cr :: "string \<Rightarrow> string" where
  "drop_cr line = (if line \<noteq> [] \<and> List.last line = CHR 0x0D then butlast line else line)"

definition parse_header_field :: "string \<Rightarrow> multipart_part \<Rightarrow> multipart_part" where
  "parse_header_field line part =
     (case find_idx (\<lambda>c. c = CHR '':'') line of
        None \<Rightarrow> part
      | Some colon \<Rightarrow>
          (let value = trim (drop (colon + 1) line) in
           if lower_ascii (trim (take colon line)) = ''content-disposition''
           then part\<lparr>part_name := extract_header_param value ''name'', part_filename := extract_header_param value ''filename''\<rparr>
           else part))"

definition parse_header_line :: "string \<Rightarrow> multipart_part \<Rightarrow> multipart_part" where
  "parse_header_line line part = parse_header_field (drop_cr line) part"

definition empty_part :: multipart_part where
  "empty_part = \<lparr>part_name = [], part_filename = [], part_data = []\<rparr>"

definition parse_part :: "string \<Rightarrow> multipart_part" where
  "parse_part segment =
     (case (case find_sub (crlf @ crlf) segment of
              Some i \<Rightarrow> Some (i, 4 :: nat)
            | None \<Rightarrow> map_option (\<lambda>i. (i, 2)) (find_sub [CHR 0x0A, CHR 0x0A] segment)) of
        None \<Rightarrow> empty_part
      | Some (header_end, separator_len) \<Rightarrow>
          fold parse_header_line (getlines (take header_end segment))
            (empty_part\<lparr>part_data := drop (header_end + separator_len) segment\<rparr>))"

definition extract_multipart_boundary :: "string \<Rightarrow> string option" where
  "extract_multipart_boundary content_type =
     (let lowered = lower_ascii content_type in
      if \<not> starts_with ''multipart/'' lowered then None
      else case find_sub ''boundary='' lowered of
        None \<Rightarrow> None
      | Some pos \<Rightarrow>
          (let v0 = drop (pos + length ''boundary='') content_type;
               v1 = trim (case find_idx (\<lambda>c. c = CHR '';'') v0 of None \<Rightarrow> v0 | Some k \<Rightarrow> take k v0);
               v2 = (if length v1 \<ge> 2 \<and> hd v1 = quote \<and> List.last v1 = quote then substr v1 1 (length v1 - 2) else v1)
           in if v2 = [] then None else Some v2))"

function body_loop :: "string \<Rightarrow> string \<Rightarrow> nat \<Rightarrow> multipart_part list \<Rightarrow> multipart_part list" where
  "body_loop body boundary pos found =
     (if substr body pos 2 = ''--'' then found
      else
        (let pos1 = (if substr body pos 2 = crlf then pos + 2
                     else if pos < length body \<and> body ! pos = CHR 0x0A then pos + 1
                     else pos)
         in case find_sub_from (''--'' @ boundary) body pos1 of
              None \<Rightarrow> found
            | Some next_delim \<Rightarrow>
                body_loop body boundary (next_delim + length (''--'' @ boundary))
                  (found @ [parse_part (strip_trailing_newline (substr body pos1 (next_delim - pos1)))])))"
  by pat_completeness auto
termination
proof (relation "measure (\<lambda>(body, boundary, pos, found). length body - pos)")
  fix body boundary :: string and pos pos1 next_delim :: nat and found
  assume p: "pos1 = (if substr body pos 2 = crlf then pos + 2 else if pos < length body \<and> body ! pos = CHR 0x0A then pos + 1 else pos)"
    "find_sub_from (''--'' @ boundary) body pos1 = Some next_delim"
  obtain k where k: "find_sub (''--'' @ boundary) (drop pos1 body) = Some k" "next_delim = pos1 + k"
    using p(2) by (auto simp: find_sub_from_def)
  from find_sub_Some [OF k(1)] have "k + length (''--'' @ boundary) \<le> length body - pos1" by simp
  then have "next_delim + length (''--'' @ boundary) \<le> length body" using k(2) by simp
  moreover have "pos \<le> next_delim" using p(1) k(2) by auto
  ultimately show "((body, boundary, next_delim + length (''--'' @ boundary),
      found @ [parse_part (strip_trailing_newline (substr body pos1 (next_delim - pos1)))]), body, boundary, pos, found)
    \<in> measure (\<lambda>(body, boundary, pos, found). length body - pos)" by simp
qed simp

declare body_loop.simps [simp del]

definition parse_multipart_body :: "string \<Rightarrow> string \<Rightarrow> multipart_part list" where
  "parse_multipart_body body boundary =
     (case find_sub (''--'' @ boundary) body of
        None \<Rightarrow> []
      | Some p \<Rightarrow> body_loop body boundary (p + length (''--'' @ boundary)) [])"

subsection \<open>Searching across pieces\<close>

lemma starts_with_straddle: "c \<notin> set p \<Longrightarrow> starts_with p (w @ c # v) \<Longrightarrow> starts_with p w"
proof (induction p arbitrary: w)
  case (Cons x p)
  then show ?case by (cases w) auto
qed simp

lemma find_sub_Cons_None: "find_sub p (x # xs) = None \<Longrightarrow> \<not> starts_with p (x # xs) \<and> find_sub p xs = None"
  by (auto split: if_splits)

lemma find_sub_past:
  "c \<notin> set p \<Longrightarrow> find_sub p u = None \<Longrightarrow> find_sub p (u @ c # v) = map_option (\<lambda>k. k + (length u + 1)) (find_sub p v)"
proof (induction u)
  case Nil
  then have "\<not> starts_with p (c # v)" by (cases p) auto
  then show ?case by simp
next
  case (Cons x u)
  have "\<not> starts_with p ((x # u) @ c # v)" using find_sub_Cons_None [OF Cons.prems(2)] starts_with_straddle [OF Cons.prems(1)] by blast
  with Cons find_sub_Cons_None [OF Cons.prems(2)] show ?case by (simp add: option.map_comp comp_def)
qed

lemma find_sub_skip: "c \<notin> set u \<Longrightarrow> find_sub (c # p) (u @ v) = map_option (\<lambda>k. k + length u) (find_sub (c # p) v)"
  by (induction u) (auto simp: option.map_comp comp_def option.map_ident)

lemma find_sub_here: "find_sub p (p @ v) = Some 0"
  by (metis find_sub.simps append_is_Nil_conv neq_Nil_conv starts_with_append)

lemma find_idx_skip: "\<forall>c\<in>set u. \<not> P c \<Longrightarrow> find_idx P (u @ v) = map_option (\<lambda>k. k + length u) (find_idx P v)"
  by (induction u) (auto simp: option.map_comp comp_def option.map_ident)

subsection \<open>A body as clients write it\<close>

record upload =
  up_name :: string
  up_filename :: "string option"
  up_headers :: "string list"
  up_data :: string

definition quoted :: "string \<Rightarrow> string" where
  "quoted s = [quote] @ s @ [quote]"

definition disposition_value :: "upload \<Rightarrow> string" where
  "disposition_value u = ''form-data; name='' @ quoted (up_name u) @
     (case up_filename u of None \<Rightarrow> [] | Some f \<Rightarrow> ''; filename='' @ quoted f)"

definition header_lines :: "upload \<Rightarrow> string list" where
  "header_lines u = (''Content-Disposition: '' @ disposition_value u) # up_headers u"

definition upload_segment :: "upload \<Rightarrow> string" where
  "upload_segment u = concat (map (\<lambda>l. l @ crlf) (header_lines u)) @ crlf @ up_data u"

definition upload_body :: "string \<Rightarrow> upload list \<Rightarrow> string" where
  "upload_body boundary us =
     concat (map (\<lambda>u. ''--'' @ boundary @ crlf @ upload_segment u @ crlf) us) @ ''--'' @ boundary @ ''--'' @ crlf"

definition uploaded :: "upload \<Rightarrow> multipart_part" where
  "uploaded u = \<lparr>part_name = up_name u, part_filename = (case up_filename u of None \<Rightarrow> [] | Some f \<Rightarrow> f), part_data = up_data u\<rparr>"

text \<open>A text that may stand in quotes or on a line.\<close>

definition token_text :: "string \<Rightarrow> bool" where
  "token_text s \<longleftrightarrow> quote \<notin> set s \<and> CHR 0x0D \<notin> set s \<and> CHR 0x0A \<notin> set s"

definition plain_line :: "string \<Rightarrow> bool" where
  "plain_line l \<longleftrightarrow> l \<noteq> [] \<and> CHR 0x0D \<notin> set l \<and> CHR 0x0A \<notin> set l"

text \<open>A header line that is not the disposition: what is in front of its first colon, if it has one, is another name.\<close>

definition other_header :: "string \<Rightarrow> bool" where
  "other_header l \<longleftrightarrow> plain_line l \<and>
     (\<forall>name v. l = name @ '':'' @ v \<and> CHR '':'' \<notin> set name \<longrightarrow> lower_ascii (trim name) \<noteq> ''content-disposition'')"

lemma other_header_ignored:
  assumes "other_header l"
  shows "parse_header_field l p = p"
proof (cases "find_idx (\<lambda>c. c = CHR '':'') l")
  case None
  then show ?thesis by (simp add: parse_header_field_def)
next
  case (Some k)
  then have "l = take k l @ '':'' @ drop (Suc k) l" using id_take_nth_drop [of k l] find_idx_Some [OF Some] by simp
  moreover have "CHR '':'' \<notin> set (take k l)" using find_idx_take [OF Some] by blast
  ultimately have "lower_ascii (trim (take k l)) \<noteq> ''content-disposition''" using assms by (auto simp: other_header_def)
  with Some show ?thesis by (simp add: parse_header_field_def)
qed

definition valid_upload :: "string \<Rightarrow> upload \<Rightarrow> bool" where
  "valid_upload boundary u \<longleftrightarrow>
     token_text (up_name u) \<and> find_sub ''filename='' (lower_ascii (up_name u)) = None \<and>
     (\<forall>f. up_filename u = Some f \<longrightarrow> token_text f) \<and> (\<forall>l\<in>set (up_headers u). other_header l) \<and>
     find_sub (''--'' @ boundary) (upload_segment u) = None"

subsection \<open>One part\<close>

fun joined :: "string list \<Rightarrow> string" where
  "joined [] = []"
| "joined [l] = l"
| "joined (l # ls) = l @ crlf @ joined ls"

lemma find_sub_line: "CHR 0x0D \<notin> set l \<Longrightarrow> c \<noteq> CHR 0x0D \<Longrightarrow>
  find_sub (crlf @ crlf) (l @ crlf @ c # xs) = map_option (\<lambda>k. k + (length l + 2)) (find_sub (crlf @ crlf) (c # xs))"
  by (simp add: crlf_def find_sub_skip option.map_comp comp_def)

lemma find_header_end:
  "ls \<noteq> [] \<Longrightarrow> \<forall>l\<in>set ls. plain_line l \<Longrightarrow>
   concat (map (\<lambda>l. l @ crlf) ls) @ crlf @ d = joined ls @ crlf @ crlf @ d \<and>
   find_sub (crlf @ crlf) (concat (map (\<lambda>l. l @ crlf) ls) @ crlf @ d) = Some (length (joined ls))"
proof (induction ls rule: joined.induct)
  case (2 l)
  then show ?case by (simp add: plain_line_def crlf_def find_sub_skip)
next
  case (3 l l' ls)
  let ?h = "\<lambda>ls. concat (map (\<lambda>l. l @ crlf) ls) @ crlf @ d"
  have IH: "?h (l' # ls) = joined (l' # ls) @ crlf @ crlf @ d" "find_sub (crlf @ crlf) (?h (l' # ls)) = Some (length (joined (l' # ls)))"
    using "3.IH" "3.prems" by (metis list.set_intros(2) list.distinct(1))+
  have "plain_line l'" "plain_line l" using 3 by simp_all
  then obtain c xs where c: "?h (l' # ls) = c # xs" "c \<noteq> CHR 0x0D" by (cases l') (auto simp: plain_line_def)
  have "find_sub (crlf @ crlf) (l @ crlf @ ?h (l' # ls)) = Some (length (joined (l' # ls)) + (length l + 2))"
    using find_sub_line [OF _ c(2)] \<open>plain_line l\<close> IH(2) unfolding c(1) by (simp add: plain_line_def)
  moreover have "?h (l # l' # ls) = l @ crlf @ ?h (l' # ls)" by simp
  moreover have "length (joined (l # l' # ls)) = length (joined (l' # ls)) + (length l + 2)" by (simp add: crlf_def)
  ultimately have "find_sub (crlf @ crlf) (?h (l # l' # ls)) = Some (length (joined (l # l' # ls)))" by (simp only:)
  moreover have "?h (l # l' # ls) = joined (l # l' # ls) @ crlf @ crlf @ d" using IH(1) by simp
  ultimately show ?case by blast
qed simp

lemma getlines_joined:
  "\<forall>l\<in>set ls. plain_line l \<Longrightarrow> map drop_cr (getlines (joined ls)) = ls"
proof (induction ls rule: joined.induct)
  case 1
  show ?case by (simp add: getlines.simps)
next
  case (2 l)
  then have "find_idx (\<lambda>c. c = CHR 0x0A) l = None" by (auto simp: plain_line_def find_idx_None)
  moreover have "List.last l \<noteq> CHR 0x0D" "l \<noteq> []" using 2 last_in_set [of l] by (metis list.set_intros(1) plain_line_def)+
  ultimately show ?case by (simp add: getlines.simps [of l] drop_cr_def)
next
  case (3 l l' ls)
  have l: "\<forall>c\<in>set (l @ [CHR 0x0D]). c \<noteq> CHR 0x0A" "l \<noteq> []" using "3.prems" by (auto simp: plain_line_def)
  have j: "joined (l # l' # ls) = (l @ [CHR 0x0D]) @ CHR 0x0A # joined (l' # ls)" by (simp add: crlf_def)
  have f: "find_idx (\<lambda>c. c = CHR 0x0A) (joined (l # l' # ls)) = Some (length l + 1)"
    using find_idx_append [of "l @ [CHR 0x0D]" "\<lambda>c. c = CHR 0x0A" "CHR 0x0A"] l(1) unfolding j by simp
  have "getlines (joined (l # l' # ls)) = (l @ [CHR 0x0D]) # getlines (joined (l' # ls))"
    by (subst getlines.simps, subst f) (simp add: j del: joined.simps)
  with 3 show ?case by (simp add: drop_cr_def)
qed

lemma trim_id: "s \<noteq> [] \<Longrightarrow> \<not> is_space_byte (hd s) \<Longrightarrow> \<not> is_space_byte (List.last s) \<Longrightarrow> trim s = s"
  by (simp add: trim_def dropWhile_eq_self_iff [THEN iffD2] hd_rev)

lemma trim_lead: "is_space_byte c \<Longrightarrow> trim (c # s) = trim s"
  by (simp add: trim_def)

lemma lower_literals:
  "lower_ascii ''form-data; name='' = ''form-data; name=''" "lower_ascii ''; filename='' = ''; filename=''"
  "lower_ascii ''Content-Disposition'' = ''content-disposition''" "lower_ascii [] = []"
  by (simp_all add: lower_ascii_def ctype_defs char_of_def bit_Suc_0_iff)

lemma lower_append: "lower_ascii (s @ t) = lower_ascii s @ lower_ascii t" "lower_ascii (quote # s) = quote # lower_ascii s"
  by (simp_all add: lower_ascii_def quote_def ctype_defs)

lemma length_lower [simp]: "length (lower_ascii s) = length s"
  by (simp add: lower_ascii_def)

lemma extract_quoted:
  assumes "find_sub (key @ ''='') (lower_ascii header) = Some p" "header = pre @ quote # v @ quote # post"
    "length pre = p + length (key @ ''='')" "quote \<notin> set v" "0 < p" "pre ! (p - 1) = CHR '' ''"
  shows "extract_header_param header key = v"
proof -
  have "p - 1 < length pre" using assms(3,5) by simp
  then have "header ! (p - 1) = CHR '' ''" using assms(2,6) by (simp add: nth_append)
  then have pos: "param_pos key (lower_ascii header) header 0 = Some p"
    using assms(1) by (subst param_pos.simps) (simp add: find_sub_from_def)
  have "header ! (p + length (key @ ''='')) = quote" "p + length (key @ ''='') < length header"
    using assms(2,3) by (simp_all only: assms(3) [symmetric] nth_append_length) simp
  moreover have "drop (p + length (key @ ''='') + 1) header = v @ quote # post" using assms(2,3) by simp
  moreover have "find_idx (\<lambda>c. c = quote) (v @ quote # post) = Some (length v)" using assms(4) by (auto intro: find_idx_append)
  ultimately show ?thesis by (simp add: extract_header_param_def pos substr_def)
qed

lemma extract_missing: "find_sub (key @ ''='') (lower_ascii header) = None \<Longrightarrow> extract_header_param header key = []"
  by (simp add: extract_header_param_def param_pos.simps find_sub_from_def)

lemma disposition_name:
  assumes "token_text (up_name u)"
  shows "extract_header_param (disposition_value u) ''name'' = up_name u"
proof (rule extract_quoted)
  let ?post = "case up_filename u of None \<Rightarrow> [] | Some f \<Rightarrow> ''; filename='' @ quoted f"
  show d: "disposition_value u = ''form-data; name='' @ quote # up_name u @ quote # ?post"
    by (simp add: disposition_value_def quoted_def)
  show "find_sub (''name'' @ ''='') (lower_ascii (disposition_value u)) = Some 11"
    by (simp only: d lower_append lower_literals) simp
qed (use assms in \<open>simp_all add: token_text_def\<close>)

lemma disposition_filename:
  assumes "valid_upload boundary u"
  shows "extract_header_param (disposition_value u) ''filename'' = (case up_filename u of None \<Rightarrow> [] | Some f \<Rightarrow> f)"
proof -
  have q: "quote \<notin> set ''filename=''" by (simp add: quote_def)
  have n: "find_sub ''filename='' ''form-data; name='' = None" by simp
  have m: "find_sub ''filename='' (lower_ascii (up_name u)) = None" using assms by (simp add: valid_upload_def)
  let ?post = "case up_filename u of None \<Rightarrow> [] | Some f \<Rightarrow> ''; filename='' @ quoted f"
  have d: "disposition_value u = ''form-data; name='' @ quote # up_name u @ quote # ?post"
    by (simp add: disposition_value_def quoted_def)
  have f: "find_sub ''filename='' (lower_ascii (disposition_value u)) =
      map_option (\<lambda>k. k + (length (up_name u) + 18)) (find_sub ''filename='' (lower_ascii ?post))"
    by (simp only: d lower_append lower_literals find_sub_past [OF q n] find_sub_past [OF q m])
       (simp add: option.map_comp comp_def eval_nat_numeral)
  show ?thesis
  proof (cases "up_filename u")
    case None
    then have "find_sub (''filename'' @ ''='') (lower_ascii (disposition_value u)) = None" using f by (simp add: lower_literals)
    then show ?thesis using None extract_missing by simp
  next
    case (Some fn)
    have t: "quote \<notin> set fn" using assms Some by (simp add: valid_upload_def token_text_def)
    have "find_sub ''filename='' (lower_ascii ?post) = Some 2"
      by (simp only: Some option.case quoted_def lower_append lower_literals) simp
    then have p: "find_sub (''filename'' @ ''='') (lower_ascii (disposition_value u)) = Some (length (up_name u) + 20)" using f by simp
    let ?pre = "(''form-data; name='' @ quote # up_name u @ [quote]) @ ''; filename=''"
    have "extract_header_param (disposition_value u) ''filename'' = fn"
    proof (rule extract_quoted [OF p _ _ t])
      show "disposition_value u = ?pre @ quote # fn @ quote # []" by (simp add: d Some quoted_def)
      show "?pre ! (length (up_name u) + 20 - 1) = CHR '' ''" by (simp add: nth_append)
    qed simp_all
    then show ?thesis using Some by simp
  qed
qed

lemma disposition_field:
  assumes "valid_upload boundary u"
  shows "parse_header_field (''Content-Disposition: '' @ disposition_value u) part =
    part\<lparr>part_name := up_name u, part_filename := (case up_filename u of None \<Rightarrow> [] | Some f \<Rightarrow> f)\<rparr>"
proof -
  let ?line = "''Content-Disposition: '' @ disposition_value u"
  have l: "?line = ''Content-Disposition'' @ CHR '':'' # CHR '' '' # disposition_value u" by simp
  have "find_idx (\<lambda>c. c = CHR '':'') ?line = Some (length ''Content-Disposition'')"
    unfolding l by (rule find_idx_append) simp_all
  moreover have "take (length ''Content-Disposition'') ?line = ''Content-Disposition''"
    "drop (length ''Content-Disposition'' + 1) ?line = CHR '' '' # disposition_value u" by simp_all
  moreover have "trim ''Content-Disposition'' = ''Content-Disposition''" by (rule trim_id) (simp_all add: ctype_defs)
  moreover have "trim (CHR '' '' # disposition_value u) = disposition_value u"
  proof -
    have "List.last (disposition_value u) = quote" by (cases "up_filename u") (simp_all add: disposition_value_def quoted_def)
    moreover have "hd (disposition_value u) = CHR ''f''" "disposition_value u \<noteq> []" by (simp_all add: disposition_value_def)
    ultimately have "trim (disposition_value u) = disposition_value u"
      by (intro trim_id) (simp_all add: quote_def ctype_defs)
    moreover have "is_space_byte (CHR '' '')" by (simp add: ctype_defs)
    ultimately show ?thesis by (simp add: trim_lead)
  qed
  ultimately show ?thesis
    using disposition_name [of u] disposition_filename [OF assms] assms lower_literals(3)
    by (simp only: parse_header_field_def option.case Let_def valid_upload_def if_True simp_thms)
qed

lemma header_lines_plain:
  assumes "valid_upload boundary u"
  shows "\<forall>l\<in>set (header_lines u). plain_line l"
proof -
  have "CHR 0x0D \<notin> set (disposition_value u) \<and> CHR 0x0A \<notin> set (disposition_value u)"
    using assms by (auto simp: valid_upload_def disposition_value_def quoted_def token_text_def quote_def split: option.splits)
  then show ?thesis using assms by (auto simp: header_lines_def plain_line_def valid_upload_def other_header_def)
qed

lemma fold_other: "\<forall>l\<in>set ls. \<forall>p. f l p = p \<Longrightarrow> fold f ls p = p"
  by (induction ls arbitrary: p) auto

lemma parse_upload_segment:
  assumes "valid_upload boundary u"
  shows "parse_part (upload_segment u) = uploaded u"
proof -
  have ne: "header_lines u \<noteq> []" by (simp add: header_lines_def)
  note h = find_header_end [OF ne header_lines_plain [OF assms], of "up_data u"]
  have seg: "upload_segment u = joined (header_lines u) @ crlf @ crlf @ up_data u"
    "find_sub (crlf @ crlf) (upload_segment u) = Some (length (joined (header_lines u)))"
    using h unfolding upload_segment_def by blast+
  have tk: "take (length (joined (header_lines u))) (upload_segment u) = joined (header_lines u)"
    "drop (length (joined (header_lines u)) + 4) (upload_segment u) = up_data u" by (simp_all add: seg(1) crlf_def)
  let ?p = "empty_part\<lparr>part_data := up_data u\<rparr>"
  have "fold parse_header_line (getlines (joined (header_lines u))) ?p = fold parse_header_field (map drop_cr (getlines (joined (header_lines u)))) ?p"
    by (simp add: fold_map parse_header_line_def [abs_def] comp_def)
  also have "\<dots> = fold parse_header_field (header_lines u) ?p"
    by (simp only: getlines_joined [OF header_lines_plain [OF assms]])
  also have "\<dots> = uploaded u"
  proof -
    have "\<forall>l\<in>set (up_headers u). \<forall>p. parse_header_field l p = p" using assms by (simp add: valid_upload_def other_header_ignored)
    from fold_other [OF this] show ?thesis
      by (simp only: header_lines_def fold_simps disposition_field [OF assms]) (simp add: uploaded_def empty_part_def)
  qed
  finally show ?thesis by (simp add: parse_part_def seg(2) tk)
qed

subsection \<open>The body\<close>

lemma strip_crlf: "strip_trailing_newline (s @ crlf) = s"
  by (simp add: strip_trailing_newline_def crlf_def)

lemma body_step:
  assumes "drop pos body = crlf @ upload_segment u @ crlf @ (''--'' @ boundary) @ rest" "valid_upload boundary u" "CHR 0x0D \<notin> set boundary"
  shows "\<exists>pos'. drop pos' body = rest \<and> body_loop body boundary pos found = body_loop body boundary pos' (found @ [uploaded u])"
proof -
  let ?d = "''--'' @ boundary" and ?seg = "upload_segment u"
  have pos: "pos \<le> length body" using assms(1) by (cases "pos \<le> length body") (auto simp: crlf_def)
  have two: "substr body pos 2 = crlf" using assms(1) by (simp add: substr_def crlf_def)
  have d2: "drop (pos + 2) body = ?seg @ crlf @ ?d @ rest"
    using assms(1) by (metis add.commute append_eq_conv_conj drop_drop crlf_def length_Cons list.size(3) One_nat_def numeral_2_eq_2 plus_1_eq_Suc)
  have "find_sub ?d (?seg @ CHR 0x0D # CHR 0x0A # ?d @ rest) = map_option (\<lambda>k. k + (length ?seg + 1)) (find_sub ?d (CHR 0x0A # ?d @ rest))"
    using assms(2,3) by (intro find_sub_past) (auto simp: valid_upload_def)
  moreover have "find_sub ?d (CHR 0x0A # ?d @ rest) = Some 1"
    using find_sub_here [of ?d rest] by simp
  ultimately have f: "find_sub_from ?d body (pos + 2) = Some (pos + 2 + (length ?seg + 2))"
    unfolding find_sub_from_def d2 crlf_def by simp
  have s: "substr body (pos + 2) (length ?seg + 2) = ?seg @ crlf" unfolding substr_def d2 by (simp add: crlf_def)
  let ?pos' = "pos + 2 + (length ?seg + 2) + length ?d"
  have "body_loop body boundary pos found = body_loop body boundary ?pos' (found @ [uploaded u])"
    using f s two parse_upload_segment [OF assms(2)] strip_crlf
    by (subst body_loop.simps) (simp add: crlf_def del: append.simps)
  moreover have "drop ?pos' body = rest"
  proof -
    have "drop ?pos' body = drop (length ?seg + 2 + length ?d) (drop (pos + 2) body)" by (simp add: add.commute add.left_commute)
    also have "\<dots> = rest" unfolding d2 by (simp add: crlf_def drop_Cons')
    finally show ?thesis .
  qed
  ultimately show ?thesis by blast
qed

fun body_tail :: "string \<Rightarrow> upload list \<Rightarrow> string" where
  "body_tail boundary [] = ''--'' @ crlf"
| "body_tail boundary (u # us) = crlf @ upload_segment u @ crlf @ (''--'' @ boundary) @ body_tail boundary us"

lemma upload_body_tail: "upload_body boundary us = (''--'' @ boundary) @ body_tail boundary us"
  by (induction us) (simp_all add: upload_body_def)

lemma body_loop_uploads:
  "drop pos body = body_tail boundary us \<Longrightarrow> \<forall>u\<in>set us. valid_upload boundary u \<Longrightarrow> CHR 0x0D \<notin> set boundary \<Longrightarrow>
   body_loop body boundary pos found = found @ map uploaded us"
proof (induction us arbitrary: pos found)
  case Nil
  then have "substr body pos 2 = ''--''" by (simp add: substr_def)
  then show ?case by (simp add: body_loop.simps)
next
  case (Cons u us)
  from body_step [of pos body u boundary "body_tail boundary us" found] Cons.prems
  obtain pos' where p: "drop pos' body = body_tail boundary us"
    "body_loop body boundary pos found = body_loop body boundary pos' (found @ [uploaded u])" by auto
  with Cons.IH [OF p(1)] Cons.prems show ?case by simp
qed

subsection \<open>Property\<close>

text \<open>
  C36. A form body as clients send it parses to exactly its parts, in order: each with the name, the
  file name (empty for a plain field) and the payload byte for byte, line breaks at its end included,
  whatever other header lines a part has. The boundary may occur in no part.
\<close>

theorem multipart_roundtrip:
  assumes "\<forall>u\<in>set us. valid_upload boundary u" "CHR 0x0D \<notin> set boundary"
  shows "parse_multipart_body (upload_body boundary us) boundary = map uploaded us"
proof -
  have "find_sub (''--'' @ boundary) (upload_body boundary us) = Some 0"
    unfolding upload_body_tail by (rule find_sub_here)
  moreover have "drop (0 + length (''--'' @ boundary)) (upload_body boundary us) = body_tail boundary us"
    unfolding upload_body_tail by simp
  ultimately show ?thesis
    using body_loop_uploads [OF _ assms, of "0 + length (''--'' @ boundary)" "upload_body boundary us" "[]"]
    by (simp add: parse_multipart_body_def)
qed

definition demo_uploads :: "upload list" where
  "demo_uploads =
     [\<lparr>up_name = ''model'', up_filename = None, up_headers = [], up_data = ''x''\<rparr>,
      \<lparr>up_name = ''file'', up_filename = Some ''a.wav'', up_headers = [''Content-Type: audio/wav''], up_data = ''RIFF'' @ crlf\<rparr>]"

theorem multipart_roundtrip_witness:
  "parse_multipart_body (upload_body ''XyZ'' demo_uploads) ''XyZ'' =
     [\<lparr>part_name = ''model'', part_filename = [], part_data = ''x''\<rparr>,
      \<lparr>part_name = ''file'', part_filename = ''a.wav'', part_data = [CHR ''R'', CHR ''I'', CHR ''F'', CHR ''F'', CHR 0x0D, CHR 0x0A]\<rparr>]"
proof -
  have other: "other_header ''Content-Type: audio/wav''"
    unfolding other_header_def
  proof (intro conjI allI impI)
    show "plain_line ''Content-Type: audio/wav''" by (simp add: plain_line_def)
    fix name v assume l: "''Content-Type: audio/wav'' = name @ '':'' @ v \<and> CHR '':'' \<notin> set name"
    then have "find_idx (\<lambda>c. c = CHR '':'') ''Content-Type: audio/wav'' = Some (length name)"
      using find_idx_append [of name "\<lambda>c. c = CHR '':''" "CHR '':''" v] by auto
    then have n: "length name = 12" by simp
    have "name = take 12 (name @ '':'' @ v)" using n by simp
    also have "\<dots> = take 12 ''Content-Type: audio/wav''" using l by simp
    finally have "name = ''Content-Type''" by simp
    then show "lower_ascii (trim name) \<noteq> ''content-disposition''"
      by (simp add: trim_def lower_ascii_def ctype_defs char_of_def bit_Suc_0_iff)
  qed
  have "\<forall>u\<in>set demo_uploads. valid_upload ''XyZ'' u"
    by (simp add: demo_uploads_def valid_upload_def token_text_def quote_def lower_ascii_def ctype_defs upload_segment_def
        header_lines_def disposition_value_def quoted_def crlf_def other char_of_def bit_Suc_0_iff)
  from multipart_roundtrip [OF this] show ?thesis by (simp add: demo_uploads_def uploaded_def crlf_def)
qed

end
