(* ===== verification/Audio_Spans.thy ===== *)
theory Audio_Spans
  imports Prelude Rounding Std_Sort Options "HOL-Library.Product_Lexorder"
begin

text \<open>
  Cutting long audio into chunks and merging the results (\<^verbatim>\<open>src/framework/audio/chunking.cpp\<close>):
  the fixed, voice-activity and quiet-energy planners, slicing, and the mapping of time spans of a
  chunk's result back to the whole recording.

  Sample positions are \<^typ>\<open>int\<close> (they stay far below \<open>2 ^ 63\<close>), sample values are reals. The
  members of a speech segment, a speaker turn or a word other than its span are carried along
  unchanged, so these types are one record with a payload. \<^verbatim>\<open>std::sort\<close> is an argument with the
  contract of \<open>std_sort\<close>.
\<close>

subsection \<open>Spans\<close>

record time_span =
  span_start :: int
  span_end :: int

record 'p spanned =
  span_of :: time_span
  payload :: 'p

datatype audio_chunk_error =
  Not_Positive string | Hop_Exceeds_Chunk | Invalid_Chunk_Span | Bad_Chunk_Mode | Mode_Option option_error
| Negative_Merge_Gap | Negative_Padding | Outside_Audio string | Bad_Channel_Count | Bad_Sample_Count
| No_Sample_Rate | Empty_Audio | Bad_Source_Span string | Bad_Keep_Span string | Unordered string | Outside_Chunk string

definition require_positive :: "int \<Rightarrow> string \<Rightarrow> audio_chunk_error + 'a \<Rightarrow> audio_chunk_error + 'a" where
  "require_positive v name k = (if v \<le> 0 then Inl (Not_Positive name) else k)"

definition require_valid_time_span :: "time_span \<Rightarrow> int \<Rightarrow> string \<Rightarrow> audio_chunk_error option" where
  "require_valid_time_span s audio_samples label =
     (if span_start s < 0 \<or> span_end s \<le> span_start s \<or> span_end s > audio_samples then Some (Outside_Audio label) else None)"

definition padded_span :: "time_span \<Rightarrow> int \<Rightarrow> int \<Rightarrow> time_span" where
  "padded_span s audio_samples padding =
     \<lparr>span_start = max 0 (span_start s - padding), span_end = min audio_samples (span_end s + padding)\<rparr>"

subsection \<open>Chunks of a fixed size\<close>

datatype pad_mode = Pad_Zero | Pad_Reflect
datatype tail_alignment = Tail_Start | Tail_Center
datatype audio_chunk_mode = Mode_Auto | Mode_Fixed | Mode_QuietEnergy | Mode_Vad | Mode_None

record audio_chunk_spec =
  chunk_samples :: int
  hop_samples :: int
  pad_mode_of :: pad_mode
  tail_alignment_of :: tail_alignment
  reflect_min_valid_samples :: int

record audio_chunk_span =
  chunk_index :: int
  output_start_sample :: int
  valid_samples :: int
  copy_start_sample :: int
  valid_start_in_chunk :: int

definition plan_span :: "int \<Rightarrow> audio_chunk_spec \<Rightarrow> int \<Rightarrow> int \<Rightarrow> audio_chunk_span" where
  "plan_span input_samples spec start idx =
     (let valid = min (chunk_samples spec) (input_samples - start);
          copy_start = (if valid < chunk_samples spec \<and> tail_alignment_of spec = Tail_Center
                        then start - (chunk_samples spec - valid) div 2 else start)
      in \<lparr>chunk_index = idx, output_start_sample = start, valid_samples = valid, copy_start_sample = copy_start,
          valid_start_in_chunk = start - copy_start\<rparr>)"

text \<open>The loop is entered with a positive hop; the test for it only makes the recursion total.\<close>

function plan_loop :: "int \<Rightarrow> audio_chunk_spec \<Rightarrow> int \<Rightarrow> int \<Rightarrow> audio_chunk_span list \<Rightarrow> audio_chunk_error + audio_chunk_span list" where
  "plan_loop input_samples spec start idx spans =
     (if start < input_samples \<and> 0 < hop_samples spec
      then
        (let s = plan_span input_samples spec start idx in
         if valid_start_in_chunk s < 0 \<or> valid_start_in_chunk s + valid_samples s > chunk_samples spec
         then Inl Invalid_Chunk_Span
         else plan_loop input_samples spec (start + hop_samples spec) (idx + 1) (spans @ [s]))
      else Inr spans)"
  by pat_completeness auto
termination
  by (relation "measure (\<lambda>(n, spec, start, idx, spans). nat (n - start))") auto

declare plan_loop.simps [simp del]

definition plan_audio_chunks :: "int \<Rightarrow> audio_chunk_spec \<Rightarrow> audio_chunk_error + audio_chunk_span list" where
  "plan_audio_chunks input_samples spec =
     require_positive input_samples ''input samples''
     (require_positive (chunk_samples spec) ''chunk samples''
     (require_positive (hop_samples spec) ''hop samples''
     (if hop_samples spec > chunk_samples spec then Inl Hop_Exceeds_Chunk
      else plan_loop input_samples spec 0 0 [])))"

definition parse_audio_chunk_mode :: "options \<Rightarrow> audio_chunk_error + audio_chunk_mode" where
  "parse_audio_chunk_mode opts =
     (case find_option opts [''audio_chunk_mode''] of
        Inl e \<Rightarrow> Inl (Mode_Option e)
      | Inr mode \<Rightarrow>
          if mode = None \<or> mode = Some ''auto'' then Inr Mode_Auto
          else if mode = Some ''fixed'' then Inr Mode_Fixed
          else if mode = Some ''quiet_energy'' then Inr Mode_QuietEnergy
          else if mode = Some ''vad'' then Inr Mode_Vad
          else if mode = Some ''none'' then Inr Mode_None
          else Inl Bad_Chunk_Mode)"

definition parse_audio_chunk_seconds_override ::
  "(string \<Rightarrow> number_error + c_float \<times> nat) \<Rightarrow> options \<Rightarrow> option_error + c_float option" where
  "parse_audio_chunk_seconds_override stof opts =
     parse_float_option stof opts
       [''audio_chunk_duration_sec'', ''audio_chunk_seconds'', ''audio_chunk_duration_seconds'', ''audio_chunk_duration'']"

subsection \<open>Chunks from voice activity\<close>

record vad_chunk_options =
  max_chunk_samples :: int
  merge_gap_samples :: int
  padding_samples :: int

record work_span =
  padded :: time_span
  speech :: time_span

record chunk_state =
  cs_span :: time_span
  speech_end_sample :: int

definition work_less :: "work_span \<Rightarrow> work_span \<Rightarrow> bool" where
  "work_less a b =
     (if span_start (padded a) \<noteq> span_start (padded b) then span_start (padded a) < span_start (padded b)
      else span_end (padded a) < span_end (padded b))"

fun work_spans :: "'p spanned list \<Rightarrow> int \<Rightarrow> vad_chunk_options \<Rightarrow> work_span list \<Rightarrow> audio_chunk_error + work_span list" where
  "work_spans [] audio_samples opts spans = Inr spans"
| "work_spans (seg # segs) audio_samples opts spans =
     (case require_valid_time_span (span_of seg) audio_samples ''Audio VAD chunker speech segment'' of
        Some e \<Rightarrow> Inl e
      | None \<Rightarrow> work_spans segs audio_samples opts
                  (spans @ [\<lparr>padded = padded_span (span_of seg) audio_samples (padding_samples opts), speech = span_of seg\<rparr>]))"

text \<open>\<^verbatim>\<open>start_chunk()\<close> at position \<open>a\<close> for the rest of a span up to \<open>e\<close>.\<close>

definition start_chunk :: "int \<Rightarrow> time_span \<Rightarrow> int \<Rightarrow> int \<Rightarrow> chunk_state" where
  "start_chunk max_chunk sp a e =
     (let chunk_end = min e (a + max_chunk) in
      \<lparr>cs_span = \<lparr>span_start = a, span_end = chunk_end\<rparr>,
       speech_end_sample = (if chunk_end > span_start sp then min (span_end sp) chunk_end else a)\<rparr>)"

text \<open>
  One pass of the loop over a work span: \<open>prev\<close> are the earlier chunks, \<open>cur\<close> is the last one
  (\<^verbatim>\<open>states.back()\<close>), \<open>a\<close> and \<open>e\<close> are the bounds of what is left of the span. \<open>Inl\<close> leaves the
  loop (\<^verbatim>\<open>break\<close>), \<open>Inr\<close> goes on with a new start.
\<close>

definition fresh_chunk :: "vad_chunk_options \<Rightarrow> time_span \<Rightarrow> int \<Rightarrow> int \<Rightarrow> chunk_state list \<Rightarrow> 'r + int \<times> chunk_state list \<times> chunk_state" where
  "fresh_chunk opts sp b e prev =
     (let c = start_chunk (max_chunk_samples opts) sp b e in Inr (span_end (cs_span c), prev, c))"

definition cover_step :: "vad_chunk_options \<Rightarrow> time_span \<Rightarrow> int \<Rightarrow> int \<Rightarrow> chunk_state list \<Rightarrow> chunk_state \<Rightarrow>
    (chunk_state list \<times> chunk_state) + (int \<times> chunk_state list \<times> chunk_state)" where
  "cover_step opts sp a e prev cur =
     (let cs = span_start (cs_span cur);
          ce = span_end (cs_span cur);
          se = speech_end_sample cur;
          cap = cs + max_chunk_samples opts;
          boundary = min ce (span_start sp)
      in
      if e \<le> ce then Inl (prev, cur\<lparr>speech_end_sample := max se (span_end sp)\<rparr>)
      else if a \<le> ce then
        (if e \<le> cap then
           Inl (prev, cur\<lparr>cs_span := (cs_span cur)\<lparr>span_end := e\<rparr>, speech_end_sample := max se (span_end sp)\<rparr>)
         else if (span_start sp > se \<and> se > cs) \<and> (boundary \<ge> se \<and> boundary > cs) then
           fresh_chunk opts sp boundary e (prev @ [cur\<lparr>cs_span := (cs_span cur)\<lparr>span_end := boundary\<rparr>\<rparr>])
         else if ce < cap then
           (let ce' = min e cap;
                se' = (if ce' > span_start sp then max se (min (span_end sp) ce') else se)
            in Inr (ce', prev, cur\<lparr>cs_span := (cs_span cur)\<lparr>span_end := ce'\<rparr>, speech_end_sample := se'\<rparr>))
         else fresh_chunk opts sp a e (prev @ [cur]))
      else if a - ce \<le> merge_gap_samples opts \<and> e - cs \<le> max_chunk_samples opts then
        Inl (prev, cur\<lparr>cs_span := (cs_span cur)\<lparr>span_end := e\<rparr>, speech_end_sample := max se (span_end sp)\<rparr>)
      else fresh_chunk opts sp a e (prev @ [cur]))"

partial_function (option) cover_loop ::
  "vad_chunk_options \<Rightarrow> time_span \<Rightarrow> int \<Rightarrow> int \<Rightarrow> chunk_state list \<Rightarrow> chunk_state \<Rightarrow> (chunk_state list \<times> chunk_state) option" where
  "cover_loop opts sp a e prev cur =
     (if a < e
      then (case cover_step opts sp a e prev cur of
              Inl r \<Rightarrow> Some r
            | Inr (a', prev', cur') \<Rightarrow> cover_loop opts sp a' e prev' cur')
      else Some (prev, cur))"

declare cover_loop.simps [code]

text \<open>One work span; the first chunk of all starts without a predecessor.\<close>

definition cover_item :: "vad_chunk_options \<Rightarrow> work_span \<Rightarrow> chunk_state list \<Rightarrow> chunk_state list option" where
  "cover_item opts w states =
     (let a = span_start (padded w); e = span_end (padded w) in
      if \<not> a < e then Some states
      else if states = [] then
        (let c = start_chunk (max_chunk_samples opts) (speech w) a e in
         map_option (\<lambda>(prev, cur). prev @ [cur]) (cover_loop opts (speech w) (span_end (cs_span c)) e [] c))
      else map_option (\<lambda>(prev, cur). prev @ [cur]) (cover_loop opts (speech w) a e (butlast states) (List.last states)))"

fun cover_items :: "vad_chunk_options \<Rightarrow> work_span list \<Rightarrow> chunk_state list \<Rightarrow> chunk_state list option" where
  "cover_items opts [] states = Some states"
| "cover_items opts (w # ws) states = Option.bind (cover_item opts w states) (cover_items opts ws)"

definition plan_vad_audio_chunks ::
  "((work_span \<Rightarrow> work_span \<Rightarrow> bool) \<Rightarrow> work_span list \<Rightarrow> work_span list) \<Rightarrow> 'p spanned list \<Rightarrow> int \<Rightarrow> vad_chunk_options \<Rightarrow>
   (audio_chunk_error + time_span list) option" where
  "plan_vad_audio_chunks srt segments audio_samples opts =
     (if audio_samples \<le> 0 then Some (Inl (Not_Positive ''audio samples''))
      else if max_chunk_samples opts \<le> 0 then Some (Inl (Not_Positive ''max VAD chunk samples''))
      else if merge_gap_samples opts < 0 then Some (Inl Negative_Merge_Gap)
      else if padding_samples opts < 0 then Some (Inl Negative_Padding)
      else if segments = [] then Some (Inr [])
      else case work_spans segments audio_samples opts [] of
        Inl e \<Rightarrow> Some (Inl e)
      | Inr spans \<Rightarrow> map_option (\<lambda>states. Inr (map cs_span states)) (cover_items opts (srt work_less spans) []))"

record audio_buffer =
  buf_sample_rate :: int
  buf_channels :: int
  buf_samples :: "real list"

text \<open>The overload that runs the voice activity model first; the session is the argument \<open>vad\<close>, its
  errors are the outer \<^const>\<open>Inl\<close>.\<close>

definition plan_vad_from_audio ::
  "((work_span \<Rightarrow> work_span \<Rightarrow> bool) \<Rightarrow> work_span list \<Rightarrow> work_span list) \<Rightarrow> (audio_buffer \<Rightarrow> 'e + 'p spanned list) \<Rightarrow>
   audio_buffer \<Rightarrow> vad_chunk_options \<Rightarrow> 'e + (audio_chunk_error + time_span list) option" where
  "plan_vad_from_audio srt vad audio opts =
     (if buf_channels audio \<le> 0 then Inr (Some (Inl Bad_Channel_Count))
      else if length (buf_samples audio) mod nat (buf_channels audio) \<noteq> 0 then Inr (Some (Inl Bad_Sample_Count))
      else bind_sum (vad audio) (\<lambda>segs.
        Inr (plan_vad_audio_chunks srt segs (int (length (buf_samples audio) div nat (buf_channels audio))) opts)))"

subsection \<open>Chunks that end where it is quiet\<close>

record quiet_options =
  q_chunk_samples :: int
  boundary_context_samples :: int
  min_energy_window_samples :: int

definition window_energy :: "real list \<Rightarrow> int \<Rightarrow> int \<Rightarrow> real" where
  "window_energy samples start win =
     sqrt (sum_list (map (\<lambda>j. (samples ! nat (start + j)) * (samples ! nat (start + j))) [0..win - 1]) / real_of_int win)"

text \<open>
  The scan for the quietest window (\<open>best = None\<close> is the initial infinity). The window is positive
  when the scan is called; the test for it only makes the recursion total.
\<close>

function quiet_scan :: "real list \<Rightarrow> int \<Rightarrow> int \<Rightarrow> int \<Rightarrow> int \<Rightarrow> real option \<Rightarrow> int \<Rightarrow> int" where
  "quiet_scan samples search_start upper win i best split =
     (if i < upper \<and> 0 < win
      then
        (let energy = window_energy samples (search_start + i) win in
         if (case best of None \<Rightarrow> True | Some m \<Rightarrow> energy < m)
         then quiet_scan samples search_start upper win (i + win) (Some energy) (search_start + i)
         else quiet_scan samples search_start upper win (i + win) best split)
      else split)"
  by pat_completeness auto
termination
  by (relation "measure (\<lambda>(samples, ss, upper, win, i, best, split). nat (upper - i))") auto

declare quiet_scan.simps [simp del]

definition quiet_split :: "real list \<Rightarrow> quiet_options \<Rightarrow> int \<Rightarrow> int \<Rightarrow> int" where
  "quiet_split samples opts total_samples index =
     (let search_start = max index (index + q_chunk_samples opts - boundary_context_samples opts);
          search_end = min (index + q_chunk_samples opts) total_samples;
          win = min_energy_window_samples opts;
          split0 = index + q_chunk_samples opts;
          split1 = (if search_end > search_start then
                      if search_end - search_start \<le> win then (search_start + search_end) div 2
                      else quiet_scan samples search_start (search_end - search_start - win) win 0 None split0
                    else split0)
      in max (index + 1) (min split1 total_samples))"

lemma quiet_split_gt: "index < quiet_split samples opts n index"
  unfolding quiet_split_def Let_def by (rule less_le_trans [OF _ max.cobounded1]) simp

function quiet_loop :: "real list \<Rightarrow> quiet_options \<Rightarrow> int \<Rightarrow> int \<Rightarrow> time_span list \<Rightarrow> time_span list" where
  "quiet_loop samples opts total_samples index chunks =
     (if index < total_samples
      then
        (if index + q_chunk_samples opts \<ge> total_samples then chunks @ [\<lparr>span_start = index, span_end = total_samples\<rparr>]
         else quiet_loop samples opts total_samples (quiet_split samples opts total_samples index)
                (chunks @ [\<lparr>span_start = index, span_end = quiet_split samples opts total_samples index\<rparr>]))
      else chunks)"
  by pat_completeness auto
termination
  by (relation "measure (\<lambda>(samples, opts, total_samples, index, chunks). nat (total_samples - index))")
     (simp_all add: quiet_split_gt)

declare quiet_loop.simps [simp del]

definition plan_quiet_energy_audio_chunks :: "real list \<Rightarrow> quiet_options \<Rightarrow> audio_chunk_error + time_span list" where
  "plan_quiet_energy_audio_chunks samples opts =
     require_positive (int (length samples)) ''quiet-energy input samples''
     (require_positive (q_chunk_samples opts) ''quiet-energy chunk samples''
     (require_positive (boundary_context_samples opts) ''quiet-energy boundary context samples''
     (require_positive (min_energy_window_samples opts) ''quiet-energy min energy window samples''
     (Inr (quiet_loop samples opts (int (length samples)) 0 [])))))"

subsection \<open>Slicing and merging\<close>

definition slice_audio_buffer :: "audio_buffer \<Rightarrow> time_span \<Rightarrow> audio_chunk_error + audio_buffer" where
  "slice_audio_buffer audio s =
     (if buf_sample_rate audio \<le> 0 then Inl No_Sample_Rate
      else require_positive (buf_channels audio) ''audio channels''
        (if buf_samples audio = [] then Inl Empty_Audio
         else if length (buf_samples audio) mod nat (buf_channels audio) \<noteq> 0 then Inl Bad_Sample_Count
         else case require_valid_time_span s (int (length (buf_samples audio) div nat (buf_channels audio))) ''Audio chunker slice'' of
           Some e \<Rightarrow> Inl e
         | None \<Rightarrow>
             (let b = nat (span_start s * buf_channels audio); e = nat (span_end s * buf_channels audio) in
              Inr \<lparr>buf_sample_rate = buf_sample_rate audio, buf_channels = buf_channels audio,
                   buf_samples = substr (buf_samples audio) b (e - b)\<rparr>)))"

definition rescale_sample_index :: "int \<Rightarrow> int \<Rightarrow> int \<Rightarrow> int" where
  "rescale_sample_index sample source_rate target_rate =
     (if source_rate = target_rate then sample
      else llround (real_of_int sample * real_of_int target_rate / real_of_int source_rate))"

definition rescale_time_span :: "time_span \<Rightarrow> int \<Rightarrow> int \<Rightarrow> audio_chunk_error + time_span" where
  "rescale_time_span s source_rate target_rate =
     require_positive source_rate ''source sample rate'' (require_positive target_rate ''timestamp sample rate''
       (Inr \<lparr>span_start = rescale_sample_index (span_start s) source_rate target_rate,
             span_end = rescale_sample_index (span_end s) source_rate target_rate\<rparr>))"

definition valid_merge_span :: "time_span \<Rightarrow> bool" where
  "valid_merge_span s \<longleftrightarrow> span_start s \<ge> 0 \<and> span_end s \<ge> span_start s"

definition validate_merge_spans :: "time_span \<Rightarrow> time_span \<Rightarrow> string \<Rightarrow> audio_chunk_error + 'a \<Rightarrow> audio_chunk_error + 'a" where
  "validate_merge_spans source_span keep_span label k =
     (if \<not> valid_merge_span source_span then Inl (Bad_Source_Span label)
      else if \<not> valid_merge_span keep_span \<or> span_start keep_span < span_start source_span \<or> span_end keep_span > span_end source_span
      then Inl (Bad_Keep_Span label)
      else k)"

fun merge_words :: "time_span \<Rightarrow> time_span \<Rightarrow> 'p spanned list \<Rightarrow> 'p spanned list \<Rightarrow> audio_chunk_error + 'p spanned list" where
  "merge_words src keep [] out = Inr out"
| "merge_words src keep (word # ws) out =
     (let sp = span_of word;
          local_start = max (span_start sp) 0;
          local_end = min (span_end sp) (span_end src - span_start src);
          global_start = span_start src + local_start
      in if span_end sp < span_start sp then Inl (Unordered ''word'')
         else if local_start \<ge> local_end then merge_words src keep ws out
         else if global_start < span_start keep \<or> global_start \<ge> span_end keep then merge_words src keep ws out
         else merge_words src keep ws
                (out @ [word\<lparr>span_of := \<lparr>span_start = global_start, span_end = span_start src + local_end\<rparr>\<rparr>]))"

definition append_chunk_word_timestamps ::
  "'p spanned list \<Rightarrow> 'p spanned list \<Rightarrow> time_span \<Rightarrow> time_span \<Rightarrow> int \<Rightarrow> int \<Rightarrow> audio_chunk_error + 'p spanned list" where
  "append_chunk_word_timestamps out words source_span keep_span source_rate target_rate =
     validate_merge_spans source_span keep_span ''word''
       (bind_sum (rescale_time_span source_span source_rate target_rate) (\<lambda>src.
        bind_sum (rescale_time_span keep_span source_rate target_rate) (\<lambda>keep.
        merge_words src keep words out)))"

text \<open>The shorter overloads.\<close>

definition append_words_keep :: "'p spanned list \<Rightarrow> 'p spanned list \<Rightarrow> time_span \<Rightarrow> time_span \<Rightarrow> audio_chunk_error + 'p spanned list" where
  "append_words_keep out words source_span keep_span = append_chunk_word_timestamps out words source_span keep_span 1 1"

definition append_words_span :: "'p spanned list \<Rightarrow> 'p spanned list \<Rightarrow> time_span \<Rightarrow> audio_chunk_error + 'p spanned list" where
  "append_words_span out words chunk_span = append_words_keep out words chunk_span chunk_span"

definition merge_span :: "time_span \<Rightarrow> time_span \<Rightarrow> time_span \<Rightarrow> string \<Rightarrow> audio_chunk_error + time_span option" where
  "merge_span src keep s label =
     (let local_start = max (span_start s) 0;
          local_end = min (span_end s) (span_end src - span_start src);
          gs = span_start src + local_start;
          ge = span_start src + local_end
      in if span_end s < span_start s then Inl (Unordered label)
         else if local_start \<ge> local_end then Inl (Outside_Chunk label)
         else if ge \<le> span_start keep \<or> gs \<ge> span_end keep then Inr None
         else Inr (Some \<lparr>span_start = max gs (span_start keep), span_end = min ge (span_end keep)\<rparr>))"

fun merge_spans :: "time_span \<Rightarrow> time_span \<Rightarrow> string \<Rightarrow> 'p spanned list \<Rightarrow> 'p spanned list \<Rightarrow> audio_chunk_error + 'p spanned list" where
  "merge_spans src keep label [] out = Inr out"
| "merge_spans src keep label (x # xs) out =
     bind_sum (merge_span src keep (span_of x) label) (\<lambda>m.
       merge_spans src keep label xs (case m of None \<Rightarrow> out | Some s \<Rightarrow> out @ [x\<lparr>span_of := s\<rparr>]))"

text \<open>The members of \<^verbatim>\<open>TaskResult\<close> that merging touches.\<close>

record ('s, 't, 'w) speech_metadata =
  speech_segments :: "'s spanned list"
  speaker_turns :: "'t spanned list"
  word_timestamps :: "'w spanned list"

definition append_chunk_speech_metadata ::
  "('s, 't, 'w) speech_metadata \<Rightarrow> ('s, 't, 'w) speech_metadata \<Rightarrow> time_span \<Rightarrow> time_span \<Rightarrow> int \<Rightarrow> int \<Rightarrow>
   audio_chunk_error + ('s, 't, 'w) speech_metadata" where
  "append_chunk_speech_metadata out chunk source_span keep_span source_rate target_rate =
     validate_merge_spans source_span keep_span ''speech metadata''
       (bind_sum (rescale_time_span source_span source_rate target_rate) (\<lambda>src.
        bind_sum (rescale_time_span keep_span source_rate target_rate) (\<lambda>keep.
        bind_sum (merge_spans src keep ''speech segment'' (speech_segments chunk) (speech_segments out)) (\<lambda>segs.
        bind_sum (merge_spans src keep ''speaker turn'' (speaker_turns chunk) (speaker_turns out)) (\<lambda>turns.
        bind_sum (append_chunk_word_timestamps (word_timestamps out) (word_timestamps chunk) source_span keep_span source_rate target_rate) (\<lambda>ws.
        Inr \<lparr>speech_segments = segs, speaker_turns = turns, word_timestamps = ws\<rparr>))))))"

subsection \<open>What the voice-activity chunks cover\<close>

definition in_span :: "int \<Rightarrow> time_span \<Rightarrow> bool" where
  "in_span x s \<longleftrightarrow> span_start s \<le> x \<and> x < span_end s"

definition covered :: "chunk_state list \<Rightarrow> int \<Rightarrow> bool" where
  "covered cs x \<longleftrightarrow> (\<exists>c\<in>set cs. in_span x (cs_span c))"

definition span_within :: "int \<Rightarrow> int \<Rightarrow> time_span \<Rightarrow> bool" where
  "span_within n m s \<longleftrightarrow> 0 \<le> span_start s \<and> span_start s < span_end s \<and> span_end s \<le> n \<and> span_end s - span_start s \<le> m"

text \<open>The invariant of the loop over the work span that starts at \<open>p\<close>.\<close>

definition cover_inv :: "int \<Rightarrow> int \<Rightarrow> int \<Rightarrow> int \<Rightarrow> chunk_state list \<Rightarrow> chunk_state \<Rightarrow> bool" where
  "cover_inv n m p a prev cur \<longleftrightarrow>
     (\<forall>c\<in>set (prev @ [cur]). span_within n m (cs_span c)) \<and>
     (\<forall>x. p \<le> x \<and> x < span_end (cs_span cur) \<longrightarrow> covered (prev @ [cur]) x) \<and>
     0 \<le> p \<and> p \<le> a \<and> (a = p \<or> a \<le> span_end (cs_span cur))"

lemma covered_append [simp]: "covered (xs @ ys) x \<longleftrightarrow> covered xs x \<or> covered ys x"
  by (auto simp: covered_def)

lemma covered_simps [simp]: "covered [] x = False" "covered (c # cs) x \<longleftrightarrow> in_span x (cs_span c) \<or> covered cs x"
  by (simp_all add: covered_def)

lemma start_chunk_span [simp]: "cs_span (start_chunk m sp a e) = \<lparr>span_start = a, span_end = min e (a + m)\<rparr>"
  by (simp add: start_chunk_def Let_def)

text \<open>Replacing the current chunk by one or two that cover at least as much keeps the invariant.\<close>

lemma cover_inv_replace:
  assumes inv: "cover_inv n m p a prev cur"
    and ok: "\<forall>c\<in>set (mid @ [cur']). span_within n m (cs_span c)"
    and keep: "\<And>x. in_span x (cs_span cur) \<Longrightarrow> covered (mid @ [cur']) x"
    and new: "\<And>x. p \<le> x \<Longrightarrow> span_end (cs_span cur) \<le> x \<Longrightarrow> x < span_end (cs_span cur') \<Longrightarrow> covered (mid @ [cur']) x"
    and a': "p \<le> a'" "a' \<le> span_end (cs_span cur')"
  shows "cover_inv n m p a' (prev @ mid) cur' \<and> (\<forall>x. covered (prev @ [cur]) x \<longrightarrow> covered ((prev @ mid) @ [cur']) x)"
proof -
  have old: "covered (prev @ [cur]) x \<Longrightarrow> covered ((prev @ mid) @ [cur']) x" for x
    using keep [of x] by auto
  moreover have "covered ((prev @ mid) @ [cur']) x" if "p \<le> x" "x < span_end (cs_span cur')" for x
  proof (cases "x < span_end (cs_span cur)")
    case True
    then have "covered (prev @ [cur]) x" using inv that(1) unfolding cover_inv_def by blast
    then show ?thesis by (rule old)
  next
    case False
    then have "covered (mid @ [cur']) x" using new that by simp
    then show ?thesis by auto
  qed
  ultimately show ?thesis using inv ok a' unfolding cover_inv_def by auto
qed

lemma cover_step_inv:
  assumes inv: "cover_inv n m p a prev cur" and ae: "a < e" "e \<le> n" and m: "0 < m" "max_chunk_samples opts = m"
  shows "case cover_step opts sp a e prev cur of
      Inl (prev', cur') \<Rightarrow> cover_inv n m p p prev' cur' \<and> e \<le> span_end (cs_span cur') \<and>
        (\<forall>x. covered (prev @ [cur]) x \<longrightarrow> covered (prev' @ [cur']) x)
    | Inr (a', prev', cur') \<Rightarrow> cover_inv n m p a' prev' cur' \<and> a < a' \<and>
        (\<forall>x. covered (prev @ [cur]) x \<longrightarrow> covered (prev' @ [cur']) x)"
proof -
  let ?cs = "span_start (cs_span cur)" and ?ce = "span_end (cs_span cur)" and ?se = "speech_end_sample cur"
  let ?b = "min ?ce (span_start sp)" and ?cap = "span_start (cs_span cur) + m"
  have cur: "0 \<le> ?cs" "?cs < ?ce" "?ce \<le> n" "?ce - ?cs \<le> m" using inv by (auto simp: cover_inv_def span_within_def)
  have p: "0 \<le> p" "p \<le> a" "a = p \<or> a \<le> ?ce" using inv by (auto simp: cover_inv_def)
  note rep = cover_inv_replace [OF inv]
  note keep = rep [where mid = "[]", simplified]
  have "cover_inv n m p (min e (a + m)) (prev @ [cur]) (start_chunk m sp a e) \<and>
      (\<forall>x. covered (prev @ [cur]) x \<longrightarrow> covered ((prev @ [cur]) @ [start_chunk m sp a e]) x)"
    by (rule rep) (use cur ae p m in \<open>auto simp: span_within_def in_span_def\<close>)
  then have again: "cover_inv n m p (min e (a + m)) (prev @ [cur]) (start_chunk m sp a e) \<and> a < min e (a + m) \<and>
      (\<forall>x. covered (prev @ [cur]) x \<longrightarrow> covered ((prev @ [cur]) @ [start_chunk m sp a e]) x)"
    using ae m by simp
  consider (inside) "e \<le> ?ce" | (extend) "\<not> e \<le> ?ce" "a \<le> ?ce" "e \<le> ?cap"
    | (trunc) "\<not> e \<le> ?ce" "a \<le> ?ce" "\<not> e \<le> ?cap" "(span_start sp > ?se \<and> ?se > ?cs) \<and> (?b \<ge> ?se \<and> ?b > ?cs)"
    | (fill) "\<not> e \<le> ?ce" "a \<le> ?ce" "\<not> e \<le> ?cap" "\<not> ((span_start sp > ?se \<and> ?se > ?cs) \<and> (?b \<ge> ?se \<and> ?b > ?cs))" "?ce < ?cap"
    | (fresh) "\<not> e \<le> ?ce" "a \<le> ?ce" "\<not> e \<le> ?cap" "\<not> ((span_start sp > ?se \<and> ?se > ?cs) \<and> (?b \<ge> ?se \<and> ?b > ?cs))" "\<not> ?ce < ?cap"
    | (merge) "\<not> e \<le> ?ce" "\<not> a \<le> ?ce" "a - ?ce \<le> merge_gap_samples opts \<and> e - ?cs \<le> m"
    | (gap) "\<not> e \<le> ?ce" "\<not> a \<le> ?ce" "\<not> (a - ?ce \<le> merge_gap_samples opts \<and> e - ?cs \<le> m)"
    by blast
  then show ?thesis
  proof cases
    case inside
    let ?c = "cur\<lparr>speech_end_sample := max ?se (span_end sp)\<rparr>"
    have "cover_step opts sp a e prev cur = Inl (prev, ?c)" using inside by (simp add: cover_step_def Let_def)
    moreover have "cover_inv n m p p prev ?c \<and> (\<forall>x. covered (prev @ [cur]) x \<longrightarrow> covered (prev @ [?c]) x)"
      using keep [of ?c p] cur ae p inside by (simp add: span_within_def in_span_def)
    ultimately show ?thesis using inside by simp
  next
    case extend
    let ?c = "cur\<lparr>cs_span := (cs_span cur)\<lparr>span_end := e\<rparr>, speech_end_sample := max ?se (span_end sp)\<rparr>"
    have "cover_step opts sp a e prev cur = Inl (prev, ?c)" using extend m by (simp add: cover_step_def Let_def)
    moreover have "cover_inv n m p p prev ?c \<and> (\<forall>x. covered (prev @ [cur]) x \<longrightarrow> covered (prev @ [?c]) x)"
      using keep [of ?c p] cur ae p extend by (simp add: span_within_def in_span_def)
    ultimately show ?thesis by simp
  next
    case trunc
    let ?t = "cur\<lparr>cs_span := (cs_span cur)\<lparr>span_end := ?b\<rparr>\<rparr>" and ?c = "start_chunk m sp ?b e"
    have "cover_step opts sp a e prev cur = Inr (span_end (cs_span ?c), prev @ [?t], ?c)"
      using trunc m by (simp add: cover_step_def fresh_chunk_def Let_def)
    moreover have "cover_inv n m p (min e (?b + m)) (prev @ [?t]) ?c \<and>
        (\<forall>x. covered (prev @ [cur]) x \<longrightarrow> covered ((prev @ [?t]) @ [?c]) x)"
      by (rule rep) (use cur ae p m trunc in \<open>auto simp: span_within_def in_span_def\<close>)
    moreover have "a < min e (?b + m)" using cur ae p m trunc by linarith
    ultimately show ?thesis by simp
  next
    case fill
    let ?e' = "min e ?cap"
    let ?c = "cur\<lparr>cs_span := (cs_span cur)\<lparr>span_end := ?e'\<rparr>,
      speech_end_sample := (if ?e' > span_start sp then max ?se (min (span_end sp) ?e') else ?se)\<rparr>"
    have "cover_step opts sp a e prev cur = Inr (?e', prev, ?c)"
      unfolding cover_step_def Let_def m(2) by (simp only: fill if_True if_False)
    moreover have "cover_inv n m p ?e' prev ?c \<and> (\<forall>x. covered (prev @ [cur]) x \<longrightarrow> covered (prev @ [?c]) x)"
      using keep [of ?c ?e'] cur ae p m fill by (simp add: span_within_def in_span_def)
    moreover have "a < ?e'" using ae fill by linarith
    ultimately show ?thesis by simp
  next
    case fresh
    have "cover_step opts sp a e prev cur = fresh_chunk opts sp a e (prev @ [cur])"
      unfolding cover_step_def Let_def m(2) by (simp only: fresh if_True if_False)
    then show ?thesis using again m by (simp add: fresh_chunk_def Let_def)
  next
    case merge
    let ?c = "cur\<lparr>cs_span := (cs_span cur)\<lparr>span_end := e\<rparr>, speech_end_sample := max ?se (span_end sp)\<rparr>"
    have "cover_step opts sp a e prev cur = Inl (prev, ?c)" using merge m by (simp add: cover_step_def Let_def)
    moreover have "cover_inv n m p p prev ?c \<and> (\<forall>x. covered (prev @ [cur]) x \<longrightarrow> covered (prev @ [?c]) x)"
      using keep [of ?c p] cur ae p merge by (simp add: span_within_def in_span_def)
    ultimately show ?thesis by simp
  next
    case gap
    have "cover_step opts sp a e prev cur = fresh_chunk opts sp a e (prev @ [cur])"
      unfolding cover_step_def Let_def m(2) by (simp only: gap if_True if_False)
    then show ?thesis using again m by (simp add: fresh_chunk_def Let_def)
  qed
qed

lemma cover_loop_returns:
  assumes "cover_inv n m p a prev cur" "e \<le> n" "0 < m" "max_chunk_samples opts = m" "p < e"
  shows "\<exists>prev' cur'. cover_loop opts sp a e prev cur = Some (prev', cur') \<and> cover_inv n m p p prev' cur' \<and>
    e \<le> span_end (cs_span cur') \<and> (\<forall>x. covered (prev @ [cur]) x \<longrightarrow> covered (prev' @ [cur']) x)"
  using assms
proof (induction "nat (e - a)" arbitrary: a prev cur rule: less_induct)
  case less
  show ?case
  proof (cases "a < e")
    case False
    with less.prems have "cover_inv n m p p prev cur \<and> e \<le> span_end (cs_span cur)" by (auto simp: cover_inv_def)
    with False show ?thesis by (simp add: cover_loop.simps)
  next
    case True
    note step = cover_step_inv [OF less.prems(1) True less.prems(2-4), of sp]
    show ?thesis
    proof (cases "cover_step opts sp a e prev cur")
      case (Inl r)
      with step True show ?thesis by (cases r) (auto simp: cover_loop.simps)
    next
      case (Inr r)
      obtain a' prev' cur' where r: "r = (a', prev', cur')" by (cases r)
      with step Inr have s: "cover_inv n m p a' prev' cur'" "a < a'"
        "\<forall>x. covered (prev @ [cur]) x \<longrightarrow> covered (prev' @ [cur']) x" by simp_all
      have "nat (e - a') < nat (e - a)" using s(2) True by simp
      from less.hyps [OF this s(1) less.prems(2-5)] s(3) show ?thesis
        using True Inr r by (subst cover_loop.simps) (simp, blast)
    qed
  qed
qed

definition states_ok :: "int \<Rightarrow> int \<Rightarrow> int \<Rightarrow> chunk_state list \<Rightarrow> bool" where
  "states_ok n m p states \<longleftrightarrow>
     (\<forall>c\<in>set states. span_within n m (cs_span c)) \<and>
     (states \<noteq> [] \<longrightarrow> (\<forall>x. p \<le> x \<and> x < span_end (cs_span (List.last states)) \<longrightarrow> covered states x))"

lemma cover_item_returns:
  assumes "states_ok n m p states" "padded w = \<lparr>span_start = p, span_end = e\<rparr>" "0 \<le> p" "p < e" "e \<le> n" "0 < m"
    "max_chunk_samples opts = m"
  shows "\<exists>states'. cover_item opts w states = Some states' \<and> states_ok n m p states' \<and>
    (\<forall>x. covered states x \<longrightarrow> covered states' x) \<and> (\<forall>x. p \<le> x \<and> x < e \<longrightarrow> covered states' x)"
proof -
  have fin: "states_ok n m p (prev @ [cur]) \<and> (\<forall>x. p \<le> x \<and> x < e \<longrightarrow> covered (prev @ [cur]) x)"
    if "cover_inv n m p p prev cur" "e \<le> span_end (cs_span cur)" for prev cur
    using that by (auto simp: cover_inv_def states_ok_def)
  show ?thesis
  proof (cases "states = []")
    case True
    let ?c = "start_chunk m (speech w) p e"
    have "cover_inv n m p (min e (p + m)) [] ?c" using assms by (auto simp: cover_inv_def span_within_def in_span_def)
    from cover_loop_returns [OF this assms(5-7,4), of "speech w"] True fin show ?thesis
      by (auto simp: cover_item_def assms(2,4,7) Let_def)
  next
    case False
    then have st: "butlast states @ [List.last states] = states" by simp
    have "cover_inv n m p p (butlast states) (List.last states)"
      using assms(1,3) False st unfolding cover_inv_def states_ok_def by (metis order_refl)
    from cover_loop_returns [OF this assms(5-7,4), of "speech w"] False fin st show ?thesis
      by (fastforce simp: cover_item_def assms(2,4) Let_def)
  qed
qed

lemma cover_items_returns:
  assumes "sorted (map (\<lambda>w. span_start (padded w)) ws)" "\<forall>w\<in>set ws. 0 \<le> span_start (padded w) \<and> span_start (padded w) < span_end (padded w) \<and> span_end (padded w) \<le> n"
    "states_ok n m p states" "\<forall>w\<in>set ws. p \<le> span_start (padded w)" "0 < m" "max_chunk_samples opts = m"
  shows "\<exists>states'. cover_items opts ws states = Some states' \<and> (\<forall>c\<in>set states'. span_within n m (cs_span c)) \<and>
    (\<forall>x. covered states x \<longrightarrow> covered states' x) \<and> (\<forall>w\<in>set ws. \<forall>x. in_span x (padded w) \<longrightarrow> covered states' x)"
  using assms(1-4)
proof (induction ws arbitrary: p states)
  case Nil
  then show ?case by (simp add: states_ok_def)
next
  case (Cons w ws)
  let ?p = "span_start (padded w)" and ?e = "span_end (padded w)"
  have ok: "states_ok n m ?p states" using Cons.prems(3,4) by (auto simp: states_ok_def)
  have w: "padded w = \<lparr>span_start = ?p, span_end = ?e\<rparr>" "0 \<le> ?p" "?p < ?e" "?e \<le> n" using Cons.prems(2) by auto
  from cover_item_returns [OF ok w assms(5,6)]
  obtain states' where s: "cover_item opts w states = Some states'" "states_ok n m ?p states'"
    "\<forall>x. covered states x \<longrightarrow> covered states' x" "\<forall>x. ?p \<le> x \<and> x < ?e \<longrightarrow> covered states' x" by blast
  have "\<exists>s''. cover_items opts ws states' = Some s'' \<and> (\<forall>c\<in>set s''. span_within n m (cs_span c)) \<and>
    (\<forall>x. covered states' x \<longrightarrow> covered s'' x) \<and> (\<forall>w\<in>set ws. \<forall>x. in_span x (padded w) \<longrightarrow> covered s'' x)"
    by (rule Cons.IH [OF _ _ s(2)]) (use Cons.prems(1,2) in auto)
  then show ?case using s by (fastforce simp: in_span_def)
qed

lemma work_less_key: "work_less = (\<lambda>a b. (span_start (padded a), span_end (padded a)) < (span_start (padded b), span_end (padded b)))"
  by (auto simp: work_less_def fun_eq_iff less_prod_def)

lemma work_weak: "strict_weak work_less"
  unfolding work_less_key by (rule strict_weak_key)

definition valid_segment :: "int \<Rightarrow> 'p spanned \<Rightarrow> bool" where
  "valid_segment n seg \<longleftrightarrow> 0 \<le> span_start (span_of seg) \<and> span_start (span_of seg) < span_end (span_of seg) \<and> span_end (span_of seg) \<le> n"

lemma work_spans_valid:
  "\<forall>seg\<in>set segs. valid_segment n seg \<Longrightarrow>
   work_spans segs n opts spans =
     Inr (spans @ map (\<lambda>seg. \<lparr>padded = padded_span (span_of seg) n (padding_samples opts), speech = span_of seg\<rparr>) segs)"
  by (induction segs arbitrary: spans) (auto simp: require_valid_time_span_def valid_segment_def)

text \<open>
  The voice-activity planner returns, and its chunks are non-empty spans of the recording of at
  most the allowed length that together contain every speech segment with its padding: no speech is
  cut away. (For segments inside the recording, any sorting function and sensible options.)
\<close>

lemma vad_chunks_cover_speech:
  assumes "std_sort srt" "\<forall>seg\<in>set segments. valid_segment n seg" "0 < n" "0 < max_chunk_samples opts"
    "0 \<le> merge_gap_samples opts" "0 \<le> padding_samples opts"
  shows "\<exists>chunks. plan_vad_audio_chunks srt segments n opts = Some (Inr chunks) \<and>
    (\<forall>c\<in>set chunks. span_within n (max_chunk_samples opts) c) \<and>
    (\<forall>seg\<in>set segments. \<forall>x. in_span x (padded_span (span_of seg) n (padding_samples opts)) \<longrightarrow> (\<exists>c\<in>set chunks. in_span x c))"
proof (cases "segments = []")
  case True
  with assms show ?thesis by (simp add: plan_vad_audio_chunks_def)
next
  case False
  let ?w = "\<lambda>seg. \<lparr>padded = padded_span (span_of seg) n (padding_samples opts), speech = span_of seg\<rparr>"
  let ?ws = "srt work_less (map ?w segments)"
  have set: "set ?ws = ?w ` set segments" using std_sort.srt_set [OF assms(1) work_weak] by simp
  have "sorted (map (\<lambda>w. (span_start (padded w), span_end (padded w))) ?ws)"
    unfolding work_less_key by (rule std_sort.srt_by_key [OF assms(1)])
  then have sorted: "sorted (map (\<lambda>w. span_start (padded w)) ?ws)"
    unfolding sorted_map by (rule sorted_wrt_mono_rel [rotated]) (auto simp: less_eq_prod_def)
  have valid: "0 \<le> span_start (padded (?w seg)) \<and> span_start (padded (?w seg)) < span_end (padded (?w seg)) \<and> span_end (padded (?w seg)) \<le> n"
    if "seg \<in> set segments" for seg
    using assms(2,6) that by (auto simp: padded_span_def valid_segment_def)
  have "\<exists>states. cover_items opts ?ws [] = Some states \<and> (\<forall>c\<in>set states. span_within n (max_chunk_samples opts) (cs_span c)) \<and>
      (\<forall>x. covered [] x \<longrightarrow> covered states x) \<and> (\<forall>w\<in>set ?ws. \<forall>x. in_span x (padded w) \<longrightarrow> covered states x)"
    by (rule cover_items_returns [OF sorted, of n _ 0])
       (use valid assms(4) in \<open>auto simp: set states_ok_def\<close>)
  then obtain states where st: "cover_items opts ?ws [] = Some states"
    "\<forall>c\<in>set states. span_within n (max_chunk_samples opts) (cs_span c)"
    "\<forall>w\<in>set ?ws. \<forall>x. in_span x (padded w) \<longrightarrow> covered states x" by blast
  have "plan_vad_audio_chunks srt segments n opts = Some (Inr (map cs_span states))"
    using assms False st(1) work_spans_valid [OF assms(2), of opts "[]"] by (simp add: plan_vad_audio_chunks_def)
  moreover have "\<exists>c\<in>set (map cs_span states). in_span x c"
    if "seg \<in> set segments" "in_span x (padded_span (span_of seg) n (padding_samples opts))" for seg x
  proof -
    have "?w seg \<in> set ?ws" using that(1) set by blast
    then have "covered states x" using st(3) that(2) by fastforce
    then show ?thesis by (auto simp: covered_def)
  qed
  ultimately show ?thesis using st(2) by (intro exI [of _ "map cs_span states"]) auto
qed

subsection \<open>What the quiet-energy chunks are\<close>

text \<open>\<open>tiles a ss b\<close>: the spans follow each other without a gap from \<open>a\<close> to \<open>b\<close>.\<close>

fun tiles :: "int \<Rightarrow> time_span list \<Rightarrow> int \<Rightarrow> bool" where
  "tiles a [] b \<longleftrightarrow> a = b"
| "tiles a (s # ss) b \<longleftrightarrow> span_start s = a \<and> a < span_end s \<and> tiles (span_end s) ss b"

lemma tiles_append: "tiles a (ss @ ts) c \<longleftrightarrow> (\<exists>b. tiles a ss b \<and> tiles b ts c)"
  by (induction ss arbitrary: a) auto

lemma quiet_scan_range:
  "lo \<le> split \<Longrightarrow> split \<le> hi \<Longrightarrow> lo \<le> ss \<Longrightarrow> ss + upper \<le> hi \<Longrightarrow> 0 \<le> i \<Longrightarrow> lo \<le> quiet_scan xs ss upper win i best split \<and> quiet_scan xs ss upper win i best split \<le> hi"
proof (induction xs ss upper win i best split rule: quiet_scan.induct)
  case (1 xs ss upper win i best split)
  note unf = quiet_scan.simps [of xs ss upper win i best split]
  show ?case
  proof (cases "i < upper \<and> 0 < win")
    case False
    with "1.prems" show ?thesis by (simp only: unf if_False)
  next
    case True
    let ?en = "window_energy xs (ss + i) win"
    show ?thesis
    proof (cases "case best of None \<Rightarrow> True | Some m \<Rightarrow> ?en < m")
      case better: True
      have "lo \<le> ss + i" "ss + i \<le> hi" "0 \<le> i + win" using "1.prems" True by linarith+
      from "1.IH"(1) [OF True refl better this(1,2) "1.prems"(3,4) this(3)] show ?thesis
        by (simp only: unf True better Let_def if_True simp_thms)
    next
      case worse: False
      have "0 \<le> i + win" using "1.prems" True by linarith
      from "1.IH"(2) [OF True refl worse "1.prems"(1-4) this] show ?thesis
        by (simp only: unf True worse Let_def if_True if_False simp_thms)
    qed
  qed
qed

text \<open>Where a chunk may end: not before the boundary context, and not after the full length.\<close>

definition good_cut :: "quiet_options \<Rightarrow> int \<Rightarrow> int \<Rightarrow> bool" where
  "good_cut opts index split \<longleftrightarrow>
     index < split \<and> split \<le> index + q_chunk_samples opts \<and> index + q_chunk_samples opts - boundary_context_samples opts \<le> split"

lemma quiet_split_cut:
  assumes "index + q_chunk_samples opts < n" "0 < q_chunk_samples opts" "0 < boundary_context_samples opts" "0 < min_energy_window_samples opts"
  shows "good_cut opts index (quiet_split xs opts n index) \<and> quiet_split xs opts n index < n"
proof -
  let ?lo = "max index (index + q_chunk_samples opts - boundary_context_samples opts)" and ?hi = "index + q_chunk_samples opts"
  let ?win = "min_energy_window_samples opts"
  define s where "s = (if min ?hi n > ?lo then if min ?hi n - ?lo \<le> ?win then (?lo + min ?hi n) div 2
      else quiet_scan xs ?lo (min ?hi n - ?lo - ?win) ?win 0 None ?hi else ?hi)"
  have hi: "min ?hi n = ?hi" "?lo < ?hi" using assms by linarith+
  have "?lo \<le> s \<and> s \<le> ?hi"
  proof (cases "?hi - ?lo \<le> ?win")
    case True
    then have "s = (?lo + ?hi) div 2" unfolding s_def hi(1) using hi(2) by (simp only: if_True)
    then show ?thesis using hi(2) by linarith
  next
    case False
    then have "s = quiet_scan xs ?lo (?hi - ?lo - ?win) ?win 0 None ?hi" unfolding s_def hi(1) using hi(2) by (simp only: if_True if_False)
    then show ?thesis using quiet_scan_range [of ?lo ?hi ?hi ?lo "?hi - ?lo - ?win" 0 xs ?win None] hi(2) assms(4) by linarith
  qed
  moreover have "quiet_split xs opts n index = max (index + 1) (min s n)" unfolding quiet_split_def Let_def s_def ..
  ultimately show ?thesis using assms hi(2) unfolding good_cut_def by linarith
qed

lemma quiet_loop_tiles:
  "0 < q_chunk_samples opts \<Longrightarrow> 0 < boundary_context_samples opts \<Longrightarrow> 0 < min_energy_window_samples opts \<Longrightarrow>
   index < n \<Longrightarrow> tiles 0 chunks index \<Longrightarrow> \<forall>c\<in>set chunks. good_cut opts (span_start c) (span_end c) \<Longrightarrow>
   \<exists>front z. quiet_loop xs opts n index chunks = front @ [z] \<and> tiles 0 (front @ [z]) n \<and>
     (\<forall>c\<in>set front. good_cut opts (span_start c) (span_end c)) \<and> span_end z - span_start z \<le> q_chunk_samples opts"
proof (induction xs opts n index chunks rule: quiet_loop.induct)
  case (1 xs opts n index chunks)
  note unf = quiet_loop.simps [of xs opts n index chunks]
  show ?case
  proof (cases "index + q_chunk_samples opts \<ge> n")
    case True
    then have "quiet_loop xs opts n index chunks = chunks @ [\<lparr>span_start = index, span_end = n\<rparr>]" using "1.prems"(4) by (simp add: unf)
    moreover have "tiles 0 (chunks @ [\<lparr>span_start = index, span_end = n\<rparr>]) n" using "1.prems"(4,5) by (auto simp: tiles_append)
    ultimately show ?thesis using "1.prems"(6) True by fastforce
  next
    case False
    let ?s = "quiet_split xs opts n index"
    let ?chunks = "chunks @ [\<lparr>span_start = index, span_end = ?s\<rparr>]"
    have cut: "good_cut opts index ?s" "?s < n" using quiet_split_cut [of index opts n xs] "1.prems"(1-3) False by auto
    have t: "tiles 0 ?chunks ?s" using "1.prems"(5) cut(1) by (auto simp: tiles_append good_cut_def)
    have all: "\<forall>c\<in>set ?chunks. good_cut opts (span_start c) (span_end c)" using "1.prems"(6) cut(1) by simp
    have "quiet_loop xs opts n index chunks = quiet_loop xs opts n ?s ?chunks" using "1.prems"(4) False by (simp add: unf)
    with "1.IH" [OF "1.prems"(4) False "1.prems"(1-3) cut(2) t all] show ?thesis by simp
  qed
qed

text \<open>
  The quiet-energy chunks tile the recording from its first to its last sample without gap or
  overlap; every cut lies inside the boundary context before the full chunk length, and no chunk is
  longer than that.
\<close>

lemma quiet_chunks_tile:
  assumes "plan_quiet_energy_audio_chunks samples opts = Inr chunks"
  shows "tiles 0 chunks (int (length samples)) \<and>
    (\<exists>front z. chunks = front @ [z] \<and> (\<forall>c\<in>set front. good_cut opts (span_start c) (span_end c)) \<and>
      span_end z - span_start z \<le> q_chunk_samples opts)"
proof -
  have pos: "0 < q_chunk_samples opts" "0 < boundary_context_samples opts" "0 < min_energy_window_samples opts" "0 < int (length samples)"
    and c: "chunks = quiet_loop samples opts (int (length samples)) 0 []"
    using assms by (auto simp: plan_quiet_energy_audio_chunks_def require_positive_def split: if_splits)
  from quiet_loop_tiles [OF pos, of "[]" samples] show ?thesis unfolding c by auto
qed

subsection \<open>Touching speech segments\<close>

text \<open>
  Two speech segments that touch are not told apart at the chunk boundary (the test is
  \<^verbatim>\<open>speech.start_sample > current.speech_end_sample\<close>), and the padding between them is in both chunks.
\<close>

lemma vad_touching_overlap:
  "plan_vad_audio_chunks insertion_sort
     [\<lparr>span_of = \<lparr>span_start = 0, span_end = 95\<rparr>, payload = ()\<rparr>, \<lparr>span_of = \<lparr>span_start = 95, span_end = 170\<rparr>, payload = ()\<rparr>]
     200 \<lparr>max_chunk_samples = 100, merge_gap_samples = 0, padding_samples = 5\<rparr> =
   Some (Inr [\<lparr>span_start = 0, span_end = 100\<rparr>, \<lparr>span_start = 90, span_end = 175\<rparr>])"
  by (simp add: plan_vad_audio_chunks_def require_valid_time_span_def padded_span_def insertion_sort_def work_less_def
      cover_item_def cover_loop.simps cover_step_def fresh_chunk_def start_chunk_def)

subsection \<open>Merging the words of overlapping chunks\<close>

definition shift_word :: "int \<Rightarrow> 'p spanned \<Rightarrow> 'p spanned" where
  "shift_word d w = w\<lparr>span_of := \<lparr>span_start = span_start (span_of w) + d, span_end = span_end (span_of w) + d\<rparr>\<rparr>"

definition word_inside :: "time_span \<Rightarrow> 'p spanned \<Rightarrow> bool" where
  "word_inside src w \<longleftrightarrow> span_start src \<le> span_start (span_of w) \<and> span_end (span_of w) \<le> span_end src"

abbreviation word_start :: "'p spanned \<Rightarrow> int" where
  "word_start w \<equiv> span_start (span_of w)"

text \<open>What a recogniser reports for the part \<open>src\<close> of a recording with the words \<open>ws\<close>: those inside, in local time.\<close>

definition heard :: "time_span \<Rightarrow> 'p spanned list \<Rightarrow> 'p spanned list" where
  "heard src ws = map (shift_word (- span_start src)) (filter (word_inside src) ws)"

fun merge_chunks :: "(time_span \<times> time_span) list \<Rightarrow> 'p spanned list \<Rightarrow> 'p spanned list \<Rightarrow> audio_chunk_error + 'p spanned list" where
  "merge_chunks [] ws out = Inr out"
| "merge_chunks ((src, keep) # cs) ws out =
     bind_sum (append_words_keep out (heard src ws) src keep) (merge_chunks cs ws)"

lemma merge_words_heard:
  "\<forall>w\<in>set ws. word_start w < span_end (span_of w) \<Longrightarrow>
   merge_words src keep (heard src ws) out = Inr (out @ filter (\<lambda>w. word_inside src w \<and> in_span (word_start w) keep) ws)"
proof (induction ws arbitrary: out)
  case (Cons w ws)
  then show ?case
    by (cases "word_inside src w") (auto simp: heard_def shift_word_def word_inside_def in_span_def Let_def)
qed (simp add: heard_def)

lemma sorted_split:
  "sorted (map f ws) \<Longrightarrow> a \<le> b \<Longrightarrow> b \<le> c \<Longrightarrow>
   filter (\<lambda>w. a \<le> f w \<and> f w < b) ws @ filter (\<lambda>w. b \<le> f w \<and> f w < c) ws = filter (\<lambda>w. a \<le> f w \<and> f w < (c :: int)) ws"
proof (induction ws)
  case (Cons w ws)
  show ?case
  proof (cases "b \<le> f w")
    case True
    then have "filter (\<lambda>w. a \<le> f w \<and> f w < b) (w # ws) = []" using Cons.prems(1) by (auto simp: filter_empty_conv)
    moreover have "filter (\<lambda>w. b \<le> f w \<and> f w < c) (w # ws) = filter (\<lambda>w. a \<le> f w \<and> f w < c) (w # ws)"
      using True Cons.prems by (intro filter_cong) auto
    ultimately show ?thesis by simp
  next
    case False
    with Cons show ?thesis by auto
  qed
qed simp

lemma span_eta: "\<lparr>span_start = span_start s, span_end = span_end s\<rparr> = s"
  by (cases s) simp

lemma tiles_le: "tiles a ss b \<Longrightarrow> a \<le> b"
  by (induction ss arbitrary: a) fastforce+

definition merge_setting :: "'p spanned list \<Rightarrow> time_span \<times> time_span \<Rightarrow> bool" where
  "merge_setting ws = (\<lambda>(src, keep). 0 \<le> span_start src \<and> span_start src \<le> span_start keep \<and> span_end keep \<le> span_end src \<and>
     (\<forall>w\<in>set ws. in_span (word_start w) keep \<longrightarrow> word_inside src w))"

lemma merge_chunks_tiles:
  "tiles a (map snd cs) n \<Longrightarrow> 0 \<le> a \<Longrightarrow> \<forall>c\<in>set cs. merge_setting ws c \<Longrightarrow> sorted (map word_start ws) \<Longrightarrow>
   \<forall>w\<in>set ws. word_start w < span_end (span_of w) \<Longrightarrow>
   merge_chunks cs ws out = Inr (out @ filter (\<lambda>w. a \<le> word_start w \<and> word_start w < n) ws)"
proof (induction cs arbitrary: a out)
  case Nil
  then show ?case by auto
next
  case (Cons c cs)
  obtain src keep where c: "c = (src, keep)" by (cases c)
  let ?b = "span_end keep"
  have k: "span_start keep = a" "a < ?b" "tiles ?b (map snd cs) n" using Cons.prems(1) c by auto
  have s: "0 \<le> span_start src" "span_start src \<le> a" "?b \<le> span_end src" "\<forall>w\<in>set ws. in_span (word_start w) keep \<longrightarrow> word_inside src w"
    using Cons.prems(3) c k(1) by (auto simp: merge_setting_def)
  have f: "filter (\<lambda>w. word_inside src w \<and> in_span (word_start w) keep) ws = filter (\<lambda>w. a \<le> word_start w \<and> word_start w < ?b) ws"
    using s(4) k(1) by (intro filter_cong) (auto simp: in_span_def)
  have "append_words_keep out (heard src ws) src keep = Inr (out @ filter (\<lambda>w. a \<le> word_start w \<and> word_start w < ?b) ws)"
    using s k(2) k(1) [symmetric] Cons.prems(2) merge_words_heard [OF Cons.prems(5), of src keep out]
    by (simp add: append_words_keep_def append_chunk_word_timestamps_def validate_merge_spans_def valid_merge_span_def rescale_time_span_def
        require_positive_def rescale_sample_index_def f span_eta)
  moreover have "merge_chunks cs ws (out @ filter (\<lambda>w. a \<le> word_start w \<and> word_start w < ?b) ws) =
      Inr ((out @ filter (\<lambda>w. a \<le> word_start w \<and> word_start w < ?b) ws) @ filter (\<lambda>w. ?b \<le> word_start w \<and> word_start w < n) ws)"
    by (rule Cons.IH [OF k(3)]) (use Cons.prems k(2) in auto)
  moreover have "filter (\<lambda>w. a \<le> word_start w \<and> word_start w < ?b) ws @ filter (\<lambda>w. ?b \<le> word_start w \<and> word_start w < n) ws =
      filter (\<lambda>w. a \<le> word_start w \<and> word_start w < n) ws"
    using sorted_split [OF Cons.prems(4), of a ?b n] k(2) tiles_le [OF k(3)] by simp
  ultimately show ?case by (simp add: c)
qed

text \<open>
  When the kept spans of the chunks tile the recording and every chunk hears the words inside
  its source span, merging the chunks' words gives back every word of the recording once, in order
  and at its place, however much the source spans overlap.
\<close>

lemma merged_words_complete:
  assumes "tiles 0 (map snd chunks) n" "\<forall>c\<in>set chunks. merge_setting ws c" "sorted (map word_start ws)"
    "\<forall>w\<in>set ws. 0 \<le> word_start w \<and> word_start w < n \<and> word_start w < span_end (span_of w)"
  shows "merge_chunks chunks ws [] = Inr ws"
proof -
  have "filter (\<lambda>w. 0 \<le> word_start w \<and> word_start w < n) ws = ws" using assms(4) by (simp add: filter_id_conv)
  then show ?thesis using merge_chunks_tiles [OF assms(1) order_refl assms(2,3), of "[]"] assms(4) by simp
qed

end
