(* ===== verification/Overlap_Add.thy ===== *)
theory Overlap_Add
  imports Audio_Spans
begin

text \<open>
  The sample side of \<^verbatim>\<open>src/framework/audio/chunking.cpp\<close>: copying a chunk with zero or reflected
  padding, the overlap windows, weighted overlap-add and the final normalisation.

  Samples are reals. A planar buffer of \<open>lanes\<close> rows is a list with row-major index; the loops over
  lanes and frames are folds over the index pairs in loop order, each pass one or two list updates.
  (The loop over lanes may run in parallel: the passes of different lanes touch different elements.)
\<close>

subsection \<open>Copying\<close>

text \<open>The loop is entered with a length of at least two; the test for it only makes the recursion total.\<close>

function reflect_loop :: "int \<Rightarrow> int \<Rightarrow> int" where
  "reflect_loop index len =
     (if 2 \<le> len \<and> (index < 0 \<or> index \<ge> len)
      then reflect_loop (if index < 0 then - index else 2 * len - index - 2) len
      else index)"
  by pat_completeness auto
termination
  by (relation "measure (\<lambda>(i, len). if i < 0 then 2 * nat (- i) + 1 else 2 * nat i)") auto

declare reflect_loop.simps [simp del]

definition reflect_index :: "int \<Rightarrow> int \<Rightarrow> audio_chunk_error + int" where
  "reflect_index index len =
     require_positive len ''reflect length'' (if len = 1 then Inr 0 else Inr (reflect_loop index len))"

definition should_reflect_pad :: "audio_chunk_span \<Rightarrow> audio_chunk_spec \<Rightarrow> bool" where
  "should_reflect_pad s spec \<longleftrightarrow>
     pad_mode_of spec = Pad_Reflect \<and>
     (reflect_min_valid_samples spec \<le> 0 \<or> valid_samples s \<ge> reflect_min_valid_samples spec)"

definition planar_index :: "int \<Rightarrow> int \<Rightarrow> int \<Rightarrow> nat" where
  "planar_index lane frame frames = nat (lane * frames + frame)"

datatype counter_mode = Shared_Across_Lanes | Per_Lane

definition weight_index :: "counter_mode \<Rightarrow> int \<Rightarrow> int \<Rightarrow> int \<Rightarrow> nat" where
  "weight_index mode lane frame output_frames =
     (if mode = Shared_Across_Lanes then nat frame else planar_index lane frame output_frames)"

datatype buffer_error = Spans_Error audio_chunk_error | Input_Size | Output_Size | Overlap_Size | Weight_Size | Overlap_Span
| Normalize_Size | Normalize_Weight_Size | Bad_Fade

definition need_positive :: "int \<Rightarrow> string \<Rightarrow> buffer_error + 'a \<Rightarrow> buffer_error + 'a" where
  "need_positive v name k = (if v \<le> 0 then Inl (Spans_Error (Not_Positive name)) else k)"

definition validate_copy_shape :: "real list \<Rightarrow> int \<Rightarrow> int \<Rightarrow> real list \<Rightarrow> audio_chunk_spec \<Rightarrow> buffer_error + 'a \<Rightarrow> buffer_error + 'a" where
  "validate_copy_shape input lanes input_frames out spec k =
     need_positive lanes ''lanes'' (need_positive input_frames ''input frames'' (need_positive (chunk_samples spec) ''chunk samples''
       (if int (length input) \<noteq> lanes * input_frames then Inl Input_Size
        else if int (length out) \<noteq> lanes * chunk_samples spec then Inl Output_Size
        else k)))"

definition loop_pairs :: "int \<Rightarrow> int \<Rightarrow> (int \<times> int) list" where
  "loop_pairs lanes n = List.product [0..lanes - 1] [0..n - 1]"

text \<open>The source frame of position \<open>i\<close> of a chunk, \<open>None\<close> for silence. (The input is not empty here.)\<close>

definition source_frame :: "audio_chunk_span \<Rightarrow> audio_chunk_spec \<Rightarrow> int \<Rightarrow> int \<Rightarrow> int option" where
  "source_frame s spec input_frames i =
     (let src = copy_start_sample s + i in
      if src < 0 \<or> src \<ge> input_frames then
        (if \<not> should_reflect_pad s spec then None
         else case reflect_index src input_frames of Inl _ \<Rightarrow> None | Inr k \<Rightarrow> Some k)
      else Some src)"

definition copy_planar_chunk :: "real list \<Rightarrow> real list \<Rightarrow> int \<Rightarrow> int \<Rightarrow> audio_chunk_span \<Rightarrow> audio_chunk_spec \<Rightarrow> buffer_error + real list" where
  "copy_planar_chunk out input lanes input_frames s spec =
     validate_copy_shape input lanes input_frames out spec
       (Inr (fold (\<lambda>(lane, i) dst.
               (case source_frame s spec input_frames i of
                  None \<Rightarrow> dst
                | Some src \<Rightarrow> dst[planar_index lane i (chunk_samples spec) := input ! planar_index lane src input_frames]))
             (loop_pairs lanes (chunk_samples spec)) (replicate (length out) 0)))"

definition copy_interleaved_chunk_to_planar ::
  "real list \<Rightarrow> real list \<Rightarrow> int \<Rightarrow> int \<Rightarrow> audio_chunk_span \<Rightarrow> audio_chunk_spec \<Rightarrow> buffer_error + real list" where
  "copy_interleaved_chunk_to_planar out input channels input_frames s spec =
     validate_copy_shape input channels input_frames out spec
       (Inr (fold (\<lambda>(ch, i) dst.
               (case source_frame s spec input_frames i of
                  None \<Rightarrow> dst
                | Some src \<Rightarrow> dst[planar_index ch i (chunk_samples spec) := input ! nat (src * channels + ch)]))
             (loop_pairs channels (chunk_samples spec)) (replicate (length out) 0)))"

subsection \<open>Windows\<close>

definition make_triangular_overlap_window :: "int \<Rightarrow> buffer_error + real list" where
  "make_triangular_overlap_window n =
     need_positive n ''chunk samples''
       (let rising = n div 2;
            falling = n - rising;
            window = map (\<lambda>i. real_of_int (i + 1)) [0..rising - 1] @ map (\<lambda>i. real_of_int (falling - i)) [0..falling - 1];
            max_value = Max (set window)
        in Inr (map (\<lambda>v. v / max_value) window))"

definition fade_alpha :: "int \<Rightarrow> int \<Rightarrow> real" where
  "fade_alpha fade i = (if fade = 1 then 1 else real_of_int i / real_of_int (fade - 1))"

definition make_linear_fade_window :: "int \<Rightarrow> int \<Rightarrow> buffer_error + real list" where
  "make_linear_fade_window n fade =
     need_positive n ''chunk samples''
       (if fade < 0 \<or> fade * 2 > n then Inl Bad_Fade
        else Inr (fold (\<lambda>i w. (w[nat i := fade_alpha fade i])[nat (n - fade + i) := 1 - fade_alpha fade i])
                   [0..fade - 1] (replicate (nat n) 1)))"

subsection \<open>Overlap-add\<close>

definition expected_weights :: "counter_mode \<Rightarrow> int \<Rightarrow> int \<Rightarrow> int" where
  "expected_weights mode lanes output_frames = (if mode = Shared_Across_Lanes then output_frames else lanes * output_frames)"

definition add_at :: "nat \<Rightarrow> real \<Rightarrow> real list \<Rightarrow> real list" where
  "add_at k v xs = xs[k := xs ! k + v]"

definition overlap_pass :: "real list \<Rightarrow> int \<Rightarrow> audio_chunk_span \<Rightarrow> real list \<Rightarrow> counter_mode \<Rightarrow> int \<times> int \<Rightarrow> real list \<times> real list \<Rightarrow> real list \<times> real list" where
  "overlap_pass chunk output_frames s window mode = (\<lambda>(lane, i) (out, weights).
     (let chunk_frame = valid_start_in_chunk s + i;
          output_frame = output_start_sample s + i;
          gain = window ! nat chunk_frame
      in (add_at (planar_index lane output_frame output_frames) (chunk ! planar_index lane chunk_frame (int (length window)) * gain) out,
          if mode = Per_Lane \<or> lane = 0 then add_at (weight_index mode lane output_frame output_frames) gain weights else weights)))"

definition overlap_add_planar_chunk ::
  "real list \<Rightarrow> real list \<Rightarrow> real list \<Rightarrow> int \<Rightarrow> int \<Rightarrow> audio_chunk_span \<Rightarrow> real list \<Rightarrow> counter_mode \<Rightarrow> buffer_error + real list \<times> real list" where
  "overlap_add_planar_chunk out weights chunk lanes output_frames s window mode =
     (let n = int (length window) in
      need_positive lanes ''lanes'' (need_positive output_frames ''output frames'' (need_positive n ''window samples''
        (if int (length chunk) \<noteq> lanes * n \<or> int (length out) \<noteq> lanes * output_frames then Inl Overlap_Size
         else if int (length weights) \<noteq> expected_weights mode lanes output_frames then Inl Weight_Size
         else if valid_start_in_chunk s < 0 \<or> valid_start_in_chunk s + valid_samples s > n \<or> output_start_sample s < 0 \<or>
                 output_start_sample s + valid_samples s > output_frames then Inl Overlap_Span
         else Inr (fold (overlap_pass chunk output_frames s window mode) (loop_pairs lanes (valid_samples s)) (out, weights))))))"

definition normalize_overlap_added_planar :: "real list \<Rightarrow> real list \<Rightarrow> int \<Rightarrow> int \<Rightarrow> counter_mode \<Rightarrow> buffer_error + real list" where
  "normalize_overlap_added_planar out weights lanes output_frames mode =
     need_positive lanes ''lanes'' (need_positive output_frames ''output frames''
       (if int (length out) \<noteq> lanes * output_frames then Inl Normalize_Size
        else if int (length weights) \<noteq> expected_weights mode lanes output_frames then Inl Normalize_Weight_Size
        else Inr (fold (\<lambda>(lane, frame) xs.
               (let w = weights ! weight_index mode lane frame output_frames;
                    denom = (if w > 1 / 100000000 then w else 1);
                    k = planar_index lane frame output_frames
                in xs[k := xs ! k / denom]))
             (loop_pairs lanes output_frames) out)))"

subsection \<open>Loops that touch each element once\<close>

lemma fold_local_length: "length (fold (\<lambda>p xs. xs[h p := g p (xs ! h p)]) ps xs) = length xs"
  by (induction ps arbitrary: xs) auto

lemma fold_local_other: "k \<notin> h ` set ps \<Longrightarrow> fold (\<lambda>p xs. xs[h p := g p (xs ! h p)]) ps xs ! k = xs ! k"
  by (induction ps arbitrary: xs) auto

lemma fold_local_at:
  "distinct ps \<Longrightarrow> inj_on h (set ps) \<Longrightarrow> p \<in> set ps \<Longrightarrow> h p < length xs \<Longrightarrow>
   fold (\<lambda>p xs. xs[h p := g p (xs ! h p)]) ps xs ! h p = g p (xs ! h p)"
proof (induction ps arbitrary: xs)
  case (Cons q ps)
  show ?case
  proof (cases "p = q")
    case True
    have "h q \<notin> h ` set ps" using Cons.prems(1,2) by (auto simp: inj_on_def)
    with True Cons.prems(4) show ?thesis by (simp add: fold_local_other)
  next
    case False
    then have "h p \<noteq> h q" "p \<in> set ps" using Cons.prems(2,3) by (auto simp: inj_on_def)
    with Cons False show ?thesis by simp
  qed
qed simp

lemma fold_if: "fold (\<lambda>p s. if P p then f p s else s) ps s = fold f (filter P ps) s"
  by (induction ps arbitrary: s) auto

lemma fold_pair: "fold (\<lambda>p (x, y). (f p x, g p y)) ps (x, y) = (fold f ps x, fold g ps y)"
  by (induction ps arbitrary: x y) auto

lemma set_loop_pairs: "set (loop_pairs lanes n) = {0..<lanes} \<times> {0..<n}"
  by (auto simp: loop_pairs_def)

lemma distinct_loop_pairs: "distinct (loop_pairs lanes n)"
  by (simp add: loop_pairs_def distinct_product)

lemma int_planar: "0 \<le> l \<Longrightarrow> 0 \<le> f \<Longrightarrow> f < n \<Longrightarrow> int (planar_index l f n) = l * n + f"
  by (simp add: planar_index_def)

lemma planar_eq:
  assumes "0 \<le> l" "0 \<le> f" "f < n" "0 \<le> l'" "0 \<le> f'" "f' < n"
  shows "planar_index l f n = planar_index l' f' n \<longleftrightarrow> l = l' \<and> f = f'"
proof
  assume "planar_index l f n = planar_index l' f' n"
  then have eq: "l * n + f = l' * n + f'" using int_planar [of l f n] int_planar [of l' f' n] assms by simp
  have "(l * n + f) mod n = f" "(l' * n + f') mod n = f'" "(l * n + f) div n = l" "(l' * n + f') div n = l'"
    using assms by simp_all
  with eq show "l = l' \<and> f = f'" by metis
qed simp

lemma planar_less: "0 \<le> l \<Longrightarrow> l < lanes \<Longrightarrow> 0 \<le> f \<Longrightarrow> f < n \<Longrightarrow> int k = lanes * n \<Longrightarrow> planar_index l f n < k"
proof -
  assume a: "0 \<le> l" "l < lanes" "0 \<le> f" "f < n" "int k = lanes * n"
  have "l * n + f < (l + 1) * n" using a by (simp add: distrib_right)
  also have "\<dots> \<le> lanes * n" using a by (intro mult_right_mono) auto
  finally show ?thesis using int_planar [of l f n] a by linarith
qed

text \<open>The element of row \<open>l\<close> and frame \<open>f\<close>.\<close>

definition elem :: "real list \<Rightarrow> int \<Rightarrow> int \<Rightarrow> int \<Rightarrow> real" where
  "elem xs n l f = xs ! planar_index l f n"

lemma inj_planar: "inj_on (\<lambda>(l, i). planar_index l (s + i) n) ({0..<lanes} \<times> {0..<v})" if "0 \<le> s" "s + v \<le> n"
  using that by (auto simp: inj_on_def planar_eq)

subsection \<open>One chunk\<close>

definition copied :: "real list \<Rightarrow> int \<Rightarrow> audio_chunk_span \<Rightarrow> audio_chunk_spec \<Rightarrow> int \<times> int \<Rightarrow> real \<Rightarrow> real" where
  "copied input n s spec = (\<lambda>(l, i) old. case source_frame s spec n i of None \<Rightarrow> old | Some src \<Rightarrow> input ! planar_index l src n)"

lemma copy_planar_chunk_fold:
  assumes "copy_planar_chunk out input lanes n s spec = Inr chunk"
  shows "int (length out) = lanes * chunk_samples spec" "int (length chunk) = lanes * chunk_samples spec"
    "chunk = fold (\<lambda>p xs. xs[(case p of (l, i) \<Rightarrow> planar_index l (0 + i) (chunk_samples spec)) :=
        copied input n s spec p (xs ! (case p of (l, i) \<Rightarrow> planar_index l (0 + i) (chunk_samples spec)))])
      (loop_pairs lanes (chunk_samples spec)) (replicate (length out) 0)"
proof -
  let ?c = "chunk_samples spec"
  let ?h = "\<lambda>(l, i). planar_index l (0 + i) ?c"
  have body: "(\<lambda>(lane, i) dst. case source_frame s spec n i of None \<Rightarrow> dst
        | Some src \<Rightarrow> dst[planar_index lane i ?c := input ! planar_index lane src n]) = (\<lambda>p xs. xs[?h p := copied input n s spec p (xs ! ?h p)])"
    by (auto simp: fun_eq_iff copied_def split: option.splits)
  show len: "int (length out) = lanes * ?c" using assms
    by (auto simp: copy_planar_chunk_def validate_copy_shape_def need_positive_def split: if_splits)
  show c: "chunk = fold (\<lambda>p xs. xs[?h p := copied input n s spec p (xs ! ?h p)]) (loop_pairs lanes ?c) (replicate (length out) 0)"
    using assms unfolding copy_planar_chunk_def validate_copy_shape_def need_positive_def body by (auto split: if_splits)
  show "int (length chunk) = lanes * ?c" using len unfolding c by (simp add: fold_local_length)
qed

lemma copy_planar_chunk_at:
  assumes "copy_planar_chunk out input lanes n s spec = Inr chunk" "0 \<le> l" "l < lanes" "0 \<le> i" "i < chunk_samples spec"
    "0 \<le> copy_start_sample s + i" "copy_start_sample s + i < n"
  shows "elem chunk (chunk_samples spec) l i = elem input n l (copy_start_sample s + i)"
proof -
  let ?c = "chunk_samples spec"
  let ?h = "\<lambda>(l, i). planar_index l (0 + i) ?c"
  note c = copy_planar_chunk_fold [OF assms(1)]
  have inj: "inj_on ?h (set (loop_pairs lanes ?c))" unfolding set_loop_pairs by (rule inj_planar) simp_all
  have mem: "(l, i) \<in> set (loop_pairs lanes ?c)" using assms by (simp add: set_loop_pairs)
  have "?h (l, i) < length (replicate (length out) (0 :: real))" using planar_less [OF assms(2-5) c(1)] by simp
  from fold_local_at [OF distinct_loop_pairs inj mem this, of "copied input n s spec"] c(3)
  have "chunk ! planar_index l i ?c = copied input n s spec (l, i) (replicate (length out) 0 ! planar_index l i ?c)" by simp
  moreover have "source_frame s spec n i = Some (copy_start_sample s + i)" using assms(6,7) by (simp add: source_frame_def Let_def)
  ultimately show ?thesis by (simp add: elem_def copied_def)
qed

text \<open>What one chunk adds to frame \<open>f\<close>.\<close>

definition touches :: "audio_chunk_span \<Rightarrow> int \<Rightarrow> bool" where
  "touches s f \<longleftrightarrow> output_start_sample s \<le> f \<and> f < output_start_sample s + valid_samples s"

definition chunk_pos :: "audio_chunk_span \<Rightarrow> int \<Rightarrow> int" where
  "chunk_pos s f = valid_start_in_chunk s + (f - output_start_sample s)"

definition gain_at :: "real list \<Rightarrow> audio_chunk_span \<Rightarrow> int \<Rightarrow> real" where
  "gain_at window s f = (if touches s f then window ! nat (chunk_pos s f) else 0)"

definition overlap_ok :: "int \<Rightarrow> real list \<Rightarrow> audio_chunk_span \<Rightarrow> bool" where
  "overlap_ok output_frames window s \<longleftrightarrow>
     0 \<le> valid_start_in_chunk s \<and> valid_start_in_chunk s + valid_samples s \<le> int (length window) \<and>
     0 \<le> output_start_sample s \<and> output_start_sample s + valid_samples s \<le> output_frames"

lemma overlap_add_at:
  assumes "0 < lanes" "0 < n" "0 < length window" "int (length chunk) = lanes * int (length window)" "int (length out) = lanes * n"
    "int (length weights) = expected_weights mode lanes n" "overlap_ok n window s"
  shows "\<exists>out' weights'. overlap_add_planar_chunk out weights chunk lanes n s window mode = Inr (out', weights') \<and>
    length out' = length out \<and> length weights' = length weights \<and>
    (\<forall>l f. 0 \<le> l \<and> l < lanes \<and> 0 \<le> f \<and> f < n \<longrightarrow>
      elem out' n l f = elem out n l f + (if touches s f then elem chunk (int (length window)) l (chunk_pos s f) else 0) * gain_at window s f \<and>
      weights' ! weight_index mode l f n = weights ! weight_index mode l f n + gain_at window s f)"
proof -
  let ?os = "output_start_sample s" and ?vs = "valid_start_in_chunk s" and ?v = "valid_samples s" and ?c = "int (length window)"
  let ?ps = "loop_pairs lanes ?v"
  let ?h = "\<lambda>(l, i). planar_index l (?os + i) n"
  let ?val = "\<lambda>(l, i). chunk ! planar_index l (?vs + i) ?c * window ! nat (?vs + i)"
  let ?P = "\<lambda>(l, i :: int). mode = Per_Lane \<or> l = 0"
  let ?k = "\<lambda>(l, i). weight_index mode l (?os + i) n"
  let ?w = "\<lambda>(l :: int, i). window ! nat (?vs + i)"
  have pass: "overlap_pass chunk n s window mode =
      (\<lambda>p (xs, ws). (xs[?h p := xs ! ?h p + ?val p], if ?P p then ws[?k p := ws ! ?k p + ?w p] else ws))"
    by (auto simp: overlap_pass_def fun_eq_iff Let_def add_at_def)
  let ?out = "fold (\<lambda>p xs. xs[?h p := xs ! ?h p + ?val p]) ?ps out"
  let ?ws = "fold (\<lambda>p ws. ws[?k p := ws ! ?k p + ?w p]) (filter ?P ?ps) weights"
  have run: "overlap_add_planar_chunk out weights chunk lanes n s window mode = Inr (?out, ?ws)"
    using assms unfolding overlap_add_planar_chunk_def need_positive_def Let_def pass fold_pair fold_if
    by (auto simp: overlap_ok_def)
  have os: "0 \<le> ?os" "?os + ?v \<le> n" using assms(7) by (auto simp: overlap_ok_def)
  have inj: "inj_on ?h (set ?ps)" unfolding set_loop_pairs using os by (intro inj_planar) auto
  have out_at: "elem ?out n l f = elem out n l f + (if touches s f then elem chunk ?c l (chunk_pos s f) else 0) * gain_at window s f"
    if lf: "0 \<le> l" "l < lanes" "0 \<le> f" "f < n" for l f
  proof (cases "touches s f")
    case True
    then have p: "(l, f - ?os) \<in> set ?ps" using lf by (auto simp: set_loop_pairs touches_def)
    have hp: "?h (l, f - ?os) = planar_index l f n" by simp
    have "?h (l, f - ?os) < length out" unfolding hp by (rule planar_less [OF lf assms(5)])
    from fold_local_at [OF distinct_loop_pairs inj p this, of "\<lambda>p x. x + ?val p"] True show ?thesis
      by (simp add: elem_def gain_at_def chunk_pos_def)
  next
    case False
    have "planar_index l f n \<notin> ?h ` set ?ps"
    proof
      assume "planar_index l f n \<in> ?h ` set ?ps"
      then obtain l' i where li: "0 \<le> l'" "0 \<le> i" "i < ?v" "planar_index l f n = planar_index l' (?os + i) n" by (auto simp: set_loop_pairs)
      then have "f = ?os + i" using planar_eq [of l f n l' "?os + i"] lf os by auto
      with li False show False by (simp add: touches_def)
    qed
    from fold_local_other [OF this, of "\<lambda>p x. x + ?val p" out] False show ?thesis by (simp add: elem_def gain_at_def)
  qed
  have w_at: "?ws ! weight_index mode l f n = weights ! weight_index mode l f n + gain_at window s f"
    if lf: "0 \<le> l" "l < lanes" "0 \<le> f" "f < n" for l f
  proof -
    let ?l = "if mode = Per_Lane then l else 0"
    have wl: "weight_index mode l f n = ?k (?l, f - ?os)" by (cases mode) (simp_all add: weight_index_def)
    have injk: "inj_on ?k (set (filter ?P ?ps))"
      using inj os by (cases mode) (auto simp: weight_index_def inj_on_def set_loop_pairs)
    show ?thesis
    proof (cases "touches s f")
      case True
      then have p: "(?l, f - ?os) \<in> set (filter ?P ?ps)" using lf assms(1) by (cases mode) (auto simp: set_loop_pairs touches_def)
      have "?k (?l, f - ?os) < length weights"
        using planar_less [OF lf, of "length weights"] assms(6) lf by (cases mode) (simp_all add: weight_index_def expected_weights_def)
      from fold_local_at [OF distinct_filter [OF distinct_loop_pairs] injk p this, of "\<lambda>p x. x + ?w p"] True show ?thesis
        unfolding wl by (simp add: gain_at_def chunk_pos_def)
    next
      case False
      have "?k (?l, f - ?os) \<notin> ?k ` set (filter ?P ?ps)"
      proof
        assume "?k (?l, f - ?os) \<in> ?k ` set (filter ?P ?ps)"
        then obtain q where q: "?k (?l, f - ?os) = ?k q" "q \<in> set (filter ?P ?ps)" by (rule imageE)
        obtain l' i where q': "q = (l', i)" by (cases q)
        have li: "0 \<le> l'" "0 \<le> i" "i < ?v" "weight_index mode l f n = weight_index mode l' (?os + i) n"
          using q q' wl by (auto simp: set_loop_pairs)
        then have "f = ?os + i" using planar_eq [of l f n l' "?os + i"] lf os by (cases mode) (auto simp: weight_index_def)
        with li False show False by (simp add: touches_def)
      qed
      from fold_local_other [OF this, of "\<lambda>p x. x + ?w p" weights] False show ?thesis unfolding wl by (simp add: gain_at_def)
    qed
  qed
  show ?thesis using run out_at w_at fold_local_length [of ?h "\<lambda>p x. x + ?val p" ?ps out] fold_local_length [of ?k "\<lambda>p x. x + ?w p" "filter ?P ?ps" weights]
    by blast
qed

subsection \<open>The planned spans\<close>

definition planned :: "int \<Rightarrow> int \<Rightarrow> audio_chunk_span \<Rightarrow> bool" where
  "planned n c s \<longleftrightarrow>
     0 \<le> output_start_sample s \<and> output_start_sample s + valid_samples s \<le> n \<and> 0 \<le> valid_start_in_chunk s \<and>
     valid_start_in_chunk s + valid_samples s \<le> c \<and> copy_start_sample s = output_start_sample s - valid_start_in_chunk s"

lemma plan_span_planned:
  assumes "0 \<le> start" "start < n" "0 < hop_samples spec" "hop_samples spec \<le> chunk_samples spec"
  shows "planned n (chunk_samples spec) (plan_span n spec start idx)"
    "start \<le> f \<Longrightarrow> f < n \<Longrightarrow> f < start + hop_samples spec \<Longrightarrow> touches (plan_span n spec start idx) f"
  using assms by (auto simp: planned_def plan_span_def touches_def Let_def)

lemma plan_loop_planned:
  "0 \<le> start \<Longrightarrow> 0 < hop_samples spec \<Longrightarrow> hop_samples spec \<le> chunk_samples spec \<Longrightarrow>
   \<exists>ss. plan_loop n spec start idx spans = Inr (spans @ ss) \<and> (\<forall>s\<in>set ss. planned n (chunk_samples spec) s) \<and>
     (\<forall>f. start \<le> f \<and> f < n \<longrightarrow> (\<exists>s\<in>set ss. touches s f))"
proof (induction n spec start idx spans rule: plan_loop.induct)
  case (1 n spec start idx spans)
  note unf = plan_loop.simps [of n spec start idx spans]
  show ?case
  proof (cases "start < n")
    case False
    then show ?thesis by (simp add: unf)
  next
    case True
    let ?s = "plan_span n spec start idx"
    have c: "start < n \<and> 0 < hop_samples spec" using True "1.prems"(2) by simp
    have pl: "planned n (chunk_samples spec) ?s" by (rule plan_span_planned(1) [OF "1.prems"(1) True "1.prems"(2,3)])
    then have ok: "\<not> (valid_start_in_chunk ?s < 0 \<or> valid_start_in_chunk ?s + valid_samples ?s > chunk_samples spec)"
      by (auto simp: planned_def)
    have "0 \<le> start + hop_samples spec" using "1.prems" by simp
    from "1.IH" [OF c refl ok this "1.prems"(2,3)] obtain ss where
      ss: "plan_loop n spec (start + hop_samples spec) (idx + 1) (spans @ [?s]) = Inr ((spans @ [?s]) @ ss)"
      "\<forall>s\<in>set ss. planned n (chunk_samples spec) s" "\<forall>f. start + hop_samples spec \<le> f \<and> f < n \<longrightarrow> (\<exists>s\<in>set ss. touches s f)" by blast
    have "plan_loop n spec start idx spans = Inr (spans @ ?s # ss)" using c ok ss(1) by (simp add: unf Let_def)
    moreover have "\<exists>s\<in>set (?s # ss). touches s f" if "start \<le> f" "f < n" for f
      using plan_span_planned(2) [OF "1.prems"(1) True "1.prems"(2,3) that, of idx] ss(3) that
      by (cases "f < start + hop_samples spec") auto
    ultimately show ?thesis using pl ss(2) by (intro exI [of _ "?s # ss"]) auto
  qed
qed

subsection \<open>Cutting and overlap-adding gives the signal back\<close>

text \<open>All chunks of a signal, each added unchanged.\<close>

fun rebuild :: "real list \<Rightarrow> int \<Rightarrow> int \<Rightarrow> audio_chunk_spec \<Rightarrow> real list \<Rightarrow> counter_mode \<Rightarrow> audio_chunk_span list \<Rightarrow>
    real list \<times> real list \<Rightarrow> buffer_error + real list \<times> real list" where
  "rebuild input lanes n spec window mode [] st = Inr st"
| "rebuild input lanes n spec window mode (s # ss) (out, weights) =
     bind_sum (copy_planar_chunk (replicate (nat (lanes * chunk_samples spec)) 0) input lanes n s spec) (\<lambda>chunk.
     bind_sum (overlap_add_planar_chunk out weights chunk lanes n s window mode) (rebuild input lanes n spec window mode ss))"

definition in_range :: "int \<Rightarrow> int \<Rightarrow> int \<Rightarrow> int \<Rightarrow> bool" where
  "in_range lanes n l f \<longleftrightarrow> 0 \<le> l \<and> l < lanes \<and> 0 \<le> f \<and> f < n"

definition rebuilt :: "real list \<Rightarrow> int \<Rightarrow> int \<Rightarrow> counter_mode \<Rightarrow> audio_chunk_span list \<Rightarrow> real list \<times> real list \<Rightarrow> bool" where
  "rebuilt input lanes n mode past = (\<lambda>(out, weights).
     int (length out) = lanes * n \<and> int (length weights) = expected_weights mode lanes n \<and>
     (\<forall>l f. in_range lanes n l f \<longrightarrow>
        elem out n l f = elem input n l f * weights ! weight_index mode l f n \<and> 0 \<le> weights ! weight_index mode l f n \<and>
        ((\<exists>s\<in>set past. touches s f) \<longrightarrow> 1 / 100000000 < weights ! weight_index mode l f n)))"

lemma rebuild_step:
  assumes "rebuilt input lanes n mode past (out, weights)" "planned n (chunk_samples spec) s" "0 < lanes" "0 < n" "0 < chunk_samples spec"
    "int (length input) = lanes * n" "int (length window) = chunk_samples spec" "\<forall>g\<in>set window. 1 / 100000000 < g"
  shows "\<exists>st. rebuild input lanes n spec window mode (s # ss) (out, weights) = rebuild input lanes n spec window mode ss st \<and>
    rebuilt input lanes n mode (past @ [s]) st"
proof -
  let ?c = "chunk_samples spec"
  have shape: "int (length out) = lanes * n" "int (length weights) = expected_weights mode lanes n" using assms(1) by (auto simp: rebuilt_def)
  obtain chunk where chunk: "copy_planar_chunk (replicate (nat (lanes * ?c)) 0) input lanes n s spec = Inr chunk"
    using assms(3-6) by (simp add: copy_planar_chunk_def validate_copy_shape_def need_positive_def)
  have len: "int (length chunk) = lanes * int (length window)" using copy_planar_chunk_fold(2) [OF chunk] assms(7) by simp
  have ov: "overlap_ok n window s" using assms(2,7) by (simp add: overlap_ok_def planned_def)
  have "0 < length window" using assms(5,7) by linarith
  from overlap_add_at [OF assms(3,4) this len shape ov]
  obtain out' weights' where o: "overlap_add_planar_chunk out weights chunk lanes n s window mode = Inr (out', weights')"
    "length out' = length out" "length weights' = length weights"
    "\<And>l f. in_range lanes n l f \<Longrightarrow>
      elem out' n l f = elem out n l f + (if touches s f then elem chunk (int (length window)) l (chunk_pos s f) else 0) * gain_at window s f \<and>
      weights' ! weight_index mode l f n = weights ! weight_index mode l f n + gain_at window s f"
    unfolding in_range_def by blast
  have same: "elem chunk (int (length window)) l (chunk_pos s f) = elem input n l f" if "in_range lanes n l f" "touches s f" for l f
    using copy_planar_chunk_at [OF chunk, of l "chunk_pos s f"] assms(2,7) that
    by (simp add: in_range_def touches_def chunk_pos_def planned_def)
  have gain: "1 / 100000000 < gain_at window s f" if "touches s f" for f
  proof -
    have "nat (chunk_pos s f) < length window" using ov that by (auto simp: overlap_ok_def chunk_pos_def touches_def)
    then show ?thesis using assms(8) that by (simp add: gain_at_def)
  qed
  have gain0: "0 \<le> gain_at window s f" for f using gain [of f] by (cases "touches s f") (auto simp: gain_at_def)
  have "rebuilt input lanes n mode (past @ [s]) (out', weights')"
    unfolding rebuilt_def prod.case
  proof (intro conjI allI impI)
    fix l f assume r: "in_range lanes n l f"
    have old: "elem out n l f = elem input n l f * weights ! weight_index mode l f n" "0 \<le> weights ! weight_index mode l f n"
      "(\<exists>s\<in>set past. touches s f) \<longrightarrow> 1 / 100000000 < weights ! weight_index mode l f n"
      using assms(1) r by (auto simp: rebuilt_def)
    show "elem out' n l f = elem input n l f * weights' ! weight_index mode l f n"
      using o(4) [OF r] old(1) same [OF r] by (cases "touches s f") (simp_all add: distrib_left gain_at_def)
    show "0 \<le> weights' ! weight_index mode l f n" using o(4) [OF r] old(2) gain0 [of f] by simp
    show "1 / 100000000 < weights' ! weight_index mode l f n" if "\<exists>s\<in>set (past @ [s]). touches s f"
      using o(4) [OF r] old(2,3) gain0 [of f] gain [of f] that by auto
  qed (use o(2,3) shape in simp_all)
  then show ?thesis using chunk o(1) by auto
qed

lemma rebuild_all:
  assumes "\<forall>s\<in>set ss. planned n (chunk_samples spec) s" "0 < lanes" "0 < n" "0 < chunk_samples spec"
    "int (length input) = lanes * n" "int (length window) = chunk_samples spec" "\<forall>g\<in>set window. 1 / 100000000 < g"
  shows "rebuilt input lanes n mode past st \<Longrightarrow>
    \<exists>st'. rebuild input lanes n spec window mode ss st = Inr st' \<and> rebuilt input lanes n mode (past @ ss) st'"
  using assms(1)
proof (induction ss arbitrary: past st)
  case (Cons s ss)
  obtain out weights where st: "st = (out, weights)" by (cases st)
  from rebuild_step [OF Cons.prems(1) [unfolded st] _ assms(2-7), of s ss] Cons.prems(2)
  obtain st' where "rebuild input lanes n spec window mode (s # ss) st = rebuild input lanes n spec window mode ss st'"
    "rebuilt input lanes n mode (past @ [s]) st'" unfolding st by auto
  with Cons.IH [of "past @ [s]" st'] Cons.prems(2) show ?case by simp
qed simp

lemma normalize_rebuilt:
  assumes "rebuilt input lanes n mode past (out, weights)" "\<forall>f. 0 \<le> f \<and> f < n \<longrightarrow> (\<exists>s\<in>set past. touches s f)" "0 < lanes" "0 < n"
    "int (length input) = lanes * n"
  shows "normalize_overlap_added_planar out weights lanes n mode = Inr input"
proof -
  let ?h = "\<lambda>(l, f). planar_index l (0 + f) n"
  let ?d = "\<lambda>(l, f). let w = weights ! weight_index mode l f n in if w > 1 / 100000000 then w else 1"
  let ?out = "fold (\<lambda>p xs. xs[?h p := xs ! ?h p / ?d p]) (loop_pairs lanes n) out"
  have shape: "int (length out) = lanes * n" "int (length weights) = expected_weights mode lanes n" using assms(1) by (auto simp: rebuilt_def)
  have body: "(\<lambda>(lane, frame) xs. let w = weights ! weight_index mode lane frame n; denom = if w > 1 / 100000000 then w else 1;
      k = planar_index lane frame n in xs[k := xs ! k / denom]) = (\<lambda>p xs. xs[?h p := xs ! ?h p / ?d p])"
    by (auto simp: fun_eq_iff Let_def)
  have run: "normalize_overlap_added_planar out weights lanes n mode = Inr ?out"
    using assms(3,4) shape unfolding normalize_overlap_added_planar_def need_positive_def body by simp
  have inj: "inj_on ?h (set (loop_pairs lanes n))" unfolding set_loop_pairs by (rule inj_planar) simp_all
  have el: "?out ! planar_index l f n = input ! planar_index l f n" if r: "in_range lanes n l f" for l f
  proof -
    have mem: "(l, f) \<in> set (loop_pairs lanes n)" using r by (simp add: set_loop_pairs in_range_def)
    have "?h (l, f) < length out" using planar_less [of l lanes f n "length out"] r shape(1) by (simp add: in_range_def)
    from fold_local_at [OF distinct_loop_pairs inj mem this, of "\<lambda>p x. x / ?d p"]
    have "?out ! planar_index l f n = out ! planar_index l f n / ?d (l, f)" by simp
    moreover have "1 / 100000000 < weights ! weight_index mode l f n" "elem out n l f = elem input n l f * weights ! weight_index mode l f n"
      using assms(1,2) r by (auto simp: rebuilt_def in_range_def)
    moreover have "weights ! weight_index mode l f n \<noteq> 0" using calculation(2) by auto
    ultimately show ?thesis by (simp add: elem_def Let_def)
  qed
  have "?out = input"
  proof (rule nth_equalityI)
    have "length ?out = length out" by (rule fold_local_length)
    then show len: "length ?out = length input" using shape(1) assms(5) by linarith
    fix k assume "k < length ?out"
    then have k: "int k < lanes * n" using assms(5) len by linarith
    have pk: "planar_index (int k div n) (int k mod n) n = k" using assms(4) by (simp add: planar_index_def)
    have "in_range lanes n (int k div n) (int k mod n)"
    proof -
      have "int k div n * n \<le> int k" using assms(4) by (simp add: minus_mod_eq_div_mult [symmetric])
      then have "int k div n * n < lanes * n" using k by linarith
      then have "int k div n < lanes" using assms(4) by (simp add: mult_less_cancel_right)
      then show ?thesis using assms(4) by (simp add: in_range_def pos_imp_zdiv_nonneg_iff)
    qed
    from el [OF this] show "?out ! k = input ! k" by (simp only: pk)
  qed
  with run show ?thesis by simp
qed

lemma rebuilt_init:
  "0 < lanes \<Longrightarrow> 0 < n \<Longrightarrow> rebuilt input lanes n mode [] (replicate (nat (lanes * n)) 0, replicate (nat (expected_weights mode lanes n)) 0)"
proof -
  assume pos: "0 < lanes" "0 < n"
  have zero: "elem (replicate (nat (lanes * n)) 0) n l f = 0 \<and> replicate (nat (expected_weights mode lanes n)) (0 :: real) ! weight_index mode l f n = 0"
    if "in_range lanes n l f" for l f
  proof -
    have "planar_index l f n < nat (lanes * n)" using planar_less [of l lanes f n "nat (lanes * n)"] that pos by (simp add: in_range_def)
    then show ?thesis using that by (cases mode) (simp_all add: elem_def weight_index_def expected_weights_def in_range_def)
  qed
  have "int (nat (expected_weights mode lanes n)) = expected_weights mode lanes n" using pos by (simp add: expected_weights_def)
  then show ?thesis using zero pos by (simp add: rebuilt_def)
qed

text \<open>
  C39. Cutting a signal into the planned chunks and overlap-adding the unchanged chunks with any
  positive window gives the signal back after normalisation: for every number of lanes, every hop up
  to the chunk length, centred or aligned tails, zero or reflected padding, and both weight counters.
  (Gains above the normalisation threshold \<open>1e-8\<close>.)
\<close>

theorem overlap_add_reconstructs:
  assumes "plan_audio_chunks n spec = Inr spans" "0 < lanes" "int (length input) = lanes * n"
    "int (length window) = chunk_samples spec" "\<forall>g\<in>set window. 1 / 100000000 < g"
  shows "\<exists>out weights. rebuild input lanes n spec window mode spans
      (replicate (nat (lanes * n)) 0, replicate (nat (expected_weights mode lanes n)) 0) = Inr (out, weights) \<and>
    normalize_overlap_added_planar out weights lanes n mode = Inr input"
proof -
  have pos: "0 < n" "0 < chunk_samples spec" "0 < hop_samples spec" "hop_samples spec \<le> chunk_samples spec"
    and pl: "plan_loop n spec 0 0 [] = Inr spans"
    using assms(1) by (auto simp: plan_audio_chunks_def require_positive_def split: if_splits)
  from plan_loop_planned [OF order_refl pos(3,4), of n 0 "[]"] pl
  have spans: "\<forall>s\<in>set spans. planned n (chunk_samples spec) s" "\<forall>f. 0 \<le> f \<and> f < n \<longrightarrow> (\<exists>s\<in>set spans. touches s f)" by auto
  from rebuild_all [OF spans(1) assms(2) pos(1,2) assms(3-5) rebuilt_init [OF assms(2) pos(1), of input mode]]
  obtain out weights where r: "rebuild input lanes n spec window mode spans
      (replicate (nat (lanes * n)) 0, replicate (nat (expected_weights mode lanes n)) 0) = Inr (out, weights)"
    "rebuilt input lanes n mode spans (out, weights)" by (metis append_Nil surj_pair)
  from normalize_rebuilt [OF r(2) spans(2) assms(2) pos(1) assms(3)] r(1) show ?thesis by blast
qed

lemma triangular_window_positive:
  assumes "make_triangular_overlap_window n = Inr window" "n < 100000000"
  shows "int (length window) = n \<and> (\<forall>g\<in>set window. 1 / 100000000 < g)"
proof -
  let ?r = "n div 2" and ?f = "n - n div 2"
  let ?w = "map (\<lambda>i. real_of_int (i + 1)) [0..?r - 1] @ map (\<lambda>i. real_of_int (?f - i)) [0..?f - 1]"
  have n: "0 < n" and w: "window = map (\<lambda>v. v / Max (set ?w)) ?w"
    using assms(1) by (auto simp: make_triangular_overlap_window_def need_positive_def Let_def split: if_splits)
  have rf: "0 \<le> ?r" "0 < ?f" "?r + ?f = n" "?f \<le> n" "?r \<le> n" using n by presburger+
  have vals: "1 \<le> v \<and> v < 100000000" if "v \<in> set ?w" for v
    using that rf assms(2) by auto
  have "set ?w \<noteq> {}" using rf(2) by simp
  then have m: "Max (set ?w) \<in> set ?w" by (intro Max_in) simp_all
  have "length ?w = nat n" using rf by simp
  moreover have "1 / 100000000 < v / Max (set ?w)" if "v \<in> set ?w" for v
  proof -
    have "Max (set ?w) < 100000000 * v" using vals [OF m] vals [OF that] by linarith
    then show ?thesis using vals [OF m] by (simp add: field_simps)
  qed
  ultimately show ?thesis
  proof (intro conjI ballI)
    show "int (length window) = n" using n \<open>length ?w = nat n\<close> by (simp add: w del: map_append)
    fix g assume "g \<in> set window"
    then obtain v where "v \<in> set ?w" "g = v / Max (set ?w)" unfolding w by (metis (no_types, lifting) in_set_conv_nth length_map nth_map)
    then show "1 / 100000000 < g" using \<open>\<And>v. v \<in> set ?w \<Longrightarrow> 1 / 100000000 < v / Max (set ?w)\<close> by blast
  qed
qed

theorem overlap_add_reconstructs_witness:
  "\<exists>window out weights. make_triangular_overlap_window 2 = Inr window \<and>
    rebuild [5, 6, 7] 1 3 \<lparr>chunk_samples = 2, hop_samples = 1, pad_mode_of = Pad_Zero, tail_alignment_of = Tail_Start, reflect_min_valid_samples = 0\<rparr>
      window Per_Lane
      [\<lparr>chunk_index = 0, output_start_sample = 0, valid_samples = 2, copy_start_sample = 0, valid_start_in_chunk = 0\<rparr>,
       \<lparr>chunk_index = 1, output_start_sample = 1, valid_samples = 2, copy_start_sample = 1, valid_start_in_chunk = 0\<rparr>,
       \<lparr>chunk_index = 2, output_start_sample = 2, valid_samples = 1, copy_start_sample = 2, valid_start_in_chunk = 0\<rparr>]
      (replicate 3 0, replicate 3 0) = Inr (out, weights) \<and>
    normalize_overlap_added_planar out weights 1 3 Per_Lane = Inr [5, 6, 7]"
proof -
  let ?spec = "\<lparr>chunk_samples = 2, hop_samples = 1, pad_mode_of = Pad_Zero, tail_alignment_of = Tail_Start, reflect_min_valid_samples = 0\<rparr>"
  let ?spans = "[\<lparr>chunk_index = 0, output_start_sample = 0, valid_samples = 2, copy_start_sample = 0, valid_start_in_chunk = 0\<rparr>,
       \<lparr>chunk_index = 1, output_start_sample = 1, valid_samples = 2, copy_start_sample = 1, valid_start_in_chunk = 0\<rparr>,
       \<lparr>chunk_index = 2, output_start_sample = 2, valid_samples = 1, copy_start_sample = 2, valid_start_in_chunk = 0\<rparr>]"
  have plan: "plan_audio_chunks 3 ?spec = Inr ?spans"
    by (simp add: plan_audio_chunks_def require_positive_def plan_loop.simps plan_span_def Let_def)
  obtain window where w: "make_triangular_overlap_window 2 = Inr window"
    by (simp add: make_triangular_overlap_window_def need_positive_def Let_def)
  then have "int (length window) = chunk_samples ?spec" "\<forall>g\<in>set window. 1 / 100000000 < g"
    using triangular_window_positive [OF w] by simp_all
  from overlap_add_reconstructs [OF plan _ _ this, of 1 "[5, 6, 7]" Per_Lane] w show ?thesis
    by (auto simp: expected_weights_def)
qed

end
