(* ===== verification/Json.thy ===== *)
theory Json
  imports Complex_Main Prelude
begin

text \<open>
  The JSON values of the engine (\<^verbatim>\<open>framework/io/json.cpp\<close>, \<^verbatim>\<open>json.h\<close>): the value type with its checked accessors, the
  conversion from and to the nodes of cJSON, and the two passes that turn JSON with comments into JSON. The parser and the
  printer of cJSON are arguments. An object is a list of members with distinct keys (the code's hash map has no
  order); numbers are reals, so the code's test for finiteness has no counterpart. \<open>Undefined_Conversion\<close> stands for
  undefined behaviour, not for an exception.
\<close>

datatype json = JNull | JBool bool | JNumber real | JString string | JArray "json list" | JObject "(string \<times> json) list"

datatype json_error =
    Not_Bool | Not_Number | Not_Integer | Undefined_Conversion | Not_String | Not_Array | Not_Object | Missing_Key string
  | Null_Node | Key_Missing | Duplicate_Key string | Unsupported_Node | Parse_Failed int | Trailing_Content | Print_Failed

subsection \<open>Accessors\<close>

fun as_bool :: "json \<Rightarrow> json_error + bool" where
  "as_bool (JBool b) = Inr b"
| "as_bool v = Inl Not_Bool"

fun as_number :: "json \<Rightarrow> json_error + real" where
  "as_number (JNumber r) = Inr r"
| "as_number v = Inl Not_Number"

text \<open>The cast of a whole \<^verbatim>\<open>double\<close> to a 64-bit integer, which C++ defines only for values in the range.\<close>

definition to_i64 :: "real \<Rightarrow> json_error + int" where
  "to_i64 r = (if - (2 ^ 63) \<le> \<lfloor>r\<rfloor> \<and> \<lfloor>r\<rfloor> < 2 ^ 63 then Inr \<lfloor>r\<rfloor> else Inl Undefined_Conversion)"

definition as_i64 :: "json \<Rightarrow> json_error + int" where
  "as_i64 v = bind_sum (as_number v) (\<lambda>r. if of_int \<lfloor>r\<rfloor> \<noteq> r then Inl Not_Integer else to_i64 r)"

fun as_string :: "json \<Rightarrow> json_error + string" where
  "as_string (JString s) = Inr s"
| "as_string v = Inl Not_String"

fun as_array :: "json \<Rightarrow> json_error + json list" where
  "as_array (JArray xs) = Inr xs"
| "as_array v = Inl Not_Array"

fun as_object :: "json \<Rightarrow> json_error + (string \<times> json) list" where
  "as_object (JObject ms) = Inr ms"
| "as_object v = Inl Not_Object"

fun json_find :: "string \<Rightarrow> json \<Rightarrow> json option" where
  "json_find key (JObject ms) = map_of ms key"
| "json_find key v = None"

definition json_require :: "string \<Rightarrow> json \<Rightarrow> json_error + json" where
  "json_require key v = (case json_find key v of None \<Rightarrow> Inl (Missing_Key key) | Some x \<Rightarrow> Inr x)"

fun is_null :: "json \<Rightarrow> bool" where
  "is_null JNull = True"
| "is_null v = False"

text \<open>The optional readers: \<open>optional_X\<close> ignores a member of the wrong kind, \<open>optional_nullable_X\<close> only a null.\<close>

definition optional_of :: "(json \<Rightarrow> json_error + 'a) \<Rightarrow> json \<Rightarrow> string \<Rightarrow> 'a \<Rightarrow> 'a" where
  "optional_of read obj key dflt =
     (case json_find key obj of None \<Rightarrow> dflt | Some v \<Rightarrow> (case read v of Inl e \<Rightarrow> dflt | Inr x \<Rightarrow> x))"

definition optional_nullable_of :: "(json \<Rightarrow> json_error + 'a) \<Rightarrow> json \<Rightarrow> string \<Rightarrow> 'a \<Rightarrow> json_error + 'a" where
  "optional_nullable_of read obj key dflt =
     (case json_find key obj of None \<Rightarrow> Inr dflt | Some v \<Rightarrow> (if is_null v then Inr dflt else read v))"

definition optional_i64 :: "json \<Rightarrow> string \<Rightarrow> int \<Rightarrow> json_error + int" where
  "optional_i64 obj key dflt =
     (case json_find key obj of
        Some (JNumber r) \<Rightarrow> as_i64 (JNumber r)
      | _ \<Rightarrow> Inr dflt)"

definition optional_bool :: "json \<Rightarrow> string \<Rightarrow> bool \<Rightarrow> bool" where
  "optional_bool = optional_of as_bool"

definition optional_string :: "json \<Rightarrow> string \<Rightarrow> string \<Rightarrow> string" where
  "optional_string = optional_of as_string"

definition optional_nullable_i64 :: "json \<Rightarrow> string \<Rightarrow> int \<Rightarrow> json_error + int" where
  "optional_nullable_i64 = optional_nullable_of as_i64"

definition optional_nullable_bool :: "json \<Rightarrow> string \<Rightarrow> bool \<Rightarrow> json_error + bool" where
  "optional_nullable_bool = optional_nullable_of as_bool"

definition optional_nullable_string :: "json \<Rightarrow> string \<Rightarrow> string \<Rightarrow> json_error + string" where
  "optional_nullable_string = optional_nullable_of as_string"

subsection \<open>cJSON nodes\<close>

text \<open>What the code reads of a node: its type, value, the key under which it sits (or a null pointer).\<close>

datatype cjson = CNull | CBool bool | CNumber real | CString "string option" | CArray "cjson list"
  | CObject "(string option \<times> cjson) list" | COther

definition c_str :: "string \<Rightarrow> string" where
  "c_str s = takeWhile (\<lambda>c. c \<noteq> CHR 0x00) s"

fun convert_cjson :: "cjson \<Rightarrow> json_error + json"
  and convert_items :: "cjson list \<Rightarrow> json_error + json list"
  and convert_members :: "string list \<Rightarrow> (string option \<times> cjson) list \<Rightarrow> json_error + (string \<times> json) list" where
  "convert_cjson CNull = Inr JNull"
| "convert_cjson (CBool b) = Inr (JBool b)"
| "convert_cjson (CNumber r) = Inr (JNumber r)"
| "convert_cjson (CString s) = Inr (JString (case s of None \<Rightarrow> [] | Some x \<Rightarrow> x))"
| "convert_cjson (CArray xs) = bind_sum (convert_items xs) (\<lambda>ys. Inr (JArray ys))"
| "convert_cjson (CObject ms) = bind_sum (convert_members [] ms) (\<lambda>ys. Inr (JObject ys))"
| "convert_cjson COther = Inl Unsupported_Node"
| "convert_items [] = Inr []"
| "convert_items (x # xs) = bind_sum (convert_cjson x) (\<lambda>y. bind_sum (convert_items xs) (\<lambda>ys. Inr (y # ys)))"
| "convert_members seen [] = Inr []"
| "convert_members seen ((None, x) # ms) = Inl Key_Missing"
| "convert_members seen ((Some k, x) # ms) =
     (if k \<in> set seen then Inl (Duplicate_Key k)
      else bind_sum (convert_cjson x) (\<lambda>y. bind_sum (convert_members (k # seen) ms) (\<lambda>ys. Inr ((k, y) # ys))))"

fun make_cjson :: "json \<Rightarrow> cjson" where
  "make_cjson JNull = CNull"
| "make_cjson (JBool b) = CBool b"
| "make_cjson (JNumber r) = CNumber r"
| "make_cjson (JString s) = CString (Some (c_str s))"
| "make_cjson (JArray xs) = CArray (map make_cjson xs)"
| "make_cjson (JObject ms) = CObject (map (\<lambda>(k, v). (Some (c_str k), make_cjson v)) ms)"

text \<open>\<open>cparse\<close> is \<^verbatim>\<open>cJSON_ParseWithLengthOpts\<close>: the root, if any, and the offset where it stopped, if it says so.\<close>

definition json_parse :: "(string \<Rightarrow> cjson option \<times> nat option) \<Rightarrow> string \<Rightarrow> json_error + json" where
  "json_parse cparse tx =
     (case cparse tx of
        (None, stop) \<Rightarrow> Inl (Parse_Failed (case stop of None \<Rightarrow> - 1 | Some n \<Rightarrow> int n))
      | (Some node, stop) \<Rightarrow>
          if (case stop of None \<Rightarrow> True | Some n \<Rightarrow> list_all is_space_byte (drop n tx)) then convert_cjson node
          else Inl Trailing_Content)"

definition stringify :: "(cjson \<Rightarrow> string option) \<Rightarrow> json \<Rightarrow> json_error + string" where
  "stringify cprint v = (case cprint (make_cjson v) of None \<Rightarrow> Inl Print_Failed | Some s \<Rightarrow> Inr s)"

subsection \<open>JSON with comments\<close>

text \<open>
  The two passes share the tracking of string literals: \<open>in_string\<close> and \<open>escaped\<close>, updated by a byte inside a literal.
\<close>

fun in_literal :: "char \<Rightarrow> bool \<Rightarrow> bool \<times> bool" where
  "in_literal ch escaped =
     (if escaped then (True, False) else if ch = CHR 0x5C then (True, True) else (ch \<noteq> CHR 0x22, False))"

function strip_comments_from :: "bool \<Rightarrow> bool \<Rightarrow> string \<Rightarrow> string" where
  "strip_comments_from in_string escaped [] = []"
| "strip_comments_from True escaped (ch # rest) =
     ch # strip_comments_from (fst (in_literal ch escaped)) (snd (in_literal ch escaped)) rest"
| "strip_comments_from False escaped (ch # rest) =
     (if ch = CHR 0x22 then ch # strip_comments_from True escaped rest
      else if ch = CHR 0x2F \<and> rest \<noteq> [] \<and> hd rest = CHR 0x2F
        then (case dropWhile (\<lambda>c. c \<noteq> CHR 0x0A) rest of
                [] \<Rightarrow> []
              | nl # more \<Rightarrow> CHR 0x0A # strip_comments_from False escaped more)
      else ch # strip_comments_from False escaped rest)"
  by pat_completeness auto
termination
proof (relation "measure (\<lambda>(s, e, tx). length tx)")
  fix escaped :: bool and ch nl :: char and rest more :: string
  assume "dropWhile (\<lambda>c. c \<noteq> CHR 0x0A) rest = nl # more"
  then have "length (nl # more) \<le> length rest" by (metis length_dropWhile_le)
  then show "((False, escaped, more), False, escaped, ch # rest) \<in> measure (\<lambda>(s, e, tx). length tx)" by simp
qed auto

definition strip_jsonc_comments :: "string \<Rightarrow> string" where
  "strip_jsonc_comments tx = strip_comments_from False False tx"

fun strip_commas_from :: "bool \<Rightarrow> bool \<Rightarrow> string \<Rightarrow> string" where
  "strip_commas_from in_string escaped [] = []"
| "strip_commas_from True escaped (ch # rest) =
     ch # strip_commas_from (fst (in_literal ch escaped)) (snd (in_literal ch escaped)) rest"
| "strip_commas_from False escaped (ch # rest) =
     (if ch = CHR 0x22 then ch # strip_commas_from True escaped rest
      else if ch = CHR 0x2C \<and> (case dropWhile is_space_byte rest of [] \<Rightarrow> False | c # _ \<Rightarrow> c = CHR 0x7D \<or> c = CHR 0x5D)
        then strip_commas_from False escaped rest
      else ch # strip_commas_from False escaped rest)"

definition strip_jsonc_trailing_commas :: "string \<Rightarrow> string" where
  "strip_jsonc_trailing_commas tx = strip_commas_from False False tx"

definition parse_jsonc :: "(string \<Rightarrow> cjson option \<times> nat option) \<Rightarrow> string \<Rightarrow> json_error + json" where
  "parse_jsonc cparse tx = json_parse cparse (strip_jsonc_trailing_commas (strip_jsonc_comments tx))"

subsection \<open>Values survive the conversion\<close>

text \<open>Values that the hash maps and C strings can hold: distinct keys, and no NUL in keys and strings.\<close>

fun storable :: "json \<Rightarrow> bool" where
  "storable (JString s) \<longleftrightarrow> CHR 0x00 \<notin> set s"
| "storable (JArray xs) \<longleftrightarrow> (\<forall>x\<in>set xs. storable x)"
| "storable (JObject ms) \<longleftrightarrow> distinct (map fst ms) \<and> (\<forall>(k, v)\<in>set ms. CHR 0x00 \<notin> set k \<and> storable v)"
| "storable v \<longleftrightarrow> True"

lemma c_str_id [simp]: "CHR 0x00 \<notin> set s \<Longrightarrow> c_str s = s"
  by (auto simp: c_str_def takeWhile_eq_all_conv)

lemma convert_items_map: "(\<And>x. x \<in> set xs \<Longrightarrow> convert_cjson (f x) = Inr x) \<Longrightarrow> convert_items (map f xs) = Inr xs"
  by (induction xs) auto

lemma convert_members_map:
  "(\<And>k v. (k, v) \<in> set ms \<Longrightarrow> convert_cjson (f v) = Inr v) \<Longrightarrow> distinct (map fst ms) \<Longrightarrow> set seen \<inter> fst ` set ms = {} \<Longrightarrow>
   convert_members seen (map (\<lambda>(k, v). (Some k, f v)) ms) = Inr ms"
proof (induction ms arbitrary: seen)
  case (Cons m ms)
  obtain k v where m: "m = (k, v)" by (cases m)
  have "convert_members (k # seen) (map (\<lambda>(k, v). (Some k, f v)) ms) = Inr ms"
    by (rule Cons.IH) (use Cons.prems m in \<open>auto intro!: Cons.prems(1)\<close>)
  moreover have "convert_cjson (f v) = Inr v" by (rule Cons.prems(1) [of k]) (simp add: m)
  ultimately show ?case using Cons.prems m by auto
qed simp

lemma convert_make: "storable v \<Longrightarrow> convert_cjson (make_cjson v) = Inr v"
proof (induction v)
  case (JArray xs)
  then show ?case by (simp add: convert_items_map)
next
  case (JObject ms)
  then have keys: "map (\<lambda>(k, v). (Some (c_str k), make_cjson v)) ms = map (\<lambda>(k, v). (Some k, make_cjson v)) ms"
    by (auto simp: case_prod_beta)
  have "convert_members [] (map (\<lambda>(k, v). (Some k, make_cjson v)) ms) = Inr ms"
    by (rule convert_members_map) (use JObject in \<open>fastforce+\<close>)
  then show ?case by (simp only: make_cjson.simps convert_cjson.simps keys bind_sum_simps)
qed simp_all

end
