(* ===== verification/LLM_Client.thy ===== *)
theory LLM_Client
  imports Json
begin

text \<open>
  The HTTP client of the language model (\<^verbatim>\<open>app/server/llm_client.cpp\<close>): the decoder of chunked bodies, the reader
  of server-sent events, and \<^verbatim>\<open>stream_chat\<close>, which carries the bytes of the socket through both to the caller's
  callback. A connection is what the socket calls give: where it failed, or the blocks that \<^verbatim>\<open>recv\<close> returned until it
  returned nothing more. The parser of JSON texts and the callback, a function on a state of its own, are arguments.
\<close>

subsection \<open>Chunked bodies\<close>

datatype chunk_state = Size | SizeLf | Data | DataCr | DataLf | TrailerCr | Done

record chunked_decoder =
  cd_state :: chunk_state
  size_line :: string
  cd_remaining :: nat

definition new_chunked_decoder :: chunked_decoder where
  "new_chunked_decoder = \<lparr>cd_state = Size, size_line = [], cd_remaining = 0\<rparr>"

definition hex_value :: "char \<Rightarrow> nat option" where
  "hex_value digit =
     (let l = byte_of (to_lower digit) in
      if 48 \<le> l \<and> l \<le> 57 then Some (l - 48) else if 97 \<le> l \<and> l \<le> 102 then Some (l - 97 + 10) else None)"

definition chunk_size :: "string \<Rightarrow> nat" where
  "chunk_size line =
     foldl (\<lambda>r c. case hex_value c of None \<Rightarrow> r | Some v \<Rightarrow> (r * 16 + v) mod 2 ^ 64) 0 (takeWhile (\<lambda>c. c \<noteq> CHR '';'') line)"

definition end_size_line :: "chunked_decoder \<Rightarrow> chunked_decoder" where
  "end_size_line d =
     d\<lparr>cd_remaining := chunk_size (size_line d), size_line := [],
       cd_state := (if chunk_size (size_line d) = 0 then TrailerCr else Data)\<rparr>"

text \<open>A byte in every state but \<open>Data\<close>, which takes a block of bytes.\<close>

definition chunk_byte :: "char \<Rightarrow> chunked_decoder \<Rightarrow> chunked_decoder" where
  "chunk_byte ch d =
     (case cd_state d of
        Size \<Rightarrow> if ch = CHR 0x0D then d\<lparr>cd_state := SizeLf\<rparr> else d\<lparr>size_line := size_line d @ [ch]\<rparr>
      | SizeLf \<Rightarrow> end_size_line d
      | DataCr \<Rightarrow> d\<lparr>cd_state := DataLf\<rparr>
      | DataLf \<Rightarrow> d\<lparr>cd_state := Size\<rparr>
      | TrailerCr \<Rightarrow> if ch = CHR 0x0A then d\<lparr>cd_state := Done\<rparr> else d
      | _ \<Rightarrow> d)"

definition chunk_data :: "nat \<Rightarrow> chunked_decoder \<Rightarrow> chunked_decoder" where
  "chunk_data n d = d\<lparr>cd_remaining := cd_remaining d - n, cd_state := (if cd_remaining d - n = 0 then DataCr else Data)\<rparr>"

function chunk_feed :: "string \<Rightarrow> chunked_decoder \<Rightarrow> string \<times> chunked_decoder" where
  "chunk_feed [] d = ([], d)"
| "chunk_feed (ch # rest) d =
     (if cd_state d = Done then ([], d)
      else if cd_state d = Data
      then (let n = min (cd_remaining d) (length (ch # rest));
                (out, d') = chunk_feed (drop n (ch # rest)) (chunk_data n d)
            in (take n (ch # rest) @ out, d'))
      else chunk_feed rest (chunk_byte ch d))"
  by pat_completeness auto
termination
  by (relation "measures [\<lambda>(s, d). length s, \<lambda>(s, d). if cd_state d = Data then 1 else 0]")
     (auto simp: chunk_data_def)

subsection \<open>Server-sent events\<close>

record sse_event =
  delta :: string
  ev_finish_reason :: string
  ev_done :: bool
  ev_error :: string
  ev_prompt_n :: real
  ev_prompt_ms :: real
  ev_predicted_n :: real
  ev_predicted_ms :: real

definition no_event :: sse_event where
  "no_event = \<lparr>delta = [], ev_finish_reason = [], ev_done = False, ev_error = [], ev_prompt_n = - 1, ev_prompt_ms = - 1,
     ev_predicted_n = - 1, ev_predicted_ms = - 1\<rparr>"

text \<open>A member that is a string, a member that is a number (else -1).\<close>

definition string_member :: "string \<Rightarrow> json \<Rightarrow> string option" where
  "string_member key v = (case json_find key v of Some (JString s) \<Rightarrow> Some s | _ \<Rightarrow> None)"

definition number_member :: "string \<Rightarrow> json \<Rightarrow> real" where
  "number_member key v = (case json_find key v of Some (JNumber r) \<Rightarrow> r | _ \<Rightarrow> - 1)"

definition read_timings :: "json \<Rightarrow> sse_event \<Rightarrow> sse_event" where
  "read_timings v ev =
     (case json_find ''timings'' v of
        None \<Rightarrow> ev
      | Some t \<Rightarrow> ev\<lparr>ev_prompt_n := number_member ''prompt_n'' t, ev_prompt_ms := number_member ''prompt_ms'' t,
                   ev_predicted_n := number_member ''predicted_n'' t, ev_predicted_ms := number_member ''predicted_ms'' t\<rparr>)"

definition read_choice :: "json \<Rightarrow> sse_event \<Rightarrow> sse_event" where
  "read_choice v ev =
     (case json_find ''choices'' v of
        Some (JArray (choice # others)) \<Rightarrow>
          (let ev1 = (case json_find ''delta'' choice of
                        None \<Rightarrow> ev
                      | Some dl \<Rightarrow> (case string_member ''content'' dl of None \<Rightarrow> ev | Some s \<Rightarrow> ev\<lparr>delta := s\<rparr>))
           in case string_member ''finish_reason'' choice of None \<Rightarrow> ev1 | Some s \<Rightarrow> ev1\<lparr>ev_finish_reason := s\<rparr>)
      | _ \<Rightarrow> ev)"

definition parse_payload :: "(string \<Rightarrow> json_error + json) \<Rightarrow> string \<Rightarrow> sse_event" where
  "parse_payload parse payload =
     (if payload = ''[DONE]'' then no_event\<lparr>ev_done := True\<rparr>
      else case parse payload of
        Inl e \<Rightarrow> no_event
      | Inr v \<Rightarrow>
          (case json_find ''error'' v of
             Some err \<Rightarrow> no_event\<lparr>ev_error := (case string_member ''message'' err of None \<Rightarrow> ''LLM stream error'' | Some m \<Rightarrow> m)\<rparr>
           | None \<Rightarrow> read_choice v (read_timings v no_event)))"

definition strip_cr :: "string \<Rightarrow> string" where
  "strip_cr line = (if line \<noteq> [] \<and> last line = CHR 0x0D then butlast line else line)"

definition strip_space :: "string \<Rightarrow> string" where
  "strip_space payload = (if payload \<noteq> [] \<and> hd payload = CHR '' '' then tl payload else payload)"

text \<open>One line without its end: the events it completes and the data collected so far.\<close>

definition sse_line :: "(string \<Rightarrow> json_error + json) \<Rightarrow> string \<Rightarrow> string \<Rightarrow> sse_event list \<times> string" where
  "sse_line parse line event_data =
     (if line = [] then (if event_data \<noteq> [] then ([parse_payload parse event_data], []) else ([], event_data))
      else if starts_with ''data:'' line
      then ([], (if event_data \<noteq> [] then event_data @ [CHR 0x0A] else event_data) @ strip_space (drop 5 line))
      else ([], event_data))"

text \<open>The line loop: events, the bytes after the last line end, and the data collected so far.\<close>

function sse_lines :: "(string \<Rightarrow> json_error + json) \<Rightarrow> string \<Rightarrow> string \<Rightarrow> sse_event list \<times> string \<times> string" where
  "sse_lines parse buf event_data =
     (case find_idx (\<lambda>c. c = CHR 0x0A) buf of
        None \<Rightarrow> ([], buf, event_data)
      | Some n \<Rightarrow>
          (let (evs, event_data1) = sse_line parse (strip_cr (take n buf)) event_data;
               (evs', buf', event_data2) = sse_lines parse (drop (Suc n) buf) event_data1
           in (evs @ evs', buf', event_data2)))"
  by pat_completeness auto
termination
  by (relation "measure (\<lambda>(p, buf, d). length buf)") (auto dest!: find_idx_Some)

declare sse_lines.simps [simp del]

record sse_parser =
  sse_buffer :: string
  sse_event_data :: string

definition sse_feed :: "(string \<Rightarrow> json_error + json) \<Rightarrow> string \<Rightarrow> sse_parser \<Rightarrow> sse_event list \<times> sse_parser" where
  "sse_feed parse bytes p =
     (let (evs, buf, event_data) = sse_lines parse (sse_buffer p @ bytes) (sse_event_data p)
      in (evs, \<lparr>sse_buffer = buf, sse_event_data = event_data\<rparr>))"

subsection \<open>Connections and status requests\<close>

datatype connection = No_Socket | Bad_Address | Unreachable | Send_Failed | Connected "string list"

fun read_up_to :: "nat \<Rightarrow> string \<Rightarrow> string list \<Rightarrow> string" where
  "read_up_to limit acc [] = acc"
| "read_up_to limit acc (b # bs) = (if length acc < limit then read_up_to limit (acc @ b) bs else acc)"

definition status_and_body :: "string \<Rightarrow> int \<times> string" where
  "status_and_body response =
     (if length response < 12 \<or> \<not> starts_with ''HTTP/'' response then (- 1, [])
      else (c_atoi (drop 9 response),
            case find_sub (crlf @ crlf) response of None \<Rightarrow> [] | Some header_end \<Rightarrow> substr response (header_end + 4) 4096))"

fun http_get_status :: "connection \<Rightarrow> int \<times> string" where
  "http_get_status (Connected blocks) = status_and_body (read_up_to (64 * 1024) [] blocks)"
| "http_get_status c = (- 1, [])"

fun http_post_status :: "connection \<Rightarrow> int \<times> string" where
  "http_post_status (Connected blocks) = status_and_body (read_up_to (256 * 1024) [] blocks)"
| "http_post_status c = (- 1, [])"

definition get_request :: "string \<Rightarrow> string \<Rightarrow> string" where
  "get_request host path =
     ''GET '' @ path @ '' HTTP/1.1'' @ crlf @ ''Host: '' @ host @ crlf @ ''Connection: close'' @ crlf @ crlf"

definition post_request :: "string \<Rightarrow> string \<Rightarrow> string \<Rightarrow> string" where
  "post_request host path body =
     ''POST '' @ path @ '' HTTP/1.1'' @ crlf @ ''Host: '' @ host @ crlf @ ''Content-Type: application/json'' @ crlf @
     ''Content-Length: '' @ nat_str (length body) @ crlf @ ''Connection: close'' @ crlf @ crlf @ body"

definition chat_request :: "string \<Rightarrow> nat \<Rightarrow> string \<Rightarrow> string" where
  "chat_request host port body =
     ''POST /v1/chat/completions HTTP/1.1'' @ crlf @ ''Host: '' @ host @ '':'' @ nat_str port @ crlf @
     ''Content-Type: application/json'' @ crlf @ ''Accept: text/event-stream'' @ crlf @ ''Connection: close'' @ crlf @
     ''Content-Length: '' @ nat_str (length body) @ crlf @ crlf @ body"

subsection \<open>Streaming a reply\<close>

record llm_result =
  finish_reason :: string
  res_ok :: bool
  res_error :: string
  prompt_n :: real
  prompt_ms :: real
  predicted_n :: real
  predicted_ms :: real

definition no_result :: llm_result where
  "no_result = \<lparr>finish_reason = [], res_ok = False, res_error = [], prompt_n = - 1, prompt_ms = - 1, predicted_n = - 1, predicted_ms = - 1\<rparr>"

text \<open>The body of \<^verbatim>\<open>consume\<close>'s loop: whether it returns false, the result and the callback's state.\<close>

definition note_event :: "sse_event \<Rightarrow> llm_result \<Rightarrow> llm_result" where
  "note_event ev res =
     (let res1 = (if ev_finish_reason ev \<noteq> [] then res\<lparr>finish_reason := ev_finish_reason ev\<rparr> else res)
      in if ev_prompt_n ev \<ge> 0
         then res1\<lparr>prompt_n := ev_prompt_n ev, prompt_ms := ev_prompt_ms ev, predicted_n := ev_predicted_n ev,
                predicted_ms := ev_predicted_ms ev\<rparr>
         else res1)"

definition process_event :: "(string \<Rightarrow> 's \<Rightarrow> bool \<times> 's) \<Rightarrow> sse_event \<Rightarrow> llm_result \<times> 's \<Rightarrow> bool \<times> llm_result \<times> 's" where
  "process_event on_delta ev = (\<lambda>(res, s).
     if ev_error ev \<noteq> [] then (True, res\<lparr>res_error := ev_error ev\<rparr>, s)
     else if ev_done ev then (True, note_event ev res, s)
     else if delta ev = [] then (False, note_event ev res, s)
     else (let (go, s') = on_delta (delta ev) s
           in if go then (False, note_event ev res, s') else (True, (note_event ev res)\<lparr>res_error := ''aborted''\<rparr>, s')))"

fun process_events :: "(string \<Rightarrow> 's \<Rightarrow> bool \<times> 's) \<Rightarrow> sse_event list \<Rightarrow> llm_result \<times> 's \<Rightarrow> bool \<times> llm_result \<times> 's" where
  "process_events on_delta [] st = (False, st)"
| "process_events on_delta (ev # evs) st =
     (let (stop, st') = process_event on_delta ev st in if stop then (True, st') else process_events on_delta evs st')"

record 's stream =
  decoder :: chunked_decoder
  parser :: sse_parser
  outcome :: "llm_result \<times> 's"

text \<open>\<^verbatim>\<open>consume\<close>: whether to keep reading.\<close>

definition stream_consume :: "(string \<Rightarrow> json_error + json) \<Rightarrow> (string \<Rightarrow> 's \<Rightarrow> bool \<times> 's) \<Rightarrow> bool \<Rightarrow> string \<Rightarrow> 's stream \<Rightarrow> bool \<times> 's stream" where
  "stream_consume parse on_delta chunked bytes st =
     (let (payload, decoder') = (if chunked then chunk_feed bytes (decoder st) else (bytes, decoder st));
          (evs, parser') = sse_feed parse payload (parser st);
          (stop, outcome') = process_events on_delta evs (outcome st)
      in (\<not> stop \<and> \<not> (chunked \<and> cd_state decoder' = Done), \<lparr>decoder = decoder', parser = parser', outcome = outcome'\<rparr>))"

fun consume_blocks :: "(string \<Rightarrow> json_error + json) \<Rightarrow> (string \<Rightarrow> 's \<Rightarrow> bool \<times> 's) \<Rightarrow> bool \<Rightarrow> string list \<Rightarrow> 's stream \<Rightarrow> 's stream" where
  "consume_blocks parse on_delta chunked [] st = st"
| "consume_blocks parse on_delta chunked (b # bs) st =
     (let (keep, st') = stream_consume parse on_delta chunked b st
      in if keep then consume_blocks parse on_delta chunked bs st' else st')"

text \<open>The header: everything received so far, once it has the blank line, and the blocks still to come.\<close>

fun read_headers :: "string \<Rightarrow> string list \<Rightarrow> string + (string \<times> string list)" where
  "read_headers headers [] =
     (if find_sub (crlf @ crlf) headers \<noteq> None then Inr (headers, [])
      else Inl ''the LLM server closed the connection before responding'')"
| "read_headers headers (b # bs) =
     (if find_sub (crlf @ crlf) headers \<noteq> None then Inr (headers, b # bs)
      else if length (headers @ b) > 64 * 1024 then Inl ''the LLM server sent an oversized response header''
      else read_headers (headers @ b) bs)"

definition header_status :: "string \<Rightarrow> int" where
  "header_status headers = (if length headers > 12 then c_atoi (drop 9 headers) else 0)"

definition is_chunked_response :: "string \<Rightarrow> bool" where
  "is_chunked_response headers \<longleftrightarrow> find_sub ''transfer-encoding: chunked'' (lower_ascii headers) \<noteq> None"

definition close_result :: "llm_result \<Rightarrow> llm_result" where
  "close_result res =
     (if res_error res = [] then res\<lparr>res_ok := True\<rparr>
      else if res_error res = ''aborted'' then res\<lparr>res_error := [], res_ok := False\<rparr>
      else res)"

definition failed_with :: "string \<Rightarrow> llm_result" where
  "failed_with message = no_result\<lparr>res_error := message\<rparr>"

definition answer_body :: "(string \<Rightarrow> json_error + json) \<Rightarrow> (string \<Rightarrow> 's \<Rightarrow> bool \<times> 's) \<Rightarrow> string \<Rightarrow> string list \<Rightarrow> 's \<Rightarrow> llm_result \<times> 's" where
  "answer_body parse on_delta received blocks s =
     (let header_end = the (find_sub (crlf @ crlf) received);
          carry = drop (header_end + 4) received;
          headers = take header_end received;
          status = header_status headers
      in if status \<noteq> 200
         then (let body = read_up_to 4096 carry blocks
               in (failed_with (''LLM server answered HTTP '' @ int_str status @ (if body = [] then [] else '': '' @ take 512 body)), s))
         else (let (res, s') = outcome (consume_blocks parse on_delta (is_chunked_response headers) (carry # blocks)
                 \<lparr>decoder = new_chunked_decoder, parser = \<lparr>sse_buffer = [], sse_event_data = []\<rparr>, outcome = (no_result, s)\<rparr>)
               in (close_result res, s')))"

definition stream_chat :: "(string \<Rightarrow> json_error + json) \<Rightarrow> string \<Rightarrow> nat \<Rightarrow> connection \<Rightarrow> (string \<Rightarrow> 's \<Rightarrow> bool \<times> 's) \<Rightarrow> 's \<Rightarrow> llm_result \<times> 's" where
  "stream_chat parse host port conn on_delta s =
     (case conn of
        No_Socket \<Rightarrow> (failed_with ''could not create a socket to the LLM server'', s)
      | Bad_Address \<Rightarrow> (failed_with (''invalid LLM server address: '' @ host), s)
      | Unreachable \<Rightarrow> (failed_with (''the LLM server is not reachable at '' @ host @ '':'' @ nat_str port), s)
      | Send_Failed \<Rightarrow> (failed_with ''could not send the request to the LLM server'', s)
      | Connected blocks \<Rightarrow>
          (case read_headers [] blocks of
             Inl message \<Rightarrow> (failed_with message, s)
           | Inr (received, more_blocks) \<Rightarrow> answer_body parse on_delta received more_blocks s))"

subsection \<open>How the network cuts the stream does not matter\<close>

lemma chunk_feed_Data:
  "cd_state d = Data \<Longrightarrow> s \<noteq> [] \<Longrightarrow> n = min (cd_remaining d) (length s) \<Longrightarrow>
   chunk_feed s d = (take n s @ fst (chunk_feed (drop n s) (chunk_data n d)), snd (chunk_feed (drop n s) (chunk_data n d)))"
  by (cases s; simp only: chunk_feed.simps Let_def split_beta chunk_state.distinct if_False if_True simp_thms)

lemma chunk_feed_append:
  "chunk_feed (a @ b) d =
     (fst (chunk_feed a d) @ fst (chunk_feed b (snd (chunk_feed a d))), snd (chunk_feed b (snd (chunk_feed a d))))"
proof (induction a d rule: chunk_feed.induct)
  case (1 d)
  then show ?case by simp
next
  case (2 ch rest d)
  let ?a = "ch # rest"
  consider "cd_state d = Done" | "cd_state d = Data" "cd_remaining d \<le> length ?a" |
    "cd_state d = Data" "length ?a < cd_remaining d" | "cd_state d \<noteq> Done" "cd_state d \<noteq> Data" by linarith
  then show ?case
  proof cases
    case 1
    then show ?thesis by (cases b) simp_all
  next
    case 2
    let ?n = "cd_remaining d"
    have ih: "chunk_feed (drop ?n ?a @ b) (chunk_data ?n d) = (fst (chunk_feed (drop ?n ?a) (chunk_data ?n d)) @
        fst (chunk_feed b (snd (chunk_feed (drop ?n ?a) (chunk_data ?n d)))), snd (chunk_feed b (snd (chunk_feed (drop ?n ?a) (chunk_data ?n d)))))"
      using "2.IH"(1) [of ?n] 2 by (simp only: min_absorb1) simp
    have "drop ?n (?a @ b) = drop ?n ?a @ b" "take ?n (?a @ b) = take ?n ?a"
      using 2(2) by (simp_all only: drop_append take_append diff_is_0_eq' drop0 take_0 append_Nil2)
    then show ?thesis
      using chunk_feed_Data [OF 2(1), of "?a @ b" ?n] chunk_feed_Data [OF 2(1), of ?a ?n] 2(2) ih
      by (simp only: min_absorb1 length_append trans_le_add1) simp
  next
    case 3
    let ?n = "length ?a"
    have a: "chunk_feed ?a d = (?a, chunk_data ?n d)"
      using chunk_feed_Data [OF 3(1), of ?a ?n] 3(2) by simp
    have d: "cd_state (chunk_data ?n d) = Data" "cd_remaining (chunk_data ?n d) = cd_remaining d - ?n"
      using 3 by (simp_all add: chunk_data_def)
    have data: "chunk_data m (chunk_data ?n d) = chunk_data (?n + m) d" for m
      by (simp add: chunk_data_def)
    show ?thesis
    proof (cases "b = []")
      case False
      let ?m = "min (cd_remaining d - ?n) (length b)"
      have m: "?n + ?m = min (cd_remaining d) (length (?a @ b))" using 3 by simp
      have "take (?n + ?m) (?a @ b) = ?a @ take ?m b" "drop (?n + ?m) (?a @ b) = drop ?m b" by simp_all
      with chunk_feed_Data [OF 3(1) _ m] chunk_feed_Data [OF d(1) False, of ?m] show ?thesis
        by (simp only: a data d fst_conv snd_conv append_assoc) simp
    qed (simp add: a)
  next
    case 4
    with "2.IH"(2) show ?thesis by simp
  qed
qed

lemma chunk_feed_done: "cd_state d = Done \<Longrightarrow> chunk_feed b d = ([], d)"
  by (cases b) simp_all

lemma find_idx_append_left: "find_idx P xs = Some n \<Longrightarrow> find_idx P (xs @ ys) = Some n"
  by (induction xs arbitrary: n) (auto split: if_splits)

lemma sse_lines_append:
  "sse_lines parse (a @ b) event_data =
     (let (e1, r, d1) = sse_lines parse a event_data; (e2, r2, d2) = sse_lines parse (r @ b) d1 in (e1 @ e2, r2, d2))"
proof (induction parse a event_data rule: sse_lines.induct)
  case (1 parse buf event_data)
  show ?case
  proof (cases "find_idx (\<lambda>c. c = CHR 0x0A) buf")
    case None
    then show ?thesis by (simp add: sse_lines.simps [of parse buf])
  next
    case (Some n)
    have n: "n < length buf" using find_idx_Some [OF Some] by simp
    obtain e1 d1 where l: "sse_line parse (strip_cr (take n buf)) event_data = (e1, d1)" by fastforce
    have ih: "sse_lines parse (drop (Suc n) buf @ b) d1 =
        (let (e1, r, d1) = sse_lines parse (drop (Suc n) buf) d1; (e2, r2, d2) = sse_lines parse (r @ b) d1 in (e1 @ e2, r2, d2))"
      by (rule "1.IH" [OF Some l [symmetric] refl])
    show ?thesis
      using n ih by (simp add: sse_lines.simps [of parse "buf @ b"] sse_lines.simps [of parse buf] Some
        find_idx_append_left [OF Some] l split_beta Let_def)
  qed
qed

lemma sse_lines_rest: "sse_lines parse buf event_data = (evs, r, d) \<Longrightarrow> CHR 0x0A \<notin> set r"
proof (induction parse buf event_data arbitrary: evs r d rule: sse_lines.induct)
  case (1 parse buf event_data)
  show ?case
  proof (cases "find_idx (\<lambda>c. c = CHR 0x0A) buf")
    case None
    with "1.prems" show ?thesis by (auto simp: sse_lines.simps [of parse buf] find_idx_None)
  next
    case (Some n)
    obtain e1 d1 where l: "sse_line parse (strip_cr (take n buf)) event_data = (e1, d1)" by fastforce
    obtain e2 r2 d2 where s: "sse_lines parse (drop (Suc n) buf) d1 = (e2, r2, d2)" by (metis prod_cases3)
    have "r2 = r" using "1.prems" by (simp add: sse_lines.simps [of parse buf] Some l s)
    with "1.IH" [OF Some l [symmetric] refl s] show ?thesis by simp
  qed
qed

lemma sse_lines_no_line: "CHR 0x0A \<notin> set r \<Longrightarrow> sse_lines parse r d = ([], r, d)"
proof -
  assume "CHR 0x0A \<notin> set r"
  then have "find_idx (\<lambda>c. c = CHR 0x0A) r = None" by (auto simp: find_idx_None)
  then show ?thesis by (simp add: sse_lines.simps [of parse r])
qed

definition parser_ok :: "sse_parser \<Rightarrow> bool" where
  "parser_ok p \<longleftrightarrow> CHR 0x0A \<notin> set (sse_buffer p)"

lemma sse_feed_append:
  "sse_feed parse (a @ b) p =
     (let (e1, p1) = sse_feed parse a p; (e2, p2) = sse_feed parse b p1 in (e1 @ e2, p2))"
  by (simp add: sse_feed_def sse_lines_append [of parse "sse_buffer p @ a" b, simplified] split_beta Let_def)

lemma sse_feed_ok: "parser_ok (snd (sse_feed parse a p))"
  using sse_lines_rest [of parse "sse_buffer p @ a"] by (auto simp: sse_feed_def parser_ok_def split: prod.splits)

lemma sse_feed_Nil: "parser_ok p \<Longrightarrow> sse_feed parse [] p = ([], p)"
  by (simp add: sse_feed_def parser_ok_def sse_lines_no_line)

lemma process_events_append:
  "process_events f (xs @ ys) st =
     (if fst (process_events f xs st) then process_events f xs st else process_events f ys (snd (process_events f xs st)))"
  by (induction xs arbitrary: st) (auto simp: split_beta Let_def)

text \<open>A block in two pieces: the second is read only when the first one did not end the stream.\<close>

lemma stream_consume_append:
  assumes "stream_consume parse f chunked a st = (keep, st1)"
  shows "(keep \<longrightarrow> stream_consume parse f chunked (a @ b) st = stream_consume parse f chunked b st1) \<and>
    (\<not> keep \<longrightarrow> \<not> fst (stream_consume parse f chunked (a @ b) st) \<and> outcome (snd (stream_consume parse f chunked (a @ b) st)) = outcome st1)"
proof -
  define da where "da = (if chunked then chunk_feed a (decoder st) else (a, decoder st))"
  define db where "db = (if chunked then chunk_feed b (snd da) else (b, snd da))"
  define sa where "sa = sse_feed parse (fst da) (parser st)"
  define sb where "sb = sse_feed parse (fst db) (snd sa)"
  define pa where "pa = process_events f (fst sa) (outcome st)"
  have a: "keep = (\<not> fst pa \<and> \<not> (chunked \<and> cd_state (snd da) = Done))"
      "st1 = \<lparr>decoder = snd da, parser = snd sa, outcome = snd pa\<rparr>"
    using assms by (auto simp: stream_consume_def da_def sa_def pa_def Let_def split_beta)
  have both: "(if chunked then chunk_feed (a @ b) (decoder st) else (a @ b, decoder st)) = (fst da @ fst db, snd db)"
    by (simp add: da_def db_def chunk_feed_append)
  have feed: "sse_feed parse (fst da @ fst db) (parser st) = (fst sa @ fst sb, snd sb)"
    by (simp add: sse_feed_append sa_def sb_def split_beta Let_def)
  have ab: "stream_consume parse f chunked (a @ b) st =
      (let (stop, o') = process_events f (fst sa @ fst sb) (outcome st)
       in (\<not> stop \<and> \<not> (chunked \<and> cd_state (snd db) = Done), \<lparr>decoder = snd db, parser = snd sb, outcome = o'\<rparr>))"
    unfolding stream_consume_def both by (simp add: feed)
  have b: "stream_consume parse f chunked b st1 =
      (let (stop, o') = process_events f (fst sb) (snd pa)
       in (\<not> stop \<and> \<not> (chunked \<and> cd_state (snd db) = Done), \<lparr>decoder = snd db, parser = snd sb, outcome = o'\<rparr>))"
    by (simp add: stream_consume_def a(2) db_def sb_def split_beta Let_def)
  have "\<not> fst pa \<Longrightarrow> chunked \<Longrightarrow> cd_state (snd da) = Done \<Longrightarrow> fst sb = [] \<and> snd db = snd da"
    by (simp add: db_def sb_def chunk_feed_done sse_feed_Nil sa_def sse_feed_ok)
  moreover have "outcome st1 = snd pa" by (simp add: a(2))
  ultimately show ?thesis
    by (auto simp: a(1) ab b process_events_append pa_def [symmetric] split_beta Let_def)
qed

lemma consume_blocks_concat:
  "outcome (consume_blocks parse f chunked (b # bs) st) = outcome (snd (stream_consume parse f chunked (concat (b # bs)) st))"
proof (induction bs arbitrary: b st)
  case Nil
  then show ?case by (simp add: split_beta Let_def)
next
  case (Cons b' bs)
  obtain keep st1 where c: "stream_consume parse f chunked b st = (keep, st1)" by fastforce
  from stream_consume_append [OF c, of "concat (b' # bs)"] Cons.IH [of b' st1] show ?case
    by (cases keep) (simp_all add: c)
qed

subsection \<open>Well-formed answers\<close>

text \<open>
  What a server sends: chunks with their size lines (digits of either case, an extension is allowed), a last chunk of size zero, and
  one \<^verbatim>\<open>data:\<close> event for each payload.
\<close>

definition chunk_encode :: "(string \<times> string) list \<Rightarrow> string \<Rightarrow> string" where
  "chunk_encode cs last_line = concat (map (\<lambda>(h, c). h @ crlf @ c @ crlf) cs) @ last_line @ crlf @ crlf"

definition valid_chunks :: "(string \<times> string) list \<Rightarrow> string \<Rightarrow> bool" where
  "valid_chunks cs last_line \<longleftrightarrow>
     (\<forall>(h, c) \<in> set cs. CHR 0x0D \<notin> set h \<and> c \<noteq> [] \<and> chunk_size h = length c) \<and>
     CHR 0x0D \<notin> set last_line \<and> chunk_size last_line = 0"

definition sse_encode :: "string list \<Rightarrow> string" where
  "sse_encode ps = concat (map (\<lambda>p. ''data: '' @ p @ [CHR 0x0A, CHR 0x0A]) ps)"

definition valid_payload :: "string \<Rightarrow> bool" where
  "valid_payload p \<longleftrightarrow> p \<noteq> [] \<and> CHR 0x0A \<notin> set p \<and> last p \<noteq> CHR 0x0D"

lemma chunk_feed_size_line:
  "cd_state d = Size \<Longrightarrow> CHR 0x0D \<notin> set h \<Longrightarrow>
   chunk_feed (h @ crlf @ rest) d = chunk_feed rest (end_size_line (d\<lparr>cd_state := SizeLf, size_line := size_line d @ h\<rparr>))"
  by (induction h arbitrary: d) (auto simp: crlf_def chunk_byte_def)

lemma chunk_feed_chunk:
  assumes "cd_state d = Size" "size_line d = []" "CHR 0x0D \<notin> set h" "c \<noteq> []" "chunk_size h = length c"
  shows "\<exists>d'. cd_state d' = Size \<and> size_line d' = [] \<and>
    chunk_feed (h @ crlf @ c @ crlf @ rest) d = (c @ fst (chunk_feed rest d'), snd (chunk_feed rest d'))"
proof -
  let ?d1 = "end_size_line (d\<lparr>cd_state := SizeLf, size_line := size_line d @ h\<rparr>)"
  have d1: "cd_state ?d1 = Data" "cd_remaining ?d1 = length c" "size_line ?d1 = []"
    using assms by (simp_all add: end_size_line_def)
  let ?d2 = "chunk_data (length c) ?d1"
  have "chunk_feed (c @ crlf @ rest) ?d1 = (c @ fst (chunk_feed (crlf @ rest) ?d2), snd (chunk_feed (crlf @ rest) ?d2))"
    using chunk_feed_Data [OF d1(1), of "c @ crlf @ rest" "length c"] assms(4) d1(2) by simp
  moreover have d2: "cd_state ?d2 = DataCr" "size_line ?d2 = []" using d1 by (simp_all add: chunk_data_def)
  then have "chunk_feed (crlf @ rest) ?d2 = chunk_feed rest (?d2\<lparr>cd_state := Size\<rparr>)"
    by (simp add: crlf_def chunk_byte_def)
  ultimately show ?thesis
    using d2 chunk_feed_size_line [OF assms(1,3), of "c @ crlf @ rest"] by (intro exI [of _ "?d2\<lparr>cd_state := Size\<rparr>"]) simp
qed

lemma chunk_decode_encode:
  "cd_state d = Size \<Longrightarrow> size_line d = [] \<Longrightarrow> valid_chunks cs last_line \<Longrightarrow>
   fst (chunk_feed (chunk_encode cs last_line) d) = concat (map snd cs) \<and> cd_state (snd (chunk_feed (chunk_encode cs last_line) d)) = Done"
proof (induction cs arbitrary: d)
  case Nil
  then show ?case
    using chunk_feed_size_line [of d last_line crlf]
    by (simp add: chunk_encode_def valid_chunks_def end_size_line_def) (simp add: crlf_def chunk_byte_def)
next
  case (Cons x cs)
  obtain h c where x: "x = (h, c)" by (cases x)
  have "CHR 0x0D \<notin> set h" "c \<noteq> []" "chunk_size h = length c" using Cons.prems(3) by (auto simp: valid_chunks_def x)
  from chunk_feed_chunk [OF Cons.prems(1,2) this, of "chunk_encode cs last_line"] obtain d' where
    "cd_state d' = Size" "size_line d' = []"
    "chunk_feed (chunk_encode (x # cs) last_line) d =
      (c @ fst (chunk_feed (chunk_encode cs last_line) d'), snd (chunk_feed (chunk_encode cs last_line) d'))"
    by (auto simp: x chunk_encode_def)
  with Cons.IH [of d'] Cons.prems(3) show ?case by (simp add: x valid_chunks_def)
qed

lemma sse_lines_step:
  "CHR 0x0A \<notin> set line \<Longrightarrow> sse_line parse (strip_cr line) d = (e1, d1) \<Longrightarrow>
   sse_lines parse (line @ CHR 0x0A # rest) d = (e1 @ fst (sse_lines parse rest d1), snd (sse_lines parse rest d1))"
proof -
  assume "CHR 0x0A \<notin> set line" and l: "sse_line parse (strip_cr line) d = (e1, d1)"
  then have "find_idx (\<lambda>c. c = CHR 0x0A) (line @ CHR 0x0A # rest) = Some (length line)"
    by (intro find_idx_append) auto
  then show ?thesis
    using l by (simp add: sse_lines.simps [of parse "line @ CHR 0x0A # rest"] split_beta Let_def)
qed

lemma sse_lines_event:
  assumes "valid_payload p"
  shows "sse_lines parse (''data: '' @ p @ CHR 0x0A # CHR 0x0A # rest) [] =
    (let (evs, r, d) = sse_lines parse rest [] in (parse_payload parse p # evs, r, d))"
proof -
  let ?line = "''data: '' @ p"
  have l: "sse_line parse (strip_cr ?line) [] = ([], p)"
    using assms by (simp add: sse_line_def strip_cr_def strip_space_def valid_payload_def)
  have e: "sse_line parse (strip_cr []) p = ([parse_payload parse p], [])"
    using assms by (simp add: sse_line_def strip_cr_def valid_payload_def)
  have "CHR 0x0A \<notin> set ?line" using assms by (simp add: valid_payload_def)
  from sse_lines_step [OF this l, of "CHR 0x0A # rest"] sse_lines_step [OF _ e, of rest] show ?thesis
    by (simp add: split_beta Let_def)
qed

lemma sse_lines_encode:
  "list_all valid_payload ps \<Longrightarrow> sse_lines parse (sse_encode ps) [] = (map (parse_payload parse) ps, [], [])"
proof (induction ps)
  case Nil
  then show ?case by (simp add: sse_encode_def sse_lines_no_line)
next
  case (Cons p ps)
  then show ?case using sse_lines_event [of p parse "sse_encode ps"] by (simp add: sse_encode_def)
qed

lemma find_sub_prefix:
  assumes "find_sub p (x @ y) = Some n"
  shows "find_sub p x = (if n + length p \<le> length x then Some n else None)"
proof -
  have at_n: "starts_with p (drop n (x @ y))" using find_sub_Some [OF assms] by simp
  have less: "\<not> starts_with p (drop k x)" if "k < n" "k + length p \<le> length x" for k
    using find_sub_least [OF assms that(1)] that(2) by (simp add: starts_with_take)
  have in_x: "n + length p \<le> length x \<Longrightarrow> starts_with p (drop n x)"
    using at_n by (simp add: starts_with_take)
  show ?thesis
  proof (cases "find_sub p x")
    case None
    with in_x find_sub_None [OF None] show ?thesis by auto
  next
    case (Some k)
    note k = find_sub_Some [OF Some]
    have "\<not> k < n" using less k by blast
    moreover have "\<not> n < k" using find_sub_least [OF Some, of n] in_x k by auto
    ultimately show ?thesis using Some k by simp
  qed
qed

lemma starts_with_append_left: "starts_with p x \<Longrightarrow> starts_with p (x @ y)"
  by (auto simp: starts_with_iff)

lemma find_sub_append_left: "find_sub p x = Some n \<Longrightarrow> find_sub p (x @ y) = Some n"
proof (induction p x arbitrary: n rule: find_sub.induct)
  case (1 p)
  then show ?case by (cases y) (simp_all split: if_splits)
next
  case (2 p c cs)
  then show ?case
    using starts_with_append_left [of p "c # cs" y] find_sub_prefix [of p "c # cs" y]
    by (cases "starts_with p (c # cs @ y)") (auto split: if_splits)
qed

lemma read_headers_ok:
  assumes "acc @ concat blocks = full" "find_sub (crlf @ crlf) full = Some n" "n \<le> 49148" "\<forall>b\<in>set blocks. length b \<le> 16384"
  shows "\<exists>received more_blocks. read_headers acc blocks = Inr (received, more_blocks) \<and> received @ concat more_blocks = full \<and>
    find_sub (crlf @ crlf) received = Some n"
  using assms(1,4)
proof (induction blocks arbitrary: acc)
  case Nil
  with assms(2) show ?case by simp
next
  case (Cons b bs)
  have p: "find_sub (crlf @ crlf) acc = (if n + 4 \<le> length acc then Some n else None)"
    using find_sub_prefix [of "crlf @ crlf" acc "b @ concat bs" n] assms(2) Cons.prems(1) by (simp add: crlf_def)
  show ?case
  proof (cases "n + 4 \<le> length acc")
    case True
    with p Cons.prems show ?thesis by simp
  next
    case False
    with assms(3) Cons.prems(2) have "length (acc @ b) \<le> 64 * 1024" by simp
    with p False Cons.IH [of "acc @ b"] Cons.prems show ?thesis by simp
  qed
qed

subsection \<open>Properties\<close>

text \<open>The contents of the events before the end of the reply.\<close>

definition deltas_of :: "sse_event list \<Rightarrow> string list" where
  "deltas_of evs = filter (\<lambda>d. d \<noteq> []) (map delta (takeWhile (\<lambda>ev. \<not> ev_done ev) evs))"

text \<open>
  \<open>streams ps blocks parse\<close>: the blocks, however the network cut them, carry a good answer to the chat request whose events
  have the payloads \<open>ps\<close>.
\<close>

definition carries_body :: "string list \<Rightarrow> string \<Rightarrow> string \<Rightarrow> bool" where
  "carries_body ps hdr body \<longleftrightarrow>
     (if is_chunked_response hdr
      then \<exists>cs last_line. valid_chunks cs last_line \<and> body = chunk_encode cs last_line \<and> concat (map snd cs) = sse_encode ps
      else body = sse_encode ps)"

definition carries_answer :: "string list \<Rightarrow> string list \<Rightarrow> bool" where
  "carries_answer ps blocks \<longleftrightarrow>
     list_all valid_payload ps \<and> list_all (\<lambda>b. length b \<le> 16384) blocks \<and>
     (\<exists>hdr body. concat blocks = hdr @ crlf @ crlf @ body \<and> find_sub (crlf @ crlf) (hdr @ crlf @ crlf) = Some (length hdr) \<and>
        length hdr \<le> 49148 \<and> header_status hdr = 200 \<and> carries_body ps hdr body)"

lemma consume_whole_body:
  assumes "list_all valid_payload ps" "carries_body ps hdr body"
  shows "outcome (snd (stream_consume parse f (is_chunked_response hdr) body
      \<lparr>decoder = new_chunked_decoder, parser = \<lparr>sse_buffer = [], sse_event_data = []\<rparr>, outcome = st\<rparr>)) =
    snd (process_events f (map (parse_payload parse) ps) st)"
proof (cases "is_chunked_response hdr")
  case True
  then obtain cs last_line where c: "valid_chunks cs last_line" "body = chunk_encode cs last_line" "concat (map snd cs) = sse_encode ps"
    using assms(2) by (auto simp: carries_body_def)
  have "fst (chunk_feed body new_chunked_decoder) = sse_encode ps"
    using chunk_decode_encode [OF _ _ c(1), of new_chunked_decoder] c by (simp add: new_chunked_decoder_def)
  with True show ?thesis
    by (simp add: stream_consume_def sse_feed_def split_beta Let_def sse_lines_encode [OF assms(1)])
next
  case False
  with assms show ?thesis
    by (simp add: stream_consume_def sse_feed_def split_beta Let_def sse_lines_encode carries_body_def)
qed

lemma stream_chat_events:
  assumes "carries_answer ps blocks"
  shows "stream_chat parse host port (Connected blocks) f s =
    (let (stop, res, s') = process_events f (map (parse_payload parse) ps) (no_result, s) in (close_result res, s'))"
proof -
  from assms obtain hdr body where c: "concat blocks = hdr @ crlf @ crlf @ body" and n: "find_sub (crlf @ crlf) (hdr @ crlf @ crlf) = Some (length hdr)"
      and len: "length hdr \<le> 49148" and st: "header_status hdr = 200" and b: "carries_body ps hdr body"
      and ps: "list_all valid_payload ps" and bs: "\<forall>b\<in>set blocks. length b \<le> 16384"
    by (auto simp: carries_answer_def list_all_iff)
  have "find_sub (crlf @ crlf) ((hdr @ crlf @ crlf) @ body) = Some (length hdr)"
    by (rule find_sub_append_left [OF n])
  then have full: "find_sub (crlf @ crlf) (concat blocks) = Some (length hdr)" by (simp add: c)
  obtain received more where r: "read_headers [] blocks = Inr (received, more)" "received @ concat more = concat blocks"
      "find_sub (crlf @ crlf) received = Some (length hdr)"
    using read_headers_ok [of "[]" blocks "concat blocks", OF _ full len bs] by auto
  have "length hdr + 4 \<le> length received" using find_sub_Some [OF r(3)] by (simp add: crlf_def)
  moreover have "take (length hdr + 4) (received @ concat more) = hdr @ crlf @ crlf" "drop (length hdr + 4) (received @ concat more) = body"
    by (simp_all add: r(2) c crlf_def)
  ultimately have hb: "take (length hdr) received = hdr" "drop (length hdr + 4) received @ concat more = body"
    by (simp_all) (metis append_eq_conv_conj append_take_drop_id length_take min.absorb2 nle_le take_append take_take trans_le_add1)+
  show ?thesis
    using consume_whole_body [OF ps b, of parse f "(no_result, s)"]
      consume_blocks_concat [of parse f "is_chunked_response hdr" "drop (length hdr + 4) received" more]
    by (simp add: stream_chat_def r(1) answer_body_def r(3) hb st Let_def split_beta)
qed

lemma process_events_record:
  "\<forall>ev\<in>set evs. ev_error ev = [] \<Longrightarrow> res_error res = [] \<Longrightarrow>
   snd (snd (process_events (\<lambda>d ds. (True, ds @ [d])) evs (res, acc))) = acc @ deltas_of evs \<and>
   res_error (fst (snd (process_events (\<lambda>d ds. (True, ds @ [d])) evs (res, acc)))) = []"
  by (induction evs arbitrary: res acc)
     (auto simp: process_event_def note_event_def deltas_of_def Let_def split_beta)

text \<open>
  C15. The client hears the model exactly. Whatever the sizes of the blocks that the socket returns and of the chunks that
  the server makes, the outcome of a good answer is that of its events processed one by one; and without an error
  event the callback gets the contents of the events before the end marker, all of them, in order.
\<close>

theorem stream_chat_faithful:
  assumes "carries_answer ps blocks"
  shows "stream_chat parse host port (Connected blocks) f s =
      (let (stop, res, s') = process_events f (map (parse_payload parse) ps) (no_result, s) in (close_result res, s')) \<and>
    ((\<forall>p\<in>set ps. ev_error (parse_payload parse p) = []) \<longrightarrow>
     (\<exists>res. stream_chat parse host port (Connected blocks) (\<lambda>d ds. (True, ds @ [d])) [] =
        (res, deltas_of (map (parse_payload parse) ps)) \<and> res_ok res))"
  using stream_chat_events [OF assms, of parse host port f s]
    stream_chat_events [OF assms, of parse host port "\<lambda>d ds. (True, ds @ [d])" "[]"]
    process_events_record [of "map (parse_payload parse) ps" no_result "[]"]
  by (auto simp: split_beta Let_def close_result_def no_result_def)

text \<open>An answer of one chunk with one delta, in two blocks.\<close>

definition demo_parse :: "string \<Rightarrow> json_error + json" where
  "demo_parse p = Inr (JObject [(''choices'', JArray [JObject [(''delta'', JObject [(''content'', JString ''Hi'')])]])])"

definition demo_payloads :: "string list" where
  "demo_payloads = [''x'', ''[DONE]'']"

definition demo_header :: string where
  "demo_header = ''HTTP/1.1 200 OK'' @ crlf @ ''Transfer-Encoding: chunked''"

definition demo_body :: string where
  "demo_body = chunk_encode [(''17'', sse_encode demo_payloads)] ''0''"

definition demo_blocks :: "string list" where
  "demo_blocks = [take 30 (demo_header @ crlf @ crlf @ demo_body), drop 30 (demo_header @ crlf @ crlf @ demo_body)]"

lemma demo_carries: "carries_answer demo_payloads demo_blocks"
proof -
  have "valid_chunks [(''17'', sse_encode demo_payloads)] ''0''"
    by (simp add: valid_chunks_def sse_encode_def demo_payloads_def chunk_size_def hex_value_def to_lower_def ctype_defs)
  then have "\<exists>cs l. valid_chunks cs l \<and> demo_body = chunk_encode cs l \<and> concat (map snd cs) = sse_encode demo_payloads"
    unfolding demo_body_def by (intro exI [of _ "[(''17'', sse_encode demo_payloads)]"] exI [of _ "''0''"]) simp
  moreover have "is_chunked_response demo_header"
    by (simp add: is_chunked_response_def demo_header_def crlf_def lower_ascii_def to_lower_def ctype_defs char_of_def bit_Suc_0_iff)
  ultimately have "carries_body demo_payloads demo_header demo_body" by (simp add: carries_body_def)
  moreover have "find_sub (crlf @ crlf) (demo_header @ crlf @ crlf) = Some (length demo_header)"
    by (simp add: demo_header_def crlf_def)
  moreover have "length demo_header \<le> 49148"
    by (simp add: demo_header_def crlf_def)
  moreover have "header_status demo_header = 200"
    by (simp add: header_status_def demo_header_def crlf_def c_atoi_def c_int_scan_def digits_nat_def ctype_defs byte_of_def)
  moreover have "list_all valid_payload demo_payloads"
    by code_simp
  moreover have "list_all (\<lambda>b. length b \<le> 16384) demo_blocks"
    by (simp add: demo_blocks_def demo_header_def demo_body_def chunk_encode_def sse_encode_def demo_payloads_def crlf_def)
  moreover have "concat demo_blocks = demo_header @ crlf @ crlf @ demo_body"
    by (simp add: demo_blocks_def del: take_append drop_append)
  ultimately show ?thesis unfolding carries_answer_def by blast
qed

lemma demo_events: "deltas_of (map (parse_payload demo_parse) demo_payloads) = [''Hi'']"
    "list_all (\<lambda>p. ev_error (parse_payload demo_parse p) = []) demo_payloads"
  by (simp_all add: demo_payloads_def parse_payload_def demo_parse_def deltas_of_def no_event_def read_timings_def
      read_choice_def string_member_def)

theorem stream_chat_faithful_witness:
  "\<exists>res. stream_chat demo_parse ''127.0.0.1'' 8080 (Connected demo_blocks) (\<lambda>d ds. (True, ds @ [d])) [] = (res, [''Hi'']) \<and> res_ok res"
  using stream_chat_faithful [OF demo_carries, of demo_parse "''127.0.0.1''" 8080, THEN conjunct2] demo_events by (simp add: list_all_iff)

end
