(* ===== verification/Chat_Stream.thy ===== *)
theory Chat_Stream
  imports Chat_Hygiene Segmenter LLM_Client "HOL-Library.Sublist"
begin

text \<open>
  The reply stream of the chat endpoint (\<^verbatim>\<open>app/server/runtime.cpp\<close>): how the deltas of the
  language model become the tokens the client shows and the sentences the synthesiser speaks. There
  are two producers of these events: the reader thread of \<^verbatim>\<open>chat_orchestrate\<close> (\<open>direct_reply\<close>), and, for
  a speculative hit, a worker that fills a shared buffer while a second thread replays it (the
  interleaving \<open>spec_step\<close>). Both run the scrubber in front of the segmenter.

  The stream of the model is the argument \<open>ds\<close>: each delta with the value of the abort flag that
  the callback reads after it. Synthesis, the SSE writer and the timing numbers of the model are not part of
  this theory.
\<close>

subsection \<open>The reader thread\<close>

datatype chat_event = Token string | Sentence string | Llm_Done string bool string

definition emit :: "string \<Rightarrow> segmenter \<times> chat_event list \<Rightarrow> (segmenter \<times> chat_event list) option" where
  "emit clean = (\<lambda>(seg, evs).
     if clean = [] then Some (seg, evs)
     else map_option (\<lambda>(ss, seg'). (seg', evs @ [Token clean] @ map Sentence ss)) (seg_feed clean seg))"

fun stream_deltas :: "(string \<times> bool) list \<Rightarrow> scrubber \<Rightarrow> segmenter \<times> chat_event list \<Rightarrow>
    (scrubber \<times> segmenter \<times> chat_event list) option" where
  "stream_deltas [] sc st = Some (sc, st)"
| "stream_deltas ((d, abort) # ds) sc st =
     Option.bind (emit (fst (scrub_feed d sc)) st) (\<lambda>st'.
       if abort then Some (snd (scrub_feed d sc), st') else stream_deltas ds (snd (scrub_feed d sc)) st')"

definition truncated_tail :: "string \<Rightarrow> string \<Rightarrow> bool" where
  "truncated_tail finish rest \<longleftrightarrow> finish = ''length'' \<and> \<not> ends_with_sentence_terminal (strip_speech_markup rest)"

definition closing_events :: "llm_result \<Rightarrow> string \<Rightarrow> chat_event list" where
  "closing_events res rest =
     (if rest \<noteq> [] \<and> \<not> truncated_tail (finish_reason res) rest then [Sentence rest] else []) @
     [Llm_Done (finish_reason res) (res_ok res) (res_error res)]"

definition direct_options :: seg_options where
  "direct_options = \<lparr>first_segment_min_chars = 24, first_segment_word_cut_chars = 48, max_segment_chars = 300\<rparr>"

definition direct_reply :: "(string \<times> bool) list \<Rightarrow> llm_result \<Rightarrow> chat_event list option" where
  "direct_reply ds res =
     Option.bind (stream_deltas ds new_scrubber (new_segmenter direct_options, [])) (\<lambda>(sc, st).
     Option.bind (emit (fst (scrub_flush sc)) st) (\<lambda>(seg, evs).
     Some (evs @ closing_events res (fst (seg_flush seg)))))"

subsection \<open>Speculation\<close>

definition spec_options :: seg_options where
  "spec_options = \<lparr>first_segment_min_chars = 40, first_segment_word_cut_chars = 64, max_segment_chars = 300\<rparr>"

text \<open>
  The shared buffer with what the worker and the replaying thread keep to themselves. The worker
  waits for the stream slot, streams the deltas that are still to come, keeps the result of the model
  (\<^verbatim>\<open>result\<close>), flushes the scrubber, and publishes the result; superseded while waiting it leaves at once.
  \<open>Waiting\<close> and \<open>Streaming\<close> carry what the model still has to send: deltas and result. A client that
  has not asked yet is \<open>Detached\<close>; one that was turned away or went away is \<open>Left\<close>.
\<close>

datatype worker_phase = Waiting "string list" llm_result | Streaming "string list" llm_result
  | Returned llm_result | Flushed llm_result | is_finished: Finished llm_result | Superseded

datatype reader_phase = Detached | Following | Replayed | Left

record speculation =
  sp_abort :: bool
  sp_text :: string
  sp_sentences :: "string list"
  sp_rest :: string
  sp_result :: "llm_result option"
  worker :: worker_phase
  w_scrubber :: scrubber
  w_segmenter :: segmenter
  text_pos :: nat
  sentence_pos :: nat
  reader :: reader_phase
  events :: "chat_event list"

definition new_speculation :: "string list \<Rightarrow> llm_result \<Rightarrow> speculation" where
  "new_speculation ds res =
     \<lparr>sp_abort = False, sp_text = [], sp_sentences = [], sp_rest = [], sp_result = None, worker = Waiting ds res,
      w_scrubber = new_scrubber, w_segmenter = new_segmenter spec_options, text_pos = 0, sentence_pos = 0,
      reader = Detached, events = []\<rparr>"

text \<open>\<^verbatim>\<open>emit\<close> of the worker: text and sentences are published under one lock.\<close>

definition spec_emit :: "string \<Rightarrow> speculation \<Rightarrow> speculation option" where
  "spec_emit clean s =
     (if clean = [] then Some s
      else map_option (\<lambda>(ss, seg').
             s\<lparr>w_segmenter := seg', sp_text := sp_text s @ clean, sp_sentences := sp_sentences s @ ss\<rparr>) (seg_feed clean (w_segmenter s)))"

definition publish_result :: "llm_result \<Rightarrow> speculation \<Rightarrow> speculation" where
  "publish_result res s =
     s\<lparr>sp_rest := fst (seg_flush (w_segmenter s)), w_segmenter := snd (seg_flush (w_segmenter s)),
       sp_result := Some res, worker := Finished res\<rparr>"

text \<open>Whether a send attaches: not with another key, to an aborted speculation or to one that has failed.\<close>

definition take_matching_speculation :: "bool \<Rightarrow> speculation \<Rightarrow> speculation" where
  "take_matching_speculation same_key s =
     (if \<not> same_key \<or> sp_abort s then s\<lparr>sp_abort := True, reader := Left\<rparr>
      else case sp_result s of
          Some res \<Rightarrow> if \<not> res_ok res then s\<lparr>reader := Left\<rparr> else s\<lparr>reader := Following\<rparr>
        | None \<Rightarrow> s\<lparr>reader := Following\<rparr>)"

definition new_events :: "speculation \<Rightarrow> chat_event list" where
  "new_events s =
     (if length (sp_text s) > text_pos s then [Token (drop (text_pos s) (sp_text s))] else []) @
     map Sentence (drop (sentence_pos s) (sp_sentences s))"

text \<open>
  One pass of the replay loop: a snapshot under the lock, then the events; with \<^verbatim>\<open>llm_done\<close> set the
  snapshot is complete and the pass is the last one.
\<close>

definition replay_pass :: "speculation \<Rightarrow> speculation" where
  "replay_pass s =
     s\<lparr>events := events s @ new_events s @ (case sp_result s of None \<Rightarrow> [] | Some res \<Rightarrow> closing_events res (sp_rest s)),
       text_pos := length (sp_text s), sentence_pos := length (sp_sentences s),
       reader := (if sp_result s = None then Following else Replayed)\<rparr>"

text \<open>The result of a stream that the abort flag cut is not known: \<open>cut_result\<close> is any.\<close>

inductive spec_step :: "speculation \<Rightarrow> speculation \<Rightarrow> bool" where
  w_start: "worker s = Waiting ds res \<Longrightarrow>
    spec_step s (s\<lparr>worker := (if sp_abort s then Superseded else Streaming ds res)\<rparr>)"
| w_delta: "worker s = Streaming (d # ds) res \<Longrightarrow> spec_emit (fst (scrub_feed d (w_scrubber s))) s = Some s' \<Longrightarrow>
    spec_step s (s'\<lparr>w_scrubber := snd (scrub_feed d (w_scrubber s)),
      worker := (if sp_abort s then Returned cut_result else Streaming ds res)\<rparr>)"
| w_return: "worker s = Streaming [] res \<Longrightarrow> spec_step s (s\<lparr>worker := Returned res\<rparr>)"
| w_flush: "worker s = Returned res \<Longrightarrow> spec_emit (fst (scrub_flush (w_scrubber s))) s = Some s' \<Longrightarrow>
    spec_step s (s'\<lparr>w_scrubber := snd (scrub_flush (w_scrubber s)), worker := Flushed res\<rparr>)"
| w_done: "worker s = Flushed res \<Longrightarrow> spec_step s (publish_result res s)"
| r_take: "reader s = Detached \<Longrightarrow> spec_step s (take_matching_speculation same_key s)"
| r_pass: "reader s = Following \<Longrightarrow> spec_step s (replay_pass s)"
| r_leave: "reader s = Following \<Longrightarrow> spec_step s (s\<lparr>sp_abort := True, reader := Left\<rparr>)"
| abort: "spec_step s (s\<lparr>sp_abort := True\<rparr>)"

inductive_cases spec_stepE: "spec_step s t"

subsection \<open>What a reply promises\<close>

fun shown :: "chat_event list \<Rightarrow> string" where
  "shown [] = []"
| "shown (Token t # es) = t @ shown es"
| "shown (e # es) = shown es"

fun said :: "chat_event list \<Rightarrow> string list" where
  "said [] = []"
| "said (Sentence t # es) = t # said es"
| "said (e # es) = said es"

fun is_done :: "chat_event \<Rightarrow> bool" where
  "is_done (Llm_Done f k e) = True"
| "is_done e = False"

text \<open>The voice never runs ahead of the text: at every point what was said is the start of what was shown.\<close>

definition in_step :: "chat_event list \<Rightarrow> bool" where
  "in_step evs \<longleftrightarrow> (\<forall>n \<le> length evs. prefix (spoken (concat (said (take n evs)))) (spoken (shown (take n evs))))"

text \<open>The scrubbed text of a whole reply.\<close>

definition scrubbed :: "string list \<Rightarrow> string" where
  "scrubbed ds = (let (out, sc) = scrub_feed (concat ds) new_scrubber in out @ fst (scrub_flush sc))"

text \<open>
  \<open>reply_ok ds res evs\<close>: the client is shown the scrubbed text of \<open>ds\<close>, the voice is never ahead of it, every
  sentence is non-empty and trimmed, all of the text is spoken but for a fragment that the token limit cut off,
  and the stream ends with the result of the model, reported once.
\<close>

definition reply_ok :: "string list \<Rightarrow> llm_result \<Rightarrow> chat_event list \<Rightarrow> bool" where
  "reply_ok ds res evs \<longleftrightarrow>
     shown evs = scrubbed ds \<and> in_step evs \<and> list_all is_trimmed (said evs) \<and>
     filter is_done evs = [Llm_Done (finish_reason res) (res_ok res) (res_error res)] \<and> evs \<noteq> [] \<and> is_done (last evs) \<and>
     (\<exists>tail. spoken (scrubbed ds) = spoken (concat (said evs)) @ spoken tail \<and>
        (tail = [] \<or> length tail < 300 \<and> truncated_tail (finish_reason res) tail))"

subsection \<open>Events\<close>

lemma shown_append [simp]: "shown (xs @ ys) = shown xs @ shown ys"
  by (induction xs rule: shown.induct) auto

lemma said_append [simp]: "said (xs @ ys) = said xs @ said ys"
  by (induction xs rule: said.induct) auto

lemma sentences_only [simp]:
  "shown (map Sentence ss) = []" "said (map Sentence ss) = ss" "filter is_done (map Sentence ss) = []"
  by (induction ss) auto

lemma in_step_Nil [simp]: "in_step []"
  by (simp add: in_step_def)

lemma in_step_snoc:
  "in_step (evs @ [e]) \<longleftrightarrow> in_step evs \<and> prefix (spoken (concat (said (evs @ [e])))) (spoken (shown (evs @ [e])))"
  unfolding in_step_def by (auto simp: le_Suc_eq)

lemma in_stepD: "in_step evs \<Longrightarrow> prefix (spoken (concat (said evs))) (spoken (shown evs))"
  unfolding in_step_def by (metis order_refl take_all)

lemma in_step_token: "in_step evs \<Longrightarrow> in_step (evs @ [Token t])"
  using in_stepD by (fastforce simp: in_step_snoc)

lemma in_step_sentences:
  "in_step evs \<Longrightarrow> prefix (spoken (concat (said evs @ ss))) (spoken (shown evs)) \<Longrightarrow> in_step (evs @ map Sentence ss)"
proof (induction ss rule: rev_induct)
  case (snoc x ss)
  have "in_step (evs @ map Sentence ss)"
    using snoc.prems by (intro snoc.IH) (auto elim: append_prefixD simp flip: append_assoc)
  with snoc.prems(2) show ?case
    by (simp add: in_step_snoc flip: append_assoc)
qed simp

subsection \<open>The segmenter behind a growing text\<close>

definition tracks :: "string \<Rightarrow> segmenter \<Rightarrow> string list \<Rightarrow> bool" where
  "tracks tx seg ss \<longleftrightarrow>
     max_segment_chars (seg_options seg) = 300 \<and> length (pending seg) < 300 \<and> list_all is_trimmed ss \<and>
     spoken (concat ss @ pending seg) = spoken tx"

lemma tracks_new: "max_segment_chars opts = 300 \<Longrightarrow> tracks [] (new_segmenter opts) []"
  by (simp add: tracks_def new_segmenter_def)

lemma tracks_feed:
  assumes "tracks tx seg ss"
  shows "\<exists>r seg'. seg_feed clean seg = Some (r, seg') \<and> tracks (tx @ clean) seg' (ss @ r)"
proof -
  have "0 < max_segment_chars (seg_options seg)" using assms by (simp add: tracks_def)
  from seg_feed_result [OF this, of clean] obtain r seg' where f: "seg_feed clean seg = Some (r, seg')"
      "\<forall>x\<in>set r. is_trimmed x" "seg_options seg' = seg_options seg" "length (pending seg') < max_segment_chars (seg_options seg)"
      "spoken (concat r @ pending seg') = spoken (pending seg @ clean)" by blast
  then have "tracks (tx @ clean) seg' (ss @ r)"
    using assms by (auto simp: tracks_def list_all_iff)
  with f(1) show ?thesis by blast
qed

lemma tracks_prefix: "tracks tx seg ss \<Longrightarrow> prefix (spoken (concat ss)) (spoken tx)"
  by (metis prefixI spoken_append tracks_def)

lemma length_trimmed: "length (trimmed s) \<le> length s"
  unfolding trimmed_def by (metis length_dropWhile_le length_rev order_trans)

text \<open>Both producers end a reply in the same way.\<close>

lemma closing_ok:
  assumes tr: "tracks (scrubbed ds) seg (said evs)" and sh: "shown evs = scrubbed ds" and st: "in_step evs"
    and nd: "filter is_done evs = []" and r: "r = fst (seg_flush seg)"
  shows "reply_ok ds res (evs @ closing_events res r)"
proof -
  let ?tail = "if r \<noteq> [] \<and> truncated_tail (finish_reason res) r then r else []"
  let ?ss = "if r \<noteq> [] \<and> \<not> truncated_tail (finish_reason res) r then [r] else []"
  have cl: "closing_events res r = map Sentence ?ss @ [Llm_Done (finish_reason res) (res_ok res) (res_error res)]"
    by (simp add: closing_events_def)
  have sp: "spoken (scrubbed ds) = spoken (concat (said evs @ ?ss)) @ spoken ?tail"
    using tr by (auto simp: tracks_def r seg_flush_def dest: spoken_trimmed_empty)
  have "in_step (evs @ map Sentence ?ss)"
    by (rule in_step_sentences [OF st]) (simp only: sh sp prefixI)
  then have "in_step (evs @ closing_events res r)"
    using in_stepD [of "evs @ map Sentence ?ss"] by (simp only: cl append_assoc [symmetric] in_step_snoc) simp
  moreover have "list_all is_trimmed (said evs @ ?ss)"
    using tr trimmed_is_trimmed by (auto simp: tracks_def r seg_flush_def)
  moreover have "length ?tail < 300"
    using tr length_trimmed [of "pending seg"] by (auto simp: tracks_def r seg_flush_def)
  ultimately show ?thesis
    unfolding reply_ok_def using sp sh nd by (intro conjI exI [of _ ?tail]) (simp_all add: cl)
qed

subsection \<open>The reader thread\<close>

text \<open>The deltas that are streamed before the abort flag is seen.\<close>

fun delivered :: "(string \<times> bool) list \<Rightarrow> string list" where
  "delivered [] = []"
| "delivered ((d, abort) # ds) = d # (if abort then [] else delivered ds)"

definition producer_ok :: "string list \<Rightarrow> scrubber \<Rightarrow> segmenter \<times> chat_event list \<Rightarrow> bool" where
  "producer_ok c sc = (\<lambda>(seg, evs).
     shown evs = fst (scrub_feed (concat c) new_scrubber) \<and> sc = snd (scrub_feed (concat c) new_scrubber) \<and>
     tracks (shown evs) seg (said evs) \<and> in_step evs \<and> filter is_done evs = [])"

lemma emit_ok:
  assumes "tracks (shown evs) seg (said evs)" "in_step evs" "filter is_done evs = []"
  shows "\<exists>seg' evs'. emit clean (seg, evs) = Some (seg', evs') \<and> shown evs' = shown evs @ clean \<and>
    tracks (shown evs') seg' (said evs') \<and> in_step evs' \<and> filter is_done evs' = []"
proof (cases "clean = []")
  case True
  then show ?thesis using assms by (simp add: emit_def)
next
  case False
  obtain r seg' where f: "seg_feed clean seg = Some (r, seg')" "tracks (shown evs @ clean) seg' (said evs @ r)"
    using tracks_feed [OF assms(1)] by blast
  have "in_step ((evs @ [Token clean]) @ map Sentence r)"
    by (rule in_step_sentences [OF in_step_token [OF assms(2)]]) (use tracks_prefix [OF f(2)] in simp)
  with f False assms(3) show ?thesis by (simp add: emit_def)
qed

lemma stream_deltas_ok:
  "producer_ok c sc st \<Longrightarrow> \<exists>sc' st'. stream_deltas ds sc st = Some (sc', st') \<and> producer_ok (c @ delivered ds) sc' st'"
proof (induction ds arbitrary: c sc st)
  case (Cons x ds)
  obtain d a where x: "x = (d, a)" by fastforce
  obtain seg evs where st: "st = (seg, evs)" by fastforce
  obtain seg' evs' where e: "emit (fst (scrub_feed d sc)) st = Some (seg', evs')"
      and "producer_ok (c @ [d]) (snd (scrub_feed d sc)) (seg', evs')"
    using Cons.prems emit_ok [of evs seg "fst (scrub_feed d sc)"] by (auto simp: producer_ok_def st scrub_feed_append)
  then show ?case using Cons.IH [of "c @ [d]"] by (simp add: x)
qed simp

lemma direct_reply_result: "\<exists>evs. direct_reply ds res = Some evs \<and> reply_ok (delivered ds) res evs"
proof -
  have "producer_ok [] new_scrubber (new_segmenter direct_options, [])"
    by (simp add: producer_ok_def tracks_new direct_options_def)
  then obtain sc seg evs where s: "stream_deltas ds new_scrubber (new_segmenter direct_options, []) = Some (sc, seg, evs)"
      and p: "producer_ok (delivered ds) sc (seg, evs)"
    using stream_deltas_ok by (metis append_Nil surj_pair)
  obtain seg' evs' where e: "emit (fst (scrub_flush sc)) (seg, evs) = Some (seg', evs')" "shown evs' = scrubbed (delivered ds)"
      "tracks (shown evs') seg' (said evs')" "in_step evs'" "filter is_done evs' = []"
    using p emit_ok [of evs seg "fst (scrub_flush sc)"] by (auto simp: producer_ok_def scrubbed_def case_prod_beta)
  have "reply_ok (delivered ds) res (evs' @ closing_events res (fst (seg_flush seg')))"
    by (rule closing_ok) (use e in simp_all)
  with s e(1) show ?thesis by (simp add: direct_reply_def)
qed

subsection \<open>Speculation: the invariant\<close>

definition fed_from :: "string list \<Rightarrow> speculation \<Rightarrow> bool" where
  "fed_from c s \<longleftrightarrow> sp_text s = fst (scrub_feed (concat c) new_scrubber) \<and> w_scrubber s = snd (scrub_feed (concat c) new_scrubber)"

definition all_or_aborted :: "string list \<Rightarrow> llm_result \<Rightarrow> string list \<Rightarrow> llm_result \<Rightarrow> speculation \<Rightarrow> bool" where
  "all_or_aborted ds res0 c res s \<longleftrightarrow> prefix c ds \<and> (sp_abort s \<or> c = ds \<and> res = res0)"

fun worker_ok :: "string list \<Rightarrow> llm_result \<Rightarrow> worker_phase \<Rightarrow> speculation \<Rightarrow> bool" where
  "worker_ok ds res0 (Waiting r res) s \<longleftrightarrow> r = ds \<and> res = res0 \<and> fed_from [] s"
| "worker_ok ds res0 (Streaming r res) s \<longleftrightarrow> res = res0 \<and> (\<exists>c. fed_from c s \<and> c @ r = ds)"
| "worker_ok ds res0 (Returned res) s \<longleftrightarrow> (\<exists>c. fed_from c s \<and> all_or_aborted ds res0 c res s)"
| "worker_ok ds res0 (Flushed res) s \<longleftrightarrow> (\<exists>c. sp_text s = scrubbed c \<and> all_or_aborted ds res0 c res s)"
| "worker_ok ds res0 (Finished res) s \<longleftrightarrow> (\<exists>c. sp_text s = scrubbed c \<and> all_or_aborted ds res0 c res s)"
| "worker_ok ds res0 Superseded s \<longleftrightarrow> sp_abort s"

definition buffer_ok :: "speculation \<Rightarrow> bool" where
  "buffer_ok s \<longleftrightarrow> (\<exists>seg. tracks (sp_text s) seg (sp_sentences s) \<and>
     (if is_finished (worker s) then (\<exists>res. sp_result s = Some res \<and> worker s = Finished res) \<and> sp_rest s = fst (seg_flush seg)
      else sp_result s = None \<and> w_segmenter s = seg))"

definition following_ok :: "speculation \<Rightarrow> bool" where
  "following_ok s \<longleftrightarrow> text_pos s \<le> length (sp_text s) \<and> sentence_pos s \<le> length (sp_sentences s) \<and>
     shown (events s) = take (text_pos s) (sp_text s) \<and> said (events s) = take (sentence_pos s) (sp_sentences s) \<and>
     in_step (events s) \<and> filter is_done (events s) = []"

definition replayed_ok :: "string list \<Rightarrow> llm_result \<Rightarrow> speculation \<Rightarrow> bool" where
  "replayed_ok ds res0 s \<longleftrightarrow> (\<exists>c res. worker s = Finished res \<and> all_or_aborted ds res0 c res s \<and> reply_ok c res (events s))"

definition spec_inv :: "string list \<Rightarrow> llm_result \<Rightarrow> speculation \<Rightarrow> bool" where
  "spec_inv ds res0 s \<longleftrightarrow> worker_ok ds res0 (worker s) s \<and> buffer_ok s \<and>
     (if reader s = Replayed then replayed_ok ds res0 s else following_ok s)"

lemmas spec_inv_defs = spec_inv_def buffer_ok_def following_ok_def replayed_ok_def fed_from_def all_or_aborted_def

lemma spec_inv_new: "spec_inv ds res0 (new_speculation ds res0)"
  by (simp add: spec_inv_defs new_speculation_def tracks_new spec_options_def)

text \<open>The worker's \<^verbatim>\<open>emit\<close> only appends to the buffer, so it does not disturb the reader.\<close>

lemma spec_emit_ok:
  assumes "buffer_ok s" "\<not> is_finished (worker s)"
  shows "\<exists>ss seg. spec_emit clean s = Some (s\<lparr>w_segmenter := seg, sp_text := sp_text s @ clean, sp_sentences := sp_sentences s @ ss\<rparr>) \<and>
    tracks (sp_text s @ clean) seg (sp_sentences s @ ss)"
proof (cases "clean = []")
  case True
  then show ?thesis using assms by (auto simp: spec_emit_def buffer_ok_def intro!: exI [of _ "[]"] exI [of _ "w_segmenter s"])
next
  case False
  then show ?thesis using assms tracks_feed [of "sp_text s" "w_segmenter s" "sp_sentences s" clean]
    by (auto simp: spec_emit_def buffer_ok_def)
qed

lemma spec_emitD:
  "spec_emit clean s = Some s' \<Longrightarrow> buffer_ok s \<Longrightarrow> \<not> is_finished (worker s) \<Longrightarrow>
   \<exists>ss seg. s' = s\<lparr>w_segmenter := seg, sp_text := sp_text s @ clean, sp_sentences := sp_sentences s @ ss\<rparr> \<and>
     tracks (sp_text s @ clean) seg (sp_sentences s @ ss)"
  using spec_emit_ok [of s clean] by auto

lemma worker_emit_inv:
  assumes inv: "spec_inv ds res0 s" and w: "\<not> is_finished (worker s)" and e: "spec_emit clean s = Some s'"
    and sc: "worker_ok ds res0 ph (s'\<lparr>w_scrubber := sc, worker := ph\<rparr>)" and ph: "\<not> is_finished ph"
  shows "spec_inv ds res0 (s'\<lparr>w_scrubber := sc, worker := ph\<rparr>)"
proof -
  have b: "buffer_ok s" "\<not> is_finished (worker s)" using inv w by (simp_all add: spec_inv_def)
  obtain ss seg where s': "s' = s\<lparr>w_segmenter := seg, sp_text := sp_text s @ clean, sp_sentences := sp_sentences s @ ss\<rparr>"
      and t: "tracks (sp_text s @ clean) seg (sp_sentences s @ ss)"
    using spec_emitD [OF e b] by blast
  have "reader s \<noteq> Replayed" using inv w by (auto simp: spec_inv_def replayed_ok_def)
  then have "following_ok s" "reader s \<noteq> Replayed" using inv by (simp_all add: spec_inv_def)
  with sc t ph b show ?thesis by (simp add: s' spec_inv_def buffer_ok_def following_ok_def)
qed

text \<open>A pass of the reader and an abort leave the worker and the buffer alone.\<close>

lemma replay_pass_keeps: "worker_ok ds res0 ph (replay_pass s) = worker_ok ds res0 ph s" "buffer_ok (replay_pass s) = buffer_ok s"
    "worker (replay_pass s) = worker s"
  by (cases ph; simp add: replay_pass_def fed_from_def all_or_aborted_def) (simp_all add: replay_pass_def buffer_ok_def)

lemma abort_keeps:
  "worker_ok ds res0 ph s \<Longrightarrow> worker_ok ds res0 ph (s\<lparr>sp_abort := True, reader := rd\<rparr>)"
  "buffer_ok (s\<lparr>sp_abort := True, reader := rd\<rparr>) = buffer_ok s"
  "following_ok (s\<lparr>sp_abort := True, reader := rd\<rparr>) = following_ok s"
  "replayed_ok ds res0 s \<Longrightarrow> replayed_ok ds res0 (s\<lparr>sp_abort := True, reader := rd\<rparr>)"
  by (cases ph; auto simp: fed_from_def all_or_aborted_def)
     (auto simp: buffer_ok_def following_ok_def replayed_ok_def all_or_aborted_def)

lemma abort_inv: "spec_inv ds res0 s \<Longrightarrow> rd = reader s \<or> reader s \<noteq> Replayed \<and> rd \<noteq> Replayed \<Longrightarrow> spec_inv ds res0 (s\<lparr>sp_abort := True, reader := rd\<rparr>)"
  using abort_keeps by (auto simp: spec_inv_def split: if_splits)

lemma replay_pass_inv:
  assumes inv: "spec_inv ds res0 s" and r: "reader s = Following"
  shows "spec_inv ds res0 (replay_pass s)"
proof -
  let ?evs = "events s @ new_events s"
  have f: "following_ok s" using inv r by (simp add: spec_inv_def)
  obtain seg where t: "tracks (sp_text s) seg (sp_sentences s)"
      and fin: "sp_result s \<noteq> None \<Longrightarrow> worker s = Finished (the (sp_result s)) \<and> sp_rest s = fst (seg_flush seg)"
    using inv by (auto simp: spec_inv_def buffer_ok_def split: if_splits)
  let ?tk = "if length (sp_text s) > text_pos s then [Token (drop (text_pos s) (sp_text s))] else []"
  have tk: "shown (events s @ ?tk) = sp_text s" "said (events s @ ?tk) = take (sentence_pos s) (sp_sentences s)"
      "in_step (events s @ ?tk)"
    using f in_step_token by (auto simp: following_ok_def)
  have ev: "shown ?evs = sp_text s" "said ?evs = sp_sentences s" "filter is_done ?evs = []"
    using f tk by (auto simp: new_events_def following_ok_def simp flip: append_assoc)
  have "in_step ((events s @ ?tk) @ map Sentence (drop (sentence_pos s) (sp_sentences s)))"
    by (rule in_step_sentences) (use tk tracks_prefix [OF t] in \<open>simp_all only: append_take_drop_id\<close>)
  then have st: "in_step ?evs" by (simp add: new_events_def)
  have "if reader (replay_pass s) = Replayed then replayed_ok ds res0 (replay_pass s) else following_ok (replay_pass s)"
  proof (cases "sp_result s")
    case None
    with ev st show ?thesis by (simp add: replay_pass_def following_ok_def)
  next
    case (Some res)
    with fin have w: "worker s = Finished res" and rest: "sp_rest s = fst (seg_flush seg)" by simp_all
    with inv obtain c where c: "sp_text s = scrubbed c" "all_or_aborted ds res0 c res s" by (auto simp: spec_inv_def)
    have "reply_ok c res (?evs @ closing_events res (sp_rest s))"
      by (rule closing_ok [of c seg ?evs, OF _ _ st ev(3) rest]) (use t ev c(1) in simp_all)
    with Some w c(2) show ?thesis by (auto simp: replay_pass_def replayed_ok_def all_or_aborted_def)
  qed
  with inv show ?thesis by (simp add: spec_inv_def replay_pass_keeps)
qed

lemma worker_step_ok:
  assumes "fed_from c s" "c @ d # r = ds" "spec_emit (fst (scrub_feed d (w_scrubber s))) s = Some s'" "buffer_ok s" "\<not> is_finished (worker s)"
    and ph: "ph = (if sp_abort s then Returned cut_result else Streaming r res0)"
  shows "worker_ok ds res0 ph (s'\<lparr>w_scrubber := snd (scrub_feed d (w_scrubber s)), worker := ph\<rparr>)"
proof -
  obtain ss seg where s': "s' = s\<lparr>w_segmenter := seg, sp_text := sp_text s @ fst (scrub_feed d (w_scrubber s)), sp_sentences := sp_sentences s @ ss\<rparr>"
    using spec_emitD [OF assms(3-5)] by blast
  have "fed_from (c @ [d]) (s'\<lparr>w_scrubber := snd (scrub_feed d (w_scrubber s)), worker := ph\<rparr>)"
    using assms(1) by (simp add: s' fed_from_def scrub_feed_append)
  moreover have "prefix (c @ [d]) ds" using assms(2) by auto
  ultimately show ?thesis
    using assms(2) by (auto simp: all_or_aborted_def s' ph intro!: exI [of _ "c @ [d]"])
qed

lemma worker_flush_ok:
  assumes "fed_from c s" "all_or_aborted ds res0 c res s" "spec_emit (fst (scrub_flush (w_scrubber s))) s = Some s'" "buffer_ok s" "\<not> is_finished (worker s)"
  shows "worker_ok ds res0 (Flushed res) (s'\<lparr>w_scrubber := snd (scrub_flush (w_scrubber s)), worker := Flushed res\<rparr>)"
proof -
  obtain ss seg where s': "s' = s\<lparr>w_segmenter := seg, sp_text := sp_text s @ fst (scrub_flush (w_scrubber s)), sp_sentences := sp_sentences s @ ss\<rparr>"
    using spec_emitD [OF assms(3-5)] by blast
  then show ?thesis
    using assms(1,2) by (auto simp: fed_from_def all_or_aborted_def scrubbed_def case_prod_beta)
qed

lemma worker_return_inv: "spec_inv ds res0 s \<Longrightarrow> worker s = Streaming [] res \<Longrightarrow> spec_inv ds res0 (s\<lparr>worker := Returned res\<rparr>)"
  by (auto simp: spec_inv_defs)

text \<open>A send only touches the flag and the reader.\<close>

lemma reader_inv:
  assumes "spec_inv ds res0 s" "reader s \<noteq> Replayed" "rd \<noteq> Replayed"
  shows "spec_inv ds res0 (s\<lparr>reader := rd\<rparr>)"
proof -
  have "worker_ok ds res0 ph (s\<lparr>reader := rd\<rparr>) = worker_ok ds res0 ph s" for ph
    by (cases ph) (simp_all add: fed_from_def all_or_aborted_def)
  moreover have "buffer_ok (s\<lparr>reader := rd\<rparr>) = buffer_ok s" by (simp add: buffer_ok_def)
  ultimately show ?thesis using assms by (simp add: spec_inv_def following_ok_def)
qed

lemma take_matching_inv: "spec_inv ds res0 s \<Longrightarrow> reader s = Detached \<Longrightarrow> spec_inv ds res0 (take_matching_speculation same_key s)"
  using abort_inv [of ds res0 s Left] reader_inv [of ds res0 s]
  by (simp add: take_matching_speculation_def split: option.splits)

lemma publish_inv: "spec_inv ds res0 s \<Longrightarrow> worker s = Flushed res \<Longrightarrow> spec_inv ds res0 (publish_result res s)"
  by (auto simp: spec_inv_defs publish_result_def)

lemma spec_step_inv: "spec_inv ds res0 s \<Longrightarrow> spec_step s t \<Longrightarrow> spec_inv ds res0 t"
proof (erule spec_stepE, goal_cases)
  case (1 ds' res)
  then show ?case by (auto simp: spec_inv_defs intro: exI [of _ "[]"])
next
  case (2 d r res s' cut)
  then obtain c where "fed_from c s" "c @ d # r = ds" and res: "res = res0" by (auto simp: spec_inv_def)
  from worker_step_ok [OF this(1,2) 2(4) _ _ refl, of res0 cut] 2 show ?case
    unfolding 2(2) res by (intro worker_emit_inv) (auto simp: spec_inv_def)
next
  case (3 res)
  then show ?case by (simp add: worker_return_inv)
next
  case (4 res s')
  then obtain c where "fed_from c s" "all_or_aborted ds res0 c res s" by (auto simp: spec_inv_def)
  from worker_flush_ok [OF this] 4 show ?case
    unfolding 4(2) by (intro worker_emit_inv) (auto simp: spec_inv_def)
next
  case (5 res)
  then show ?case by (simp add: publish_inv)
next
  case (6 same_key)
  then show ?case by (simp add: take_matching_inv)
next
  case 7
  then show ?case by (simp add: replay_pass_inv)
next
  case 8
  then show ?case using abort_inv [of ds res0 s Left] by simp
next
  case 9
  then show ?case using abort_inv [of ds res0 s "reader s"] by simp
qed

interpretation speculation: transition_invariant "\<lambda>s. s = new_speculation ds res0" spec_step "spec_inv ds res0" for ds res0
  by unfold_locales (auto simp: spec_inv_new intro: spec_step_inv)

lemma worker_moves:
  assumes "spec_inv ds res0 s" "\<not> is_finished (worker s)" "worker s \<noteq> Superseded"
  shows "\<exists>t. spec_step s t \<and> worker t \<noteq> worker s"
proof -
  have emits: "\<exists>s'. spec_emit x s = Some s'" for x
    using assms spec_emit_ok [of s x] by (auto simp: spec_inv_def)
  show ?thesis
  proof (cases "worker s")
    case (Waiting r res)
    then show ?thesis by (intro exI conjI, rule w_start) auto
  next
    case (Streaming r res)
    show ?thesis
    proof (cases r)
      case Nil
      then show ?thesis using w_return [of s res] Streaming by (intro exI conjI) auto
    next
      case (Cons d ds')
      obtain s' where e: "spec_emit (fst (scrub_feed d (w_scrubber s))) s = Some s'" using emits by blast
      show ?thesis using w_delta [OF _ e, of ds' res] Streaming Cons by (intro exI conjI) (auto split: if_splits)
    qed
  next
    case (Returned res)
    obtain s' where e: "spec_emit (fst (scrub_flush (w_scrubber s))) s = Some s'" using emits by blast
    show ?thesis using w_flush [OF Returned e] Returned by (intro exI conjI) auto
  next
    case (Flushed res)
    then show ?thesis by (intro exI conjI, rule w_done) (simp_all add: publish_result_def)
  qed (use assms in simp_all)
qed

text \<open>Who attaches: only a send to a speculation that is alive and has not failed.\<close>

lemma spec_emit_reader: "spec_emit clean s = Some s' \<Longrightarrow> reader s' = reader s"
  by (auto simp: spec_emit_def split: if_splits)

lemma attach_step:
  assumes "spec_step s t" "reader s = Detached" "reader t = Following"
  shows "\<not> sp_abort s \<and> (\<forall>res. sp_result s = Some res \<longrightarrow> res_ok res)"
  using assms by (cases rule: spec_step.cases)
    (auto simp: publish_result_def take_matching_speculation_def dest: spec_emit_reader split: option.splits if_splits)

subsection \<open>Properties\<close>

text \<open>
  C2. Answering a chat request always produces a reply, and it keeps its promises, wherever the model cut its deltas and
  whenever the client aborted: the client sees exactly the scrubbed text of the deltas that were delivered, the
  voice never runs ahead of what is shown, all of it is spoken but for a fragment under 300 bytes
  that the token limit cut off, and the stream ends with the model's result, reported once.
\<close>

theorem direct_reply_keeps_promises:
  "\<exists>evs. direct_reply ds res = Some evs \<and> reply_ok (delivered ds) res evs"
  by (rule direct_reply_result)

text \<open>
  C10. Attaching to a speculative reply is as good as asking for one. Under every interleaving of the worker, the sends, the
  reader and aborts, a send never attaches to a speculation that was aborted or has failed, and one with another key
  ends it; the voice never runs ahead of
  the text; the worker is never stuck; and once the reader has replayed the buffer the worker has finished, with the
  result \<open>res\<close> that its stream returned, and the client has a reply that keeps the same promises and reports just
  that result, failures included. Unless the speculation was aborted that is the model's own result \<open>res0\<close> over
  all its deltas \<open>ds\<close>, and the client is shown the text and the end that the direct path shows.
\<close>

theorem speculation_refines_direct:
  assumes "spec_step\<^sup>*\<^sup>* (new_speculation ds res0) s"
  shows "prefix (spoken (concat (said (events s)))) (spoken (shown (events s))) \<and>
    ((\<forall>res. worker s \<noteq> Finished res) \<and> worker s \<noteq> Superseded \<longrightarrow> (\<exists>t. spec_step s t \<and> worker t \<noteq> worker s)) \<and>
    (\<forall>t. reader s = Detached \<and> spec_step s t \<and> reader t = Following \<longrightarrow>
      \<not> sp_abort s \<and> (\<forall>res. worker s = Finished res \<longrightarrow> res_ok res)) \<and>
    reader (take_matching_speculation False s) = Left \<and> sp_abort (take_matching_speculation False s) \<and>
    (reader s = Replayed \<longrightarrow>
      (\<exists>c res. worker s = Finished res \<and> prefix c ds \<and> reply_ok c res (events s) \<and>
        (sp_abort s \<or> c = ds \<and> res = res0 \<and> (\<exists>evs. direct_reply (map (\<lambda>d. (d, False)) ds) res0 = Some evs \<and>
           shown evs = shown (events s) \<and> filter is_done evs = filter is_done (events s)))))"
proof -
  have inv: "spec_inv ds res0 s" using speculation.reachable_inv [OF assms] by simp
  have del: "delivered (map (\<lambda>d. (d, False)) ds) = ds" by (induction ds) auto
  have "in_step (events s)" using inv by (auto simp: spec_inv_defs reply_ok_def split: if_splits)
  moreover have "\<exists>c res. worker s = Finished res \<and> prefix c ds \<and> reply_ok c res (events s) \<and>
        (sp_abort s \<or> c = ds \<and> res = res0 \<and> (\<exists>evs. direct_reply (map (\<lambda>d. (d, False)) ds) res0 = Some evs \<and>
           shown evs = shown (events s) \<and> filter is_done evs = filter is_done (events s)))"
    if r: "reader s = Replayed"
  proof -
    obtain c res where c: "worker s = Finished res" "reply_ok c res (events s)" "prefix c ds" "sp_abort s \<or> c = ds \<and> res = res0"
      using inv r by (auto simp: spec_inv_def replayed_ok_def all_or_aborted_def)
    obtain evs where "direct_reply (map (\<lambda>d. (d, False)) ds) res0 = Some evs" "reply_ok ds res0 evs"
      using direct_reply_result [of "map (\<lambda>d. (d, False)) ds" res0] by (auto simp: del)
    with c show ?thesis unfolding reply_ok_def by metis
  qed
  moreover have "\<not> sp_abort s \<and> (\<forall>res. worker s = Finished res \<longrightarrow> res_ok res)"
    if "reader s = Detached" "spec_step s t" "reader t = Following" for t
    using attach_step [OF that(2,1,3)] inv by (auto simp: spec_inv_def buffer_ok_def)
  moreover have "\<exists>t. spec_step s t \<and> worker t \<noteq> worker s" if "\<forall>res. worker s \<noteq> Finished res" "worker s \<noteq> Superseded"
    using worker_moves [OF inv] that by (auto simp: is_finished_def)
  moreover have "reader (take_matching_speculation False s) = Left" "sp_abort (take_matching_speculation False s)"
    by (simp_all add: take_matching_speculation_def)
  ultimately show ?thesis using in_stepD by blast
qed

text \<open>A run of worker and reader to the end: the reply is one short delta, and the model fails after it.\<close>

definition demo_result :: llm_result where
  "demo_result = no_result\<lparr>finish_reason := ''stop'', res_ok := False, res_error := ''connection lost''\<rparr>"

definition demo_start :: speculation where
  "demo_start = (new_speculation [''Hi''] demo_result)\<lparr>reader := Following\<rparr>"

definition demo_fed :: speculation where
  "demo_fed = the (spec_emit ''Hi'' (demo_start\<lparr>worker := Streaming [''Hi''] demo_result\<rparr>))"

definition demo_end :: speculation where
  "demo_end = replay_pass (publish_result demo_result (demo_fed\<lparr>worker := Flushed demo_result\<rparr>))"

lemma demo_scrub: "scrub_feed ''Hi'' new_scrubber = (''Hi'', new_scrubber)" "scrub_flush new_scrubber = ([], new_scrubber)"
  by code_simp+

lemma demo_emit: "spec_emit ''Hi'' (demo_start\<lparr>worker := Streaming [''Hi''] demo_result\<rparr>) = Some demo_fed"
proof -
  have "spec_emit ''Hi'' (demo_start\<lparr>worker := Streaming [''Hi''] demo_result\<rparr>) \<noteq> None" by code_simp
  then show ?thesis by (auto simp: demo_fed_def)
qed

lemma demo_run: "spec_step\<^sup>*\<^sup>* (new_speculation [''Hi''] demo_result) demo_end"
proof -
  let ?s1 = "demo_start\<lparr>worker := Streaming [''Hi''] demo_result\<rparr>" and ?s2 = "demo_fed\<lparr>worker := Streaming [] demo_result\<rparr>"
    and ?s3 = "demo_fed\<lparr>worker := Returned demo_result\<rparr>" and ?s4 = "demo_fed\<lparr>worker := Flushed demo_result\<rparr>"
  have fed: "w_scrubber demo_fed = new_scrubber" by code_simp
  then have same: "demo_fed\<lparr>w_scrubber := new_scrubber, worker := ph\<rparr> = demo_fed\<lparr>worker := ph\<rparr>" for ph by (metis speculation.surjective speculation.update_convs(7))
  have 0: "spec_step (new_speculation [''Hi''] demo_result) demo_start"
    using r_take [of "new_speculation [''Hi''] demo_result" True] by (simp add: demo_start_def new_speculation_def take_matching_speculation_def)
  have 1: "spec_step demo_start ?s1"
    using w_start [of demo_start "[''Hi'']" demo_result] by (simp add: demo_start_def new_speculation_def)
  have sc: "w_scrubber ?s1 = new_scrubber" "\<not> sp_abort ?s1" by (simp_all add: demo_start_def new_speculation_def)
  have 2: "spec_step ?s1 ?s2"
    using w_delta [of ?s1 "''Hi''" "[]" demo_result demo_fed, unfolded sc demo_scrub fst_conv snd_conv same] sc(2) demo_emit by simp
  have 3: "spec_step ?s2 ?s3" using w_return [of ?s2 demo_result] by simp
  have 4: "spec_step ?s3 ?s4"
    using w_flush [of ?s3 demo_result ?s3] fed by (simp add: demo_scrub spec_emit_def same)
  have 5: "spec_step ?s4 (publish_result demo_result ?s4)" by (rule w_done) simp
  have "reader demo_fed = Following" by code_simp
  then have 6: "spec_step (publish_result demo_result ?s4) demo_end"
    unfolding demo_end_def by (intro r_pass) (simp add: publish_result_def)
  from 0 1 2 3 4 5 6 show ?thesis by (meson converse_rtranclp_into_rtranclp r_into_rtranclp)
qed

lemma demo_replayed: "reader demo_end = Replayed" "\<not> sp_abort demo_end"
  "events demo_end = [Token ''Hi'', Sentence ''Hi'', Llm_Done ''stop'' False ''connection lost'']"
  by code_simp+

theorem speculation_refines_direct_witness:
  "reply_ok [''Hi''] demo_result [Token ''Hi'', Sentence ''Hi'', Llm_Done ''stop'' False ''connection lost''] \<and>
     (\<exists>evs. direct_reply [(''Hi'', False)] demo_result = Some evs \<and> shown evs = ''Hi'' \<and>
       filter is_done evs = [Llm_Done ''stop'' False ''connection lost''])"
  using speculation_refines_direct [OF demo_run] demo_replayed by auto

subsection \<open>From the wire to the voice\<close>

text \<open>
  The callback that \<^verbatim>\<open>chat_orchestrate\<close> hands to \<^verbatim>\<open>stream_chat\<close>, with the values that the abort flag has after each
  delta (not set where the list ends), and the reader thread around the call.
\<close>

definition chat_on_delta :: "string \<Rightarrow> bool list \<times> (scrubber \<times> segmenter \<times> chat_event list) option \<Rightarrow>
    bool \<times> bool list \<times> (scrubber \<times> segmenter \<times> chat_event list) option" where
  "chat_on_delta d = (\<lambda>(flags, st).
     (\<not> (flags \<noteq> [] \<and> hd flags), tl flags,
      Option.bind st (\<lambda>(sc, st1). map_option (Pair (snd (scrub_feed d sc))) (emit (fst (scrub_feed d sc)) st1))))"

definition chat_reply :: "(string \<Rightarrow> json_error + json) \<Rightarrow> string \<Rightarrow> nat \<Rightarrow> connection \<Rightarrow> bool list \<Rightarrow> llm_result \<times> chat_event list option" where
  "chat_reply parse host port conn flags =
     (let (res, fl, st) = stream_chat parse host port conn chat_on_delta (flags, Some (new_scrubber, new_segmenter direct_options, []))
      in (res, Option.bind st (\<lambda>(sc, st1). Option.bind (emit (fst (scrub_flush sc)) st1) (\<lambda>(seg, evs).
            Some (evs @ closing_events res (fst (seg_flush seg)))))))"

fun with_flags :: "string list \<Rightarrow> bool list \<Rightarrow> (string \<times> bool) list" where
  "with_flags [] fl = []"
| "with_flags (d # ds) fl = (d, fl \<noteq> [] \<and> hd fl) # with_flags ds (tl fl)"

lemma chat_on_delta_simps:
  "chat_on_delta d (flags, None) = (\<not> (flags \<noteq> [] \<and> hd flags), tl flags, None)"
  "chat_on_delta d (flags, Some (sc, st)) =
     (\<not> (flags \<noteq> [] \<and> hd flags), tl flags, map_option (Pair (snd (scrub_feed d sc))) (emit (fst (scrub_feed d sc)) st))"
  by (simp_all add: chat_on_delta_def)

lemma process_events_None: "snd (snd (snd (process_events chat_on_delta evs (res, fl, None)))) = None"
  by (induction evs arbitrary: res fl) (auto simp: process_event_def chat_on_delta_simps split_beta Let_def)

lemma process_events_chat:
  "\<forall>ev\<in>set evs. ev_error ev = [] \<Longrightarrow>
   snd (snd (snd (process_events chat_on_delta evs (res, fl, Some (sc, st))))) = stream_deltas (with_flags (deltas_of evs) fl) sc st"
proof (induction evs arbitrary: res fl sc st)
  case Nil
  then show ?case by (simp add: deltas_of_def)
next
  case (Cons ev evs)
  show ?case
  proof (cases "ev_done ev \<or> delta ev = []")
    case True
    with Cons show ?thesis by (auto simp: process_event_def deltas_of_def)
  next
    case False
    then have "deltas_of (ev # evs) = delta ev # deltas_of evs" by (simp add: deltas_of_def)
    with False Cons show ?thesis
      by (cases "emit (fst (scrub_feed (delta ev) sc)) st")
         (auto simp: process_event_def chat_on_delta_simps split_beta Let_def process_events_None)
  qed
qed

text \<open>
  C3. What the model streams is what the user sees and hears. For any good answer without an error event, whatever the network does to
  its bytes, the chat endpoint produces a reply that keeps its promises over the deltas that the model sent before the end marker (or
  before the client aborted).
\<close>

theorem chat_reply_from_wire:
  assumes "carries_answer ps blocks" "\<forall>p\<in>set ps. ev_error (parse_payload parse p) = []"
  shows "\<exists>res evs. chat_reply parse host port (Connected blocks) flags = (res, Some evs) \<and>
    reply_ok (delivered (with_flags (deltas_of (map (parse_payload parse) ps)) flags)) res evs"
proof -
  let ?evs = "map (parse_payload parse) ps" and ?s = "Some (new_scrubber, new_segmenter direct_options, [])"
  let ?ds = "with_flags (deltas_of ?evs) flags"
  obtain stop res fl st where p: "process_events chat_on_delta ?evs (no_result, flags, ?s) = (stop, res, fl, st)"
    by (metis prod_cases4)
  have st: "st = stream_deltas ?ds new_scrubber (new_segmenter direct_options, [])"
    using process_events_chat [of ?evs no_result flags new_scrubber "(new_segmenter direct_options, [])"] assms(2) by (simp add: p)
  have "stream_chat parse host port (Connected blocks) chat_on_delta (flags, ?s) = (close_result res, fl, st)"
    using stream_chat_events [OF assms(1), of parse host port chat_on_delta "(flags, ?s)"] by (simp add: p)
  then have "chat_reply parse host port (Connected blocks) flags = (close_result res, direct_reply ?ds (close_result res))"
    by (simp add: chat_reply_def direct_reply_def st)
  with direct_reply_result [of ?ds "close_result res"] show ?thesis by auto
qed

theorem chat_reply_from_wire_witness:
  "\<exists>res evs. chat_reply demo_parse ''127.0.0.1'' 8080 (Connected demo_blocks) [] = (res, Some evs) \<and> reply_ok [''Hi''] res evs"
  using chat_reply_from_wire [OF demo_carries, of demo_parse "''127.0.0.1''" 8080 "[]"] demo_events by (simp add: list_all_iff)

end
