(* ===== verification/Tdt_Decoder.thy ===== *)
theory Tdt_Decoder
  imports Prelude
begin

text \<open>
  Greedy decoding of a token-and-duration transducer (\<^verbatim>\<open>framework/decoders\<close>): the two algorithms, the third that
  only throws, and the dispatcher. The network is behind the abstract class \<^verbatim>\<open>TdtDecoderCore\<close>, a record of its methods over a state
  of any type; the frames are lists of samples of any type. Scores of the joint step are not read by the algorithms.
\<close>

datatype TdtDecoderAlgorithm = GreedyCustomized | GreedyDurationLoop | GreedySeparateHeads

record TdtJointStep =
  label :: int
  duration_index :: int

record TdtDecodeResult =
  token_ids :: "int list"
  token_timestamps :: "int list"
  token_durations :: "int list"

record ('c, 'f) TdtDecoderCore =
  reset_state :: "'c \<Rightarrow> 'c"
  predict_start :: "int \<Rightarrow> 'c \<Rightarrow> 'c"
  predict_token :: "int \<Rightarrow> 'c \<Rightarrow> 'c"
  joint_step_argmax :: "'f list \<Rightarrow> 'c \<Rightarrow> TdtJointStep \<times> 'c"

datatype tdt_error = Invalid_Shape | Shape_Mismatch | Max_Symbols_Not_Positive | Duration_Out_Of_Range | Needs_Separate_Heads

text \<open>What the decoders are called with, besides the core's state.\<close>

record ('c, 'f) tdt_input =
  core :: "('c, 'f) TdtDecoderCore"
  encoder_projected :: "'f list"
  frames :: int
  hidden_size :: int
  blank_id :: int
  durations :: "int list"
  max_symbols_per_step :: int

definition frame_at :: "('c, 'f) tdt_input \<Rightarrow> int \<Rightarrow> 'f list" where
  "frame_at inp t = take (nat (hidden_size inp)) (drop (nat (t * hidden_size inp)) (encoder_projected inp))"

text \<open>\<^verbatim>\<open>durations.at(static_cast<size_t>(...))\<close>: a negative index is far out of range.\<close>

definition duration_at :: "('c, 'f) tdt_input \<Rightarrow> int \<Rightarrow> tdt_error + int" where
  "duration_at inp i =
     (if 0 \<le> i \<and> i < int (length (durations inp)) then Inr (durations inp ! nat i) else Inl Duration_Out_Of_Range)"

text \<open>The joint step at a frame: label, duration and the core afterwards.\<close>

definition joint_at :: "('c, 'f) tdt_input \<Rightarrow> int \<Rightarrow> 'c \<Rightarrow> tdt_error + (int \<times> int \<times> 'c)" where
  "joint_at inp t c =
     (let (step, c') = joint_step_argmax (core inp) (frame_at inp t) c
      in bind_sum (duration_at inp (duration_index step)) (\<lambda>d. Inr (label step, d, c')))"

definition to_int32 :: "int \<Rightarrow> int" where
  "to_int32 i = (i + 2 ^ 31) mod 2 ^ 32 - 2 ^ 31"

definition push_token :: "int \<Rightarrow> int \<Rightarrow> int \<Rightarrow> TdtDecodeResult \<Rightarrow> TdtDecodeResult" where
  "push_token lab t d r =
     r\<lparr>token_ids := token_ids r @ [lab], token_timestamps := token_timestamps r @ [to_int32 t],
       token_durations := token_durations r @ [d]\<rparr>"

definition no_tokens :: TdtDecodeResult where
  "no_tokens = \<lparr>token_ids = [], token_timestamps = [], token_durations = []\<rparr>"

definition check_shape :: "('c, 'f) tdt_input \<Rightarrow> tdt_error option" where
  "check_shape inp =
     (if frames inp < 0 \<or> hidden_size inp \<le> 0 then Some Invalid_Shape
      else if int (length (encoder_projected inp)) \<noteq> frames inp * hidden_size inp then Some Shape_Mismatch
      else None)"

definition started :: "('c, 'f) tdt_input \<Rightarrow> 'c \<Rightarrow> 'c" where
  "started inp c = predict_start (core inp) (blank_id inp) (reset_state (core inp) c)"

subsection \<open>The customised algorithm\<close>

text \<open>
  The \<^verbatim>\<open>for\<close> over the symbols of one frame, \<open>n\<close> of them still allowed: whether the frame was advanced, the time, the
  core and the result.
\<close>

fun custom_symbols :: "('c, 'f) tdt_input \<Rightarrow> nat \<Rightarrow> int \<Rightarrow> 'c \<Rightarrow> TdtDecodeResult \<Rightarrow>
    tdt_error + (bool \<times> int \<times> 'c \<times> TdtDecodeResult)" where
  "custom_symbols inp 0 t c r = Inr (False, t, c, r)"
| "custom_symbols inp (Suc n) t c r =
     (if t < frames inp
      then bind_sum (joint_at inp t c) (\<lambda>(lab, d, c').
             if lab = blank_id inp then Inr (True, t + max d 1, c', r)
             else let r' = push_token lab t d r; c'' = predict_token (core inp) lab c'
                  in if d > 0 then Inr (True, t + d, c'', r') else custom_symbols inp n t c'' r')
      else Inr (False, t, c, r))"

lemma custom_symbols_time:
  "custom_symbols inp n t c r = Inr (adv, t', c', r') \<Longrightarrow> t < (if adv then t' else t' + 1)"
  by (induction inp n t c r rule: custom_symbols.induct) (auto simp: bind_sum_Inr Let_def split: if_splits)

function custom_loop :: "('c, 'f) tdt_input \<Rightarrow> int \<Rightarrow> 'c \<Rightarrow> TdtDecodeResult \<Rightarrow> tdt_error + TdtDecodeResult" where
  "custom_loop inp t c r =
     (if t < frames inp
      then case custom_symbols inp (nat (max_symbols_per_step inp)) t c r of
             Inl e \<Rightarrow> Inl e
           | Inr (adv, t', c', r') \<Rightarrow> custom_loop inp (if adv then t' else t' + 1) c' r'
      else Inr r)"
  by pat_completeness auto
termination
  by (relation "measure (\<lambda>(inp, t, c, r). nat (frames inp - t))") (auto dest!: custom_symbols_time)

declare custom_loop.simps [simp del]

definition run_tdt_decoder_greedy_customized :: "('c, 'f) tdt_input \<Rightarrow> 'c \<Rightarrow> tdt_error + TdtDecodeResult" where
  "run_tdt_decoder_greedy_customized inp c =
     (case check_shape inp of Some e \<Rightarrow> Inl e | None \<Rightarrow> custom_loop inp 0 (started inp c) no_tokens)"

subsection \<open>The duration loop\<close>

record 'c dur_state =
  time_idx :: int
  last_label_time_idx :: int
  labels_at_current_time_idx :: int
  dur_core :: 'c
  dur_result :: TdtDecodeResult

definition count_label :: "'c dur_state \<Rightarrow> 'c dur_state" where
  "count_label s =
     (if time_idx s = last_label_time_idx s then s\<lparr>labels_at_current_time_idx := labels_at_current_time_idx s + 1\<rparr>
      else s\<lparr>last_label_time_idx := time_idx s, labels_at_current_time_idx := 1\<rparr>)"

definition advance_time :: "int \<Rightarrow> int \<Rightarrow> 'c dur_state \<Rightarrow> 'c dur_state" where
  "advance_time max_symbols d s =
     (let s1 = s\<lparr>time_idx := time_idx s + d\<rparr>
      in if labels_at_current_time_idx s1 \<ge> max_symbols \<and> time_idx s1 = last_label_time_idx s1
         then s1\<lparr>time_idx := time_idx s1 + 1\<rparr> else s1)"

definition dur_step :: "('c, 'f) tdt_input \<Rightarrow> 'c dur_state \<Rightarrow> tdt_error + 'c dur_state" where
  "dur_step inp s =
     bind_sum (joint_at inp (time_idx s) (dur_core s)) (\<lambda>(lab, d, c').
       if lab = blank_id inp then Inr (s\<lparr>dur_core := c', time_idx := time_idx s + (if d = 0 then 1 else d)\<rparr>)
       else Inr (advance_time (max_symbols_per_step inp) d (count_label
              (s\<lparr>dur_core := predict_token (core inp) lab c', dur_result := push_token lab (time_idx s) d (dur_result s)\<rparr>))))"

text \<open>
  The two nested loops have the same condition, so leaving the inner one by \<^verbatim>\<open>break\<close> and repeating it by \<^verbatim>\<open>continue\<close> are
  both another pass.
\<close>

partial_function (option) dur_loop :: "('c, 'f) tdt_input \<Rightarrow> 'c dur_state \<Rightarrow> (tdt_error + TdtDecodeResult) option" where
  "dur_loop inp s =
     (if time_idx s < frames inp
      then case dur_step inp s of Inl e \<Rightarrow> Some (Inl e) | Inr s' \<Rightarrow> dur_loop inp s'
      else Some (Inr (dur_result s)))"

declare dur_loop.simps [code]

definition run_tdt_decoder_greedy_duration_loop :: "('c, 'f) tdt_input \<Rightarrow> 'c \<Rightarrow> (tdt_error + TdtDecodeResult) option" where
  "run_tdt_decoder_greedy_duration_loop inp c =
     (case check_shape inp of
        Some e \<Rightarrow> Some (Inl e)
      | None \<Rightarrow>
          if max_symbols_per_step inp \<le> 0 then Some (Inl Max_Symbols_Not_Positive)
          else dur_loop inp \<lparr>time_idx = 0, last_label_time_idx = - 1, labels_at_current_time_idx = 0,
                 dur_core = started inp c, dur_result = no_tokens\<rparr>)"

definition run_tdt_decoder_greedy_separate_heads :: "('c, 'f) tdt_input \<Rightarrow> 'c \<Rightarrow> tdt_error + TdtDecodeResult" where
  "run_tdt_decoder_greedy_separate_heads inp c = Inl Needs_Separate_Heads"

definition run_tdt_decoder :: "TdtDecoderAlgorithm \<Rightarrow> ('c, 'f) tdt_input \<Rightarrow> 'c \<Rightarrow> (tdt_error + TdtDecodeResult) option" where
  "run_tdt_decoder algorithm inp c =
     (case algorithm of
        GreedyCustomized \<Rightarrow> Some (run_tdt_decoder_greedy_customized inp c)
      | GreedyDurationLoop \<Rightarrow> run_tdt_decoder_greedy_duration_loop inp c
      | GreedySeparateHeads \<Rightarrow> Some (run_tdt_decoder_greedy_separate_heads inp c))"

subsection \<open>The two algorithms agree\<close>

text \<open>How the customised algorithm goes on after the symbols of a frame.\<close>

definition resume :: "('c, 'f) tdt_input \<Rightarrow> tdt_error + (bool \<times> int \<times> 'c \<times> TdtDecodeResult) \<Rightarrow> tdt_error + TdtDecodeResult" where
  "resume inp x = (case x of Inl e \<Rightarrow> Inl e | Inr (adv, t, c, r) \<Rightarrow> custom_loop inp (if adv then t else t + 1) c r)"

lemma resume_simps [simp]: "resume inp (Inl e) = Inl e"
    "resume inp (Inr (adv, t, c, r)) = custom_loop inp (if adv then t else t + 1) c r"
  by (simp_all add: resume_def)

lemma custom_loop_done: "frames inp \<le> t \<Longrightarrow> custom_loop inp t c r = Inr r"
  by (simp add: custom_loop.simps)

lemma custom_loop_resume:
  "custom_loop inp t c r = resume inp (custom_symbols inp (nat (max_symbols_per_step inp)) t c r)"
proof (cases "t < frames inp")
  case True
  then show ?thesis by (simp add: custom_loop.simps [of inp t] resume_def)
next
  case False
  then show ?thesis by (cases "nat (max_symbols_per_step inp)") (simp_all add: custom_loop_done)
qed

definition symbols_left :: "('c, 'f) tdt_input \<Rightarrow> 'c dur_state \<Rightarrow> nat" where
  "symbols_left inp s =
     nat (max_symbols_per_step inp - (if last_label_time_idx s = time_idx s then labels_at_current_time_idx s else 0))"

lemma joint_duration: "joint_at inp t c = Inr (lab, d, c') \<Longrightarrow> d \<in> set (durations inp)"
  by (auto simp: joint_at_def duration_at_def bind_sum_Inr Let_def split: prod.splits if_splits)

lemma dur_loop_custom:
  assumes "\<forall>d\<in>set (durations inp). 0 \<le> d" "last_label_time_idx s \<le> time_idx s" "0 < symbols_left inp s" "0 < max_symbols_per_step inp"
  shows "dur_loop inp s = Some (resume inp (custom_symbols inp (symbols_left inp s) (time_idx s) (dur_core s) (dur_result s)))"
  using assms(2,3)
proof (induction s rule: wf_induct_rule [OF wf_measures [of "[\<lambda>s. nat (frames inp - time_idx s), symbols_left inp]"]])
  case (1 s)
  let ?t = "time_idx s" and ?max = "max_symbols_per_step inp"
  from 1(3) obtain n where n: "symbols_left inp s = Suc n" by (cases "symbols_left inp s") auto
  show ?case
  proof (cases "?t < frames inp")
    case False
    then show ?thesis by (simp add: dur_loop.simps [of inp s] n custom_loop_done)
  next
    case True
    have go_on: "dur_loop inp s' = Some (custom_loop inp (time_idx s') (dur_core s') (dur_result s'))"
      if "?t < time_idx s'" "last_label_time_idx s' \<le> ?t" for s'
      using that True 1(1) [of s'] assms(4) by (simp add: custom_loop_resume symbols_left_def)
    show ?thesis
    proof (cases "joint_at inp ?t (dur_core s)")
      case (Inl e)
      then show ?thesis using True by (simp add: dur_loop.simps [of inp s] n dur_step_def)
    next
      case (Inr x)
      obtain lab d c' where x: "x = (lab, d, c')" by (cases x)
      have d: "0 \<le> d" using joint_duration [of inp ?t "dur_core s" lab d c'] Inr x assms(1) by simp
      have blank: "max d 1 = (if d = 0 then 1 else d)" using d by simp
      have step: "dur_loop inp s = (case dur_step inp s of Inl e \<Rightarrow> Some (Inl e) | Inr s' \<Rightarrow> dur_loop inp s')"
        using True by (simp add: dur_loop.simps [of inp s])
      consider "lab = blank_id inp" | "lab \<noteq> blank_id inp" "0 < d" | "lab \<noteq> blank_id inp" "d = 0" "n = 0"
        | "lab \<noteq> blank_id inp" "d = 0" "0 < n" using d by force
      then show ?thesis
      proof cases
        case 1
        with True Inr x d "1.prems"(1) show ?thesis by (simp add: step n dur_step_def go_on blank)
      next
        case 2
        with True Inr x d "1.prems"(1) show ?thesis
          by (simp add: step n dur_step_def go_on count_label_def advance_time_def Let_def)
      next
        case 3
        with n "1.prems"(1) have "?max \<le> labels_at_current_time_idx (count_label (s\<lparr>dur_core := p, dur_result := q\<rparr>))" for p q
          by (auto simp: count_label_def symbols_left_def split: if_splits)
        with 3 True Inr x "1.prems"(1) show ?thesis
          by (simp add: step n dur_step_def go_on advance_time_def Let_def) (simp add: go_on count_label_def)
      next
        case 4
        let ?s' = "count_label (s\<lparr>dur_core := predict_token (core inp) lab c', dur_result := push_token lab ?t d (dur_result s)\<rparr>)"
        have left: "symbols_left inp ?s' = n" and s': "time_idx ?s' = ?t" "last_label_time_idx ?s' = ?t"
            "labels_at_current_time_idx ?s' < ?max" "dur_core ?s' = predict_token (core inp) lab c'"
            "dur_result ?s' = push_token lab ?t d (dur_result s)"
          using 4 n "1.prems"(1) by (auto simp: count_label_def symbols_left_def split: if_splits)
        have "dur_step inp s = Inr ?s'"
          using 4 Inr x s' by (simp add: dur_step_def advance_time_def Let_def)
        with 4 True Inr x "1.IH" [of ?s'] left s' n show ?thesis by (simp add: step)
      qed
    qed
  qed
qed

subsection \<open>Tokens in time\<close>

text \<open>
  \<open>tokens_ok inp t k r\<close>: the tokens of \<open>r\<close> follow each other without overlap up to the time \<open>t\<close>, at most \<open>k\<close> of them at \<open>t\<close>
  itself and never more than allowed at one frame.
\<close>

definition token_spans :: "TdtDecodeResult \<Rightarrow> (int \<times> int) list" where
  "token_spans r = zip (token_timestamps r) (token_durations r)"

definition tokens_ok :: "('c, 'f) tdt_input \<Rightarrow> int \<Rightarrow> nat \<Rightarrow> TdtDecodeResult \<Rightarrow> bool" where
  "tokens_ok inp t k r \<longleftrightarrow>
     length (token_ids r) = length (token_timestamps r) \<and> length (token_durations r) = length (token_timestamps r) \<and>
     sorted_wrt (\<lambda>(a, d) (b, e). a + max 0 d \<le> b) (token_spans r) \<and>
     (\<forall>(a, d) \<in> set (token_spans r). 0 \<le> a \<and> a < frames inp \<and> a + max 0 d \<le> t \<and> d \<in> set (durations inp)) \<and>
     blank_id inp \<notin> set (token_ids r) \<and>
     (\<forall>x. count_list (token_timestamps r) x \<le> nat (max_symbols_per_step inp)) \<and> count_list (token_timestamps r) t \<le> k"

lemma to_int32_id: "0 \<le> i \<Longrightarrow> i < 2 ^ 31 \<Longrightarrow> to_int32 i = i"
  by (simp add: to_int32_def)

lemma tokens_ok_later:
  assumes "tokens_ok inp t k r" "t < t'"
  shows "tokens_ok inp t' 0 r"
proof -
  have "t' \<notin> set (token_timestamps r)"
  proof
    assume "t' \<in> set (token_timestamps r)"
    then obtain d where "(t', d) \<in> set (token_spans r)"
      using assms(1) by (metis in_set_impl_in_set_zip1 token_spans_def tokens_ok_def)
    with assms show False by (fastforce simp: tokens_ok_def)
  qed
  with assms show ?thesis by (fastforce simp: tokens_ok_def count_list_0_iff)
qed

lemma tokens_ok_push:
  assumes ok: "tokens_ok inp t k r" and t: "0 \<le> t" "t < frames inp" "frames inp \<le> 2 ^ 31" and "lab \<noteq> blank_id inp"
    and d: "d \<in> set (durations inp)" and k: "Suc k \<le> nat (max_symbols_per_step inp)"
  shows "tokens_ok inp (t + max 0 d) (if 0 < d then 0 else Suc k) (push_token lab t d r)"
proof -
  let ?r = "push_token lab t d r"
  have len: "length (token_ids r) = length (token_timestamps r)" "length (token_durations r) = length (token_timestamps r)"
    using ok by (simp_all add: tokens_ok_def)
  have ts: "token_timestamps ?r = token_timestamps r @ [t]"
    using t by (simp add: push_token_def to_int32_id)
  have sp: "token_spans ?r = token_spans r @ [(t, d)]"
    using len ts by (simp add: token_spans_def push_token_def)
  have before: "\<forall>(a, e) \<in> set (token_spans r). 0 \<le> a \<and> a < frames inp \<and> a + max 0 e \<le> t \<and> e \<in> set (durations inp)"
    using ok by (simp add: tokens_ok_def)
  have "sorted_wrt (\<lambda>(a, d) (b, e). a + max 0 d \<le> b) (token_spans ?r)"
    using ok before by (auto simp: sp sorted_wrt_append tokens_ok_def)
  moreover have "\<forall>(a, e) \<in> set (token_spans ?r). 0 \<le> a \<and> a < frames inp \<and> a + max 0 e \<le> t + max 0 d \<and> e \<in> set (durations inp)"
    using before t d by (fastforce simp: sp)
  moreover have "count_list (token_timestamps ?r) x \<le> nat (max_symbols_per_step inp)" for x
    using ok k by (cases "x = t") (auto simp: ts tokens_ok_def)
  moreover have "count_list (token_timestamps ?r) (t + max 0 d) \<le> (if 0 < d then 0 else Suc k)"
    using ok tokens_ok_later [OF ok, of "t + d"] by (auto simp: ts tokens_ok_def)
  ultimately show ?thesis
    using ok assms(5) len unfolding tokens_ok_def by (simp add: push_token_def)
qed

lemma custom_symbols_ok:
  assumes "custom_symbols inp n t c r = Inr (adv, t', c', r')" "tokens_ok inp t k r" "k + n = nat (max_symbols_per_step inp)"
    "0 \<le> t" "frames inp \<le> 2 ^ 31"
  shows "tokens_ok inp (if adv then t' else t' + 1) 0 r'"
  using assms
proof (induction n arbitrary: c r k)
  case 0
  then show ?case by (auto intro: tokens_ok_later)
next
  case (Suc n)
  show ?case
  proof (cases "t < frames inp")
    case False
    with Suc.prems show ?thesis by (auto intro: tokens_ok_later)
  next
    case True
    with Suc.prems(1) obtain lab d c1 where j: "joint_at inp t c = Inr (lab, d, c1)" by (auto simp: bind_sum_Inr)
    show ?thesis
    proof (cases "lab = blank_id inp")
      case True
      with \<open>t < frames inp\<close> j Suc.prems(1,2) show ?thesis by (auto intro: tokens_ok_later)
    next
      case False
      have p: "tokens_ok inp (t + max 0 d) (if 0 < d then 0 else Suc k) (push_token lab t d r)"
        using tokens_ok_push [OF Suc.prems(2,4) True Suc.prems(5) False joint_duration [OF j]] Suc.prems(3) by simp
      show ?thesis
      proof (cases "0 < d")
        case True
        with p have "tokens_ok inp (t + d) 0 (push_token lab t d r)" by simp
        with \<open>t < frames inp\<close> j False True Suc.prems(1) show ?thesis by (auto simp: Let_def)
      next
        case False
        with p have "tokens_ok inp t (Suc k) (push_token lab t d r)" by simp
        from Suc.IH [OF _ this] show ?thesis
          using \<open>t < frames inp\<close> \<open>lab \<noteq> blank_id inp\<close> j False Suc.prems(1,3-5) by (auto simp: Let_def)
      qed
    qed
  qed
qed

lemma custom_loop_ok:
  assumes "tokens_ok inp t 0 r" "0 \<le> t" "frames inp \<le> 2 ^ 31" "custom_loop inp t c r = Inr r'"
  shows "\<exists>t'. tokens_ok inp t' 0 r'"
  using assms
proof (induction inp t c r rule: custom_loop.induct)
  case (1 inp t c r)
  show ?case
  proof (cases "t < frames inp")
    case True
    with "1.prems"(4) obtain adv t1 c1 r1 where s: "custom_symbols inp (nat (max_symbols_per_step inp)) t c r = Inr (adv, t1, c1, r1)"
      by (auto simp: custom_loop.simps [of inp t] split: sum.splits)
    have "tokens_ok inp (if adv then t1 else t1 + 1) 0 r1"
      using custom_symbols_ok [OF s "1.prems"(1)] "1.prems"(2,3) by simp
    with "1.IH" [OF True s] True s "1.prems" custom_symbols_time [OF s] show ?thesis
      by (simp add: custom_loop.simps [of inp t])
  next
    case False
    with "1.prems" show ?thesis by (auto simp: custom_loop_done)
  qed
qed

lemma no_tokens_ok: "tokens_ok inp 0 0 no_tokens"
  by (simp add: tokens_ok_def no_tokens_def token_spans_def)

subsection \<open>Properties\<close>

text \<open>A small network for the witnesses: it reads label and duration from the frame, and says blank after its second token.\<close>

definition demo_core :: "(nat, int) TdtDecoderCore" where
  "demo_core = \<lparr>reset_state = (\<lambda>c. 0), predict_start = (\<lambda>b c. c), predict_token = (\<lambda>tok c. c + 1),
     joint_step_argmax = (\<lambda>f c. (\<lparr>label = (if c < 2 then hd f else 0), duration_index = f ! 1\<rparr>, c))\<rparr>"

definition demo_input :: "(nat, int) tdt_input" where
  "demo_input = \<lparr>core = demo_core, encoder_projected = [7, 0, 8, 1], frames = 2, hidden_size = 2, blank_id = 0,
     durations = [0, 1], max_symbols_per_step = 10\<rparr>"

text \<open>
  C5. The two greedy algorithms are interchangeable: for durations that are not negative and a positive symbol limit
  the duration loop ends and returns what the customised algorithm returns, errors included, whatever the network says.
\<close>

theorem tdt_algorithms_agree:
  assumes "\<forall>d\<in>set (durations inp). 0 \<le> d" "0 < max_symbols_per_step inp"
  shows "run_tdt_decoder GreedyDurationLoop inp c = run_tdt_decoder GreedyCustomized inp c"
proof (cases "check_shape inp")
  case None
  let ?s = "\<lparr>time_idx = 0, last_label_time_idx = - 1, labels_at_current_time_idx = 0, dur_core = started inp c, dur_result = no_tokens\<rparr>"
  have "dur_loop inp ?s = Some (custom_loop inp 0 (started inp c) no_tokens)"
    using dur_loop_custom [OF assms(1) _ _ assms(2), of ?s] assms(2)
    by (simp add: symbols_left_def custom_loop_resume)
  with None assms(2) show ?thesis
    by (simp add: run_tdt_decoder_def run_tdt_decoder_greedy_duration_loop_def run_tdt_decoder_greedy_customized_def)
qed (simp add: run_tdt_decoder_def run_tdt_decoder_greedy_duration_loop_def run_tdt_decoder_greedy_customized_def)

theorem tdt_algorithms_agree_witness:
  "run_tdt_decoder GreedyDurationLoop demo_input 0 = run_tdt_decoder GreedyCustomized demo_input 0"
  by (rule tdt_algorithms_agree) (simp_all add: demo_input_def)

text \<open>
  C14. The tokens of a decoded utterance are placed in time: as many time stamps and durations as tokens, every
  time stamp inside the utterance, no token beginning before the previous one has ended, no blank among them, and no
  more than the allowed number at one frame.
\<close>

theorem tdt_tokens_in_time:
  assumes "run_tdt_decoder GreedyCustomized inp c = Some (Inr r)" "frames inp \<le> 2 ^ 31"
  shows "length (token_ids r) = length (token_timestamps r) \<and> length (token_durations r) = length (token_timestamps r) \<and>
    list_all (\<lambda>t. 0 \<le> t \<and> t < frames inp) (token_timestamps r) \<and>
    sorted_wrt (\<lambda>(a, d) (b, e). a + max 0 d \<le> b) (token_spans r) \<and> blank_id inp \<notin> set (token_ids r) \<and>
    (\<forall>t. count_list (token_timestamps r) t \<le> nat (max_symbols_per_step inp))"
proof -
  have "custom_loop inp 0 (started inp c) no_tokens = Inr r"
    using assms(1) by (auto simp: run_tdt_decoder_def run_tdt_decoder_greedy_customized_def split: option.splits)
  then obtain t where ok: "tokens_ok inp t 0 r"
    using custom_loop_ok [OF no_tokens_ok _ assms(2)] by blast
  moreover have "0 \<le> x \<and> x < frames inp" if x: "x \<in> set (token_timestamps r)" for x
  proof -
    obtain d where "(x, d) \<in> set (token_spans r)"
      using ok x by (metis in_set_impl_in_set_zip1 token_spans_def tokens_ok_def)
    with ok show ?thesis by (auto simp: tokens_ok_def)
  qed
  ultimately show ?thesis by (simp add: tokens_ok_def list_all_iff)
qed

lemma demo_decode: "run_tdt_decoder GreedyCustomized demo_input 0 =
    Some (Inr \<lparr>token_ids = [7, 7], token_timestamps = [0, 0], token_durations = [0, 0]\<rparr>)"
  by code_simp

theorem tdt_tokens_in_time_witness:
  "list_all (\<lambda>t. 0 \<le> t \<and> t < (2::int)) [0, 0] \<and> sorted_wrt (\<lambda>(a, d) (b, e). a + max 0 d \<le> (b::int)) [(0, 0), (0, 0 :: int)]"
  using tdt_tokens_in_time [OF demo_decode] by (simp add: demo_input_def token_spans_def)

end
