(* ===== verification/Forced_Align.thy ===== *)
theory Forced_Align
  imports Subtitle "HOL-Library.Sublist"
begin

text \<open>
  The processor of the forced aligner (\<^verbatim>\<open>models/qwen3_forced_aligner/processor.cpp\<close>) and the part of its session that
  joins the steps: the words of a transcript that can be aligned, the repair of the time stamps that the network predicts
  for them (a longest non-decreasing subsequence is kept, the rest is filled in), and the word spans made of them.
  The text tokenizer and the network are arguments. Milliseconds and samples are integers, doubles are reals.
\<close>

datatype align_error =
    Invalid_Utf8 | Truncated_Utf8 | Invalid_Continuation | No_Words | Placeholder_Mismatch | Prediction_Mismatch
  | No_Segment_Time | Align_Sample_Rate | Negative_Timestamp_Id | Position_Out_Of_Range | No_Transcript

subsection \<open>Characters\<close>

text \<open>Length and first bits of the character that a byte starts.\<close>

definition utf8_lead :: "nat \<Rightarrow> (nat \<times> nat) option" where
  "utf8_lead ch =
     (if ch < 0x80 then Some (1, ch)
      else if ch < 0xC0 then None
      else if ch < 0xE0 then Some (2, ch mod 32)
      else if ch < 0xF0 then Some (3, ch mod 16)
      else if ch < 0xF8 then Some (4, ch mod 8)
      else None)"

definition is_tail :: "char \<Rightarrow> bool" where
  "is_tail c \<longleftrightarrow> 0x80 \<le> byte_of c \<and> byte_of c < 0xC0"

function utf8_chars :: "string \<Rightarrow> align_error + (nat \<times> string) list" where
  "utf8_chars [] = Inr []"
| "utf8_chars (ch # rest) =
     (case utf8_lead (byte_of ch) of
        None \<Rightarrow> Inl Invalid_Utf8
      | Some (len, bits) \<Rightarrow>
          if len > length (ch # rest) then Inl Truncated_Utf8
          else (let tails = take (len - 1) rest in
                if \<not> list_all is_tail tails then Inl Invalid_Continuation
                else bind_sum (utf8_chars (drop (len - 1) rest)) (\<lambda>cs.
                  Inr ((foldl (\<lambda>cp c. cp * 64 + byte_of c mod 64) bits tails, ch # tails) # cs))))"
  by pat_completeness auto
termination
  by (relation "measure length") auto

definition is_cjk :: "nat \<Rightarrow> bool" where
  "is_cjk cp \<longleftrightarrow>
     0x4E00 \<le> cp \<and> cp \<le> 0x9FFF \<or> 0x3400 \<le> cp \<and> cp \<le> 0x4DBF \<or> 0x20000 \<le> cp \<and> cp \<le> 0x2A6DF \<or>
     0x2A700 \<le> cp \<and> cp \<le> 0x2B73F \<or> 0x2B740 \<le> cp \<and> cp \<le> 0x2B81F \<or> 0x2B820 \<le> cp \<and> cp \<le> 0x2CEAF \<or>
     0xF900 \<le> cp \<and> cp \<le> 0xFAFF"

definition is_ascii_alnum :: "nat \<Rightarrow> bool" where
  "is_ascii_alnum cp \<longleftrightarrow> 65 \<le> cp \<and> cp \<le> 90 \<or> 97 \<le> cp \<and> cp \<le> 122 \<or> 48 \<le> cp \<and> cp \<le> 57"

definition is_kept_non_ascii_letter_or_number :: "nat \<Rightarrow> bool" where
  "is_kept_non_ascii_letter_or_number cp \<longleftrightarrow>
     0x00C0 \<le> cp \<and> cp \<le> 0x02AF \<or> 0x0370 \<le> cp \<and> cp \<le> 0x03FF \<or> 0x0400 \<le> cp \<and> cp \<le> 0x052F \<or>
     0x0E00 \<le> cp \<and> cp \<le> 0x0E7F \<or> 0x3040 \<le> cp \<and> cp \<le> 0x30FF \<or> 0xAC00 \<le> cp \<and> cp \<le> 0xD7AF"

definition is_kept_char :: "nat \<Rightarrow> bool" where
  "is_kept_char cp \<longleftrightarrow> cp = 39 \<or> is_ascii_alnum cp \<or> is_cjk cp \<or> is_kept_non_ascii_letter_or_number cp"

subsection \<open>Words\<close>

definition clean_token :: "string \<Rightarrow> align_error + string" where
  "clean_token token =
     bind_sum (utf8_chars token) (\<lambda>cs. Inr (concat (map snd (filter (\<lambda>(cp, t). is_kept_char cp) cs))))"

fun split_chars :: "(nat \<times> string) list \<Rightarrow> string \<Rightarrow> string list \<Rightarrow> string list" where
  "split_chars [] buffer out = (if buffer \<noteq> [] then out @ [buffer] else out)"
| "split_chars ((cp, t) # cs) buffer out =
     (if is_cjk cp then split_chars cs [] ((if buffer \<noteq> [] then out @ [buffer] else out) @ [t])
      else split_chars cs (buffer @ t) out)"

definition split_segment_with_chinese :: "string \<Rightarrow> align_error + string list" where
  "split_segment_with_chinese segment = bind_sum (utf8_chars segment) (\<lambda>cs. Inr (split_chars cs [] []))"

definition flush_segment :: "string \<Rightarrow> string list \<Rightarrow> align_error + string list" where
  "flush_segment segment words =
     (if segment = [] then Inr words
      else bind_sum (clean_token segment) (\<lambda>cleaned.
             if cleaned = [] then Inr words
             else bind_sum (split_segment_with_chinese cleaned) (\<lambda>split. Inr (words @ split))))"

fun space_loop :: "(nat \<times> string) list \<Rightarrow> string \<Rightarrow> string list \<Rightarrow> align_error + string list" where
  "space_loop [] segment words = flush_segment segment words"
| "space_loop ((cp, t) # cs) segment words =
     (if cp = 32 \<or> cp = 9 \<or> cp = 10 \<or> cp = 13 then bind_sum (flush_segment segment words) (space_loop cs [])
      else space_loop cs (segment @ t) words)"

definition tokenize_space_language :: "string \<Rightarrow> align_error + string list" where
  "tokenize_space_language tx = bind_sum (utf8_chars tx) (\<lambda>cs. space_loop cs [] [])"

definition flush_latin :: "string \<Rightarrow> string list \<Rightarrow> align_error + string list" where
  "flush_latin latin words =
     (if latin = [] then Inr words
      else bind_sum (clean_token latin) (\<lambda>cleaned. Inr (if cleaned = [] then words else words @ [cleaned])))"

fun chinese_loop :: "(nat \<times> string) list \<Rightarrow> string \<Rightarrow> string list \<Rightarrow> align_error + string list" where
  "chinese_loop [] latin words = flush_latin latin words"
| "chinese_loop ((cp, t) # cs) latin words =
     (if is_cjk cp then bind_sum (flush_latin latin words) (\<lambda>ws. chinese_loop cs [] (ws @ [t]))
      else if is_kept_char cp then chinese_loop cs (latin @ t) words
      else bind_sum (flush_latin latin words) (chinese_loop cs []))"

definition tokenize_chinese_mixed :: "string \<Rightarrow> align_error + string list" where
  "tokenize_chinese_mixed tx = bind_sum (utf8_chars tx) (\<lambda>cs. chinese_loop cs [] [])"

definition tokenize_alignable_words :: "string \<Rightarrow> string \<Rightarrow> align_error + string list" where
  "tokenize_alignable_words tx language =
     (let normalized = lower_ascii language in
      if normalized = ''chinese'' \<or> normalized = ''cantonese'' then tokenize_chinese_mixed tx
      else tokenize_space_language tx)"

definition has_alignable_words :: "string \<Rightarrow> string \<Rightarrow> align_error + bool" where
  "has_alignable_words tx language = bind_sum (tokenize_alignable_words tx language) (\<lambda>ws. Inr (ws \<noteq> []))"

subsection \<open>Repair of the time stamps\<close>

text \<open>
  Length of the longest non-decreasing chain that ends at \<open>i\<close> and the predecessor on it (-1 for none), from the
  tables of the earlier positions.
\<close>

definition lis_entry :: "int list \<Rightarrow> int list \<Rightarrow> nat \<Rightarrow> int \<times> int" where
  "lis_entry xs dp i =
     foldl (\<lambda>(d, p) j. if xs ! j \<le> xs ! i \<and> dp ! j + 1 > d then (dp ! j + 1, int j) else (d, p)) (1, - 1) [0..<i]"

definition lis_tables :: "int list \<Rightarrow> nat \<Rightarrow> int list \<times> int list" where
  "lis_tables xs n =
     foldl (\<lambda>(dp, parent) i. (dp @ [fst (lis_entry xs dp i)], parent @ [snd (lis_entry xs dp i)])) ([], []) [0..<n]"

text \<open>\<^verbatim>\<open>std::max_element\<close>: the first position of the largest entry.\<close>

definition first_max :: "int list \<Rightarrow> nat" where
  "first_max xs = foldl (\<lambda>m i. if xs ! m < xs ! i then i else m) 0 [0..<length xs]"

text \<open>The walk along the predecessors; each is smaller than its successor, so the second test only makes the function total.\<close>

function lis_chain :: "int list \<Rightarrow> nat \<Rightarrow> nat list" where
  "lis_chain parent i =
     i # (if parent ! i < 0 \<or> int i \<le> parent ! i then [] else lis_chain parent (nat (parent ! i)))"
  by pat_completeness auto
termination
  by (relation "measure snd") auto

declare lis_chain.simps [simp del]

definition normal_flags :: "int list \<Rightarrow> bool list" where
  "normal_flags xs =
     (let (dp, parent) = lis_tables xs (length xs);
          chain = lis_chain parent (first_max dp)
      in map (\<lambda>i. i \<in> set chain) [0..<length xs])"

text \<open>\<^verbatim>\<open>static_cast<int64_t>\<close> of a double.\<close>

definition trunc :: "real \<Rightarrow> int" where
  "trunc r = (if 0 \<le> r then \<lfloor>r\<rfloor> else \<lceil>r\<rceil>)"

text \<open>The value at position \<open>k\<close> of the run from \<open>i\<close> to \<open>j\<close>, with its neighbours, if any.\<close>

definition fill_value :: "int list \<Rightarrow> int option \<Rightarrow> int option \<Rightarrow> nat \<Rightarrow> nat \<Rightarrow> nat \<Rightarrow> int" where
  "fill_value xs left right i j k =
     (case (left, right) of
        (None, None) \<Rightarrow> xs ! k
      | (None, Some r) \<Rightarrow> r
      | (Some l, None) \<Rightarrow> l
      | (Some l, Some r) \<Rightarrow>
          if j - i \<le> 2 then (if k - (i - 1) \<le> j - k then l else r)
          else trunc (of_int l + (of_int (r - l) / of_nat (j - i + 1)) * of_nat (k - i + 1)))"

function repair_from :: "int list \<Rightarrow> bool list \<Rightarrow> nat \<Rightarrow> int list \<Rightarrow> int list" where
  "repair_from xs normal i result =
     (if i < length xs
      then if normal ! i then repair_from xs normal (i + 1) result
           else (let j = scan_while (\<lambda>k. \<not> normal ! k) (length xs) i;
                     left = map_option (\<lambda>k. result ! (k - 1)) (scan_down (\<lambda>k. normal ! k) 0 i);
                     k = scan_while (\<lambda>k. \<not> normal ! k) (length xs) j;
                     right = (if k < length xs then Some (result ! k) else None)
                 in repair_from xs normal (max j (i + 1)) (foldl (\<lambda>res k. res[k := fill_value xs left right i j k]) result [i..<j]))
      else result)"
  by pat_completeness auto
termination
  by (relation "measure (\<lambda>(xs, normal, i, result). length xs - i)") auto

declare repair_from.simps [simp del]

definition fix_timestamp :: "int list \<Rightarrow> int list" where
  "fix_timestamp xs = (if xs = [] then [] else repair_from xs (normal_flags xs) 0 xs)"

subsection \<open>Word spans\<close>

fun span_words :: "string list \<Rightarrow> int list \<Rightarrow> int \<Rightarrow> word_timestamp list" where
  "span_words (w # ws) (s # e # ts) rate =
     \<lparr>start_sample = llround (of_int s * of_int rate / 1000), end_sample = llround (of_int e * of_int rate / 1000), ts_word = w\<rparr>
     # span_words ws ts rate"
| "span_words ws ts rate = []"

fun separate_words :: "int \<Rightarrow> int \<Rightarrow> word_timestamp list \<Rightarrow> word_timestamp list" where
  "separate_words min_span previous_end [] = []"
| "separate_words min_span previous_end (t # ts) =
     (let s = max (start_sample t) previous_end;
          min_end = s + min_span;
          e = (if end_sample t \<le> s
               then (case ts of
                       t' # _ \<Rightarrow> if start_sample t' > s then min min_end (start_sample t') else min_end
                     | [] \<Rightarrow> min_end)
               else end_sample t)
      in t\<lparr>start_sample := s, end_sample := e\<rparr> # separate_words min_span e ts)"

definition parse_timestamps :: "int \<Rightarrow> string list \<Rightarrow> int list \<Rightarrow> int \<Rightarrow> align_error + word_timestamp list" where
  "parse_timestamps segment_ms words ids rate =
     (if length ids \<noteq> length words * 2 then Inl Prediction_Mismatch
      else if segment_ms \<le> 0 then Inl No_Segment_Time
      else if rate \<le> 0 then Inl Align_Sample_Rate
      else if \<not> list_all (\<lambda>i. 0 \<le> i) ids then Inl Negative_Timestamp_Id
      else Inr (separate_words (max 1 (llround (of_int segment_ms * of_int rate / 1000))) 0
                  (span_words words (fix_timestamp (map (\<lambda>i. i * segment_ms) ids)) rate)))"

subsection \<open>Prompt and session\<close>

definition aligner_text :: "string list \<Rightarrow> string" where
  "aligner_text words =
     ''<|audio_start|><|audio_pad|><|audio_end|>'' @ concat (map (\<lambda>w. w @ ''<timestamp><timestamp>'') words)"

text \<open>\<open>tokenizer\<close> is \<^verbatim>\<open>build_raw_audio_prompt\<close>: text and number of audio tokens to token ids.\<close>

definition build_prompt :: "(string \<Rightarrow> int \<Rightarrow> int list) \<Rightarrow> int \<Rightarrow> string \<Rightarrow> string \<Rightarrow> int \<Rightarrow> align_error + (int list \<times> string list \<times> nat list)" where
  "build_prompt tokenizer timestamp_token tx language audio_tokens =
     bind_sum (tokenize_alignable_words tx language) (\<lambda>words.
       if words = [] then Inl No_Words
       else (let ids = tokenizer (aligner_text words) audio_tokens;
                 positions = filter (\<lambda>i. ids ! i = timestamp_token) [0..<length ids]
             in if length positions \<noteq> length words * 2 then Inl Placeholder_Mismatch
                else Inr (ids, words, positions)))"

text \<open>The session's \<^verbatim>\<open>run\<close> from a transcript on: \<open>classify\<close> is the network, \<^const>\<open>None\<close> a result without time stamps.\<close>

definition run_align :: "(string \<Rightarrow> int \<Rightarrow> int list) \<Rightarrow> (int list \<Rightarrow> int list) \<Rightarrow> int \<Rightarrow> int \<Rightarrow> int \<Rightarrow> int \<Rightarrow> string \<Rightarrow> string \<Rightarrow>
    align_error + word_timestamp list option" where
  "run_align tokenizer classify timestamp_token segment_ms rate audio_tokens tx language =
     (if tx = [] \<or> language = [] then Inl No_Transcript
      else bind_sum (has_alignable_words tx language) (\<lambda>some.
        if \<not> some then Inr None
        else bind_sum (build_prompt tokenizer timestamp_token tx language audio_tokens) (\<lambda>(ids, words, positions).
          let out = classify ids in
          if \<not> list_all (\<lambda>p. p < length out) positions then Inl Position_Out_Of_Range
          else bind_sum (parse_timestamps segment_ms words (map (\<lambda>p. out ! p) positions) rate) (\<lambda>ts. Inr (Some ts)))))"

subsection \<open>The longest non-decreasing subsequence\<close>

definition entry_ok :: "int list \<Rightarrow> int list \<Rightarrow> nat \<Rightarrow> nat \<Rightarrow> int \<times> int \<Rightarrow> bool" where
  "entry_ok xs dp i m = (\<lambda>(d, p). 1 \<le> d \<and> (\<forall>j<m. xs ! j \<le> xs ! i \<longrightarrow> dp ! j + 1 \<le> d) \<and>
     (p = - 1 \<and> d = 1 \<or> (\<exists>j<m. p = int j \<and> xs ! j \<le> xs ! i \<and> d = dp ! j + 1)))"

lemma lis_entry_ok: "entry_ok xs dp i i (lis_entry xs dp i)"
proof -
  have "entry_ok xs dp i m (foldl (\<lambda>(d, p) j. if xs ! j \<le> xs ! i \<and> dp ! j + 1 > d then (dp ! j + 1, int j) else (d, p)) (1, - 1) [0..<m])" for m
  proof (induction m)
    case (Suc m)
    then show ?case
      by (auto simp: entry_ok_def less_Suc_eq split: prod.splits)
  qed (simp add: entry_ok_def)
  then show ?thesis by (simp add: lis_entry_def)
qed

lemma entry_ok_cong: "(\<And>j. j < m \<Longrightarrow> dp ! j = dp' ! j) \<Longrightarrow> entry_ok xs dp i m e = entry_ok xs dp' i m e"
  by (auto simp: entry_ok_def)

definition tables_ok :: "int list \<Rightarrow> nat \<Rightarrow> int list \<Rightarrow> int list \<Rightarrow> bool" where
  "tables_ok xs n dp parent \<longleftrightarrow>
     length dp = n \<and> length parent = n \<and> (\<forall>i<n. entry_ok xs dp i i (dp ! i, parent ! i))"

lemma lis_tables_ok: "lis_tables xs n = (dp, parent) \<Longrightarrow> tables_ok xs n dp parent"
proof (induction n arbitrary: dp parent)
  case 0
  then show ?case by (simp add: lis_tables_def tables_ok_def)
next
  case (Suc n)
  obtain dp0 parent0 where t: "lis_tables xs n = (dp0, parent0)" by fastforce
  with Suc.IH have ok: "tables_ok xs n dp0 parent0" by blast
  have new: "dp = dp0 @ [fst (lis_entry xs dp0 n)]" "parent = parent0 @ [snd (lis_entry xs dp0 n)]"
    using Suc.prems t by (simp_all add: lis_tables_def)
  have "entry_ok xs dp i i (dp ! i, parent ! i)" if "i < Suc n" for i
  proof -
    have same: "entry_ok xs dp i i e = entry_ok xs dp0 i i e" for e
      by (rule entry_ok_cong) (use that ok new in \<open>simp add: nth_append tables_ok_def\<close>)
    show ?thesis
      unfolding same using that ok lis_entry_ok [of xs dp0 n] by (auto simp: new nth_append tables_ok_def less_Suc_eq)
  qed
  with ok show ?case by (simp add: tables_ok_def new)
qed

lemma first_max: "xs \<noteq> [] \<Longrightarrow> first_max xs < length xs \<and> (\<forall>i<length xs. xs ! i \<le> xs ! first_max xs)"
proof -
  assume "xs \<noteq> []"
  have "(let f = foldl (\<lambda>m i. if xs ! m < xs ! i then i else m) 0 [0..<m] in f < length xs \<and> (\<forall>i<m. xs ! i \<le> xs ! f))"
    if "m \<le> length xs" for m
    using that
  proof (induction m)
    case 0
    with \<open>xs \<noteq> []\<close> show ?case by simp
  next
    case (Suc m)
    then show ?case by (auto simp: Let_def less_Suc_eq)
  qed
  from this [of "length xs"] show ?thesis by (simp add: first_max_def Let_def)
qed

text \<open>The walk from \<open>i\<close> is a chain of the length that the table says.\<close>

lemma lis_chain_ok:
  assumes "tables_ok xs n dp parent"
  shows "i < n \<Longrightarrow> int (length (lis_chain parent i)) = dp ! i \<and> hd (lis_chain parent i) = i \<and>
    set (lis_chain parent i) \<subseteq> {..i} \<and> sorted_wrt (\<lambda>a b. b < a \<and> xs ! b \<le> xs ! a) (lis_chain parent i)"
proof (induction i rule: less_induct)
  case (less i)
  from assms less.prems have e: "entry_ok xs dp i i (dp ! i, parent ! i)" by (simp add: tables_ok_def)
  then consider "parent ! i = - 1" "dp ! i = 1" | j where "j < i" "parent ! i = int j" "xs ! j \<le> xs ! i" "dp ! i = dp ! j + 1"
    by (auto simp: entry_ok_def)
  then show ?case
  proof cases
    case 1
    then show ?thesis by (simp add: lis_chain.simps [of parent i])
  next
    case 2
    have c: "lis_chain parent i = i # lis_chain parent j" using 2 by (simp add: lis_chain.simps [of parent i])
    have "j < n" using 2(1) less.prems by simp
    note ih = less.IH [OF 2(1) this]
    have "b < i \<and> xs ! b \<le> xs ! i" if b: "b \<in> set (lis_chain parent j)" for b
    proof -
      have "lis_chain parent j = j # tl (lis_chain parent j)" by (simp add: lis_chain.simps [of parent j])
      with ih b have "b = j \<or> b < j \<and> xs ! b \<le> xs ! j" by (metis set_ConsD sorted_wrt.simps(2))
      with 2 show ?thesis by auto
    qed
    with ih 2 show ?thesis by (auto simp: c)
  qed
qed

text \<open>No chain is longer.\<close>

lemma lis_longest:
  assumes "tables_ok xs n dp parent"
  shows "idx \<noteq> [] \<Longrightarrow> set idx \<subseteq> {..<n} \<Longrightarrow> sorted_wrt (\<lambda>a b. a < b \<and> xs ! a \<le> xs ! b) idx \<Longrightarrow> int (length idx) \<le> dp ! last idx"
proof (induction idx rule: rev_induct)
  case (snoc i idx)
  have i: "entry_ok xs dp i i (dp ! i, parent ! i)" using assms snoc.prems(2) by (simp add: tables_ok_def)
  show ?case
  proof (cases "idx = []")
    case True
    with i show ?thesis by (simp add: entry_ok_def)
  next
    case False
    with snoc.prems(3) have "last idx < i" "xs ! last idx \<le> xs ! i" by (auto simp: sorted_wrt_append)
    with i have "dp ! last idx + 1 \<le> dp ! i" by (simp add: entry_ok_def)
    moreover have "int (length idx) \<le> dp ! last idx"
      using snoc.IH [OF False] snoc.prems(2,3) by (simp add: sorted_wrt_append)
    ultimately show ?thesis by simp
  qed
qed simp

lemma subseq_indices:
  "subseq ys xs \<Longrightarrow> \<exists>idx. ys = map ((!) xs) idx \<and> set idx \<subseteq> {..<length xs} \<and> sorted_wrt (<) idx"
proof (induction rule: list_emb.induct)
  case (list_emb_Nil xs)
  then show ?case by (intro exI [of _ "[]"]) simp
next
  case (list_emb_Cons ys xs x)
  then obtain idx where "ys = map ((!) xs) idx" "set idx \<subseteq> {..<length xs}" "sorted_wrt (<) idx" by blast
  then show ?case by (intro exI [of _ "map Suc idx"]) (auto simp: sorted_wrt_map)
next
  case (list_emb_Cons2 x y ys xs)
  then obtain idx where "ys = map ((!) xs) idx" "set idx \<subseteq> {..<length xs}" "sorted_wrt (<) idx" by blast
  with list_emb_Cons2 show ?case by (intro exI [of _ "0 # map Suc idx"]) (auto simp: sorted_wrt_map)
qed

text \<open>What the marked positions are: \<open>keep\<close> lists them.\<close>

definition longest_kept :: "int list \<Rightarrow> nat list \<Rightarrow> bool" where
  "longest_kept xs keep \<longleftrightarrow>
     set keep \<subseteq> {..<length xs} \<and> sorted_wrt (<) keep \<and> sorted (map ((!) xs) keep) \<and>
     (\<forall>ys. subseq ys xs \<longrightarrow> sorted ys \<longrightarrow> length ys \<le> length keep)"

lemma normal_flags_kept:
  assumes "xs \<noteq> []"
  shows "\<exists>keep. longest_kept xs keep \<and> normal_flags xs = map (\<lambda>i. i \<in> set keep) [0..<length xs] \<and> keep \<noteq> []"
proof -
  obtain dp parent where t: "lis_tables xs (length xs) = (dp, parent)" by fastforce
  note ok = lis_tables_ok [OF t]
  let ?m = "first_max dp" and ?keep = "rev (lis_chain parent (first_max dp))"
  have dp: "length dp = length xs" "dp \<noteq> []" using ok assms by (auto simp: tables_ok_def)
  have m: "?m < length xs" "\<And>i. i < length xs \<Longrightarrow> dp ! i \<le> dp ! ?m" using first_max [OF dp(2)] dp(1) by auto
  note c = lis_chain_ok [OF ok m(1)]
  have "length ys \<le> length ?keep" if ys: "subseq ys xs" "sorted ys" for ys
  proof -
    obtain idx where i: "ys = map ((!) xs) idx" "set idx \<subseteq> {..<length xs}" "sorted_wrt (<) idx"
      using subseq_indices [OF ys(1)] by blast
    have "sorted_wrt (\<lambda>a b. a < b \<and> xs ! a \<le> xs ! b) idx"
      using i(3) ys(2) unfolding i(1) sorted_map by (simp add: sorted_wrt_iff_nth_less)
    then have "idx \<noteq> [] \<Longrightarrow> int (length idx) \<le> dp ! last idx" using lis_longest [OF ok _ i(2)] by blast
    moreover have "idx \<noteq> [] \<Longrightarrow> dp ! last idx \<le> dp ! ?m" using m(2) i(2) last_in_set by blast
    ultimately have "int (length idx) \<le> dp ! ?m" using c by (cases "idx = []") auto
    with c i(1) show ?thesis by simp
  qed
  moreover have "sorted_wrt (<) ?keep" "sorted (map ((!) xs) ?keep)"
    using c unfolding sorted_map sorted_wrt_rev by (auto elim: sorted_wrt_mono_rel [rotated])
  moreover have "set ?keep \<subseteq> {..<length xs}" using c m(1) by auto
  ultimately have "longest_kept xs ?keep" by (simp add: longest_kept_def)
  then show ?thesis
    by (intro exI [of _ ?keep]) (simp add: normal_flags_def t lis_chain.simps [of parent])
qed

subsection \<open>Filling in\<close>

lemma trunc_of_int [simp]: "trunc (of_int i) = i"
  by (simp add: trunc_def)

lemma trunc_mono: "x \<le> y \<Longrightarrow> trunc x \<le> trunc y"
proof -
  assume xy: "x \<le> y"
  consider "0 \<le> x" "0 \<le> y" | "x < 0" "0 \<le> y" | "x < 0" "y < 0" using xy by linarith
  then show ?thesis
  proof cases
    case 2
    then have "\<lceil>x\<rceil> \<le> 0" "0 \<le> \<lfloor>y\<rfloor>" by simp_all
    then have "\<lceil>x\<rceil> \<le> \<lfloor>y\<rfloor>" by (rule order_trans)
    with 2 show ?thesis unfolding trunc_def by simp
  qed (use xy in \<open>simp_all add: trunc_def floor_mono ceiling_mono\<close>)
qed

lemma interpolation_bounds:
  assumes "l \<le> r" "i \<le> k" "k < j"
  shows "l \<le> trunc (of_int l + (of_int (r - l) / of_nat (j - i + 1)) * of_nat (k - i + 1))"
    "trunc (of_int l + (of_int (r - l) / of_nat (j - i + 1)) * of_nat (k - i + 1)) \<le> r"
proof -
  let ?q = "of_int (r - l) / of_nat (j - i + 1) :: real"
  have q: "0 \<le> ?q" using assms(1) by simp
  have "?q * of_nat (k - i + 1) \<le> ?q * of_nat (j - i + 1)"
    by (rule mult_left_mono) (use assms q in simp_all)
  also have "\<dots> = of_int (r - l)" by (simp add: field_simps)
  finally have "of_int l + ?q * of_nat (k - i + 1) \<le> of_int r" by simp
  from trunc_mono [OF this] show "trunc (of_int l + ?q * of_nat (k - i + 1)) \<le> r" by simp
  have "0 \<le> ?q * of_nat (k - i + 1)" using q by (intro mult_nonneg_nonneg) simp_all
  then have "of_int l \<le> of_int l + ?q * of_nat (k - i + 1)" by (simp only: le_add_same_cancel1)
  from trunc_mono [OF this] show "l \<le> trunc (of_int l + ?q * of_nat (k - i + 1))" by simp
qed

lemma fill_value_bounds:
  assumes "i \<le> k" "k < j" "left \<noteq> None \<or> right \<noteq> None" "\<And>l r. left = Some l \<Longrightarrow> right = Some r \<Longrightarrow> l \<le> r"
  shows "left = Some l \<Longrightarrow> l \<le> fill_value xs left right i j k" "right = Some r \<Longrightarrow> fill_value xs left right i j k \<le> r"
  using assms interpolation_bounds [OF _ assms(1,2)] by (auto simp: fill_value_def split: option.splits simp del: of_nat_add of_nat_diff)

lemma fill_value_mono:
  assumes "i \<le> k" "k \<le> k'" "k' < j" "left \<noteq> None \<or> right \<noteq> None" "\<And>l r. left = Some l \<Longrightarrow> right = Some r \<Longrightarrow> l \<le> r"
  shows "fill_value xs left right i j k \<le> fill_value xs left right i j k'"
proof (cases left; cases right)
  fix l r assume [simp]: "left = Some l" "right = Some r"
  have lr: "l \<le> r" using assms(5) by simp
  then have "of_int l + (of_int (r - l) / of_nat (j - i + 1)) * of_nat (k - i + 1) \<le>
      of_int l + (of_int (r - l) / of_nat (j - i + 1)) * (of_nat (k' - i + 1) :: real)"
    using assms(2) by (intro add_left_mono mult_left_mono) auto
  from trunc_mono [OF this] lr show ?thesis
    using assms(1-3) by (auto simp: fill_value_def simp del: of_nat_add of_nat_diff)
qed (use assms(4) in \<open>auto simp: fill_value_def\<close>)

lemma foldl_update:
  "length (foldl (\<lambda>res k. res[k := f k]) res [i..<j]) = length res"
  "k < length res \<Longrightarrow> foldl (\<lambda>res k. res[k := f k]) res [i..<j] ! k = (if i \<le> k \<and> k < j then f k else res ! k)"
proof (induction j)
  case (Suc j)
  { case 1 with Suc show ?case by (cases "i \<le> j") (simp_all)
  next case 2 with Suc show ?case by (cases "i \<le> j"; cases "k = j") auto }
qed simp_all

subsection \<open>The repair keeps an invariant\<close>

definition repair_inv :: "int list \<Rightarrow> bool list \<Rightarrow> nat \<Rightarrow> int list \<Rightarrow> bool" where
  "repair_inv xs normal i res \<longleftrightarrow>
     length res = length xs \<and> (\<forall>k. i \<le> k \<longrightarrow> k < length xs \<longrightarrow> res ! k = xs ! k) \<and>
     (\<forall>k<length xs. normal ! k \<longrightarrow> res ! k = xs ! k) \<and>
     (\<forall>k l. k \<le> l \<longrightarrow> l < i \<longrightarrow> l < length xs \<longrightarrow> res ! k \<le> res ! l) \<and>
     (\<forall>k m. k < i \<longrightarrow> i \<le> m \<longrightarrow> m < length xs \<longrightarrow> normal ! m \<longrightarrow> res ! k \<le> xs ! m) \<and>
     (i = 0 \<or> normal ! (i - 1) \<or> length xs \<le> i \<or> normal ! i)"

definition marked :: "int list \<Rightarrow> bool list \<Rightarrow> bool" where
  "marked xs normal \<longleftrightarrow>
     (\<exists>i<length xs. normal ! i) \<and> (\<forall>i j. i \<le> j \<longrightarrow> j < length xs \<longrightarrow> normal ! i \<longrightarrow> normal ! j \<longrightarrow> xs ! i \<le> xs ! j)"

lemma repair_run_inv:
  assumes inv: "repair_inv xs normal i res" and mk: "marked xs normal" and i: "i < length xs" "\<not> normal ! i"
    and j: "j = scan_while (\<lambda>k. \<not> normal ! k) (length xs) i"
    and left: "left = map_option (\<lambda>k. res ! (k - 1)) (scan_down (\<lambda>k. normal ! k) 0 i)"
    and right: "right = (if j < length xs then Some (res ! j) else None)"
  shows "i < j \<and> repair_inv xs normal j (foldl (\<lambda>res k. res[k := fill_value xs left right i j k]) res [i..<j])"
proof -
  have ij: "i < j" "j \<le> length xs" and run: "\<And>k. i \<le> k \<Longrightarrow> k < j \<Longrightarrow> \<not> normal ! k"
    and stop: "j < length xs \<Longrightarrow> normal ! j"
  proof -
    show "j \<le> length xs" unfolding j by (rule scan_while_le) (use i in simp)
    show "\<And>k. i \<le> k \<Longrightarrow> k < j \<Longrightarrow> \<not> normal ! k" unfolding j by (drule scan_while_all) auto
    show "j < length xs \<Longrightarrow> normal ! j" unfolding j by (drule scan_while_stop) auto
    show "i < j" unfolding j by (subst scan_while.simps) (use i in \<open>simp add: Suc_le_eq [symmetric] scan_while_ge\<close>)
  qed
  have l: "left = (if i = 0 then None else Some (xs ! (i - 1)))" "0 < i \<Longrightarrow> normal ! (i - 1)"
  proof -
    show n: "normal ! (i - 1)" if "0 < i" using inv i that by (auto simp: repair_inv_def)
    show "left = (if i = 0 then None else Some (xs ! (i - 1)))"
    proof (cases i)
      case (Suc i')
      then have "scan_down (\<lambda>k. normal ! k) 0 i = Some i" using n by simp
      with Suc n i inv show ?thesis by (auto simp: left repair_inv_def)
    qed (simp add: left)
  qed
  have r: "right = (if j < length xs then Some (xs ! j) else None)"
    using inv ij by (auto simp: right repair_inv_def)
  have some: "left \<noteq> None \<or> right \<noteq> None"
  proof (rule ccontr)
    assume "\<not> ?thesis"
    with l r ij have "i = 0" "j = length xs" by (auto split: if_splits)
    with run mk show False by (auto simp: marked_def)
  qed
  have lr: "\<And>x y. left = Some x \<Longrightarrow> right = Some y \<Longrightarrow> x \<le> y"
    using mk l r stop ij by (auto simp: marked_def split: if_splits)
  let ?F = "fill_value xs left right i j" and ?res = "foldl (\<lambda>res k. res[k := fill_value xs left right i j k]) res [i..<j]"
  have len: "length ?res = length xs" using inv by (simp add: foldl_update repair_inv_def)
  have nth: "?res ! k = (if i \<le> k \<and> k < j then ?F k else res ! k)" if "k < length xs" for k
    using inv that by (simp add: foldl_update repair_inv_def)
  have nth_high: "?res ! k = xs ! k" if "j \<le> k" "k < length xs" for k
    using nth that inv ij by (auto simp: repair_inv_def)
  have below: "res ! k \<le> ?F m" if "k < i" "i \<le> m" "m < j" for k m
  proof -
    have mono: "\<And>k l. k \<le> l \<Longrightarrow> l < i \<Longrightarrow> res ! k \<le> res ! l" using inv i by (simp add: repair_inv_def)
    have "res ! k \<le> res ! (i - 1)" by (rule mono) (use that in simp_all)
    also have "\<dots> = xs ! (i - 1)" using inv l(2) that i by (auto simp: repair_inv_def)
    also have "\<dots> \<le> ?F m" by (rule fill_value_bounds(1) [OF that(2,3) some lr]) (use that l in auto)
    finally show ?thesis .
  qed
  have "?res ! k \<le> ?res ! m" if "k \<le> m" "m < j" "m < length xs" for k m
  proof -
    consider "m < i" | "k < i" "i \<le> m" | "i \<le> k" by linarith
    then show ?thesis
    proof cases
      case 1
      with nth that inv ij show ?thesis by (auto simp: repair_inv_def)
    next
      case 2
      with nth that below show ?thesis by auto
    next
      case 3
      with nth that fill_value_mono [OF 3 that(1,2) some lr] show ?thesis by auto
    qed
  qed
  moreover have "?res ! k \<le> xs ! m" if "k < j" "j \<le> m" "m < length xs" "normal ! m" for k m
  proof -
    have jm: "xs ! j \<le> xs ! m" "j < length xs" using mk stop that by (auto simp: marked_def)
    show ?thesis
    proof (cases "i \<le> k")
      case True
      have "?F k \<le> xs ! j" by (rule fill_value_bounds(2) [OF True that(1) some lr]) (use jm r in auto)
      with True that nth jm show ?thesis by auto
    next
      case False
      with inv that nth ij show ?thesis by (auto simp: repair_inv_def)
    qed
  qed
  moreover have "?res ! k = xs ! k" if "k < length xs" "normal ! k" for k
    using nth [OF that(1)] run that inv by (auto simp: repair_inv_def)
  moreover have "length xs \<le> j \<or> normal ! j" using stop by linarith
  ultimately show ?thesis
    using ij len nth_high unfolding repair_inv_def by blast
qed

lemma repair_normal_inv:
  assumes "repair_inv xs normal i res" "marked xs normal" "i < length xs" "normal ! i"
  shows "repair_inv xs normal (i + 1) res"
  using assms by (auto simp: repair_inv_def marked_def less_Suc_eq) (metis linorder_not_less nle_le)

lemma repair_from_run:
  assumes "i < length xs" "\<not> normal ! i" "j = scan_while (\<lambda>k. \<not> normal ! k) (length xs) i"
    "left = map_option (\<lambda>k. res ! (k - 1)) (scan_down (\<lambda>k. normal ! k) 0 i)"
    "right = (if j < length xs then Some (res ! j) else None)"
    "scan_while (\<lambda>k. \<not> normal ! k) (length xs) j = j" "i < j"
  shows "repair_from xs normal i res =
    repair_from xs normal j (foldl (\<lambda>res k. res[k := fill_value xs left right i j k]) res [i..<j])"
proof -
  have "max j (i + 1) = j" using assms(7) by simp
  then show ?thesis
    using assms(1,2) by (subst repair_from.simps) (simp only: Let_def assms(3-5) [symmetric] if_True if_False assms(6))
qed

lemma repair_from_inv:
  "marked xs normal \<Longrightarrow> repair_inv xs normal i res \<Longrightarrow>
   repair_inv xs normal (max i (length xs)) (repair_from xs normal i res)"
proof (induction "length xs - i" arbitrary: i res rule: less_induct)
  case less
  show ?case
  proof (cases "i < length xs")
    case False
    with less.prems show ?thesis by (simp add: repair_from.simps [of xs normal i])
  next
    case True
    show ?thesis
    proof (cases "normal ! i")
      case n: True
      have "repair_inv xs normal (max (i + 1) (length xs)) (repair_from xs normal (i + 1) res)"
        by (rule less.hyps [OF _ less.prems(1) repair_normal_inv [OF less.prems(2,1) True n]]) (use True in simp)
      with True n show ?thesis by (simp add: repair_from.simps [of xs normal i] max_def split: if_splits)
    next
      case False
      define j where "j = scan_while (\<lambda>k. \<not> normal ! k) (length xs) i"
      define left where "left = map_option (\<lambda>k. res ! (k - 1)) (scan_down (\<lambda>k. normal ! k) 0 i)"
      define right where "right = (if j < length xs then Some (res ! j) else None)"
      let ?res = "foldl (\<lambda>res k. res[k := fill_value xs left right i j k]) res [i..<j]"
      have step: "i < j \<and> repair_inv xs normal j ?res"
        by (rule repair_run_inv [OF less.prems(2,1) True False j_def left_def right_def])
      have j: "j \<le> length xs" unfolding j_def by (rule scan_while_le) (use True in simp)
      have "scan_while (\<lambda>k. \<not> normal ! k) (length xs) j = j"
        using scan_while_stop [of "\<lambda>k. \<not> normal ! k" "length xs" i] j
        by (subst scan_while.simps) (auto simp: j_def [symmetric])
      then have "repair_from xs normal i res = repair_from xs normal j ?res"
        by (intro repair_from_run [OF True False j_def left_def right_def]) (use step in simp_all)
      moreover have "repair_inv xs normal (max j (length xs)) (repair_from xs normal j ?res)"
        by (rule less.hyps [OF _ less.prems(1)]) (use step True in auto)
      ultimately show ?thesis using j True by (simp add: max_def split: if_splits)
    qed
  qed
qed

lemma marked_keep:
  assumes "longest_kept xs keep" "keep \<noteq> []" "normal = map (\<lambda>i. i \<in> set keep) [0..<length xs]"
  shows "marked xs normal"
proof -
  have "xs ! i \<le> xs ! j" if "i \<in> set keep" "j \<in> set keep" "i \<le> j" for i j
  proof -
    from that(1) obtain a where a: "a < length keep" "keep ! a = i" by (auto simp: in_set_conv_nth)
    from that(2) obtain b where b: "b < length keep" "keep ! b = j" by (auto simp: in_set_conv_nth)
    note ab = a b
    have s: "sorted_wrt (<) keep" "sorted (map ((!) xs) keep)" using assms(1) by (simp_all add: longest_kept_def)
    have "a \<le> b"
    proof (rule ccontr)
      assume "\<not> a \<le> b"
      with ab have "j < i" using sorted_wrt_nth_less [OF s(1), of b a] by simp
      with that show False by simp
    qed
    with s(2) ab show ?thesis using sorted_nth_mono [OF s(2), of a b] by simp
  qed
  moreover obtain i where "i \<in> set keep" using assms(2) by (cases keep) auto
  moreover have "set keep \<subseteq> {..<length xs}" using assms(1) by (simp add: longest_kept_def)
  ultimately show ?thesis using assms(3) unfolding marked_def by (intro conjI exI [of _ i]) (auto simp: subset_iff)
qed

lemma fix_timestamp_result:
  "\<exists>keep. longest_kept xs keep \<and> length (fix_timestamp xs) = length xs \<and> sorted (fix_timestamp xs) \<and>
    (\<forall>i\<in>set keep. fix_timestamp xs ! i = xs ! i)"
proof (cases "xs = []")
  case True
  then show ?thesis by (intro exI [of _ "[]"]) (simp add: longest_kept_def fix_timestamp_def)
next
  case False
  obtain keep where k: "longest_kept xs keep" "normal_flags xs = map (\<lambda>i. i \<in> set keep) [0..<length xs]" "keep \<noteq> []"
    using normal_flags_kept [OF False] by blast
  have "repair_inv xs (normal_flags xs) 0 xs" by (simp add: repair_inv_def)
  from repair_from_inv [OF marked_keep [OF k(1,3,2)] this]
  have inv: "repair_inv xs (normal_flags xs) (length xs) (fix_timestamp xs)" using False by (simp add: fix_timestamp_def)
  then have "sorted (fix_timestamp xs)" "length (fix_timestamp xs) = length xs"
    by (auto simp: repair_inv_def sorted_iff_nth_mono)
  moreover have "\<forall>i\<in>set keep. fix_timestamp xs ! i = xs ! i"
    using inv k(1,2) by (auto simp: repair_inv_def longest_kept_def)
  ultimately show ?thesis using k(1) by blast
qed

lemma fix_timestamp_sorted_id: "sorted xs \<Longrightarrow> fix_timestamp xs = xs"
proof -
  assume s: "sorted xs"
  obtain keep where k: "longest_kept xs keep" "length (fix_timestamp xs) = length xs" "\<forall>i\<in>set keep. fix_timestamp xs ! i = xs ! i"
    using fix_timestamp_result by blast
  have "length xs \<le> length keep" using k(1) s by (simp add: longest_kept_def)
  also have "length keep = card (set keep)"
    using k(1) by (simp add: longest_kept_def distinct_card strict_sorted_iff)
  finally have "set keep = {..<length xs}"
    using k(1) by (intro card_seteq) (auto simp: longest_kept_def)
  with k(2,3) show ?thesis by (intro nth_equalityI) auto
qed

subsection \<open>Words are words\<close>

definition clean_word :: "string \<Rightarrow> bool" where
  "clean_word w \<longleftrightarrow> w \<noteq> [] \<and> CHR 0x0A \<notin> set w \<and> CHR 0x0D \<notin> set w"

lemma utf8_chars_texts:
  "utf8_chars s = Inr cs \<Longrightarrow> concat (map snd cs) = s \<and>
   (\<forall>(cp, t)\<in>set cs. t \<noteq> [] \<and> (\<forall>c\<in>set t. byte_of c < 0x80 \<longrightarrow> t = [c] \<and> cp = byte_of c))"
proof (induction s arbitrary: cs rule: utf8_chars.induct)
  case (2 ch rest)
  obtain len bits where l: "utf8_lead (byte_of ch) = Some (len, bits)" "len \<le> length (ch # rest)"
      "list_all is_tail (take (len - 1) rest)"
    using "2.prems" by (auto split: option.splits prod.splits if_splits simp: Let_def)
  let ?tails = "take (len - 1) rest"
  obtain cs' where c: "utf8_chars (drop (len - 1) rest) = Inr cs'"
      "cs = (foldl (\<lambda>cp c. cp * 64 + byte_of c mod 64) bits ?tails, ch # ?tails) # cs'"
    using "2.prems" l by (auto simp: bind_sum_Inr Let_def)
  have ih: "concat (map snd cs') = drop (len - 1) rest \<and>
      (\<forall>(cp, t)\<in>set cs'. t \<noteq> [] \<and> (\<forall>c\<in>set t. byte_of c < 0x80 \<longrightarrow> t = [c] \<and> cp = byte_of c))"
    by (rule "2.IH" [OF l(1) refl _ refl _ c(1)]) (use l in simp_all)
  have tails: "\<not> byte_of c < 0x80" if "c \<in> set ?tails" for c
    using l(3) that by (auto simp: list_all_iff is_tail_def)
  have lead: "len = 1 \<and> bits = byte_of ch" if "byte_of ch < 0x80"
    using l(1) that by (simp add: utf8_lead_def)
  have "ch # ?tails = [c] \<and> foldl (\<lambda>cp c. cp * 64 + byte_of c mod 64) bits ?tails = byte_of c"
    if "c \<in> set (ch # ?tails)" "byte_of c < 0x80" for c
  proof -
    have "c = ch" using that tails [of c] by auto
    with lead that show ?thesis by simp
  qed
  with ih c(2) show ?case by (auto simp del: foldl_Cons)
qed simp

definition no_line_end :: "string \<Rightarrow> bool" where
  "no_line_end s \<longleftrightarrow> CHR 0x0A \<notin> set s \<and> CHR 0x0D \<notin> set s"

lemma clean_word_iff: "clean_word w \<longleftrightarrow> w \<noteq> [] \<and> no_line_end w"
  by (auto simp: clean_word_def no_line_end_def)

lemma no_line_end_append [simp]: "no_line_end (s @ t) \<longleftrightarrow> no_line_end s \<and> no_line_end t" "no_line_end []"
  by (auto simp: no_line_end_def)

lemma kept_text:
  assumes "utf8_chars s = Inr cs" "(cp, t) \<in> set cs" "cp \<noteq> 10" "cp \<noteq> 13"
  shows "clean_word t"
proof -
  from utf8_chars_texts [OF assms(1)] assms(2)
  have "t \<noteq> []" "\<forall>c\<in>set t. byte_of c < 0x80 \<longrightarrow> cp = byte_of c" by auto
  moreover have "byte_of (CHR 0x0A) = 10" "byte_of (CHR 0x0D) = 13" by (simp_all add: byte_of_def)
  ultimately show ?thesis using assms(3,4) by (auto simp: clean_word_def)
qed

lemma not_line_end: "is_kept_char cp \<Longrightarrow> cp \<noteq> 10 \<and> cp \<noteq> 13" "is_cjk cp \<Longrightarrow> cp \<noteq> 10 \<and> cp \<noteq> 13"
  by (auto simp: is_kept_char_def is_ascii_alnum_def is_cjk_def is_kept_non_ascii_letter_or_number_def)

lemma clean_token_no_line_end: "clean_token s = Inr c \<Longrightarrow> no_line_end c"
proof -
  assume "clean_token s = Inr c"
  then obtain cs where u: "utf8_chars s = Inr cs" and c: "c = concat (map snd (filter (\<lambda>(cp, t). is_kept_char cp) cs))"
    by (auto simp: clean_token_def bind_sum_Inr)
  have "no_line_end t" if "(cp, t) \<in> set cs" "is_kept_char cp" for cp t
    using kept_text [OF u that(1)] not_line_end(1) [OF that(2)] by (simp add: clean_word_iff)
  then show ?thesis unfolding c by (auto simp: no_line_end_def)
qed

lemma split_chars_clean:
  "\<forall>(cp, t)\<in>set cs. clean_word t \<Longrightarrow> no_line_end buffer \<Longrightarrow> list_all clean_word out \<Longrightarrow> list_all clean_word (split_chars cs buffer out)"
  by (induction cs buffer out rule: split_chars.induct) (auto simp: clean_word_iff)

lemma split_segment_clean: "no_line_end s \<Longrightarrow> split_segment_with_chinese s = Inr ws \<Longrightarrow> list_all clean_word ws"
proof -
  assume s: "no_line_end s" and "split_segment_with_chinese s = Inr ws"
  then obtain cs where u: "utf8_chars s = Inr cs" and ws: "ws = split_chars cs [] []"
    by (auto simp: split_segment_with_chinese_def bind_sum_Inr)
  have "clean_word t" if "(cp, t) \<in> set cs" for cp t
  proof -
    have "s = concat (map snd cs)" "t \<noteq> []" using utf8_chars_texts [OF u] that by auto
    moreover have "set t \<subseteq> set (concat (map snd cs))" using that by force
    ultimately have "set t \<subseteq> set s" "t \<noteq> []" by simp_all
    with s show ?thesis by (auto simp: clean_word_def no_line_end_def)
  qed
  then show ?thesis unfolding ws by (intro split_chars_clean) auto
qed

lemma flush_segment_clean: "flush_segment s ws = Inr ws' \<Longrightarrow> list_all clean_word ws \<Longrightarrow> list_all clean_word ws'"
  using clean_token_no_line_end split_segment_clean
  by (fastforce simp: flush_segment_def bind_sum_Inr split: if_splits)

lemma space_loop_clean: "space_loop cs s ws = Inr ws' \<Longrightarrow> list_all clean_word ws \<Longrightarrow> list_all clean_word ws'"
  by (induction cs s ws arbitrary: ws' rule: space_loop.induct)
     (auto simp: bind_sum_Inr split: if_splits dest: flush_segment_clean)

lemma flush_latin_clean: "flush_latin s ws = Inr ws' \<Longrightarrow> list_all clean_word ws \<Longrightarrow> list_all clean_word ws'"
  using clean_token_no_line_end by (fastforce simp: flush_latin_def bind_sum_Inr clean_word_iff split: if_splits)

lemma chinese_loop_clean:
  "chinese_loop cs s ws = Inr ws' \<Longrightarrow> \<forall>(cp, t)\<in>set cs. is_cjk cp \<longrightarrow> clean_word t \<Longrightarrow> list_all clean_word ws \<Longrightarrow> list_all clean_word ws'"
proof (induction cs s ws arbitrary: ws' rule: chinese_loop.induct)
  case (1 latin words)
  then show ?case using flush_latin_clean by simp
next
  case (2 cp t cs latin words)
  then show ?case by (force simp: bind_sum_Inr split: if_splits dest: flush_latin_clean)
qed

lemma words_clean: "tokenize_alignable_words tx language = Inr ws \<Longrightarrow> list_all clean_word ws"
proof -
  assume t: "tokenize_alignable_words tx language = Inr ws"
  show ?thesis
  proof (cases "lower_ascii language = ''chinese'' \<or> lower_ascii language = ''cantonese''")
    case True
    with t obtain cs where u: "utf8_chars tx = Inr cs" and c: "chinese_loop cs [] [] = Inr ws"
      by (auto simp: tokenize_alignable_words_def tokenize_chinese_mixed_def bind_sum_Inr)
    have "\<forall>(cp, t)\<in>set cs. is_cjk cp \<longrightarrow> clean_word t" using kept_text [OF u] not_line_end(2) by blast
    from chinese_loop_clean [OF c this] show ?thesis by simp
  next
    case False
    with t obtain cs where "utf8_chars tx = Inr cs" "space_loop cs [] [] = Inr ws"
      by (auto simp: tokenize_alignable_words_def tokenize_space_language_def bind_sum_Inr)
    with space_loop_clean [of cs "[]" "[]" ws] show ?thesis by simp
  qed
qed

subsection \<open>Spans\<close>

text \<open>From \<open>t\<close> on, the words take time and do not overlap.\<close>

fun separated :: "int \<Rightarrow> word_timestamp list \<Rightarrow> bool" where
  "separated t [] \<longleftrightarrow> True"
| "separated t (w # ws) \<longleftrightarrow> t \<le> start_sample w \<and> start_sample w < end_sample w \<and> separated (end_sample w) ws"

lemma separate_words_separated: "0 < min_span \<Longrightarrow> separated t (separate_words min_span t ws)"
  by (induction min_span t ws rule: separate_words.induct) (auto simp: Let_def split: list.splits)

lemma separate_words_words: "map ts_word (separate_words min_span t ws) = map ts_word ws"
  by (induction min_span t ws rule: separate_words.induct) (auto simp: Let_def)

lemma separate_words_id: "separated t ws \<Longrightarrow> separate_words min_span t ws = ws"
  by (induction min_span t ws rule: separate_words.induct) (auto simp: Let_def max_def)

lemma span_words_words: "length ts = length ws * 2 \<Longrightarrow> map ts_word (span_words ws ts rate) = ws"
proof (induction ws arbitrary: ts)
  case Nil
  then show ?case by simp
next
  case (Cons w ws)
  then obtain s e ts' where "ts = s # e # ts'" by (cases ts; cases "tl ts") auto
  with Cons show ?case by simp
qed

lemma parse_timestamps_result:
  assumes "parse_timestamps segment_ms ws ids rate = Inr ts"
  shows "separated 0 ts \<and> map ts_word ts = ws"
proof -
  have "length (fix_timestamp (map (\<lambda>i. i * segment_ms) ids)) = length ws * 2"
    using fix_timestamp_result [of "map (\<lambda>i. i * segment_ms) ids"] assms by (auto simp: parse_timestamps_def split: if_splits)
  with assms show ?thesis
    by (auto simp: parse_timestamps_def separate_words_words span_words_words intro!: separate_words_separated split: if_splits)
qed

lemma separated_nth:
  "separated t ws \<Longrightarrow> i < length ws \<Longrightarrow>
   t \<le> start_sample (ws ! i) \<and> start_sample (ws ! i) < end_sample (ws ! i) \<and> (0 < i \<longrightarrow> end_sample (ws ! (i - 1)) \<le> start_sample (ws ! i))"
proof (induction t ws arbitrary: i rule: separated.induct)
  case (2 t w ws)
  show ?case
  proof (cases i)
    case (Suc i')
    with 2 show ?thesis by (cases i') (force+)
  qed (use 2 in simp)
qed simp

text \<open>Separated words with good texts pass the validation of the subtitles.\<close>

lemma block_loop_succeeds:
  assumes "separated 0 ws" "\<forall>w\<in>set ws. clean_word (ts_word w)"
  shows "prev = (if i = 0 then 0 else start_sample (ws ! (i - 1))) \<Longrightarrow> \<exists>blocks'. block_loop ws opts mb mg b i prev blocks = Inr blocks'"
proof (induction "length ws - i" arbitrary: i b prev blocks rule: less_induct)
  case less
  show ?case
  proof (cases "i < length ws")
    case False
    then show ?thesis by (simp add: block_loop.simps [of ws])
  next
    case True
    have c: "clean_word (ts_word (ws ! i))" using assms(2) True by simp
    have lf: "find_idx (\<lambda>c. c = CHR 0x0A) (ts_word (ws ! i)) = None" "find_idx (\<lambda>c. c = CHR 0x0D) (ts_word (ws ! i)) = None"
      using c by (auto simp: find_idx_None clean_word_def)
    have "prev \<le> start_sample (ws ! i)"
    proof (cases "i = 0")
      case False
      from True have "i - 1 < length ws" by simp
      from separated_nth [OF assms(1) this] separated_nth [OF assms(1) True] False less.prems show ?thesis by simp
    qed (use separated_nth [OF assms(1) True] less.prems in simp)
    then have v: "validate_word (ws ! i) prev = None"
      using separated_nth [OF assms(1) True] c lf by (simp add: validate_word_def clean_word_def)
    have go: "\<exists>blocks'. block_loop ws opts mb mg b' (i + 1) (start_sample (ws ! i)) bl = Inr blocks'" for b' bl
      by (rule less.hyps) (use True in simp_all)
    show ?thesis using True v go by (simp add: block_loop.simps [of ws opts mb mg b i])
  qed
qed

lemma aligned_subtitles:
  assumes "separated 0 ws" "\<forall>w\<in>set ws. clean_word (ts_word w)" "validate_options opts = None"
  shows "\<exists>blocks. build_subtitle_blocks ws opts = Inr blocks"
  using assms(3) block_loop_succeeds [OF assms(1,2), of 0 0] by (simp add: build_subtitle_blocks_def)

subsection \<open>Properties\<close>

text \<open>
  C19. The repair of predicted time stamps changes as little as it can: the result has the same length and is in order, the
  positions of a longest non-decreasing subsequence keep their values, and a prediction that is in order is left alone.
\<close>

theorem fix_timestamp_repairs:
  "length (fix_timestamp xs) = length xs \<and> sorted (fix_timestamp xs) \<and>
   (\<exists>keep. longest_kept xs keep \<and> (\<forall>i\<in>set keep. fix_timestamp xs ! i = xs ! i)) \<and>
   (sorted xs \<longrightarrow> fix_timestamp xs = xs)"
  using fix_timestamp_result [of xs] fix_timestamp_sorted_id by blast

theorem fix_timestamp_repairs_witness: "fix_timestamp [0, 80, 80, 240] = [0, 80, 80, 240]"
  using fix_timestamp_repairs [of "[0, 80, 80, 240]"] by simp

text \<open>
  C22. What the aligner returns can be shown: its time stamps are for exactly the words of the transcript, every word takes
  time, no word begins before the previous one has ended, and with valid options the subtitle builder accepts them, whatever
  the network predicted.
\<close>

theorem aligned_words_make_subtitles:
  assumes "run_align tokenizer classify timestamp_token segment_ms rate audio_tokens tx language = Inr (Some ts)"
    "validate_options opts = None"
  shows "tokenize_alignable_words tx language = Inr (map ts_word ts) \<and> separated 0 ts \<and>
    (\<exists>blocks. build_subtitle_blocks ts opts = Inr blocks)"
proof -
  from assms(1) obtain ids words positions where b: "build_prompt tokenizer timestamp_token tx language audio_tokens = Inr (ids, words, positions)"
      and p: "parse_timestamps segment_ms words (map (\<lambda>p. classify ids ! p) positions) rate = Inr ts"
    by (auto simp: run_align_def bind_sum_Inr Let_def split: if_splits)
  from b have w: "tokenize_alignable_words tx language = Inr words"
    by (auto simp: build_prompt_def bind_sum_Inr Let_def split: if_splits)
  from parse_timestamps_result [OF p] have r: "separated 0 ts" "map ts_word ts = words" by simp_all
  have "\<forall>t\<in>set ts. clean_word (ts_word t)" using words_clean [OF w] r(2) by (auto simp: list_all_iff)
  with aligned_subtitles [OF r(1) _ assms(2)] w r show ?thesis by simp
qed

definition align_demo :: "align_error + word_timestamp list option" where
  "align_demo = run_align (\<lambda>tx n. [7, 7, 7, 7]) (\<lambda>ids. [0, 3, 1, 4]) 7 80 16000 10 ''Hi, you'' ''en''"

lemma align_demo_words: "tokenize_alignable_words ''Hi, you'' ''en'' = Inr [''Hi'', ''you'']"
proof -
  have b: "byte_of CHR ''H'' = 72" "byte_of CHR ''i'' = 105" "byte_of CHR '','' = 44" "byte_of CHR '' '' = 32" "byte_of CHR ''y'' = 121"
      "byte_of CHR ''o'' = 111" "byte_of CHR ''u'' = 117" by (simp_all add: byte_of_def)
  have one: "utf8_chars (c # s) = bind_sum (utf8_chars s) (\<lambda>cs. Inr ((byte_of c, [c]) # cs))" if "byte_of c < 0x80" for c s
    using that by (simp add: utf8_lead_def)
  have k: "is_kept_char 72" "is_kept_char 105" "\<not> is_kept_char 44" "is_kept_char 121" "is_kept_char 111" "is_kept_char 117"
      "\<not> is_cjk 72" "\<not> is_cjk 105" "\<not> is_cjk 121" "\<not> is_cjk 111" "\<not> is_cjk 117"
    by (simp_all add: is_kept_char_def is_ascii_alnum_def is_cjk_def is_kept_non_ascii_letter_or_number_def)
  have "tokenize_alignable_words ''Hi, you'' ''en'' = tokenize_space_language ''Hi, you''"
    by (simp add: tokenize_alignable_words_def lower_ascii_def)
  also have "\<dots> = Inr [''Hi'', ''you'']"
    by (simp add: tokenize_space_language_def one b k flush_segment_def clean_token_def split_segment_with_chinese_def del: utf8_chars.simps(2))
  finally show ?thesis .
qed

lemma align_demo_result: "\<exists>ts. align_demo = Inr (Some ts)"
  by (simp add: align_demo_def run_align_def has_alignable_words_def build_prompt_def align_demo_words
      parse_timestamps_def Let_def)

theorem aligned_words_make_subtitles_witness:
  "\<exists>ts blocks. align_demo = Inr (Some ts) \<and> map ts_word ts = [''Hi'', ''you''] \<and> separated 0 ts \<and>
     build_subtitle_blocks ts demo_options = Inr blocks"
proof -
  obtain ts where t: "align_demo = Inr (Some ts)" using align_demo_result by blast
  have "validate_options demo_options = None" by (simp add: validate_options_def demo_options_def)
  from aligned_words_make_subtitles [OF t [unfolded align_demo_def] this] t align_demo_words show ?thesis by auto
qed

end
