(* ===== verification/Silero_VAD.thy ===== *)
theory Silero_VAD
  imports Audio_Spans
begin

text \<open>
  The Silero voice-activity detector (\<^verbatim>\<open>src/models/silero_vad/runtime.cpp\<close>, options from
  \<^verbatim>\<open>session.cpp\<close>): the chunk-wise run of the network over a recording, the decoder that turns the
  probabilities into speech segments, and the streaming detector.

  The network is the argument \<open>net\<close>: from the 576 input samples and the two state vectors to the
  probability and the new state vectors. Every call of the code has batch size 1, so the batch
  index is left out. Sample values are reals; probabilities and thresholds are \<^typ>\<open>c_float\<close>, so a
  comparison with a NaN is false, and \<open>rnd\<close> is the rounding of binary32 arithmetic. The products of
  32-bit integers and the cast of a float to \<^verbatim>\<open>int64_t\<close> that C++ leaves undefined outside the
  range of the type are the error \<open>Undefined_Arithmetic\<close>.
\<close>

subsection \<open>Floats\<close>

definition fl_ge :: "c_float \<Rightarrow> c_float \<Rightarrow> bool" where
  "fl_ge a b \<longleftrightarrow> fl_less b a \<or> a = b \<and> a \<noteq> NaN"

definition fl_max :: "c_float \<Rightarrow> c_float \<Rightarrow> c_float" where
  "fl_max a b = (if fl_less a b then b else a)"

fun fl_minus :: "(real \<Rightarrow> c_float) \<Rightarrow> c_float \<Rightarrow> real \<Rightarrow> c_float" where
  "fl_minus rnd (Finite a) b = rnd (a - b)"
| "fl_minus rnd x b = x"

fun fl_times_pos :: "(real \<Rightarrow> c_float) \<Rightarrow> real \<Rightarrow> c_float \<Rightarrow> c_float" where
  "fl_times_pos rnd a (Finite b) = rnd (a * b)"
| "fl_times_pos rnd a x = x"

definition truncate_real :: "real \<Rightarrow> int" where
  "truncate_real x = (if 0 \<le> x then \<lfloor>x\<rfloor> else \<lceil>x\<rceil>)"

fun fl_to_int64 :: "c_float \<Rightarrow> int option" where
  "fl_to_int64 (Finite x) = (if - (2 ^ 63) \<le> truncate_real x \<and> truncate_real x < 2 ^ 63 then Some (truncate_real x) else None)"
| "fl_to_int64 x = None"

text \<open>The binary32 values of the literals \<^verbatim>\<open>0.5f\<close>, \<^verbatim>\<open>0.15f\<close> and \<^verbatim>\<open>0.01f\<close>.\<close>

definition f_half :: real where "f_half = 1 / 2"
definition f_015 :: real where "f_015 = 10066330 / 2 ^ 26"
definition f_001 :: real where "f_001 = 10737418 / 2 ^ 30"

subsection \<open>Configuration\<close>

record silero_config =
  threshold :: c_float
  min_speech_duration_ms :: int
  min_silence_duration_ms :: int
  speech_pad_ms :: int
  max_speech_duration_s :: c_float
  neg_threshold :: c_float
  min_silence_at_max_speech_ms :: int
  use_max_poss_sil :: bool

definition default_config :: silero_config where
  "default_config = \<lparr>threshold = Finite f_half, min_speech_duration_ms = 250, min_silence_duration_ms = 100,
     speech_pad_ms = 30, max_speech_duration_s = Finite (10 ^ 9), neg_threshold = Finite (- 1),
     min_silence_at_max_speech_ms = 98, use_max_poss_sil = True\<rparr>"

definition set_option :: "option_error + 'v option \<Rightarrow> ('v \<Rightarrow> silero_config \<Rightarrow> silero_config) \<Rightarrow> silero_config \<Rightarrow>
    option_error + silero_config" where
  "set_option r upd c = bind_sum r (\<lambda>v. Inr (case v of None \<Rightarrow> c | Some x \<Rightarrow> upd x c))"

definition silero_config_from_options ::
  "(string \<Rightarrow> number_error + c_float \<times> nat) \<Rightarrow> options \<Rightarrow> silero_config option \<Rightarrow> option_error + silero_config" where
  "silero_config_from_options stof opts fallback =
     bind_sum (set_option (parse_float_option stof opts [''threshold'']) (\<lambda>v c. c\<lparr>threshold := v\<rparr>)
                 (case fallback of Some c \<Rightarrow> c | None \<Rightarrow> default_config)) (\<lambda>c.
     bind_sum (set_option (parse_int_option opts [''min_speech_duration_ms'']) (\<lambda>v c. c\<lparr>min_speech_duration_ms := v\<rparr>) c) (\<lambda>c.
     bind_sum (set_option (parse_int_option opts [''min_silence_duration_ms'']) (\<lambda>v c. c\<lparr>min_silence_duration_ms := v\<rparr>) c) (\<lambda>c.
     bind_sum (set_option (parse_int_option opts [''speech_pad_ms'']) (\<lambda>v c. c\<lparr>speech_pad_ms := v\<rparr>) c) (\<lambda>c.
     bind_sum (set_option (parse_float_option stof opts [''max_speech_duration_s'']) (\<lambda>v c. c\<lparr>max_speech_duration_s := v\<rparr>) c) (\<lambda>c.
     bind_sum (set_option (parse_float_option stof opts [''neg_threshold'']) (\<lambda>v c. c\<lparr>neg_threshold := v\<rparr>) c) (\<lambda>c.
     bind_sum (set_option (parse_int_option opts [''min_silence_at_max_speech_ms''])
                 (\<lambda>v c. c\<lparr>min_silence_at_max_speech_ms := v\<rparr>) c) (\<lambda>c.
     bind_sum (find_option opts [''use_max_poss_sil_at_max_speech'']) (\<lambda>value.
       case value of
         None \<Rightarrow> Inr c
       | Some s \<Rightarrow> bind_sum (parse_bool_option s ''use_max_poss_sil_at_max_speech'') (\<lambda>b. Inr (c\<lparr>use_max_poss_sil := b\<rparr>))))))))))"

subsection \<open>Errors and thresholds in samples\<close>

datatype vad_error =
  Only_16k | Chunk_Size_Mismatch | Waveform_Size_Mismatch | No_Positive_Rate | No_Positive_Channels | Not_Divisible
| Stream_Needs_Mono | Stream_Needs_Rate | Stream_Chunk_Size | Not_Contiguous | Undefined_Arithmetic

definition int_product :: "int \<Rightarrow> int \<Rightarrow> vad_error + int" where
  "int_product a b = (if - (2 ^ 31) \<le> a * b \<and> a * b < 2 ^ 31 then Inr (a * b) else Inl Undefined_Arithmetic)"

definition samples_of_ms :: "int \<Rightarrow> int \<Rightarrow> vad_error + int" where
  "samples_of_ms rate ms = bind_sum (int_product rate ms) (\<lambda>p. Inr (p sdiv 1000))"

definition neg_threshold_of :: "(real \<Rightarrow> c_float) \<Rightarrow> silero_config \<Rightarrow> c_float" where
  "neg_threshold_of rnd c =
     (if fl_less (neg_threshold c) (Finite 0) then fl_max (fl_minus rnd (threshold c) f_015) (Finite f_001)
      else neg_threshold c)"

record vad_limits =
  neg_thr :: c_float
  min_speech :: int
  speech_pad :: int
  max_speech :: int
  min_silence :: int
  min_silence_at_max :: int

definition vad_limits_of :: "(real \<Rightarrow> c_float) \<Rightarrow> int \<Rightarrow> silero_config \<Rightarrow> vad_error + vad_limits" where
  "vad_limits_of rnd rate c =
     bind_sum (samples_of_ms rate (min_speech_duration_ms c)) (\<lambda>minsp.
     bind_sum (samples_of_ms rate (speech_pad_ms c)) (\<lambda>pad.
     bind_sum (case fl_to_int64 (fl_times_pos rnd (real_of_int rate) (max_speech_duration_s c)) of
                 None \<Rightarrow> Inl Undefined_Arithmetic | Some n \<Rightarrow> Inr n) (\<lambda>maxs.
     bind_sum (samples_of_ms rate (min_silence_duration_ms c)) (\<lambda>minsil.
     bind_sum (samples_of_ms rate (min_silence_at_max_speech_ms c)) (\<lambda>atmax.
       Inr \<lparr>neg_thr = neg_threshold_of rnd c, min_speech = minsp, speech_pad = pad, max_speech = maxs - 512 - 2 * pad,
            min_silence = minsil, min_silence_at_max = atmax\<rparr>)))))"

subsection \<open>The offline decoder\<close>

record speech_timestamp =
  ts_start :: int
  ts_end :: int

record scan_state =
  triggered :: bool
  speeches :: "speech_timestamp list"
  current_start :: int
  temp_end :: int
  prev_end :: int
  next_start :: int
  possible_ends :: "(int \<times> int) list"

definition scan_init :: scan_state where
  "scan_init = \<lparr>triggered = False, speeches = [], current_start = 0, temp_end = 0, prev_end = 0, next_start = 0,
     possible_ends = []\<rparr>"

definition resume_speech :: "vad_limits \<Rightarrow> int \<Rightarrow> scan_state \<Rightarrow> scan_state" where
  "resume_speech lm cur st =
     (let d = cur - temp_end st;
          st1 = (if d > min_silence_at_max lm then st\<lparr>possible_ends := possible_ends st @ [(temp_end st, d)]\<rparr> else st);
          st2 = st1\<lparr>temp_end := 0\<rparr>
      in if next_start st2 < prev_end st2 then st2\<lparr>next_start := cur\<rparr> else st2)"

text \<open>\<^verbatim>\<open>std::max_element\<close> on the durations: the first of the longest.\<close>

fun best_silence :: "int \<times> int \<Rightarrow> (int \<times> int) list \<Rightarrow> int \<times> int" where
  "best_silence b [] = b"
| "best_silence b (x # xs) = best_silence (if snd b < snd x then x else b) xs"

text \<open>\<^verbatim>\<open>current.end = e; speeches.push_back(current); current = {};\<close>\<close>

definition close_at :: "int \<Rightarrow> scan_state \<Rightarrow> scan_state" where
  "close_at e st = st\<lparr>speeches := speeches st @ [\<lparr>ts_start = current_start st, ts_end = e\<rparr>], current_start := 0\<rparr>"

definition clear_marks :: "scan_state \<Rightarrow> scan_state" where
  "clear_marks st = st\<lparr>temp_end := 0, prev_end := 0, next_start := 0, possible_ends := []\<rparr>"

text \<open>The speech is longer than allowed; the flag is the \<^verbatim>\<open>continue\<close> of the last branch.\<close>

definition split_speech :: "bool \<Rightarrow> int \<Rightarrow> scan_state \<Rightarrow> scan_state \<times> bool" where
  "split_speech use_max cur st =
     (case (use_max, possible_ends st) of
        (True, p # ps) \<Rightarrow>
          (let (e, d) = best_silence p ps;
               st1 = close_at e st;
               st2 = (if e + d < e + cur then st1\<lparr>current_start := e + d\<rparr> else st1\<lparr>triggered := False\<rparr>)
           in (clear_marks st2, False))
      | _ \<Rightarrow>
          if prev_end st \<noteq> 0
          then (let st1 = close_at (prev_end st) st;
                    st2 = (if next_start st < prev_end st then st1\<lparr>triggered := False\<rparr>
                           else st1\<lparr>current_start := next_start st\<rparr>)
                in (clear_marks st2, False))
          else (clear_marks (close_at cur st)\<lparr>triggered := False\<rparr>, True))"

definition silent_chunk :: "vad_limits \<Rightarrow> bool \<Rightarrow> int \<Rightarrow> scan_state \<Rightarrow> scan_state" where
  "silent_chunk lm use_max cur st =
     (let st1 = (if temp_end st = 0 then st\<lparr>temp_end := cur\<rparr> else st);
          d = cur - temp_end st1;
          st2 = (if \<not> use_max \<and> d > min_silence_at_max lm then st1\<lparr>prev_end := temp_end st1\<rparr> else st1)
      in if d < min_silence lm then st2
         else let st3 = (if temp_end st2 - current_start st2 > min_speech lm then close_at (temp_end st2) st2
                         else st2\<lparr>current_start := 0\<rparr>)
              in clear_marks (st3\<lparr>triggered := False\<rparr>))"

definition scan_step :: "silero_config \<Rightarrow> vad_limits \<Rightarrow> int \<Rightarrow> c_float \<Rightarrow> scan_state \<Rightarrow> scan_state" where
  "scan_step cfg lm cur p st0 =
     (let st = (if fl_ge p (threshold cfg) \<and> temp_end st0 \<noteq> 0 then resume_speech lm cur st0 else st0) in
      if fl_ge p (threshold cfg) \<and> \<not> triggered st then st\<lparr>triggered := True, current_start := cur\<rparr>
      else
        let (st', skip) = (if triggered st \<and> cur - current_start st > max_speech lm
                           then split_speech (use_max_poss_sil cfg) cur st else (st, False))
        in if skip then st'
           else if fl_less p (neg_thr lm) \<and> triggered st' then silent_chunk lm (use_max_poss_sil cfg) cur st'
           else st')"

fun scan_loop :: "silero_config \<Rightarrow> vad_limits \<Rightarrow> nat \<Rightarrow> c_float list \<Rightarrow> scan_state \<Rightarrow> scan_state" where
  "scan_loop cfg lm i [] st = st"
| "scan_loop cfg lm i (p # ps) st = scan_loop cfg lm (Suc i) ps (scan_step cfg lm (int i * 512) p st)"

definition close_last :: "vad_limits \<Rightarrow> int \<Rightarrow> scan_state \<Rightarrow> speech_timestamp list" where
  "close_last lm samples st =
     (if triggered st \<and> samples - current_start st > min_speech lm
      then speeches st @ [\<lparr>ts_start = current_start st, ts_end = samples\<rparr>] else speeches st)"

fun pad_speeches :: "int \<Rightarrow> int \<Rightarrow> speech_timestamp list \<Rightarrow> speech_timestamp list" where
  "pad_speeches pad samples (a # b # ss) =
     (let silence = ts_start b - ts_end a in
      if silence < 2 * pad
      then a\<lparr>ts_end := ts_end a + silence sdiv 2\<rparr> # pad_speeches pad samples (b\<lparr>ts_start := max 0 (ts_start b - silence sdiv 2)\<rparr> # ss)
      else a\<lparr>ts_end := min samples (ts_end a + pad)\<rparr> # pad_speeches pad samples (b\<lparr>ts_start := max 0 (ts_start b - pad)\<rparr> # ss))"
| "pad_speeches pad samples [a] = [a\<lparr>ts_end := min samples (ts_end a + pad)\<rparr>]"
| "pad_speeches pad samples [] = []"

definition pad_all :: "int \<Rightarrow> int \<Rightarrow> speech_timestamp list \<Rightarrow> speech_timestamp list" where
  "pad_all pad samples ss =
     pad_speeches pad samples (case ss of [] \<Rightarrow> [] | a # ss' \<Rightarrow> a\<lparr>ts_start := max 0 (ts_start a - pad)\<rparr> # ss')"

definition decode_speech_timestamps ::
  "(real \<Rightarrow> c_float) \<Rightarrow> c_float list \<Rightarrow> int \<Rightarrow> int \<Rightarrow> silero_config \<Rightarrow> vad_error + speech_timestamp list" where
  "decode_speech_timestamps rnd probs samples rate cfg =
     bind_sum (vad_limits_of rnd rate cfg) (\<lambda>lm.
       Inr (pad_all (speech_pad lm) samples (close_last lm samples (scan_loop cfg lm 0 probs scan_init))))"

subsection \<open>The network over a recording\<close>

record silero_runtime =
  hidden :: "real list"
  cell :: "real list"
  context_samples :: "real list"
  last_sample_rate :: int
  rt_triggered :: bool
  rt_temp_end :: int
  current_sample :: int
  current_speech_start :: int
  streamed_segments :: "speech_timestamp list"

type_synonym silero_net = "real list \<Rightarrow> real list \<Rightarrow> real list \<Rightarrow> c_float \<times> real list \<times> real list"

definition reset_states :: "silero_runtime \<Rightarrow> silero_runtime" where
  "reset_states rt = rt\<lparr>hidden := replicate 128 0, cell := replicate 128 0, context_samples := replicate 64 0,
     last_sample_rate := 0\<rparr>"

definition reset_runtime :: "silero_runtime \<Rightarrow> silero_runtime" where
  "reset_runtime rt = (reset_states rt)\<lparr>rt_triggered := False, rt_temp_end := 0, current_sample := 0,
     current_speech_start := 0, streamed_segments := []\<rparr>"

definition ensure_state :: "int \<Rightarrow> silero_runtime \<Rightarrow> vad_error + silero_runtime" where
  "ensure_state rate rt =
     (if rate \<noteq> 16000 then Inl Only_16k
      else Inr ((if last_sample_rate rt \<noteq> rate \<or> hidden rt = [] then reset_states rt else rt)\<lparr>last_sample_rate := rate\<rparr>))"

definition prepare_runtime :: "int \<Rightarrow> silero_runtime \<Rightarrow> vad_error + silero_runtime" where
  "prepare_runtime rate rt = ensure_state rate rt"

definition infer_chunk :: "silero_net \<Rightarrow> real list \<Rightarrow> int \<Rightarrow> silero_runtime \<Rightarrow> vad_error + c_float \<times> silero_runtime" where
  "infer_chunk net chunk rate rt =
     (if length chunk \<noteq> 512 then Inl Chunk_Size_Mismatch
      else bind_sum (ensure_state rate rt) (\<lambda>rt1.
        let (p, h, c) = net (take 64 (context_samples rt1) @ chunk) (hidden rt1) (cell rt1)
        in Inr (p, rt1\<lparr>hidden := h, cell := c, context_samples := drop (512 - 64) chunk\<rparr>)))"

text \<open>The loop over the \<open>n\<close> chunks from number \<open>i\<close> on.\<close>

fun forward_loop :: "silero_net \<Rightarrow> int \<Rightarrow> real list \<Rightarrow> nat \<Rightarrow> nat \<Rightarrow> silero_runtime \<Rightarrow>
    vad_error + c_float list \<times> silero_runtime" where
  "forward_loop net rate xs i 0 rt = Inr ([], rt)"
| "forward_loop net rate xs i (Suc n) rt =
     bind_sum (infer_chunk net (take 512 (drop (i * 512) xs)) rate rt) (\<lambda>(p, rt1).
     bind_sum (forward_loop net rate xs (Suc i) n rt1) (\<lambda>(ps, rt2). Inr (p # ps, rt2)))"

definition chunk_count :: "nat \<Rightarrow> nat" where
  "chunk_count samples = (samples + 512 - 1) div 512"

definition pad_waveform :: "real list \<Rightarrow> real list" where
  "pad_waveform xs = xs @ replicate (chunk_count (length xs) * 512 - length xs) 0"

definition audio_forward :: "silero_net \<Rightarrow> real list \<Rightarrow> int \<Rightarrow> silero_runtime \<Rightarrow> vad_error + c_float list \<times> silero_runtime" where
  "audio_forward net xs rate rt =
     (if rate \<noteq> 16000 then Inl Only_16k
      else forward_loop net rate (pad_waveform xs) 0 (chunk_count (length xs)) ((reset_states rt)\<lparr>last_sample_rate := rate\<rparr>))"

text \<open>The confidence of a segment is its payload; its text is empty.\<close>

definition as_segment :: "c_float \<Rightarrow> speech_timestamp \<Rightarrow> c_float spanned" where
  "as_segment conf t = \<lparr>span_of = \<lparr>span_start = ts_start t, span_end = ts_end t\<rparr>, payload = conf\<rparr>"

definition build_offline_result ::
  "(real \<Rightarrow> c_float) \<Rightarrow> silero_net \<Rightarrow> real list \<Rightarrow> int \<Rightarrow> silero_config \<Rightarrow> silero_runtime \<Rightarrow>
   vad_error + c_float spanned list \<times> silero_runtime" where
  "build_offline_result rnd net xs rate cfg rt =
     bind_sum (audio_forward net xs rate rt) (\<lambda>(probs, rt1).
     bind_sum (decode_speech_timestamps rnd probs (int (length xs)) rate cfg) (\<lambda>ts.
       Inr (map (as_segment (Finite 1)) ts, rt1)))"

text \<open>\<open>mix\<close> is the average of the channels of a frame, rounded as the code rounds it.\<close>

fun frames_of :: "nat \<Rightarrow> nat \<Rightarrow> real list \<Rightarrow> real list list" where
  "frames_of c 0 xs = []"
| "frames_of c (Suc n) xs = take c xs # frames_of c n (drop c xs)"

definition mixdown_to_mono :: "(real list \<Rightarrow> real) \<Rightarrow> real list \<Rightarrow> int \<Rightarrow> vad_error + real list" where
  "mixdown_to_mono mix xs channels =
     (if channels \<le> 0 then Inl No_Positive_Channels
      else if length xs mod nat channels \<noteq> 0 then Inl Not_Divisible
      else if channels = 1 then Inr xs
      else Inr (map mix (frames_of (nat channels) (length xs div nat channels) xs)))"

definition require_mono_audio :: "(real list \<Rightarrow> real) \<Rightarrow> audio_buffer \<Rightarrow> vad_error + real list" where
  "require_mono_audio mix a =
     (if buf_sample_rate a \<le> 0 then Inl No_Positive_Rate
      else if buf_channels a \<le> 0 then Inl No_Positive_Channels
      else if buf_channels a = 1 then Inr (buf_samples a)
      else mixdown_to_mono mix (buf_samples a) (buf_channels a))"

definition run_offline_vad ::
  "(real \<Rightarrow> c_float) \<Rightarrow> silero_net \<Rightarrow> (real list \<Rightarrow> real) \<Rightarrow> audio_buffer \<Rightarrow> silero_config \<Rightarrow> silero_runtime \<Rightarrow>
   vad_error + c_float spanned list \<times> silero_runtime" where
  "run_offline_vad rnd net mix a cfg rt =
     bind_sum (require_mono_audio mix a) (\<lambda>xs. build_offline_result rnd net xs (buf_sample_rate a) cfg rt)"

subsection \<open>The streaming detector\<close>

datatype activity_kind = Speech_Start | Speech_End | Speech_Segment

record activity_event =
  ev_kind :: activity_kind
  ev_sample :: int
  ev_probability :: c_float
  ev_segment :: "c_float spanned option"

record stream_audio_chunk =
  sc_rate :: int
  sc_channels :: int
  sc_start :: int
  sc_samples :: "real list"

definition build_stream_event ::
  "(real \<Rightarrow> c_float) \<Rightarrow> c_float \<Rightarrow> silero_config \<Rightarrow> int \<Rightarrow> silero_runtime \<Rightarrow> vad_error + activity_event list \<times> silero_runtime" where
  "build_stream_event rnd p cfg start rt0 =
     bind_sum (samples_of_ms 16000 (speech_pad_ms cfg)) (\<lambda>pad.
     bind_sum (samples_of_ms 16000 (min_silence_duration_ms cfg)) (\<lambda>minsil.
       let neg = neg_threshold_of rnd cfg;
           rt = (if fl_ge p (threshold cfg) \<and> rt_temp_end rt0 \<noteq> 0 then rt0\<lparr>rt_temp_end := 0\<rparr> else rt0)
       in if fl_ge p (threshold cfg) \<and> \<not> rt_triggered rt
          then let s = max 0 (start - pad)
               in Inr ([\<lparr>ev_kind = Speech_Start, ev_sample = s, ev_probability = p, ev_segment = None\<rparr>],
                       rt\<lparr>rt_triggered := True, current_speech_start := s\<rparr>)
          else if fl_less p neg \<and> rt_triggered rt
          then let rt1 = (if rt_temp_end rt = 0 then rt\<lparr>rt_temp_end := start + 512\<rparr> else rt)
               in if start + 512 - rt_temp_end rt1 < minsil then Inr ([], rt1)
                  else let e = rt_temp_end rt1 + pad - 512;
                           seg = \<lparr>ts_start = current_speech_start rt1, ts_end = max (current_speech_start rt1) e\<rparr>
                       in Inr ([\<lparr>ev_kind = Speech_End, ev_sample = e, ev_probability = p, ev_segment = Some (as_segment p seg)\<rparr>],
                               rt1\<lparr>rt_triggered := False, rt_temp_end := 0, current_speech_start := 0,
                                   streamed_segments := streamed_segments rt1 @ [seg]\<rparr>)
          else Inr ([], rt)))"

definition process_chunk ::
  "(real \<Rightarrow> c_float) \<Rightarrow> silero_net \<Rightarrow> silero_config \<Rightarrow> stream_audio_chunk \<Rightarrow> silero_runtime \<Rightarrow>
   vad_error + activity_event list \<times> silero_runtime" where
  "process_chunk rnd net cfg ch rt =
     (if sc_channels ch \<noteq> 1 then Inl Stream_Needs_Mono
      else if sc_rate ch \<le> 0 then Inl Stream_Needs_Rate
      else if length (sc_samples ch) \<noteq> 512 then Inl Stream_Chunk_Size
      else if current_sample rt \<noteq> 0 \<and> sc_start ch \<noteq> current_sample rt then Inl Not_Contiguous
      else bind_sum (infer_chunk net (sc_samples ch) (sc_rate ch) rt) (\<lambda>(p, rt1).
           bind_sum (build_stream_event rnd p cfg (sc_start ch) rt1) (\<lambda>(ev, rt2).
             Inr (ev, rt2\<lparr>current_sample := sc_start ch + int (length (sc_samples ch))\<rparr>))))"

text \<open>Here the product is taken in 64 bits.\<close>

definition finalize_stream :: "silero_config \<Rightarrow> silero_runtime \<Rightarrow> c_float spanned list" where
  "finalize_stream cfg rt =
     map (as_segment (threshold cfg)) (streamed_segments rt) @
     (if rt_triggered rt \<and> current_sample rt - current_speech_start rt > (16000 * min_speech_duration_ms cfg) sdiv 1000
      then [as_segment (threshold cfg) \<lparr>ts_start = current_speech_start rt, ts_end = current_sample rt\<rparr>] else [])"

text \<open>A client that sends chunks one after the other, collecting the events.\<close>

fun stream_chunks ::
  "(real \<Rightarrow> c_float) \<Rightarrow> silero_net \<Rightarrow> silero_config \<Rightarrow> stream_audio_chunk list \<Rightarrow> silero_runtime \<Rightarrow>
   vad_error + activity_event list \<times> silero_runtime" where
  "stream_chunks rnd net cfg [] rt = Inr ([], rt)"
| "stream_chunks rnd net cfg (c # cs) rt =
     bind_sum (process_chunk rnd net cfg c rt) (\<lambda>(ev, rt1).
     bind_sum (stream_chunks rnd net cfg cs rt1) (\<lambda>(evs, rt2). Inr (ev @ evs, rt2)))"

definition detect_speech ::
  "(real \<Rightarrow> c_float) \<Rightarrow> silero_net \<Rightarrow> (real list \<Rightarrow> real) \<Rightarrow> silero_config \<Rightarrow> silero_runtime \<Rightarrow> audio_buffer \<Rightarrow>
   vad_error + c_float spanned list" where
  "detect_speech rnd net mix cfg rt a =
     bind_sum (prepare_runtime (if buf_sample_rate a > 0 then buf_sample_rate a else 16000) rt) (\<lambda>rt1.
     bind_sum (run_offline_vad rnd net mix a cfg rt1) (\<lambda>(segs, _). Inr segs))"

subsection \<open>The decoder keeps its segments in order\<close>

text \<open>\<open>ordered_from a ss b\<close>: non-empty segments between \<open>a\<close> and \<open>b\<close> that follow each other.\<close>

fun ordered_from :: "int \<Rightarrow> speech_timestamp list \<Rightarrow> int \<Rightarrow> bool" where
  "ordered_from a [] b \<longleftrightarrow> a \<le> b"
| "ordered_from a (s # ss) b \<longleftrightarrow> a \<le> ts_start s \<and> ts_start s < ts_end s \<and> ordered_from (ts_end s) ss b"

lemma ordered_from_le: "ordered_from a ss b \<Longrightarrow> a \<le> b"
  by (induction ss arbitrary: a) fastforce+

lemma ordered_from_mono: "ordered_from a ss b \<Longrightarrow> b \<le> c \<Longrightarrow> ordered_from a ss c"
  by (induction ss arbitrary: a) auto

lemma ordered_from_snoc [simp]:
  "ordered_from a (ss @ [t]) b \<longleftrightarrow> ordered_from a ss (ts_start t) \<and> ts_start t < ts_end t \<and> ts_end t \<le> b"
  by (induction ss arbitrary: a) auto

definition scan_ok :: "int \<Rightarrow> scan_state \<Rightarrow> bool" where
  "scan_ok c st \<longleftrightarrow>
     ordered_from 0 (speeches st) (if triggered st then current_start st else max 0 c) \<and>
     (if triggered st then current_start st \<le> c
      else temp_end st = 0 \<and> prev_end st = 0 \<and> next_start st = 0 \<and> possible_ends st = []) \<and>
     (temp_end st \<noteq> 0 \<longrightarrow> current_start st < temp_end st \<and> temp_end st \<le> c) \<and>
     (prev_end st \<noteq> 0 \<longrightarrow> current_start st < prev_end st \<and> prev_end st \<le> c) \<and>
     next_start st \<le> max 0 c \<and>
     (\<forall>(e, d)\<in>set (possible_ends st). current_start st < e \<and> 0 \<le> d \<and> e + d \<le> c)"

lemma scan_ok_triggered: "scan_ok c st \<Longrightarrow> triggered st \<Longrightarrow> 0 \<le> current_start st \<and> current_start st \<le> c"
  by (auto simp: scan_ok_def dest: ordered_from_le)

lemma scan_ok_mono: "scan_ok c st \<Longrightarrow> c \<le> c' \<Longrightarrow> scan_ok c' st"
  by (fastforce simp: scan_ok_def elim: ordered_from_mono)

lemma scan_ok_init: "scan_ok c scan_init"
  by (simp add: scan_ok_def scan_init_def)

lemma scan_ok_idle: "scan_ok c st \<Longrightarrow> \<not> triggered st \<Longrightarrow> temp_end st = 0"
  by (simp add: scan_ok_def)

lemma best_silence_in: "best_silence b xs \<in> set (b # xs)"
  by (induction xs arbitrary: b) (fastforce simp: Let_def)+

lemma resume_ok:
  assumes "scan_ok c st" "c < cur" "temp_end st \<noteq> 0"
  shows "scan_ok cur (resume_speech lm cur st) \<and> triggered (resume_speech lm cur st)
    \<and> current_start (resume_speech lm cur st) = current_start st"
proof -
  have t: "triggered st" using assms(1,3) scan_ok_idle by blast
  then have "0 \<le> current_start st" "current_start st \<le> c" using assms(1) scan_ok_triggered by blast+
  with assms t show ?thesis by (fastforce simp: scan_ok_def resume_speech_def Let_def)
qed

lemma split_ok:
  assumes ok: "scan_ok c st" and "c \<le> cur" "triggered st" "current_start st < cur"
  shows "scan_ok cur (fst (split_speech m cur st)) \<and>
    (triggered (fst (split_speech m cur st)) \<longrightarrow> current_start (fst (split_speech m cur st)) \<le> c)"
proof -
  have pos: "0 \<le> current_start st" "current_start st \<le> c" using ok assms(3) scan_ok_triggered by blast+
  have ord: "ordered_from 0 (speeches st) (current_start st)" using ok assms(3) by (simp add: scan_ok_def)
  consider (best) p ps where "m" "possible_ends st = p # ps" | (prev) "\<not> m \<or> possible_ends st = []" "prev_end st \<noteq> 0"
    | (hard) "\<not> m \<or> possible_ends st = []" "prev_end st = 0" by (cases m; cases "possible_ends st") auto
  then show ?thesis
  proof cases
    case best
    obtain e d where ed: "best_silence p ps = (e, d)" by fastforce
    then have "(e, d) \<in> set (possible_ends st)" using best_silence_in [of p ps] best(2) by simp
    with ok have "current_start st < e" "0 \<le> d" "e + d \<le> c" by (auto simp: scan_ok_def)
    with best ed ord pos assms(2) show ?thesis
      by (auto simp: split_speech_def scan_ok_def close_at_def clear_marks_def Let_def)
  next
    case prev
    have "current_start st < prev_end st" "prev_end st \<le> c" "next_start st \<le> max 0 c" using ok prev(2) by (auto simp: scan_ok_def)
    with prev ord pos assms(2) show ?thesis
      by (cases "m"; cases "possible_ends st") (auto simp: split_speech_def scan_ok_def close_at_def clear_marks_def Let_def)
  next
    case hard
    with ord pos assms(2,4) show ?thesis
      by (cases "m"; cases "possible_ends st") (auto simp: split_speech_def scan_ok_def close_at_def clear_marks_def Let_def)
  qed
qed

lemma silence_closes_ok:
  assumes "ordered_from 0 (speeches st) (current_start st)" "current_start st < temp_end st" "temp_end st \<le> c"
  shows "scan_ok c (clear_marks ((if temp_end st - current_start st > n then close_at (temp_end st) st
    else st\<lparr>current_start := 0\<rparr>)\<lparr>triggered := False\<rparr>))"
  using assms by (auto simp: scan_ok_def close_at_def clear_marks_def elim: ordered_from_mono)

lemma silent_ok:
  assumes ok: "scan_ok cur st" and "triggered st" "current_start st < cur"
  shows "scan_ok cur (silent_chunk lm m cur st)"
proof -
  define st1 where "st1 = (if temp_end st = 0 then st\<lparr>temp_end := cur\<rparr> else st)"
  define st2 where "st2 = (if \<not> m \<and> cur - temp_end st1 > min_silence_at_max lm then st1\<lparr>prev_end := temp_end st1\<rparr> else st1)"
  have ord: "ordered_from 0 (speeches st2) (current_start st2)"
    using ok assms(2) by (auto simp: scan_ok_def st1_def st2_def)
  have t: "current_start st1 < temp_end st1" "temp_end st1 \<le> cur" using ok assms(3) by (auto simp: scan_ok_def st1_def)
  have "scan_ok cur st1" using ok assms by (auto simp: scan_ok_def st1_def)
  then have ok2: "scan_ok cur st2" using t by (auto simp: scan_ok_def st2_def)
  have "current_start st2 < temp_end st2" "temp_end st2 \<le> cur" using t by (simp_all add: st2_def)
  with ok2 silence_closes_ok [OF ord] show ?thesis
    unfolding silent_chunk_def Let_def st1_def [symmetric] st2_def [symmetric] by simp
qed

lemma scan_step_ok:
  assumes ok: "scan_ok c st" and c: "c < cur" "0 \<le> cur" and hyst: "\<not> (fl_ge p (threshold cfg) \<and> fl_less p (neg_thr lm))"
  shows "scan_ok cur (scan_step cfg lm cur p st)"
proof -
  let ?sp = "fl_ge p (threshold cfg)"
  define st1 where "st1 = (if ?sp \<and> temp_end st \<noteq> 0 then resume_speech lm cur st else st)"
  have ok1: "scan_ok cur st1" using ok c resume_ok [OF ok c(1)] scan_ok_mono [OF ok, of cur] by (auto simp: st1_def)
  have ok1': "scan_ok c st1" if "\<not> ?sp" using ok that by (simp add: st1_def)
  have start: "triggered st1 \<Longrightarrow> current_start st1 < cur"
  proof -
    have "current_start st < cur" if "triggered st" using scan_ok_triggered [OF ok that] c by linarith
    moreover have "triggered st" if "temp_end st \<noteq> 0" using scan_ok_idle [OF ok] that by blast
    ultimately show "triggered st1 \<Longrightarrow> current_start st1 < cur"
      using resume_ok [OF ok c(1)] by (auto simp: st1_def split: if_splits)
  qed
  show ?thesis
  proof (cases "?sp \<and> \<not> triggered st1")
    case True
    with ok1 c(2) have "scan_ok cur (st1\<lparr>triggered := True, current_start := cur\<rparr>)" by (auto simp: scan_ok_def)
    with True show ?thesis unfolding scan_step_def st1_def [symmetric] Let_def by simp
  next
    case False
    define q where "q = (if triggered st1 \<and> cur - current_start st1 > max_speech lm
      then split_speech (use_max_poss_sil cfg) cur st1 else (st1, False))"
    obtain st2 skip where q: "q = (st2, skip)" by fastforce
    have ok2: "scan_ok cur st2"
      using q ok1 split_ok [OF ok1 order_refl, of "use_max_poss_sil cfg"] start by (auto simp: q_def split: if_splits)
    have st2: "current_start st2 < cur" if "\<not> ?sp" "triggered st2"
      using that q split_ok [OF ok1' [OF that(1)], of cur "use_max_poss_sil cfg"] start c by (auto simp: q_def split: if_splits)
    have "scan_step cfg lm cur p st = (if skip then st2
        else if fl_less p (neg_thr lm) \<and> triggered st2 then silent_chunk lm (use_max_poss_sil cfg) cur st2 else st2)"
      unfolding scan_step_def st1_def [symmetric] Let_def q_def [symmetric] if_not_P [OF False] q by simp
    with ok2 st2 silent_ok hyst show ?thesis by (auto split: if_splits)
  qed
qed

lemma scan_loop_ok:
  assumes "scan_ok (int i * 512 - 512) st" "\<forall>p\<in>set ps. \<not> (fl_ge p (threshold cfg) \<and> fl_less p (neg_thr lm))"
  shows "scan_ok (int (i + length ps) * 512 - 512) (scan_loop cfg lm i ps st)"
  using assms
proof (induction ps arbitrary: i st)
  case (Cons p ps)
  have "scan_ok (int i * 512) (scan_step cfg lm (int i * 512) p st)"
    using scan_step_ok [OF Cons.prems(1)] Cons.prems(2) by simp
  then have "scan_ok (int (Suc i) * 512 - 512) (scan_step cfg lm (int i * 512) p st)" by (simp add: algebra_simps)
  from Cons.IH [OF this] Cons.prems(2) show ?case by simp
qed simp

lemma close_last_ordered:
  assumes ok: "scan_ok c st" and "c < samples" "0 \<le> samples" "0 \<le> min_speech lm"
  shows "ordered_from 0 (close_last lm samples st) samples"
proof (cases "triggered st")
  case True
  then have "ordered_from 0 (speeches st) (current_start st)" "current_start st \<le> c" using ok by (simp_all add: scan_ok_def)
  with True assms(2-4) show ?thesis by (auto simp: close_last_def elim: ordered_from_mono)
next
  case False
  then have "ordered_from 0 (speeches st) (max 0 c)" using ok by (simp add: scan_ok_def)
  with False assms(2,3) show ?thesis by (auto simp: close_last_def elim: ordered_from_mono)
qed

lemma sdiv_two: "0 \<le> s \<Longrightarrow> s sdiv 2 = s div (2 :: int)"
  by (rule c_div_nonneg) simp_all

lemma pad_speeches_ordered:
  "ordered_from s ss samples \<Longrightarrow> 0 \<le> s \<Longrightarrow> 0 \<le> pad \<Longrightarrow> ordered_from s (pad_speeches pad samples ss) samples"
proof (induction pad samples ss arbitrary: s rule: pad_speeches.induct)
  case (1 pad samples a b ss)
  let ?d = "(ts_start b - ts_end a) sdiv 2"
  have len: "0 \<le> ts_start b - ts_end a" "0 \<le> ts_end a" "ts_start b < ts_end b" "ts_end b \<le> samples"
    using 1(3,4) ordered_from_le by fastforce+
  then have d: "0 \<le> ?d" "ts_end a + ?d \<le> ts_start b - ?d" by (simp_all add: sdiv_two)
  show ?case
  proof (cases "ts_start b - ts_end a < 2 * pad")
    case True
    have "ordered_from (ts_end a + ?d) (b\<lparr>ts_start := max 0 (ts_start b - ?d)\<rparr> # ss) samples"
      using 1(3) len d by (auto simp: max_def)
    with 1(1) [OF refl True] 1(3,5) d len True show ?thesis by (simp add: Let_def)
  next
    case False
    have "ordered_from (min samples (ts_end a + pad)) (b\<lparr>ts_start := max 0 (ts_start b - pad)\<rparr> # ss) samples"
      using 1(3,5) len False by (auto simp: max_def min_def)
    with 1(2) [OF refl False] 1(3,5) len False show ?thesis by (simp add: Let_def)
  qed
qed auto

definition ts_inside :: "speech_timestamp \<Rightarrow> speech_timestamp \<Rightarrow> bool" where
  "ts_inside r t \<longleftrightarrow> ts_start t \<le> ts_start r \<and> ts_end r \<le> ts_end t"

lemma pad_speeches_cover:
  "ordered_from s ss samples \<Longrightarrow> 0 \<le> s \<Longrightarrow> 0 \<le> pad \<Longrightarrow> list_all2 ts_inside ss (pad_speeches pad samples ss)"
proof (induction pad samples ss arbitrary: s rule: pad_speeches.induct)
  case (1 pad samples a b ss)
  let ?d = "(ts_start b - ts_end a) sdiv 2"
  have len: "0 \<le> ts_start b - ts_end a" "0 \<le> ts_end a" "ts_start b < ts_end b" "ts_end b \<le> samples"
    using 1(3,4) ordered_from_le by fastforce+
  then have d: "0 \<le> ?d" "ts_end a + ?d \<le> ts_start b - ?d" by (simp_all add: sdiv_two)
  have trans: "list_all2 ts_inside (b\<lparr>ts_start := x\<rparr> # ss) ts \<Longrightarrow> x \<le> ts_start b \<Longrightarrow> list_all2 ts_inside (b # ss) ts" for x ts
    by (auto simp: list_all2_Cons1 ts_inside_def)
  show ?case
  proof (cases "ts_start b - ts_end a < 2 * pad")
    case True
    have "ordered_from (ts_end a + ?d) (b\<lparr>ts_start := max 0 (ts_start b - ?d)\<rparr> # ss) samples"
      using 1(3) len d by (auto simp: max_def)
    from 1(1) [OF refl True this] 1(5) len d have "list_all2 ts_inside (b # ss)
        (pad_speeches pad samples (b\<lparr>ts_start := max 0 (ts_start b - ?d)\<rparr> # ss))"
      by (intro trans [of "max 0 (ts_start b - ?d)"]) simp_all
    moreover have "ts_inside a (a\<lparr>ts_end := ts_end a + ?d\<rparr>)" using d by (simp add: ts_inside_def)
    ultimately show ?thesis using True by (simp add: Let_def)
  next
    case False
    have "ordered_from (min samples (ts_end a + pad)) (b\<lparr>ts_start := max 0 (ts_start b - pad)\<rparr> # ss) samples"
      using 1(3,5) len False by (auto simp: max_def min_def)
    from 1(2) [OF refl False this] 1(5) len have "list_all2 ts_inside (b # ss)
        (pad_speeches pad samples (b\<lparr>ts_start := max 0 (ts_start b - pad)\<rparr> # ss))"
      by (intro trans [of "max 0 (ts_start b - pad)"]) simp_all
    moreover have "ts_inside a (a\<lparr>ts_end := min samples (ts_end a + pad)\<rparr>)" using 1(5) len by (simp add: ts_inside_def)
    ultimately show ?thesis using False by (simp add: Let_def)
  qed
qed (auto simp: ts_inside_def)

lemma pad_all_ordered:
  assumes "ordered_from 0 ss samples" "0 \<le> pad"
  shows "ordered_from 0 (pad_all pad samples ss) samples \<and> list_all2 ts_inside ss (pad_all pad samples ss)"
proof (cases ss)
  case (Cons a ss')
  have "ordered_from 0 (a\<lparr>ts_start := max 0 (ts_start a - pad)\<rparr> # ss') samples" using assms Cons by (auto simp: max_def)
  from pad_speeches_ordered [OF this _ assms(2)] pad_speeches_cover [OF this _ assms(2)] Cons assms
  show ?thesis by (auto simp: pad_all_def list_all2_Cons1 ts_inside_def max_def split: if_splits)
qed (use assms in \<open>simp add: pad_all_def\<close>)

lemma hysteresis: "\<not> fl_less t n \<Longrightarrow> \<not> (fl_ge p t \<and> fl_less p n)"
  by (cases t; cases n; cases p) (auto simp: fl_ge_def)

lemma samples_of_ms_nonneg: "samples_of_ms 16000 ms = Inr n \<Longrightarrow> 0 \<le> ms \<Longrightarrow> 0 \<le> n"
  by (auto simp: samples_of_ms_def int_product_def bind_sum_def c_div_nonneg split: if_splits)

lemma vad_limits_nonneg:
  "vad_limits_of rnd 16000 cfg = Inr lm \<Longrightarrow> neg_thr lm = neg_threshold_of rnd cfg"
  "vad_limits_of rnd 16000 cfg = Inr lm \<Longrightarrow> 0 \<le> min_speech_duration_ms cfg \<Longrightarrow> 0 \<le> min_speech lm"
  "vad_limits_of rnd 16000 cfg = Inr lm \<Longrightarrow> 0 \<le> speech_pad_ms cfg \<Longrightarrow> 0 \<le> speech_pad lm"
  using samples_of_ms_nonneg by (auto simp: vad_limits_of_def bind_sum_def split: sum.splits option.splits)

lemma decode_ordered:
  assumes lm: "vad_limits_of rnd 16000 cfg = Inr lm" and cfg: "0 \<le> min_speech_duration_ms cfg" "0 \<le> speech_pad_ms cfg"
    "\<not> fl_less (threshold cfg) (neg_threshold_of rnd cfg)" and n: "int (length ps) * 512 - 512 < samples" "0 \<le> samples"
  shows "\<exists>ts. decode_speech_timestamps rnd ps samples 16000 cfg = Inr ts \<and> ordered_from 0 ts samples \<and>
    list_all2 ts_inside (close_last lm samples (scan_loop cfg lm 0 ps scan_init)) ts"
proof -
  have "scan_ok (int (0 + length ps) * 512 - 512) (scan_loop cfg lm 0 ps scan_init)"
    by (rule scan_loop_ok [OF scan_ok_init]) (use hysteresis [OF cfg(3)] vad_limits_nonneg(1) [OF lm] in simp)
  then have "ordered_from 0 (close_last lm samples (scan_loop cfg lm 0 ps scan_init)) samples"
    by (rule close_last_ordered) (use n vad_limits_nonneg(2) [OF lm cfg(1)] in auto)
  from pad_all_ordered [OF this vad_limits_nonneg(3) [OF lm cfg(2)]] show ?thesis
    by (simp add: decode_speech_timestamps_def lm bind_sum_def)
qed

lemma chunk_count_bounds: "samples \<le> chunk_count samples * 512" "chunk_count samples * 512 < samples + 512"
  unfolding chunk_count_def by linarith+

lemma pad_waveform_length: "length (pad_waveform xs) = chunk_count (length xs) * 512"
  using chunk_count_bounds(1) [of "length xs"] by (simp add: pad_waveform_def)

lemma infer_chunk_returns: "length chunk = 512 \<Longrightarrow> \<exists>p rt1. infer_chunk net chunk 16000 rt = Inr (p, rt1)"
  by (simp add: infer_chunk_def ensure_state_def bind_sum_def Let_def split_beta)

lemma forward_loop_returns:
  "(i + n) * 512 \<le> length xs \<Longrightarrow> \<exists>ps rt'. forward_loop net 16000 xs i n rt = Inr (ps, rt') \<and> length ps = n"
proof (induction n arbitrary: i rt)
  case (Suc n)
  have len: "length (take 512 (drop (i * 512) xs)) = 512" using Suc.prems by simp
  then obtain p rt1 where 1: "infer_chunk net (take 512 (drop (i * 512) xs)) 16000 rt = Inr (p, rt1)"
    using infer_chunk_returns by blast
  from Suc.IH [of "Suc i" rt1] Suc.prems obtain ps rt' where "forward_loop net 16000 xs (Suc i) n rt1 = Inr (ps, rt')" "length ps = n"
    by auto
  with 1 show ?case by (simp add: bind_sum_def)
qed simp

lemma audio_forward_returns:
  "\<exists>ps rt'. audio_forward net xs 16000 rt = Inr (ps, rt') \<and> length ps = chunk_count (length xs)"
  using forward_loop_returns [of 0 "chunk_count (length xs)" "pad_waveform xs"] pad_waveform_length [of xs]
  by (simp add: audio_forward_def)

lemma frames_of_length [simp]: "length (frames_of c n xs) = n"
  by (induction n arbitrary: xs) auto

text \<open>A 16 kHz recording of whole frames.\<close>

definition readable_audio :: "audio_buffer \<Rightarrow> bool" where
  "readable_audio a \<longleftrightarrow> buf_sample_rate a = 16000 \<and> 0 < buf_channels a \<and> length (buf_samples a) mod nat (buf_channels a) = 0"

definition frame_count :: "audio_buffer \<Rightarrow> nat" where
  "frame_count a = length (buf_samples a) div nat (buf_channels a)"

lemma require_mono_returns:
  "readable_audio a \<Longrightarrow> \<exists>xs. require_mono_audio mix a = Inr xs \<and> length xs = frame_count a"
  by (auto simp: require_mono_audio_def mixdown_to_mono_def readable_audio_def frame_count_def)

lemma offline_result_ordered:
  assumes "vad_limits_of rnd 16000 cfg = Inr lm" "0 \<le> min_speech_duration_ms cfg" "0 \<le> speech_pad_ms cfg"
    "\<not> fl_less (threshold cfg) (neg_threshold_of rnd cfg)"
  shows "\<exists>ts rt'. build_offline_result rnd net xs 16000 cfg rt = Inr (map (as_segment (Finite 1)) ts, rt') \<and>
    ordered_from 0 ts (int (length xs))"
proof -
  obtain ps rt' where f: "audio_forward net xs 16000 rt = Inr (ps, rt')" "length ps = chunk_count (length xs)"
    using audio_forward_returns by blast
  have "int (length ps) * 512 - 512 < int (length xs)" using f(2) chunk_count_bounds(2) [of "length xs"] by linarith
  from decode_ordered [OF assms this] f(1) show ?thesis by (auto simp: build_offline_result_def bind_sum_def)
qed

lemma detect_speech_ordered:
  assumes "vad_limits_of rnd 16000 cfg = Inr lm" "0 \<le> min_speech_duration_ms cfg" "0 \<le> speech_pad_ms cfg"
    "\<not> fl_less (threshold cfg) (neg_threshold_of rnd cfg)" "readable_audio a"
  shows "\<exists>ts. detect_speech rnd net mix cfg rt a = Inr (map (as_segment (Finite 1)) ts) \<and> ordered_from 0 ts (int (frame_count a))"
proof -
  have rate: "buf_sample_rate a = 16000" using assms(5) by (simp add: readable_audio_def)
  obtain xs where xs: "require_mono_audio mix a = Inr xs" "length xs = frame_count a"
    using require_mono_returns [OF assms(5)] by blast
  obtain rt1 where rt1: "prepare_runtime 16000 rt = Inr rt1" by (auto simp: prepare_runtime_def ensure_state_def)
  from offline_result_ordered [OF assms(1-4), of net xs rt1] xs rt1 rate show ?thesis
    by (auto simp: detect_speech_def run_offline_vad_def bind_sum_def)
qed

lemma ordered_from_valid: "ordered_from s ts n \<Longrightarrow> 0 \<le> s \<Longrightarrow> t \<in> set ts \<Longrightarrow> valid_segment n (as_segment conf t)"
proof (induction ts arbitrary: s)
  case (Cons u ts)
  from Cons.prems have "ts_end u \<le> n" "0 \<le> ts_end u" using ordered_from_le by fastforce+
  with Cons show ?case by (auto simp: valid_segment_def as_segment_def)
qed simp

lemma default_limits:
  "vad_limits_of Finite 16000 default_config = Inr \<lparr>neg_thr = Finite (f_half - f_015), min_speech = 4000, speech_pad = 480,
     max_speech = 16000000000000 - 512 - 960, min_silence = 1600, min_silence_at_max = 1568\<rparr>"
  by (simp add: vad_limits_of_def default_config_def samples_of_ms_def int_product_def bind_sum_def c_div_nonneg
      neg_threshold_of_def fl_max_def f_half_def f_015_def f_001_def truncate_real_def)

text \<open>
  C27. Whatever the network answers, the detector returns, and its segments are non-empty, lie inside
  the recording and follow each other without overlap: for every 16 kHz recording of whole frames,
  every configuration whose pads and durations are not negative and whose lower threshold is not
  above the upper one, and every kind of split at the maximum duration.
\<close>

theorem detected_speech_in_order:
  assumes "vad_limits_of rnd 16000 cfg = Inr lm" "0 \<le> min_speech_duration_ms cfg" "0 \<le> speech_pad_ms cfg"
    "\<not> fl_less (threshold cfg) (neg_threshold_of rnd cfg)" "readable_audio a"
  shows "\<exists>ts. detect_speech rnd net mix cfg rt a = Inr (map (as_segment (Finite 1)) ts) \<and> ordered_from 0 ts (int (frame_count a))"
  using assms by (rule detect_speech_ordered)

theorem detected_speech_in_order_witness:
  "\<forall>rt. \<exists>ts. detect_speech Finite (\<lambda>xs h c. (Finite (xs ! 100), h, c)) hd default_config rt
      \<lparr>buf_sample_rate = 16000, buf_channels = 2, buf_samples = replicate 40000 1\<rparr> = Inr (map (as_segment (Finite 1)) ts) \<and>
    ordered_from 0 ts 20000" (is "\<forall>rt. ?P rt")
proof
  fix rt
  show "?P rt"
    using detected_speech_in_order [OF default_limits, of "\<lparr>buf_sample_rate = 16000, buf_channels = 2, buf_samples = replicate 40000 1\<rparr>"
        "\<lambda>xs h c. (Finite (xs ! 100), h, c)" hd rt]
    by (simp add: default_config_def neg_threshold_of_def fl_max_def f_half_def f_015_def f_001_def readable_audio_def frame_count_def)
qed

text \<open>
  C37. Chunks planned from detected speech lose none of it: the detector and the planner return for
  every recording and network, and the chunks are non-empty spans of the recording of at most the
  allowed length that together contain every sample of every detected segment.
\<close>

theorem detected_chunks_cover_speech:
  assumes "std_sort srt" "vad_limits_of rnd 16000 cfg = Inr lm" "0 \<le> min_speech_duration_ms cfg" "0 \<le> speech_pad_ms cfg"
    "\<not> fl_less (threshold cfg) (neg_threshold_of rnd cfg)" "readable_audio a" "0 < frame_count a"
    "0 < max_chunk_samples opts" "0 \<le> merge_gap_samples opts" "0 \<le> padding_samples opts"
  shows "\<exists>ts chunks. detect_speech rnd net mix cfg rt a = Inr (map (as_segment (Finite 1)) ts) \<and>
    plan_vad_from_audio srt (detect_speech rnd net mix cfg rt) a opts = Inr (Some (Inr chunks)) \<and>
    (\<forall>c\<in>set chunks. span_within (int (frame_count a)) (max_chunk_samples opts) c) \<and>
    (\<forall>t\<in>set ts. \<forall>x. ts_start t \<le> x \<and> x < ts_end t \<longrightarrow> (\<exists>c\<in>set chunks. in_span x c))"
proof -
  obtain ts where ts: "detect_speech rnd net mix cfg rt a = Inr (map (as_segment (Finite 1)) ts)"
    "ordered_from 0 ts (int (frame_count a))" using detect_speech_ordered [OF assms(2-6)] by blast
  let ?segs = "map (as_segment (Finite 1)) ts"
  have "\<forall>seg\<in>set ?segs. valid_segment (int (frame_count a)) seg" using ordered_from_valid [OF ts(2)] by auto
  from vad_chunks_cover_speech [OF assms(1) this, of opts] assms(7-10) obtain chunks where
    plan: "plan_vad_audio_chunks srt ?segs (int (frame_count a)) opts = Some (Inr chunks)" and
    within: "\<forall>c\<in>set chunks. span_within (int (frame_count a)) (max_chunk_samples opts) c" and
    cover: "\<forall>seg\<in>set ?segs. \<forall>x. in_span x (padded_span (span_of seg) (int (frame_count a)) (padding_samples opts)) \<longrightarrow>
      (\<exists>c\<in>set chunks. in_span x c)" by auto
  have "\<exists>c\<in>set chunks. in_span x c" if "t \<in> set ts" "ts_start t \<le> x" "x < ts_end t" for t x
  proof -
    have "in_span x (padded_span (span_of (as_segment (Finite 1) t)) (int (frame_count a)) (padding_samples opts))"
      using that ordered_from_valid [OF ts(2) _ that(1), of "Finite 1"] assms(10)
      by (auto simp: in_span_def padded_span_def as_segment_def valid_segment_def)
    with cover that(1) show ?thesis by auto
  qed
  moreover have "plan_vad_from_audio srt (detect_speech rnd net mix cfg rt) a opts = Inr (Some (Inr chunks))"
    using assms(6) ts(1) plan by (simp add: plan_vad_from_audio_def readable_audio_def frame_count_def bind_sum_def)
  ultimately show ?thesis using ts(1) within by blast
qed

theorem detected_chunks_cover_speech_witness:
  "\<forall>rt. \<exists>chunks. plan_vad_from_audio insertion_sort (detect_speech Finite (\<lambda>xs h c. (Finite (xs ! 100), h, c)) hd default_config rt)
      \<lparr>buf_sample_rate = 16000, buf_channels = 1, buf_samples = replicate 40000 1\<rparr>
      \<lparr>max_chunk_samples = 100, merge_gap_samples = 5, padding_samples = 10\<rparr> = Inr (Some (Inr chunks)) \<and>
    (\<forall>c\<in>set chunks. span_within 40000 100 c)" (is "\<forall>rt. ?P rt")
proof
  fix rt
  show "?P rt"
    using detected_chunks_cover_speech [OF insertion.std_sort_axioms default_limits,
        of "\<lparr>buf_sample_rate = 16000, buf_channels = 1, buf_samples = replicate 40000 1\<rparr>"
        "\<lparr>max_chunk_samples = 100, merge_gap_samples = 5, padding_samples = 10\<rparr>"
        "\<lambda>xs h c. (Finite (xs ! 100), h, c)" hd rt]
    by (auto simp: default_config_def neg_threshold_of_def fl_max_def f_half_def f_015_def f_001_def readable_audio_def frame_count_def)
qed

subsection \<open>The streaming detector and the offline decoder\<close>

definition widen :: "int \<Rightarrow> speech_timestamp \<Rightarrow> speech_timestamp" where
  "widen pad t = \<lparr>ts_start = max 0 (ts_start t - pad), ts_end = ts_end t + pad\<rparr>"

definition longer_than :: "int \<Rightarrow> speech_timestamp \<Rightarrow> bool" where
  "longer_than n t \<longleftrightarrow> ts_end t - ts_start t > n"

text \<open>
  The two scanners side by side: \<open>raw\<close> are the runs of speech closed so far. The stream keeps them
  all, padded, and marks the end of a pause one chunk later; the offline decoder keeps the long ones.
\<close>

definition same_scan :: "vad_limits \<Rightarrow> speech_timestamp list \<Rightarrow> scan_state \<Rightarrow> silero_runtime \<Rightarrow> bool" where
  "same_scan lm raw st rt \<longleftrightarrow>
     rt_triggered rt = triggered st \<and>
     current_speech_start rt = (if triggered st then max 0 (current_start st - speech_pad lm) else 0) \<and>
     rt_temp_end rt = (if temp_end st = 0 then 0 else temp_end st + 512) \<and>
     streamed_segments rt = map (widen (speech_pad lm)) raw \<and>
     speeches st = filter (longer_than (min_speech lm)) raw"

lemma samples_of_limits:
  "vad_limits_of rnd 16000 cfg = Inr lm \<Longrightarrow> samples_of_ms 16000 (speech_pad_ms cfg) = Inr (speech_pad lm)"
  "vad_limits_of rnd 16000 cfg = Inr lm \<Longrightarrow> samples_of_ms 16000 (min_silence_duration_ms cfg) = Inr (min_silence lm)"
  by (auto simp: vad_limits_of_def bind_sum_def split: sum.splits option.splits)

text \<open>What the network reads and writes.\<close>

definition net_part :: "silero_runtime \<Rightarrow> real list \<times> real list \<times> real list \<times> int" where
  "net_part rt = (hidden rt, cell rt, context_samples rt, last_sample_rate rt)"

text \<open>What one step does where the maximum duration is not reached.\<close>

lemma resume_fields [simp]:
  "triggered (resume_speech lm cur st) = triggered st" "speeches (resume_speech lm cur st) = speeches st"
  "current_start (resume_speech lm cur st) = current_start st" "temp_end (resume_speech lm cur st) = 0"
  by (auto simp: resume_speech_def Let_def)

lemma silent_fields:
  "triggered st \<Longrightarrow> temp_end st \<noteq> 0 \<or> cur \<noteq> 0 \<Longrightarrow>
   (let e = (if temp_end st = 0 then cur else temp_end st);
        st' = silent_chunk lm m cur st
    in if cur - e < min_silence lm
       then triggered st' \<and> speeches st' = speeches st \<and> current_start st' = current_start st \<and> temp_end st' = e
       else \<not> triggered st' \<and> temp_end st' = 0 \<and>
            speeches st' = speeches st @ (if e - current_start st > min_speech lm
              then [\<lparr>ts_start = current_start st, ts_end = e\<rparr>] else []))"
  by (simp add: silent_chunk_def Let_def close_at_def clear_marks_def)

lemma stream_event_simulates:
  assumes lm: "vad_limits_of rnd 16000 cfg = Inr lm" and pad: "0 \<le> speech_pad lm"
    and hyst: "\<not> (fl_ge p (threshold cfg) \<and> fl_less p (neg_thr lm))"
    and sim: "same_scan lm raw st rt" and ok: "scan_ok c st" "c < cur" "0 \<le> cur"
    and short: "triggered st \<longrightarrow> cur - current_start st \<le> max_speech lm"
  shows "\<exists>ev rt' raw'. build_stream_event rnd p cfg cur rt = Inr (ev, rt') \<and> same_scan lm raw' (scan_step cfg lm cur p st) rt' \<and>
    net_part rt' = net_part rt"
proof -
  have neg: "neg_threshold_of rnd cfg = neg_thr lm" using vad_limits_nonneg(1) [OF lm] by simp
  note event = build_stream_event_def samples_of_limits [OF lm] bind_sum_def neg Let_def
  have idle: "temp_end st = 0" if "\<not> triggered st" using scan_ok_idle [OF ok(1) that] .
  have start: "0 \<le> current_start st" "current_start st < cur" if "triggered st"
    using scan_ok_triggered [OF ok(1) that] ok(2) by auto
  have mark: "0 < temp_end st" "current_start st < temp_end st" if "temp_end st \<noteq> 0"
  proof -
    have "triggered st" using idle that by blast
    with start show "current_start st < temp_end st" "0 < temp_end st" using ok(1) that by (fastforce simp: scan_ok_def)+
  qed
  have trig: "rt_triggered rt = triggered st" and rt_start: "triggered st \<Longrightarrow> current_speech_start rt = max 0 (current_start st - speech_pad lm)"
    and rt_mark: "rt_temp_end rt = (if temp_end st = 0 then 0 else temp_end st + 512)"
    and outs: "streamed_segments rt = map (widen (speech_pad lm)) raw" "speeches st = filter (longer_than (min_speech lm)) raw"
    using sim by (simp_all add: same_scan_def)
  consider (speech) "fl_ge p (threshold cfg)" "triggered st" | (begins) "fl_ge p (threshold cfg)" "\<not> triggered st"
    | (silent) "\<not> fl_ge p (threshold cfg)" "fl_less p (neg_thr lm)" "triggered st"
    | (other) "\<not> fl_ge p (threshold cfg)" "\<not> (fl_less p (neg_thr lm) \<and> triggered st)" by blast
  then show ?thesis
  proof cases
    case begins
    then have "scan_step cfg lm cur p st = st\<lparr>triggered := True, current_start := cur\<rparr>" by (simp add: scan_step_def idle)
    moreover have "\<exists>ev. build_stream_event rnd p cfg cur rt =
        Inr (ev, rt\<lparr>rt_triggered := True, current_speech_start := max 0 (cur - speech_pad lm)\<rparr>)"
      using begins trig rt_mark idle by (simp add: event)
    moreover have "same_scan lm raw (st\<lparr>triggered := True, current_start := cur\<rparr>)
        (rt\<lparr>rt_triggered := True, current_speech_start := max 0 (cur - speech_pad lm)\<rparr>)"
      using sim by (simp add: same_scan_def)
    moreover have "net_part (rt\<lparr>rt_triggered := True, current_speech_start := max 0 (cur - speech_pad lm)\<rparr>) = net_part rt"
      by (simp add: net_part_def)
    ultimately show ?thesis by metis
  next
    case other
    then have "scan_step cfg lm cur p st = st" using short by (auto simp: scan_step_def)
    moreover have "build_stream_event rnd p cfg cur rt = Inr ([], rt)" using other trig by (auto simp: event)
    ultimately show ?thesis using sim by auto
  next
    case speech
    have "scan_step cfg lm cur p st = (if temp_end st \<noteq> 0 then resume_speech lm cur st else st)"
      using speech hyst short by (auto simp: scan_step_def Let_def)
    moreover have "build_stream_event rnd p cfg cur rt = Inr ([], rt\<lparr>rt_temp_end := 0\<rparr>)"
      using speech hyst trig rt_mark mark by (auto simp: event)
    moreover have "same_scan lm raw (if temp_end st \<noteq> 0 then resume_speech lm cur st else st) (rt\<lparr>rt_temp_end := 0\<rparr>)"
      using sim by (auto simp: same_scan_def)
    moreover have "net_part (rt\<lparr>rt_temp_end := 0\<rparr>) = net_part rt" by (simp add: net_part_def)
    ultimately show ?thesis by metis
  next
    case silent
    define e where "e = (if temp_end st = 0 then cur else temp_end st)"
    have e: "current_start st < e" "0 < e" using start [OF silent(3)] mark by (auto simp: e_def)
    have step: "scan_step cfg lm cur p st = silent_chunk lm (use_max_poss_sil cfg) cur st"
      using silent short by (auto simp: scan_step_def Let_def)
    note fields = silent_fields [OF silent(3), of cur lm "use_max_poss_sil cfg", unfolded Let_def e_def [symmetric]]
    have cur: "temp_end st \<noteq> 0 \<or> cur \<noteq> 0" using start(1,2) [OF silent(3)] by auto
    let ?rt1 = "if rt_temp_end rt = 0 then rt\<lparr>rt_temp_end := cur + 512\<rparr> else rt"
    have rt1: "?rt1 = rt\<lparr>rt_temp_end := e + 512\<rparr>" using rt_mark mark by (auto simp: e_def)
    show ?thesis
    proof (cases "cur - e < min_silence lm")
      case True
      then have "build_stream_event rnd p cfg cur rt = Inr ([], rt\<lparr>rt_temp_end := e + 512\<rparr>)"
        using silent trig rt1 by (auto simp: event)
      moreover have "same_scan lm raw (silent_chunk lm (use_max_poss_sil cfg) cur st) (rt\<lparr>rt_temp_end := e + 512\<rparr>)"
        using fields [OF cur] True sim silent(3) e by (simp add: same_scan_def)
      moreover have "net_part (rt\<lparr>rt_temp_end := e + 512\<rparr>) = net_part rt" by (simp add: net_part_def)
      ultimately show ?thesis unfolding step by metis
    next
      case False
      let ?seg = "\<lparr>ts_start = current_start st, ts_end = e\<rparr>"
      let ?rt' = "rt\<lparr>rt_triggered := False, rt_temp_end := 0, current_speech_start := 0,
        streamed_segments := streamed_segments rt @ [widen (speech_pad lm) ?seg]\<rparr>"
      have w: "max (max 0 (current_start st - speech_pad lm)) (e + speech_pad lm) = e + speech_pad lm" using e pad by auto
      have "\<exists>ev. build_stream_event rnd p cfg cur rt = Inr (ev, ?rt')"
        using silent trig rt1 False rt_start [OF silent(3)] w by (auto simp: event widen_def)
      moreover have "same_scan lm (raw @ [?seg]) (silent_chunk lm (use_max_poss_sil cfg) cur st) ?rt'"
        using fields [OF cur] False outs by (simp add: same_scan_def longer_than_def)
      moreover have "net_part ?rt' = net_part rt" by (simp add: net_part_def)
      ultimately show ?thesis unfolding step by metis
    qed
  qed
qed

definition ready_part :: "silero_runtime \<Rightarrow> real list \<times> real list \<times> real list \<times> int" where
  "ready_part rt = net_part ((if last_sample_rate rt \<noteq> 16000 \<or> hidden rt = [] then reset_states rt else rt)\<lparr>last_sample_rate := 16000\<rparr>)"

lemma ready_net: "net_part rt = net_part rt' \<Longrightarrow> ready_part rt = ready_part rt'"
  by (simp add: ready_part_def net_part_def reset_states_def)

lemma infer_chunk_ready:
  assumes "length ch = 512" "ready_part rt = ready_part off"
  shows "\<exists>p rt' off'. infer_chunk net ch 16000 rt = Inr (p, rt') \<and> infer_chunk net ch 16000 off = Inr (p, off') \<and>
    net_part rt' = net_part off' \<and> same_scan lm raw st rt' = same_scan lm raw st rt \<and> current_sample rt' = current_sample rt
    \<and> streamed_segments rt' = streamed_segments rt"
proof -
  let ?e = "\<lambda>rt. (if last_sample_rate rt \<noteq> 16000 \<or> hidden rt = [] then reset_states rt else rt)\<lparr>last_sample_rate := 16000\<rparr>"
  let ?go = "\<lambda>rt. let (p, h, c) = net (take 64 (context_samples rt) @ ch) (hidden rt) (cell rt)
    in (p, rt\<lparr>hidden := h, cell := c, context_samples := drop (512 - 64) ch\<rparr>)"
  have go: "infer_chunk net ch 16000 r = Inr (?go (?e r))" for r
    using assms(1) by (simp add: infer_chunk_def ensure_state_def bind_sum_def split_beta Let_def)
  have eq: "hidden (?e rt) = hidden (?e off)" "cell (?e rt) = cell (?e off)" "context_samples (?e rt) = context_samples (?e off)"
    using assms(2) by (simp_all add: ready_part_def net_part_def)
  have "fst (?go (?e rt)) = fst (?go (?e off))" "net_part (snd (?go (?e rt))) = net_part (snd (?go (?e off)))"
    unfolding eq by (simp_all add: split_beta net_part_def)
  moreover have "same_scan lm raw st (snd (?go (?e rt))) = same_scan lm raw st rt"
    "current_sample (snd (?go (?e rt))) = current_sample rt" "streamed_segments (snd (?go (?e rt))) = streamed_segments rt"
    by (simp_all add: split_beta same_scan_def reset_states_def)
  ultimately show ?thesis unfolding go by (metis prod.collapse)
qed

text \<open>The samples and events of a stream that starts at sample 0.\<close>

definition chunk_at :: "real list \<Rightarrow> nat \<Rightarrow> stream_audio_chunk" where
  "chunk_at xs i = \<lparr>sc_rate = 16000, sc_channels = 1, sc_start = int i * 512, sc_samples = take 512 (drop (i * 512) xs)\<rparr>"

definition chunks_of :: "real list \<Rightarrow> stream_audio_chunk list" where
  "chunks_of xs = map (chunk_at (pad_waveform xs)) [0..<chunk_count (length xs)]"

definition announced :: "activity_event list \<Rightarrow> time_span list" where
  "announced evs = map span_of (List.map_filter ev_segment evs)"

definition span_of_ts :: "speech_timestamp \<Rightarrow> time_span" where
  "span_of_ts t = span_of (as_segment NaN t)"

lemma span_as_segment [simp]: "span_of (as_segment c t) = span_of_ts t"
  by (simp add: span_of_ts_def as_segment_def)

lemma announced_append [simp]: "announced (xs @ ys) = announced xs @ announced ys"
  by (simp add: announced_def List.map_filter_def)

lemma stream_event_announces:
  assumes "build_stream_event rnd p cfg s rt = Inr (ev, rt')"
  shows "map span_of_ts (streamed_segments rt') = map span_of_ts (streamed_segments rt) @ announced ev"
proof -
  have simps: "announced [] = []" "announced [x] = (case ev_segment x of None \<Rightarrow> [] | Some s \<Rightarrow> [span_of s])" for x
    by (auto simp: announced_def List.map_filter_def)
  show ?thesis
    using assms by (auto simp: build_stream_event_def bind_sum_def Let_def simps split: sum.splits if_splits)
qed

lemma stream_loop_simulates:
  assumes lm: "vad_limits_of rnd 16000 cfg = Inr lm" and pad: "0 \<le> speech_pad lm"
    and hyst: "\<And>p. \<not> (fl_ge p (threshold cfg) \<and> fl_less p (neg_thr lm))"
    and "(i + n) * 512 \<le> length xs" "int (i + n) * 512 - 512 \<le> max_speech lm"
    and "ready_part rt = ready_part off" "same_scan lm raw st rt" "scan_ok (int i * 512 - 512) st" "current_sample rt = int i * 512"
  shows "\<exists>evs rt' raw' ps off'. stream_chunks rnd net cfg (map (chunk_at xs) [i..<i + n]) rt = Inr (evs, rt') \<and>
    forward_loop net 16000 xs i n off = Inr (ps, off') \<and> same_scan lm raw' (scan_loop cfg lm i ps st) rt' \<and>
    map span_of_ts (streamed_segments rt') = map span_of_ts (streamed_segments rt) @ announced evs \<and>
    current_sample rt' = int (i + n) * 512 \<and> length ps = n"
  using assms(4-)
proof (induction n arbitrary: i rt off st raw)
  case 0
  then show ?case by (auto simp: announced_def List.map_filter_def)
next
  case (Suc n)
  let ?ch = "take 512 (drop (i * 512) xs)"
  have len: "length ?ch = 512" using Suc.prems(1) by simp
  obtain p rt1 off1 where inf: "infer_chunk net ?ch 16000 rt = Inr (p, rt1)" "infer_chunk net ?ch 16000 off = Inr (p, off1)"
    "net_part rt1 = net_part off1" "same_scan lm raw st rt1" "streamed_segments rt1 = streamed_segments rt"
    using infer_chunk_ready [OF len Suc.prems(3), of net lm raw st] Suc.prems(4) by blast
  have short: "triggered st \<longrightarrow> int i * 512 - current_start st \<le> max_speech lm"
    using Suc.prems(2) scan_ok_triggered [OF Suc.prems(5)] by auto
  obtain ev rt2 raw2 where ev: "build_stream_event rnd p cfg (int i * 512) rt1 = Inr (ev, rt2)"
    "same_scan lm raw2 (scan_step cfg lm (int i * 512) p st) rt2" "net_part rt2 = net_part rt1"
    using stream_event_simulates [OF lm pad hyst [of p] inf(4) Suc.prems(5) _ _ short] by auto
  let ?rt3 = "rt2\<lparr>current_sample := int i * 512 + 512\<rparr>"
  have proc: "process_chunk rnd net cfg (chunk_at xs i) rt = Inr (ev, ?rt3)"
    using inf(1) ev(1) len Suc.prems(6) by (simp add: process_chunk_def chunk_at_def bind_sum_def)
  have ok: "scan_ok (int (Suc i) * 512 - 512) (scan_step cfg lm (int i * 512) p st)"
    using scan_step_ok [OF Suc.prems(5) _ _ hyst, of "int i * 512"] by (simp add: algebra_simps)
  have rd: "ready_part ?rt3 = ready_part off1"
    by (rule ready_net) (use ev(3) inf(3) in \<open>simp add: net_part_def\<close>)
  have sm: "same_scan lm raw2 (scan_step cfg lm (int i * 512) p st) ?rt3" using ev(2) by (simp add: same_scan_def)
  have len': "(Suc i + n) * 512 \<le> length xs" and short': "int (Suc i + n) * 512 - 512 \<le> max_speech lm"
    and cs: "current_sample ?rt3 = int (Suc i) * 512" using Suc.prems(1,2) by simp_all
  obtain evs rt' raw' ps off' where rest: "stream_chunks rnd net cfg (map (chunk_at xs) [Suc i..<Suc i + n]) ?rt3 = Inr (evs, rt')"
    "forward_loop net 16000 xs (Suc i) n off1 = Inr (ps, off')"
    "same_scan lm raw' (scan_loop cfg lm (Suc i) ps (scan_step cfg lm (int i * 512) p st)) rt'"
    "map span_of_ts (streamed_segments rt') = map span_of_ts (streamed_segments ?rt3) @ announced evs"
    "current_sample rt' = int (Suc i + n) * 512" "length ps = n"
    using Suc.IH [OF len' short' rd sm ok cs] by blast
  have up: "[i..<i + Suc n] = i # [Suc i..<Suc i + n]" by (simp add: upt_conv_Cons del: upt_Suc)
  have "stream_chunks rnd net cfg (map (chunk_at xs) [i..<i + Suc n]) rt = Inr (ev @ evs, rt')"
    unfolding up using proc rest(1) by (simp add: bind_sum_def)
  moreover have "forward_loop net 16000 xs i (Suc n) off = Inr (p # ps, off')" using inf(2) rest(2) by (simp add: bind_sum_def)
  moreover have "map span_of_ts (streamed_segments rt') = map span_of_ts (streamed_segments rt) @ announced (ev @ evs)"
    using rest(4) stream_event_announces [OF ev(1)] inf(5) by simp
  moreover have "same_scan lm raw' (scan_loop cfg lm i (p # ps) st) rt'" "length (p # ps) = Suc n"
    "current_sample rt' = int (i + Suc n) * 512" using rest(3,5,6) by simp_all
  ultimately show ?case by blast
qed

text \<open>
  C33. Streaming finds the speech the offline run finds: for every recording shorter than the maximum
  speech duration and every network, sending it in 512-sample chunks to a reset detector succeeds, and
  there is one list of runs of speech such that the stream's segments - the ones its events announce -
  are these runs with the padding, the offline decoder keeps exactly the ones longer than the minimum,
  and both end with the same run open.
\<close>

theorem stream_agrees_with_offline:
  assumes "vad_limits_of rnd 16000 cfg = Inr lm" "0 \<le> speech_pad_ms cfg" "\<not> fl_less (threshold cfg) (neg_threshold_of rnd cfg)"
    "int (length xs) \<le> max_speech lm"
  shows "\<exists>evs rt' probs rt'' raw. stream_chunks rnd net cfg (chunks_of xs) (reset_runtime rt) = Inr (evs, rt') \<and>
    audio_forward net xs 16000 off = Inr (probs, rt'') \<and>
    streamed_segments rt' = map (widen (speech_pad lm)) raw \<and> announced evs = map span_of_ts (streamed_segments rt') \<and>
    speeches (scan_loop cfg lm 0 probs scan_init) = filter (longer_than (min_speech lm)) raw \<and>
    rt_triggered rt' = triggered (scan_loop cfg lm 0 probs scan_init) \<and>
    (rt_triggered rt' \<longrightarrow> current_speech_start rt' = max 0 (current_start (scan_loop cfg lm 0 probs scan_init) - speech_pad lm)) \<and>
    current_sample rt' = int (chunk_count (length xs)) * 512"
proof -
  have hyst: "\<not> (fl_ge p (threshold cfg) \<and> fl_less p (neg_thr lm))" for p
    using hysteresis [OF assms(3)] vad_limits_nonneg(1) [OF assms(1)] by simp
  have r: "ready_part (reset_runtime rt) = ready_part ((reset_states off)\<lparr>last_sample_rate := 16000\<rparr>)"
    by (simp add: ready_part_def net_part_def reset_runtime_def reset_states_def)
  have s: "same_scan lm [] scan_init (reset_runtime rt)" by (simp add: same_scan_def scan_init_def reset_runtime_def reset_states_def)
  have len: "(0 + chunk_count (length xs)) * 512 \<le> length (pad_waveform xs)" by (simp add: pad_waveform_length)
  have mx: "int (0 + chunk_count (length xs)) * 512 - 512 \<le> max_speech lm"
  proof -
    have "int (chunk_count (length xs)) * 512 < int (length xs) + 512" using chunk_count_bounds(2) [of "length xs"] by linarith
    with assms(4) show ?thesis by simp
  qed
  have c: "current_sample (reset_runtime rt) = int 0 * 512" "streamed_segments (reset_runtime rt) = []"
    by (simp_all add: reset_runtime_def reset_states_def)
  from stream_loop_simulates [OF assms(1) vad_limits_nonneg(3) [OF assms(1,2)] hyst len mx r s scan_ok_init c(1), of net]
  obtain evs rt' raw ps off' where "stream_chunks rnd net cfg (chunks_of xs) (reset_runtime rt) = Inr (evs, rt')"
    "audio_forward net xs 16000 off = Inr (ps, off')" "same_scan lm raw (scan_loop cfg lm 0 ps scan_init) rt'"
    "map span_of_ts (streamed_segments rt') = announced evs" "current_sample rt' = int (chunk_count (length xs)) * 512"
    by (auto simp: chunks_of_def audio_forward_def c)
  then show ?thesis by (auto simp: same_scan_def)
qed

theorem stream_agrees_with_offline_witness:
  "\<forall>rt. \<exists>evs rt' raw. stream_chunks Finite (\<lambda>xs h c. (Finite (xs ! 100), h, c)) default_config (chunks_of (replicate 5000 1)) (reset_runtime rt) =
      Inr (evs, rt') \<and> streamed_segments rt' = map (widen 480) raw \<and> current_sample rt' = 5120" (is "\<forall>rt. ?P rt")
proof
  fix rt
  show "?P rt"
    using stream_agrees_with_offline [OF default_limits, of "replicate 5000 1" "\<lambda>xs h c. (Finite (xs ! 100), h, c)" rt rt]
    by (auto simp: default_config_def neg_threshold_of_def fl_max_def f_half_def f_015_def f_001_def chunk_count_def)
qed

end
