(* ===== verification/Http_Body.thy ===== *)
theory Http_Body
  imports Multipart LLM_Client
begin

text \<open>
  The incremental request body of the server (\<^verbatim>\<open>app/server/http.cpp\<close>: \<^verbatim>\<open>ChunkedSocketStreambuf\<close>, \<^verbatim>\<open>is_chunked_only\<close>)
  and the chunked writer of its streamed responses.

  The connection is the list of what happens on it: bytes arrive, the wait for them times out, or the
  peer hangs up. \<open>clk n\<close> is the time in milliseconds since the start at the \<open>n\<close>-th reading of the clock. An exception
  ends the stream (it sets \<^verbatim>\<open>badbit\<close>), so the state after one is not kept.
\<close>

subsection \<open>Limits, connection and state\<close>

record ingest_limits =
  idle_timeout_ms :: int
  total_timeout_ms :: int
  max_body_bytes :: nat
  max_chunk_bytes :: nat
  send_timeout_ms :: int

definition default_ingest_limits :: ingest_limits where
  "default_ingest_limits = \<lparr>idle_timeout_ms = 30000, total_timeout_ms = 600000, max_body_bytes = 512 * 1024 * 1024,
     max_chunk_bytes = 8 * 1024 * 1024, send_timeout_ms = 30000\<rparr>"

datatype recv_event = Arrives string | Silent | Hung_Up

datatype body_error =
  Body_Too_Large | Deadline_Exceeded | Idle_Stall | Oversized_Header | Closed_Before_End | Empty_Size | Invalid_Size string
| Chunk_Too_Large | Closed_In_Trailer | Trailer_Too_Large | Closed_Mid_Chunk | No_Crlf

record body_stream =
  pending :: string
  pending_pos :: nat
  served_chunk :: string
  chunk_pos :: nat
  get_area :: string
  received_bytes :: nat
  stream_finished :: bool
  connection_events :: "recv_event list"
  clock_readings :: nat

definition open_body :: "string \<Rightarrow> recv_event list \<Rightarrow> body_stream" where
  "open_body prefetched evs = \<lparr>pending = prefetched, pending_pos = 0, served_chunk = [], chunk_pos = 0, get_area = [],
     received_bytes = length prefetched, stream_finished = False, connection_events = evs, clock_readings = 0\<rparr>"

subsection \<open>Bounds\<close>

definition read_clock :: "(nat \<Rightarrow> int) \<Rightarrow> body_stream \<Rightarrow> int \<times> body_stream" where
  "read_clock clk st = (clk (clock_readings st), st\<lparr>clock_readings := clock_readings st + 1\<rparr>)"

definition require_within_body_cap :: "ingest_limits \<Rightarrow> body_stream \<Rightarrow> body_error + body_stream" where
  "require_within_body_cap lm st =
     (if max_body_bytes lm > 0 \<and> received_bytes st > max_body_bytes lm then Inl Body_Too_Large else Inr st)"

definition require_within_deadline :: "ingest_limits \<Rightarrow> (nat \<Rightarrow> int) \<Rightarrow> body_stream \<Rightarrow> body_error + body_stream" where
  "require_within_deadline lm clk st =
     (if total_timeout_ms lm \<le> 0 then Inr st
      else let (elapsed, st1) = read_clock clk st in
           if elapsed \<ge> total_timeout_ms lm then Inl Deadline_Exceeded else Inr st1)"

text \<open>\<^verbatim>\<open>poll\<close> reports a silent peer as a timeout; without a timeout there is no \<^verbatim>\<open>poll\<close>.\<close>

definition poll_readable :: "int \<Rightarrow> body_stream \<Rightarrow> bool \<times> body_stream" where
  "poll_readable wait_ms st =
     (if wait_ms \<le> 0 then (True, st)
      else case connection_events st of
        Silent # evs \<Rightarrow> (False, st\<lparr>connection_events := evs\<rparr>)
      | _ \<Rightarrow> (True, st))"

definition wait_readable :: "ingest_limits \<Rightarrow> (nat \<Rightarrow> int) \<Rightarrow> body_stream \<Rightarrow> bool \<times> body_stream" where
  "wait_readable lm clk st =
     (if total_timeout_ms lm > 0
      then let (elapsed, st1) = read_clock clk st; remaining = total_timeout_ms lm - elapsed in
           if remaining \<le> 0 then (False, st1)
           else poll_readable (if idle_timeout_ms lm \<le> 0 then remaining else min (idle_timeout_ms lm) remaining) st1
      else poll_readable (idle_timeout_ms lm) st)"

text \<open>\<^verbatim>\<open>recv\<close> blocks through silence; once the peer has closed, it returns nothing for ever.\<close>

fun recv_bytes :: "recv_event list \<Rightarrow> string \<times> recv_event list" where
  "recv_bytes [] = ([], [])"
| "recv_bytes (Silent # evs) = recv_bytes evs"
| "recv_bytes (Hung_Up # evs) = ([], Hung_Up # evs)"
| "recv_bytes (Arrives d # evs) = (d, if d = [] then Arrives d # evs else evs)"

definition receive_more :: "ingest_limits \<Rightarrow> (nat \<Rightarrow> int) \<Rightarrow> body_stream \<Rightarrow> body_error + bool \<times> body_stream" where
  "receive_more lm clk st =
     bind_sum (require_within_deadline lm clk st) (\<lambda>st1.
       let (readable, st2) = wait_readable lm clk st1 in
       if \<not> readable then bind_sum (require_within_deadline lm clk st2) (\<lambda>_. Inl Idle_Stall)
       else let (d, evs) = recv_bytes (connection_events st2) in
         bind_sum (require_within_deadline lm clk (st2\<lparr>connection_events := evs\<rparr>)) (\<lambda>st3.
           if d = [] then Inr (False, st3)
           else bind_sum (require_within_body_cap lm (st3\<lparr>received_bytes := received_bytes st3 + length d\<rparr>)) (\<lambda>st4.
             Inr (True, st4\<lparr>pending := pending st4 @ d\<rparr>))))"

subsection \<open>What arrives\<close>

fun arriving :: "recv_event list \<Rightarrow> string" where
  "arriving [] = []"
| "arriving (Silent # evs) = arriving evs"
| "arriving (Hung_Up # evs) = []"
| "arriving (Arrives d # evs) = (if d = [] then [] else d @ arriving evs)"

definition buffered :: "body_stream \<Rightarrow> string" where
  "buffered st = drop (pending_pos st) (pending st)"

definition rest_of :: "body_stream \<Rightarrow> string" where
  "rest_of st = buffered st @ arriving (connection_events st)"

definition same_chunk :: "body_stream \<Rightarrow> body_stream \<Rightarrow> bool" where
  "same_chunk st st' \<longleftrightarrow> served_chunk st' = served_chunk st \<and> chunk_pos st' = chunk_pos st \<and> get_area st' = get_area st \<and>
     stream_finished st' = stream_finished st"

lemma same_chunk_trans [trans]: "same_chunk a b \<Longrightarrow> same_chunk b c \<Longrightarrow> same_chunk a c"
  by (simp add: same_chunk_def)

lemma recv_bytes_arriving: "recv_bytes evs = (d, evs') \<Longrightarrow> arriving evs = d @ arriving evs'"
  by (induction evs rule: recv_bytes.induct) auto

lemma recv_bytes_shorter: "recv_bytes evs = (d, evs') \<Longrightarrow> d \<noteq> [] \<Longrightarrow> length evs' < length evs"
  by (induction evs rule: recv_bytes.induct) (auto split: if_splits)

lemma recv_bytes_closed: "recv_bytes evs = ([], evs') \<Longrightarrow> arriving evs = []"
  by (induction evs rule: recv_bytes.induct) auto

text \<open>A reading of the clock changes nothing else.\<close>

definition ticked :: "body_stream \<Rightarrow> body_stream \<Rightarrow> bool" where
  "ticked st st' \<longleftrightarrow> (\<exists>n. st' = st\<lparr>clock_readings := n\<rparr>)"

lemma ticked_refl: "ticked st st"
  unfolding ticked_def by (rule exI [of _ "clock_readings st"]) simp

lemma deadline_ticked: "require_within_deadline lm clk st = Inr st' \<Longrightarrow> ticked st st'"
  using ticked_refl by (auto simp: require_within_deadline_def read_clock_def ticked_def Let_def split: if_splits)

lemma wait_events:
  "wait_readable lm clk st = (True, st') \<Longrightarrow> ticked st st'"
  using ticked_refl
  by (auto simp: wait_readable_def poll_readable_def read_clock_def ticked_def Let_def split: if_splits list.splits recv_event.splits)

lemma receive_more_result:
  assumes "receive_more lm clk st = Inr (got, st')"
  shows "same_chunk st st'" "pending_pos st' = pending_pos st"
    "got \<Longrightarrow> \<exists>d. d \<noteq> [] \<and> pending st' = pending st @ d \<and> received_bytes st' = received_bytes st + length d \<and>
       arriving (connection_events st) = d @ arriving (connection_events st') \<and>
       length (connection_events st') < length (connection_events st) \<and>
       (max_body_bytes lm > 0 \<longrightarrow> received_bytes st' \<le> max_body_bytes lm)"
    "\<not> got \<Longrightarrow> arriving (connection_events st) = []"
proof -
  obtain st1 where 1: "require_within_deadline lm clk st = Inr st1" using assms by (auto simp: receive_more_def bind_sum_def split: sum.splits)
  obtain st2 where 2: "wait_readable lm clk st1 = (True, st2)"
    using assms 1 by (auto simp: receive_more_def bind_sum_def split: sum.splits prod.splits if_splits)
  obtain d evs where 3: "recv_bytes (connection_events st2) = (d, evs)" by fastforce
  obtain st3 where 4: "require_within_deadline lm clk (st2\<lparr>connection_events := evs\<rparr>) = Inr st3"
    using assms 1 2 3 by (auto simp: receive_more_def bind_sum_def split: sum.splits)
  obtain m where st2: "st2 = st\<lparr>clock_readings := m\<rparr>" using deadline_ticked [OF 1] wait_events [OF 2] by (auto simp: ticked_def)
  obtain n where st3: "st3 = st\<lparr>connection_events := evs, clock_readings := n\<rparr>"
    using deadline_ticked [OF 4] st2 by (auto simp: ticked_def)
  have r: "(if d = [] then Inr (False, st3)
      else bind_sum (require_within_body_cap lm (st3\<lparr>received_bytes := received_bytes st3 + length d\<rparr>)) (\<lambda>st4.
        Inr (True, st4\<lparr>pending := pending st4 @ d\<rparr>))) = Inr (got, st')"
    using assms 1 2 3 4 by (simp add: receive_more_def bind_sum_def)
  have evs: "recv_bytes (connection_events st) = (d, evs)" using 3 st2 by simp
  show "same_chunk st st'" "pending_pos st' = pending_pos st"
    using r st3 by (auto simp: same_chunk_def bind_sum_def require_within_body_cap_def split: if_splits)
  show "\<not> got \<Longrightarrow> arriving (connection_events st) = []"
    using r recv_bytes_closed evs by (auto simp: bind_sum_def split: if_splits sum.splits)
  assume got
  then have d: "d \<noteq> []" and st': "st' = st3\<lparr>received_bytes := received_bytes st3 + length d, pending := pending st3 @ d\<rparr>"
    "max_body_bytes lm > 0 \<longrightarrow> received_bytes st3 + length d \<le> max_body_bytes lm"
    using r by (auto simp: bind_sum_def require_within_body_cap_def split: if_splits)
  show "\<exists>d. d \<noteq> [] \<and> pending st' = pending st @ d \<and> received_bytes st' = received_bytes st + length d \<and>
       arriving (connection_events st) = d @ arriving (connection_events st') \<and>
       length (connection_events st') < length (connection_events st) \<and>
       (max_body_bytes lm > 0 \<longrightarrow> received_bytes st' \<le> max_body_bytes lm)"
    by (rule exI [of _ d]) (use d st' st3 recv_bytes_arriving [OF evs] recv_bytes_shorter [OF evs d] in simp)
qed

subsection \<open>Reading lines and blocks\<close>

lemma receive_more_shorter:
  "receive_more lm clk st = Inr (True, st') \<Longrightarrow> length (connection_events st') < length (connection_events st)"
  using receive_more_result(3) by blast

function ensure_available :: "ingest_limits \<Rightarrow> (nat \<Rightarrow> int) \<Rightarrow> nat \<Rightarrow> body_stream \<Rightarrow> body_error + bool \<times> body_stream" where
  "ensure_available lm clk n st =
     (if length (pending st) - pending_pos st < n
      then case receive_more lm clk st of
        Inl e \<Rightarrow> Inl e
      | Inr (True, st') \<Rightarrow> ensure_available lm clk n st'
      | Inr (False, st') \<Rightarrow> Inr (False, st')
      else Inr (True, st))"
  by pat_completeness auto
termination
  by (relation "measure (\<lambda>(lm, clk, n, st). length (connection_events st))") (auto dest: receive_more_shorter)

declare ensure_available.simps [simp del]

function read_body_line :: "ingest_limits \<Rightarrow> (nat \<Rightarrow> int) \<Rightarrow> body_stream \<Rightarrow> body_error + string option \<times> body_stream" where
  "read_body_line lm clk st =
     (case find_sub_from crlf (pending st) (pending_pos st) of
        Some eol \<Rightarrow>
          if eol - pending_pos st > 8192 then Inl Oversized_Header
          else Inr (Some (substr (pending st) (pending_pos st) (eol - pending_pos st)), st\<lparr>pending_pos := eol + 2\<rparr>)
      | None \<Rightarrow>
          if length (pending st) - pending_pos st > 8192 then Inl Oversized_Header
          else case receive_more lm clk st of
            Inl e \<Rightarrow> Inl e
          | Inr (True, st') \<Rightarrow> read_body_line lm clk st'
          | Inr (False, st') \<Rightarrow> Inr (None, st'))"
  by pat_completeness auto
termination
  by (relation "measure (\<lambda>(lm, clk, st). length (connection_events st))") (auto dest: receive_more_shorter)

declare read_body_line.simps [simp del]

subsection \<open>Chunks\<close>

definition hex_digit :: "char \<Rightarrow> nat option" where
  "hex_digit c =
     (if 48 \<le> byte_of c \<and> byte_of c \<le> 57 then Some (byte_of c - 48)
      else if 97 \<le> byte_of c \<and> byte_of c \<le> 102 then Some (byte_of c - 97 + 10)
      else if 65 \<le> byte_of c \<and> byte_of c \<le> 70 then Some (byte_of c - 65 + 10)
      else None)"

fun size_digits :: "nat \<Rightarrow> string \<Rightarrow> string \<Rightarrow> nat \<Rightarrow> body_error + nat" where
  "size_digits cap header [] n_bytes = Inr n_bytes"
| "size_digits cap header (c # cs) n_bytes =
     (case hex_digit c of
        None \<Rightarrow> Inl (Invalid_Size header)
      | Some v \<Rightarrow>
          if n_bytes > cap div 16 then Inl Chunk_Too_Large
          else if v > cap - n_bytes * 16 then Inl Chunk_Too_Large
          else size_digits cap header cs (n_bytes * 16 + v))"

definition chunk_cap :: "ingest_limits \<Rightarrow> nat" where
  "chunk_cap lm = (if max_chunk_bytes lm > 0 then max_chunk_bytes lm else max_chunk_bytes default_ingest_limits)"

definition size_of_line :: "ingest_limits \<Rightarrow> string \<Rightarrow> body_error + nat" where
  "size_of_line lm line =
     (let header = trim (case find_idx (\<lambda>c. c = CHR '';'') line of Some i \<Rightarrow> take i line | None \<Rightarrow> line) in
      if header = [] then Inl Empty_Size else size_digits (chunk_cap lm) header header 0)"

text \<open>The loop over the trailer lines.\<close>

partial_function (option) read_trailers ::
  "ingest_limits \<Rightarrow> (nat \<Rightarrow> int) \<Rightarrow> nat \<Rightarrow> body_stream \<Rightarrow> (body_error + body_stream) option" where
  "read_trailers lm clk trailer_bytes st =
     (case read_body_line lm clk st of
        Inl e \<Rightarrow> Some (Inl e)
      | Inr (None, st') \<Rightarrow> Some (Inl Closed_In_Trailer)
      | Inr (Some trailer, st') \<Rightarrow>
          if trailer = [] then Some (Inr st')
          else if trailer_bytes + length trailer > 8192 then Some (Inl Trailer_Too_Large)
          else read_trailers lm clk (trailer_bytes + length trailer) st')"

definition publish_window :: "ingest_limits \<Rightarrow> (nat \<Rightarrow> int) \<Rightarrow> body_stream \<Rightarrow> body_error + bool \<times> body_stream" where
  "publish_window lm clk st =
     (if chunk_pos st \<ge> length (served_chunk st) then Inr (False, st)
      else bind_sum (require_within_deadline lm clk st) (\<lambda>st1.
        let w = min (64 * 1024) (length (served_chunk st1) - chunk_pos st1) in
        Inr (True, st1\<lparr>get_area := substr (served_chunk st1) (chunk_pos st1) w, chunk_pos := chunk_pos st1 + w\<rparr>)))"

text \<open>Dropping the consumed bytes of the buffer.\<close>

definition compact_pending :: "body_stream \<Rightarrow> body_stream" where
  "compact_pending st =
     (if pending_pos st > 64 * 1024 then st\<lparr>pending := drop (pending_pos st) (pending st), pending_pos := 0\<rparr> else st)"

definition take_chunk :: "ingest_limits \<Rightarrow> (nat \<Rightarrow> int) \<Rightarrow> nat \<Rightarrow> body_stream \<Rightarrow> body_error + bool \<times> body_stream" where
  "take_chunk lm clk n_bytes st =
     bind_sum (ensure_available lm clk (n_bytes + 2) st) (\<lambda>(enough, st1).
       if \<not> enough then Inl Closed_Mid_Chunk
       else if substr (pending st1) (pending_pos st1 + n_bytes) 2 \<noteq> crlf then Inl No_Crlf
       else
         let st2 = st1\<lparr>get_area := [], served_chunk := substr (pending st1) (pending_pos st1) n_bytes,
                       pending_pos := pending_pos st1 + n_bytes + 2\<rparr>
         in bind_sum (publish_window lm clk ((compact_pending st2)\<lparr>chunk_pos := 0\<rparr>)) (\<lambda>(_, st3). Inr (True, st3)))"

definition next_chunk :: "ingest_limits \<Rightarrow> (nat \<Rightarrow> int) \<Rightarrow> body_stream \<Rightarrow> (body_error + bool \<times> body_stream) option" where
  "next_chunk lm clk st =
     (if stream_finished st then Some (Inr (False, st))
      else case bind_sum (require_within_deadline lm clk st) (read_body_line lm clk) of
        Inl e \<Rightarrow> Some (Inl e)
      | Inr (None, _) \<Rightarrow> Some (Inl Closed_Before_End)
      | Inr (Some line, st1) \<Rightarrow>
          (case size_of_line lm line of
             Inl e \<Rightarrow> Some (Inl e)
           | Inr n_bytes \<Rightarrow>
               if n_bytes = 0
               then map_option (\<lambda>r. bind_sum r (\<lambda>st2. Inr (False, st2))) (read_trailers lm clk 0 (st1\<lparr>stream_finished := True\<rparr>))
               else Some (take_chunk lm clk n_bytes st1)))"

text \<open>\<open>True\<close>: there is something in the get area; \<open>False\<close>: the end of the stream.\<close>

definition underflow :: "ingest_limits \<Rightarrow> (nat \<Rightarrow> int) \<Rightarrow> body_stream \<Rightarrow> (body_error + bool \<times> body_stream) option" where
  "underflow lm clk st =
     (if get_area st \<noteq> [] then Some (Inr (True, st))
      else case bind_sum (require_within_body_cap lm st) (publish_window lm clk) of
        Inl e \<Rightarrow> Some (Inl e)
      | Inr (True, st1) \<Rightarrow> Some (Inr (True, st1))
      | Inr (False, st1) \<Rightarrow> next_chunk lm clk st1)"

text \<open>A reader that takes whatever there is until the end or an exception: the bytes it got and how it ended.\<close>

partial_function (option) read_body ::
  "ingest_limits \<Rightarrow> (nat \<Rightarrow> int) \<Rightarrow> body_stream \<Rightarrow> (string \<times> body_error option) option" where
  "read_body lm clk st =
     (case underflow lm clk st of
        None \<Rightarrow> None
      | Some (Inl e) \<Rightarrow> Some ([], Some e)
      | Some (Inr (ready, st1)) \<Rightarrow>
          if ready then Option.bind (read_body lm clk (st1\<lparr>get_area := []\<rparr>)) (\<lambda>x. Some (get_area st1 @ fst x, snd x))
          else Some ([], None))"

subsection \<open>Well-formed bodies\<close>

definition line_ok :: "nat \<Rightarrow> string \<Rightarrow> bool" where
  "line_ok n l \<longleftrightarrow> find_sub crlf (l @ crlf) = Some (length l) \<and> length l \<le> n"

definition trailer_text :: "string list \<Rightarrow> string" where
  "trailer_text ts = concat (map (\<lambda>t. t @ crlf) ts) @ crlf"

text \<open>The chunks with their size lines, the last size line, the trailer.\<close>

definition body_text :: "(string \<times> string) list \<Rightarrow> string \<Rightarrow> string list \<Rightarrow> string" where
  "body_text cs l ts = concat (map (\<lambda>(h, c). h @ crlf @ c @ crlf) cs) @ l @ crlf @ trailer_text ts"

definition valid_chunk :: "ingest_limits \<Rightarrow> nat \<Rightarrow> string \<times> string \<Rightarrow> bool" where
  "valid_chunk lm n x \<longleftrightarrow> line_ok n (fst x) \<and> snd x \<noteq> [] \<and> size_of_line lm (fst x) = Inr (length (snd x))"

definition valid_trailers :: "nat \<Rightarrow> string list \<Rightarrow> bool" where
  "valid_trailers n ts \<longleftrightarrow> (\<forall>t\<in>set ts. line_ok n t \<and> t \<noteq> []) \<and> sum_list (map length ts) \<le> 8192"

definition valid_body :: "ingest_limits \<Rightarrow> nat \<Rightarrow> (string \<times> string) list \<Rightarrow> string \<Rightarrow> string list \<Rightarrow> bool" where
  "valid_body lm n cs l ts \<longleftrightarrow>
     (\<forall>x\<in>set cs. valid_chunk lm n x) \<and> line_ok n l \<and> size_of_line lm l = Inr 0 \<and> valid_trailers n ts"

subsection \<open>What the operations consume\<close>

lemma find_sub_take_prefix:
  "find_sub p s = Some i \<Longrightarrow> i + length p \<le> n \<Longrightarrow> find_sub p (take n s) = Some i"
proof (induction p s arbitrary: i n rule: find_sub.induct)
  case (2 p c cs)
  show ?case
  proof (cases n)
    case 0
    with 2(3) have "p = []" by simp
    with 2(2) 0 show ?thesis by simp
  next
    case (Suc m)
    have sw: "starts_with p (c # take m cs) = starts_with p (c # cs)" if "length p \<le> n"
    proof -
      have "take (length p) (take n (c # cs)) = take (length p) (c # cs)" using that by (simp add: min_def)
      then show ?thesis using Suc by (simp add: starts_with_take)
    qed
    show ?thesis
    proof (cases "starts_with p (c # cs)")
      case True
      with 2(2,3) Suc show ?thesis by (auto simp: sw)
    next
      case False
      then obtain j where j: "i = Suc j" "find_sub p cs = Some j" using 2(2) by auto
      with 2(3) Suc have "j + length p \<le> m" "length p \<le> n" by auto
      with 2(1) [OF False j(2)] False Suc j sw show ?thesis by auto
    qed
  qed
qed (auto split: if_splits)

lemma find_sub_line_ok:
  assumes "find_sub crlf s = Some i"
  shows "s = take i s @ crlf @ drop (i + 2) s" "find_sub crlf (take i s @ crlf) = Some (length (take i s))"
proof -
  have sw: "starts_with crlf (drop i s)" "i + length crlf \<le> length s" using find_sub_Some [OF assms] by auto
  then obtain v where v: "drop i s = crlf @ v" by (auto simp: starts_with_iff)
  then have "drop (i + 2) s = v" by (metis append_eq_conv_conj crlf_def drop_drop length_Cons list.size(3) numeral_2_eq_2 add.commute)
  with v show s: "s = take i s @ crlf @ drop (i + 2) s" by (metis append_take_drop_id)
  have "take (i + length crlf) s = take i s @ crlf"
    using v sw(2) by (metis add.commute append_eq_conv_conj take_add)
  with find_sub_take_prefix [OF assms, of "i + length crlf"] sw(2)
  show "find_sub crlf (take i s @ crlf) = Some (length (take i s))" by simp
qed

definition under_cap :: "ingest_limits \<Rightarrow> body_stream \<Rightarrow> bool" where
  "under_cap lm st \<longleftrightarrow> max_body_bytes lm = 0 \<or> received_bytes st \<le> max_body_bytes lm"

text \<open>\<open>took lm st x st'\<close>: the bytes \<open>x\<close> were taken off the front of the connection.\<close>

definition took :: "ingest_limits \<Rightarrow> body_stream \<Rightarrow> string \<Rightarrow> body_stream \<Rightarrow> bool" where
  "took lm st x st' \<longleftrightarrow> rest_of st = x @ rest_of st' \<and>
     received_bytes st' + length (buffered st) = received_bytes st + length x + length (buffered st') \<and>
     (under_cap lm st \<longrightarrow> under_cap lm st') \<and> pending_pos st' \<le> length (pending st')"

lemma took_trans: "took lm a x b \<Longrightarrow> took lm b y c \<Longrightarrow> took lm a (x @ y) c"
  by (auto simp: took_def)

lemma took_ticked: "ticked st st' \<Longrightarrow> pending_pos st \<le> length (pending st) \<Longrightarrow> took lm st [] st' \<and> same_chunk st st'"
  by (auto simp: ticked_def took_def rest_of_def buffered_def under_cap_def same_chunk_def)

lemma took_receive:
  assumes "receive_more lm clk st = Inr (True, st')" "pending_pos st \<le> length (pending st)"
  shows "took lm st [] st' \<and> same_chunk st st'"
  using receive_more_result(1-2) [OF assms(1)] receive_more_result(3) [OF assms(1) TrueI] assms(2)
  by (auto simp: took_def rest_of_def buffered_def under_cap_def)

lemma ensure_available_result:
  "ensure_available lm clk n st = Inr (True, st') \<Longrightarrow> pending_pos st \<le> length (pending st) \<Longrightarrow>
   took lm st [] st' \<and> same_chunk st st' \<and> n \<le> length (buffered st')"
proof (induction lm clk n st rule: ensure_available.induct)
  case (1 lm clk n st)
  show ?case
  proof (cases "length (pending st) - pending_pos st < n")
    case True
    then obtain st1 where st1: "receive_more lm clk st = Inr (True, st1)" "ensure_available lm clk n st1 = Inr (True, st')"
      using 1(2) by (subst (asm) ensure_available.simps) (auto split: sum.splits bool.splits)
    have t: "took lm st [] st1" "same_chunk st st1" using took_receive [OF st1(1) 1(3)] by auto
    then have "pending_pos st1 \<le> length (pending st1)" by (simp add: took_def)
    with 1(1) [OF True st1(1) refl refl st1(2)] t took_trans same_chunk_trans show ?thesis by fastforce
  next
    case False
    then have "st' = st" using 1(2) by (simp add: ensure_available.simps)
    with False 1(3) show ?thesis by (auto simp: took_def same_chunk_def buffered_def)
  qed
qed

lemma read_body_line_result:
  "read_body_line lm clk st = Inr (Some l, st') \<Longrightarrow> pending_pos st \<le> length (pending st) \<Longrightarrow>
   took lm st (l @ crlf) st' \<and> same_chunk st st' \<and> line_ok 8192 l"
proof (induction lm clk st rule: read_body_line.induct)
  case (1 lm clk st)
  show ?case
  proof (cases "find_sub_from crlf (pending st) (pending_pos st)")
    case None
    then obtain st1 where st1: "receive_more lm clk st = Inr (True, st1)" "read_body_line lm clk st1 = Inr (Some l, st')"
      "\<not> length (pending st) - pending_pos st > 8192"
      using 1(2) by (subst (asm) read_body_line.simps) (auto split: sum.splits bool.splits if_splits)
    have t: "took lm st [] st1" "same_chunk st st1" using took_receive [OF st1(1) 1(3)] by auto
    then have "pending_pos st1 \<le> length (pending st1)" by (simp add: took_def)
    with 1(1) [OF None st1(3,1) refl refl st1(2)] t took_trans same_chunk_trans show ?thesis by fastforce
  next
    case (Some eol)
    then obtain i where i: "find_sub crlf (buffered st) = Some i" "eol = pending_pos st + i"
      by (auto simp: find_sub_from_def buffered_def)
    have l: "l = take i (buffered st)" "st' = st\<lparr>pending_pos := eol + 2\<rparr>" "i \<le> 8192"
      using 1(2) Some i(2) by (auto simp: read_body_line.simps substr_def buffered_def split: if_splits)
    have b: "buffered st = l @ crlf @ buffered st'" and ok: "find_sub crlf (l @ crlf) = Some (length l)"
      using find_sub_line_ok [OF i(1)] l i(2) by (simp_all add: buffered_def add.commute add.left_commute)
    have "i + 2 \<le> length (buffered st)" using find_sub_Some [OF i(1)] by (simp add: crlf_def)
    then have "pending_pos st' \<le> length (pending st')" using l(2) i(2) by (simp add: buffered_def)
    moreover have "length (buffered st) = length l + length crlf + length (buffered st')" using arg_cong [OF b, of length] by simp
    moreover have "rest_of st = (l @ crlf) @ rest_of st'" using b l(2) by (simp add: rest_of_def)
    ultimately show ?thesis using ok l by (simp add: took_def under_cap_def same_chunk_def line_ok_def)
  qed
qed

lemma took_shorter: "took lm st x st' \<Longrightarrow> length (rest_of st') + length x = length (rest_of st)"
  by (simp add: took_def)

lemma took_pos: "took lm st x st' \<Longrightarrow> pending_pos st' \<le> length (pending st')"
  by (simp add: took_def)

text \<open>The body was read up to the end of its trailer; \<open>k\<close> bytes of the trailer were read before.\<close>

lemma read_trailers_result:
  assumes "pending_pos st \<le> length (pending st)" "k \<le> 8192"
  shows "\<exists>r. read_trailers lm clk k st = Some r \<and>
    (\<forall>st'. r = Inr st' \<longrightarrow> same_chunk st st' \<and> (\<exists>ts. took lm st (trailer_text ts) st' \<and>
      (\<forall>t\<in>set ts. line_ok 8192 t \<and> t \<noteq> []) \<and> k + sum_list (map length ts) \<le> 8192))"
  using assms
proof (induction "length (rest_of st)" arbitrary: st k rule: less_induct)
  case less
  consider (err) e where "read_body_line lm clk st = Inl e" | (eof) st1 where "read_body_line lm clk st = Inr (None, st1)"
    | (line) t st1 where "read_body_line lm clk st = Inr (Some t, st1)"
    by (metis old.sum.exhaust old.prod.exhaust option.exhaust)
  then show ?case
  proof cases
    case err
    then show ?thesis by (subst read_trailers.simps) simp
  next
    case eof
    then show ?thesis by (subst read_trailers.simps) simp
  next
    case line
    note l = read_body_line_result [OF line less.prems(1)]
    show ?thesis
    proof (cases "t = [] \<or> k + length t > 8192")
      case True
      have "took lm st (trailer_text []) st1" if "t = []" using l that by (simp add: trailer_text_def)
      with True line l less.prems(2) show ?thesis by (subst read_trailers.simps) fastforce
    next
      case False
      have "length (rest_of st1) < length (rest_of st)" using l took_shorter by (fastforce simp: crlf_def)
      from less.hyps [OF this, of "k + length t"] False l took_pos obtain r where r:
        "read_trailers lm clk (k + length t) st1 = Some r" "\<forall>st'. r = Inr st' \<longrightarrow> same_chunk st1 st' \<and> (\<exists>ts. took lm st1 (trailer_text ts) st' \<and>
          (\<forall>t\<in>set ts. line_ok 8192 t \<and> t \<noteq> []) \<and> k + length t + sum_list (map length ts) \<le> 8192)" by auto
      have "same_chunk st st' \<and> (\<exists>ts. took lm st (trailer_text ts) st' \<and> (\<forall>t\<in>set ts. line_ok 8192 t \<and> t \<noteq> []) \<and>
          k + sum_list (map length ts) \<le> 8192)" if st': "r = Inr st'" for st'
      proof -
        obtain ts where ts: "took lm st1 (trailer_text ts) st'" "\<forall>t\<in>set ts. line_ok 8192 t \<and> t \<noteq> []"
          "k + length t + sum_list (map length ts) \<le> 8192" "same_chunk st1 st'" using r(2) st' by auto
        have "took lm st (trailer_text (t # ts)) st'" using took_trans [of lm st "t @ crlf" st1, OF _ ts(1)] l by (simp add: trailer_text_def)
        moreover have "same_chunk st st'" using l ts(4) same_chunk_trans by blast
        ultimately show ?thesis using ts(2,3) l False by (intro conjI exI [of _ "t # ts"]) auto
      qed
      with r(1) line False show ?thesis by (subst read_trailers.simps) auto
    qed
  qed
qed

definition unread_chunk :: "body_stream \<Rightarrow> string" where
  "unread_chunk st = drop (chunk_pos st) (served_chunk st)"

lemma publish_window_result:
  assumes "publish_window lm clk st = Inr (got, st')" "pending_pos st \<le> length (pending st)"
  shows "took lm st [] st' \<and> stream_finished st' = stream_finished st \<and>
    (if got then unread_chunk st = get_area st' @ unread_chunk st' \<and> get_area st' \<noteq> []
     else unread_chunk st = [] \<and> same_chunk st st')"
proof (cases "chunk_pos st \<ge> length (served_chunk st)")
  case True
  with assms show ?thesis by (auto simp: publish_window_def took_def unread_chunk_def same_chunk_def)
next
  case False
  then obtain st1 where st1: "require_within_deadline lm clk st = Inr st1" and got: "got"
    and st': "st' = st1\<lparr>get_area := substr (served_chunk st1) (chunk_pos st1) (min (64 * 1024) (length (served_chunk st1) - chunk_pos st1)),
      chunk_pos := chunk_pos st1 + min (64 * 1024) (length (served_chunk st1) - chunk_pos st1)\<rparr>"
    using assms(1) by (auto simp: publish_window_def bind_sum_def Let_def split: sum.splits)
  have t: "took lm st [] st1" "same_chunk st st1" using took_ticked [OF deadline_ticked [OF st1] assms(2)] by auto
  then have "took lm st [] st'" by (simp add: st' took_def rest_of_def buffered_def under_cap_def)
  moreover have "drop (chunk_pos st + w) (served_chunk st) = drop w (drop (chunk_pos st) (served_chunk st))" for w
    by (simp add: add.commute)
  then have "unread_chunk st = get_area st' @ unread_chunk st'"
    using t(2) by (simp add: st' unread_chunk_def same_chunk_def substr_def del: drop_drop)
  moreover have "get_area st' \<noteq> []" using t(2) False by (simp add: st' same_chunk_def substr_def)
  ultimately show ?thesis using got t(2) by (simp add: st' same_chunk_def)
qed

lemma compact_fields [simp]:
  "buffered (compact_pending st) = buffered st" "rest_of (compact_pending st) = rest_of st"
  "received_bytes (compact_pending st) = received_bytes st" "served_chunk (compact_pending st) = served_chunk st"
  "get_area (compact_pending st) = get_area st" "stream_finished (compact_pending st) = stream_finished st"
  by (auto simp: compact_pending_def buffered_def rest_of_def)

lemma compact_pos: "pending_pos st \<le> length (pending st) \<Longrightarrow> pending_pos (compact_pending st) \<le> length (pending (compact_pending st))"
  by (auto simp: compact_pending_def)

lemma take_chunk_result:
  assumes "take_chunk lm clk n st = Inr (got, st')" "pending_pos st \<le> length (pending st)" "0 < n"
  shows "got \<and> stream_finished st' = stream_finished st \<and> (\<exists>c. length c = n \<and> took lm st (c @ crlf) st' \<and>
    c = get_area st' @ unread_chunk st' \<and> get_area st' \<noteq> [])"
proof -
  obtain st1 where st1: "ensure_available lm clk (n + 2) st = Inr (True, st1)"
    using assms(1) by (auto simp: take_chunk_def bind_sum_def split: sum.splits if_splits)
  note e = ensure_available_result [OF st1 assms(2)]
  define c where "c = substr (pending st1) (pending_pos st1) n"
  define st2 where "st2 = (compact_pending (st1\<lparr>get_area := [], served_chunk := c, pending_pos := pending_pos st1 + n + 2\<rparr>))\<lparr>chunk_pos := 0\<rparr>"
  obtain b where ends: "substr (pending st1) (pending_pos st1 + n) 2 = crlf" and pub: "publish_window lm clk st2 = Inr (b, st')" and got: got
    using assms(1) st1 by (auto simp: take_chunk_def bind_sum_def Let_def c_def st2_def split: sum.splits if_splits)
  have len: "length c = n" using e by (auto simp: c_def substr_def buffered_def)
  have pos2: "pending_pos st2 \<le> length (pending st2)"
  proof -
    have "n + 2 \<le> length (pending st1) - pending_pos st1" using e by (simp add: buffered_def)
    then have "pending_pos st1 + n + 2 \<le> length (pending st1)" by linarith
    then show ?thesis
      using compact_pos [of "st1\<lparr>get_area := [], served_chunk := c, pending_pos := pending_pos st1 + n + 2\<rparr>"] by (simp add: st2_def)
  qed
  have "buffered st1 = c @ drop n (buffered st1)" by (simp add: c_def substr_def buffered_def del: drop_drop)
  moreover have "drop n (buffered st1) = crlf @ drop (n + 2) (buffered st1)"
    using ends by (metis add.commute append_take_drop_id buffered_def drop_drop substr_def)
  ultimately have b1: "buffered st1 = c @ crlf @ drop (n + 2) (buffered st1)" by simp
  have b2: "buffered st2 = drop (n + 2) (buffered st1)" "rest_of st2 = drop (n + 2) (buffered st1) @ arriving (connection_events st1)"
    using compact_fields(1,2) [of "st1\<lparr>get_area := [], served_chunk := c, pending_pos := pending_pos st1 + n + 2\<rparr>"]
    by (simp_all add: st2_def buffered_def rest_of_def add.commute)
  have "rest_of st1 = (c @ crlf) @ rest_of st2" unfolding b2(2) by (metis b1 append_assoc rest_of_def)
  moreover have "length (buffered st1) = length (c @ crlf) + length (buffered st2)"   proof -
    have "length (buffered st2) = length (buffered st1) - (n + 2)" "length (c @ crlf) = n + 2" "n + 2 \<le> length (buffered st1)"
      using e len b2(1) by (simp_all add: crlf_def)
    then show ?thesis by linarith
  qed
  moreover have "received_bytes st2 = received_bytes st1" by (simp add: st2_def)
  ultimately have "took lm st1 (c @ crlf) st2" using pos2 by (simp add: took_def under_cap_def)
  from took_trans [OF conjunct1 [OF e] this] publish_window_result [OF pub pos2]
  have t: "took lm st (c @ crlf) st'" using took_trans by fastforce
  have "unread_chunk st2 = c" by (simp add: unread_chunk_def st2_def)
  with publish_window_result [OF pub pos2] len assms(3) have "c = get_area st' @ unread_chunk st'" "get_area st' \<noteq> []" "b"
    by (auto split: if_splits)
  moreover have "stream_finished st' = stream_finished st" using publish_window_result [OF pub pos2] e by (simp add: st2_def same_chunk_def)
  ultimately show ?thesis using t got len by blast
qed

lemma next_chunk_result:
  assumes pos: "pending_pos st \<le> length (pending st)" and "\<not> stream_finished st"
  shows "\<exists>r. next_chunk lm clk st = Some r \<and> (\<forall>got st'. r = Inr (got, st') \<longrightarrow>
    (if got then \<not> stream_finished st' \<and> get_area st' \<noteq> [] \<and>
       (\<exists>h. valid_chunk lm 8192 (h, get_area st' @ unread_chunk st') \<and>
          took lm st (h @ crlf @ (get_area st' @ unread_chunk st') @ crlf) st')
     else \<exists>l ts. took lm st (l @ crlf @ trailer_text ts) st' \<and> valid_body lm 8192 [] l ts))"
proof -
  let ?line = "bind_sum (require_within_deadline lm clk st) (read_body_line lm clk)"
  consider (err) e where "?line = Inl e" | (eof) st1 where "?line = Inr (None, st1)" | (line) l st1 where "?line = Inr (Some l, st1)"
    by (metis old.sum.exhaust old.prod.exhaust option.exhaust)
  then show ?thesis
  proof cases
    case line
    then obtain st0 where st0: "require_within_deadline lm clk st = Inr st0" "read_body_line lm clk st0 = Inr (Some l, st1)"
      by (auto simp: bind_sum_def split: sum.splits)
    have t0: "took lm st [] st0" "same_chunk st st0" using took_ticked [OF deadline_ticked [OF st0(1)] pos] by auto
    note r = read_body_line_result [OF st0(2) took_pos [OF t0(1)]]
    have t1: "took lm st (l @ crlf) st1" "line_ok 8192 l" "\<not> stream_finished st1"
      using r took_trans [OF t0(1)] t0(2) assms(2) by (auto simp: same_chunk_def)
    show ?thesis
    proof (cases "size_of_line lm l")
      case (Inl e)
      with line assms(2) show ?thesis by (simp add: next_chunk_def)
    next
      case (Inr n)
      show ?thesis
      proof (cases "n = 0")
        case True
        have "pending_pos (st1\<lparr>stream_finished := True\<rparr>) \<le> length (pending (st1\<lparr>stream_finished := True\<rparr>))" using took_pos [OF t1(1)] by simp
        from read_trailers_result [OF this, of 0 lm clk] obtain q where q: "read_trailers lm clk 0 (st1\<lparr>stream_finished := True\<rparr>) = Some q"
          "\<forall>st'. q = Inr st' \<longrightarrow> (\<exists>ts. took lm (st1\<lparr>stream_finished := True\<rparr>) (trailer_text ts) st' \<and>
            (\<forall>t\<in>set ts. line_ok 8192 t \<and> t \<noteq> []) \<and> sum_list (map length ts) \<le> 8192)" by auto
        have "\<exists>l ts. took lm st (l @ crlf @ trailer_text ts) st' \<and> valid_body lm 8192 [] l ts" if "q = Inr st'" for st'
        proof -
          obtain ts where "took lm (st1\<lparr>stream_finished := True\<rparr>) (trailer_text ts) st'" "valid_trailers 8192 ts"
            using q(2) \<open>q = Inr st'\<close> by (auto simp: valid_trailers_def)
          moreover have "took lm (st1\<lparr>stream_finished := True\<rparr>) x st' = took lm st1 x st'" for x
            by (simp add: took_def rest_of_def buffered_def under_cap_def)
          ultimately have "took lm st (l @ crlf @ trailer_text ts) st'" using took_trans [OF t1(1)] by fastforce
          with t1(2) Inr True \<open>valid_trailers 8192 ts\<close> show ?thesis by (auto simp: valid_body_def)
        qed
        with line assms(2) Inr True q(1) show ?thesis by (auto simp: next_chunk_def bind_sum_def split: sum.splits)
      next
        case False
        have "if got then \<not> stream_finished st' \<and> get_area st' \<noteq> [] \<and>
            (\<exists>h. valid_chunk lm 8192 (h, get_area st' @ unread_chunk st') \<and>
              took lm st (h @ crlf @ (get_area st' @ unread_chunk st') @ crlf) st')
          else \<exists>l ts. took lm st (l @ crlf @ trailer_text ts) st' \<and> valid_body lm 8192 [] l ts"
          if "take_chunk lm clk n st1 = Inr (got, st')" for got st'
        proof -
          from take_chunk_result [OF that took_pos [OF t1(1)]] False obtain c where c: "got" "stream_finished st' = stream_finished st1"
            "length c = n" "took lm st1 (c @ crlf) st'" "c = get_area st' @ unread_chunk st'" "get_area st' \<noteq> []" by auto
          have "took lm st (l @ crlf @ c @ crlf) st'" using took_trans [OF t1(1) c(4)] by simp
          moreover have "valid_chunk lm 8192 (l, c)" using t1(2) Inr False c(3) by (auto simp: valid_chunk_def)
          ultimately show ?thesis using c(1,2,5,6) t1(3) by auto
        qed
        with line assms(2) Inr False show ?thesis by (auto simp: next_chunk_def)
      qed
    qed
  qed (use assms(2) in \<open>simp_all add: next_chunk_def\<close>)
qed

text \<open>One refill of the get area: the rest of the chunk, the next chunk, the end, or an exception.\<close>

lemma underflow_result:
  assumes "pending_pos st \<le> length (pending st)" "\<not> stream_finished st" "get_area st = []"
  shows "\<exists>r. underflow lm clk st = Some r \<and> (\<forall>got st'. r = Inr (got, st') \<longrightarrow> under_cap lm st \<and>
    (if got then \<not> stream_finished st' \<and> get_area st' \<noteq> [] \<and>
       (took lm st [] st' \<and> unread_chunk st = get_area st' @ unread_chunk st' \<or>
        unread_chunk st = [] \<and> (\<exists>h. valid_chunk lm 8192 (h, get_area st' @ unread_chunk st') \<and>
          took lm st (h @ crlf @ (get_area st' @ unread_chunk st') @ crlf) st'))
     else unread_chunk st = [] \<and> (\<exists>l ts. took lm st (l @ crlf @ trailer_text ts) st' \<and> valid_body lm 8192 [] l ts)))"
proof (cases "require_within_body_cap lm st")
  case (Inl e)
  with assms(3) show ?thesis by (simp add: underflow_def bind_sum_def)
next
  case (Inr st0)
  then have st0: "st0 = st" "under_cap lm st" by (auto simp: require_within_body_cap_def under_cap_def split: if_splits)
  consider (err) e where "publish_window lm clk st = Inl e" | (win) st1 where "publish_window lm clk st = Inr (True, st1)"
    | (no) st1 where "publish_window lm clk st = Inr (False, st1)"
    by (metis (full_types) old.sum.exhaust old.prod.exhaust)
  then show ?thesis
  proof cases
    case err
    with Inr st0 assms(3) show ?thesis by (simp add: underflow_def bind_sum_def)
  next
    case win
    with Inr st0 assms publish_window_result [OF win assms(1)] show ?thesis by (simp add: underflow_def bind_sum_def)
  next
    case no
    note p = publish_window_result [OF no assms(1)]
    then have "st1 = st" using no by (auto simp: publish_window_def bind_sum_def Let_def split: if_splits sum.splits)
    with Inr st0 assms(3) no have eq: "underflow lm clk st = next_chunk lm clk st" by (simp add: underflow_def bind_sum_def)
    obtain r where r: "next_chunk lm clk st = Some r" "\<forall>got st'. r = Inr (got, st') \<longrightarrow>
      (if got then \<not> stream_finished st' \<and> get_area st' \<noteq> [] \<and>
         (\<exists>h. valid_chunk lm 8192 (h, get_area st' @ unread_chunk st') \<and>
            took lm st (h @ crlf @ (get_area st' @ unread_chunk st') @ crlf) st')
       else \<exists>l ts. took lm st (l @ crlf @ trailer_text ts) st' \<and> valid_body lm 8192 [] l ts)"
      using next_chunk_result [OF assms(1,2)] by blast
    with p st0(2) show ?thesis unfolding eq by (intro exI [of _ r]) (simp split: if_splits)
  qed
qed

lemma body_text_Cons: "body_text ((h, c) # cs) l ts = (h @ crlf @ c @ crlf) @ body_text cs l ts"
  by (simp add: body_text_def)

lemma read_body_result:
  assumes "pending_pos st \<le> length (pending st)" "\<not> stream_finished st" "get_area st = []"
  shows "\<exists>out r. read_body lm clk st = Some (out, r) \<and>
    (r = None \<longrightarrow> (\<exists>cs l ts left. rest_of st = body_text cs l ts @ left \<and> valid_body lm 8192 cs l ts \<and>
       out = unread_chunk st @ concat (map snd cs))) \<and>
    (\<forall>k. k + length (buffered st) + length (unread_chunk st) \<le> received_bytes st \<and> 0 < max_body_bytes lm \<and> k \<le> max_body_bytes lm
       \<longrightarrow> k + length out \<le> max_body_bytes lm)"
  using assms
proof (induction "length (rest_of st) + length (unread_chunk st)" arbitrary: st rule: less_induct)
  case less
  obtain u where u: "underflow lm clk st = Some u" and res: "\<forall>got st'. u = Inr (got, st') \<longrightarrow> under_cap lm st \<and>
    (if got then \<not> stream_finished st' \<and> get_area st' \<noteq> [] \<and>
       (took lm st [] st' \<and> unread_chunk st = get_area st' @ unread_chunk st' \<or>
        unread_chunk st = [] \<and> (\<exists>h. valid_chunk lm 8192 (h, get_area st' @ unread_chunk st') \<and>
          took lm st (h @ crlf @ (get_area st' @ unread_chunk st') @ crlf) st'))
     else unread_chunk st = [] \<and> (\<exists>l ts. took lm st (l @ crlf @ trailer_text ts) st' \<and> valid_body lm 8192 [] l ts))"
    using underflow_result [OF less.prems] by blast
  consider (err) e where "u = Inl e" | (eof) st1 where "u = Inr (False, st1)" | (got) st1 where "u = Inr (True, st1)"
    by (metis (full_types) old.sum.exhaust old.prod.exhaust)
  then show ?case
  proof cases
    case err
    with u show ?thesis by (subst read_body.simps) simp
  next
    case eof
    with res obtain l ts where "unread_chunk st = []" "took lm st (l @ crlf @ trailer_text ts) st1" "valid_body lm 8192 [] l ts" by auto
    then have "rest_of st = body_text [] l ts @ rest_of st1" by (simp add: took_def body_text_def)
    with \<open>valid_body lm 8192 [] l ts\<close> \<open>unread_chunk st = []\<close> u eof show ?thesis
      by (subst read_body.simps) fastforce
  next
    case got
    define w where "w = get_area st1"
    let ?st2 = "st1\<lparr>get_area := []\<rparr>"
    have cap: "under_cap lm st" and st1: "\<not> stream_finished st1" "w \<noteq> []" and
      cases: "took lm st [] st1 \<and> unread_chunk st = w @ unread_chunk st1 \<or>
        unread_chunk st = [] \<and> (\<exists>h. valid_chunk lm 8192 (h, w @ unread_chunk st1) \<and>
          took lm st (h @ crlf @ (w @ unread_chunk st1) @ crlf) st1)"
      using res got by (auto simp: w_def)
    have st2: "rest_of ?st2 = rest_of st1" "unread_chunk ?st2 = unread_chunk st1" "buffered ?st2 = buffered st1"
      "received_bytes ?st2 = received_bytes st1" by (simp_all add: rest_of_def unread_chunk_def buffered_def)
    have less': "length (rest_of ?st2) + length (unread_chunk ?st2) < length (rest_of st) + length (unread_chunk st)"
      unfolding st2 using cases st1(2) by (auto simp: took_def crlf_def)
    have pos2: "pending_pos ?st2 \<le> length (pending ?st2)" using cases by (auto simp: took_def)
    have fin2: "\<not> stream_finished ?st2" "get_area ?st2 = []" using st1(1) by simp_all
    obtain out r where ih: "read_body lm clk ?st2 = Some (out, r)"
      "r = None \<longrightarrow> (\<exists>cs l ts left. rest_of st1 = body_text cs l ts @ left \<and> valid_body lm 8192 cs l ts \<and>
         out = unread_chunk st1 @ concat (map snd cs))"
      "\<forall>k. k + length (buffered st1) + length (unread_chunk st1) \<le> received_bytes st1 \<and> 0 < max_body_bytes lm \<and> k \<le> max_body_bytes lm
         \<longrightarrow> k + length out \<le> max_body_bytes lm"
      using less.hyps [OF less' pos2 fin2] unfolding st2 by blast
    have rb: "read_body lm clk st = Some (w @ out, r)" using u got ih(1) by (subst read_body.simps) (simp add: w_def)
    have sound: "\<exists>cs l ts left. rest_of st = body_text cs l ts @ left \<and> valid_body lm 8192 cs l ts \<and>
       w @ out = unread_chunk st @ concat (map snd cs)" if "r = None"
    proof -
      obtain cs l ts left where b: "rest_of st1 = body_text cs l ts @ left" "valid_body lm 8192 cs l ts"
        "out = unread_chunk st1 @ concat (map snd cs)" using ih(2) \<open>r = None\<close> by blast
      from cases show ?thesis
      proof
        assume c: "took lm st [] st1 \<and> unread_chunk st = w @ unread_chunk st1"
        then have "rest_of st = body_text cs l ts @ left" using b(1) by (simp add: took_def)
        moreover have "w @ out = unread_chunk st @ concat (map snd cs)" using c b(3) by simp
        ultimately show ?thesis using b(2) by blast
      next
        assume "unread_chunk st = [] \<and> (\<exists>h. valid_chunk lm 8192 (h, w @ unread_chunk st1) \<and>
          took lm st (h @ crlf @ (w @ unread_chunk st1) @ crlf) st1)"
        then obtain h where h: "unread_chunk st = []" "valid_chunk lm 8192 (h, w @ unread_chunk st1)"
          "took lm st (h @ crlf @ (w @ unread_chunk st1) @ crlf) st1" by blast
        have "rest_of st = body_text ((h, w @ unread_chunk st1) # cs) l ts @ left"
          using h(3) b(1) by (simp add: took_def body_text_Cons)
        moreover have "valid_body lm 8192 ((h, w @ unread_chunk st1) # cs) l ts" using h(2) b(2) by (simp add: valid_body_def)
        moreover have "w @ out = unread_chunk st @ concat (map snd ((h, w @ unread_chunk st1) # cs))" using h(1) b(3) by simp
        ultimately show ?thesis by blast
      qed
    qed
    have bound: "k + length (w @ out) \<le> max_body_bytes lm"
      if k: "k + length (buffered st) + length (unread_chunk st) \<le> received_bytes st" "0 < max_body_bytes lm" for k
    proof -
      have "under_cap lm st1" using cap cases by (auto simp: took_def)
      then have "received_bytes st1 \<le> max_body_bytes lm" using k(2) by (simp add: under_cap_def)
      moreover have "k + length w + length (buffered st1) + length (unread_chunk st1) \<le> received_bytes st1"
        using cases k(1) by (auto simp: took_def)
      ultimately show ?thesis using ih(3) [rule_format, of "k + length w"] k(2) by simp
    qed
    with rb sound show ?thesis by auto
  qed
qed

subsection \<open>A good body is read whole\<close>

text \<open>No timeout strikes and the body stays within its cap.\<close>

definition calm :: "ingest_limits \<Rightarrow> (nat \<Rightarrow> int) \<Rightarrow> body_stream \<Rightarrow> bool" where
  "calm lm clk st \<longleftrightarrow> Silent \<notin> set (connection_events st) \<and> (total_timeout_ms lm \<le> 0 \<or> (\<forall>n. clk n < total_timeout_ms lm)) \<and>
     (max_body_bytes lm = 0 \<or> received_bytes st + length (arriving (connection_events st)) \<le> max_body_bytes lm)"

lemma calm_ticked: "calm lm clk st \<Longrightarrow> ticked st st' \<Longrightarrow> calm lm clk st'"
  by (auto simp: calm_def ticked_def)

lemma calm_clock: "calm lm clk st \<Longrightarrow> \<not> total_timeout_ms lm \<le> 0 \<Longrightarrow> \<not> total_timeout_ms lm \<le> clk n"
  by (auto simp: calm_def not_le)

lemma deadline_calm: "calm lm clk st \<Longrightarrow> \<exists>st'. require_within_deadline lm clk st = Inr st'"
  using calm_clock [of lm clk st] by (auto simp: require_within_deadline_def read_clock_def Let_def)

lemma wait_calm: "calm lm clk st \<Longrightarrow> \<exists>st'. wait_readable lm clk st = (True, st')"
proof -
  assume calm: "calm lm clk st"
  have poll: "\<exists>st'. poll_readable w st1 = (True, st')" if "connection_events st1 = connection_events st" for w st1
    using calm that by (auto simp: calm_def poll_readable_def split: list.splits recv_event.splits)
  show ?thesis
  proof (cases "total_timeout_ms lm \<le> 0")
    case True
    with poll show ?thesis by (simp add: wait_readable_def)
  next
    case False
    then have "\<not> total_timeout_ms lm - clk (clock_readings st) \<le> 0" using calm_clock [OF calm False] by simp
    with False poll show ?thesis by (simp add: wait_readable_def read_clock_def Let_def)
  qed
qed

lemma recv_bytes_calm:
  "Silent \<notin> set evs \<Longrightarrow> arriving evs \<noteq> [] \<Longrightarrow> \<exists>d evs'. evs = Arrives d # evs' \<and> d \<noteq> [] \<and> recv_bytes evs = (d, evs')"
  by (cases evs rule: arriving.cases) (auto split: if_splits)

lemma receive_more_calm:
  assumes "calm lm clk st" "arriving (connection_events st) \<noteq> []"
  shows "\<exists>st'. receive_more lm clk st = Inr (True, st') \<and> calm lm clk st'"
proof -
  obtain st1 where 1: "require_within_deadline lm clk st = Inr st1" using deadline_calm [OF assms(1)] by blast
  have c1: "calm lm clk st1" "connection_events st1 = connection_events st" "received_bytes st1 = received_bytes st"
    using calm_ticked [OF assms(1) deadline_ticked [OF 1]] deadline_ticked [OF 1] by (auto simp: ticked_def)
  obtain st2 where 2: "wait_readable lm clk st1 = (True, st2)" using wait_calm [OF c1(1)] by blast
  have c2: "calm lm clk st2" "connection_events st2 = connection_events st" "received_bytes st2 = received_bytes st"
    using calm_ticked [OF c1(1) wait_events [OF 2]] wait_events [OF 2] c1 by (auto simp: ticked_def)
  obtain d evs where e: "connection_events st2 = Arrives d # evs" "d \<noteq> []" "recv_bytes (connection_events st2) = (d, evs)"
    using recv_bytes_calm [of "connection_events st2"] c2 assms(2) by (auto simp: calm_def)
  have c3: "calm lm clk (st2\<lparr>connection_events := evs, received_bytes := received_bytes st2 + length d\<rparr>)"
    using c2(1) e by (simp add: calm_def add.assoc)
  have "calm lm clk (st2\<lparr>connection_events := evs\<rparr>)" using c3 by (auto simp: calm_def)
  then obtain st3 where 3: "require_within_deadline lm clk (st2\<lparr>connection_events := evs\<rparr>) = Inr st3" using deadline_calm by blast
  then obtain n where n: "st3 = st2\<lparr>connection_events := evs, clock_readings := n\<rparr>"
    using deadline_ticked by (fastforce simp: ticked_def)
  let ?st = "st3\<lparr>received_bytes := received_bytes st3 + length d, pending := pending st3 @ d\<rparr>"
  have "calm lm clk ?st" using c3 by (simp add: calm_def n)
  moreover from this have "require_within_body_cap lm (st3\<lparr>received_bytes := received_bytes st3 + length d\<rparr>) =
      Inr (st3\<lparr>received_bytes := received_bytes st3 + length d\<rparr>)"
    by (auto simp: require_within_body_cap_def calm_def)
  ultimately show ?thesis using 1 2 3 e by (simp add: receive_more_def bind_sum_def)
qed

lemma ensure_available_calm:
  "calm lm clk st \<Longrightarrow> pending_pos st \<le> length (pending st) \<Longrightarrow> n \<le> length (rest_of st) \<Longrightarrow>
   \<exists>st'. ensure_available lm clk n st = Inr (True, st') \<and> calm lm clk st'"
proof (induction lm clk n st rule: ensure_available.induct)
  case (1 lm clk n st)
  show ?case
  proof (cases "length (pending st) - pending_pos st < n")
    case True
    then have "arriving (connection_events st) \<noteq> []" using 1(4) by (auto simp: rest_of_def buffered_def)
    from receive_more_calm [OF 1(2) this] obtain st1 where st1: "receive_more lm clk st = Inr (True, st1)" "calm lm clk st1" by blast
    have "took lm st [] st1" using took_receive [OF st1(1) 1(3)] by simp
    then have "pending_pos st1 \<le> length (pending st1)" "n \<le> length (rest_of st1)" using 1(4) by (auto simp: took_def)
    from 1(1) [OF True st1(1) refl refl st1(2) this] True st1(1) show ?thesis by (simp add: ensure_available.simps [of lm clk n st])
  next
    case False
    with 1(2) show ?thesis by (simp add: ensure_available.simps [of lm clk n st])
  qed
qed

lemma line_in_rest:
  assumes "line_ok n l" "rest_of st = l @ crlf @ x"
  shows "find_sub crlf (rest_of st) = Some (length l)"
  using assms find_sub_append_left [of crlf "l @ crlf" "length l" x] by (simp add: line_ok_def)

lemma read_body_line_calm:
  "calm lm clk st \<Longrightarrow> pending_pos st \<le> length (pending st) \<Longrightarrow> line_ok 8191 l \<Longrightarrow> rest_of st = l @ crlf @ x \<Longrightarrow>
   \<exists>st'. read_body_line lm clk st = Inr (Some l, st') \<and> calm lm clk st' \<and> rest_of st' = x"
proof (induction lm clk st rule: read_body_line.induct)
  case (1 lm clk st)
  show ?case
  proof (cases "find_sub_from crlf (pending st) (pending_pos st)")
    case None
    then have none: "find_sub crlf (buffered st) = None" by (simp add: find_sub_from_def buffered_def)
    have short: "length (buffered st) < length l + 2"
    proof (rule ccontr)
      assume "\<not> ?thesis"
      moreover have "take (length l + 2) (rest_of st) = l @ crlf" using 1(5) by (simp add: crlf_def)
      ultimately have "take (length l + 2) (buffered st) = l @ crlf" by (simp add: rest_of_def)
      then have "buffered st = l @ crlf @ drop (length l + 2) (buffered st)" by (metis append_assoc append_take_drop_id)
      with none show False using find_sub_not_occurs by blast
    qed
    then have small: "\<not> length (pending st) - pending_pos st > 8192" using 1(4) by (auto simp: buffered_def line_ok_def)
    have "length (rest_of st) \<ge> length l + 2" using 1(5) by (simp add: crlf_def)
    with short have "arriving (connection_events st) \<noteq> []" by (auto simp: rest_of_def)
    from receive_more_calm [OF 1(2) this] obtain st1 where st1: "receive_more lm clk st = Inr (True, st1)" "calm lm clk st1" by blast
    have "took lm st [] st1" using took_receive [OF st1(1) 1(3)] by simp
    then have "pending_pos st1 \<le> length (pending st1)" "rest_of st1 = l @ crlf @ x" using 1(5) by (auto simp: took_def)
    from 1(1) [OF None small st1(1) refl refl st1(2) this(1) 1(4) this(2)] None small st1(1) show ?thesis
      by (simp add: read_body_line.simps [of lm clk st])
  next
    case (Some eol)
    then obtain i where i: "find_sub crlf (buffered st) = Some i" "eol = pending_pos st + i"
      by (auto simp: find_sub_from_def buffered_def)
    have "find_sub crlf (rest_of st) = Some i" using find_sub_append_left [OF i(1)] by (simp add: rest_of_def)
    with line_in_rest [OF 1(4,5)] have il: "i = length l" by simp
    then have ok: "i \<le> 8192" using 1(4) by (simp add: line_ok_def)
    then obtain l' st' where r: "read_body_line lm clk st = Inr (Some l', st')" "l' = take i (buffered st)" "calm lm clk st'"
      using Some i(2) 1(2) by (simp add: read_body_line.simps [of lm clk st] substr_def buffered_def calm_def)
    have "rest_of st = (l' @ crlf) @ rest_of st'" using read_body_line_result [OF r(1) 1(3)] by (simp add: took_def)
    moreover have "length l' = length l" using il r(2) find_sub_Some [OF i(1)] by simp
    ultimately have "l' = l" "rest_of st' = x" using 1(5) by simp_all
    with r show ?thesis by blast
  qed
qed

lemma line_ok_mono: "line_ok n l \<Longrightarrow> n \<le> m \<Longrightarrow> line_ok m l"
  by (simp add: line_ok_def)

lemma read_trailers_calm:
  "calm lm clk st \<Longrightarrow> pending_pos st \<le> length (pending st) \<Longrightarrow> \<forall>t\<in>set ts. line_ok 8191 t \<and> t \<noteq> [] \<Longrightarrow>
   k + sum_list (map length ts) \<le> 8192 \<Longrightarrow> rest_of st = trailer_text ts @ x \<Longrightarrow> \<exists>st'. read_trailers lm clk k st = Some (Inr st')"
proof (induction ts arbitrary: st k)
  case Nil
  have "line_ok 8191 []" by (simp add: line_ok_def crlf_def)
  from read_body_line_calm [OF Nil(1,2) this] Nil(5) obtain st' where "read_body_line lm clk st = Inr (Some [], st')"
    by (auto simp: trailer_text_def)
  then show ?case by (subst read_trailers.simps) simp
next
  case (Cons t ts)
  have t: "line_ok 8191 t" "t \<noteq> []" "\<not> k + length t > 8192" using Cons.prems(3,4) by auto
  have "rest_of st = t @ crlf @ (trailer_text ts @ x)" using Cons.prems(5) by (simp add: trailer_text_def)
  from read_body_line_calm [OF Cons.prems(1,2) t(1) this] obtain st1 where st1: "read_body_line lm clk st = Inr (Some t, st1)"
    "calm lm clk st1" "rest_of st1 = trailer_text ts @ x" by blast
  have "pending_pos st1 \<le> length (pending st1)" using read_body_line_result [OF st1(1) Cons.prems(2)] took_pos by blast
  from Cons.IH [OF st1(2) this _ _ st1(3), of "k + length t"] Cons.prems(3,4) obtain st' where
    "read_trailers lm clk (k + length t) st1 = Some (Inr st')" by auto
  with st1(1) t(2,3) show ?case by (subst read_trailers.simps) simp
qed

lemma calm_fields:
  "connection_events st' = connection_events st \<Longrightarrow> received_bytes st' = received_bytes st \<Longrightarrow> calm lm clk st' = calm lm clk st"
  by (simp add: calm_def)

lemma publish_window_calm:
  assumes "calm lm clk st"
  shows "\<exists>got st'. publish_window lm clk st = Inr (got, st') \<and> calm lm clk st'"
proof -
  obtain st1 where 1: "require_within_deadline lm clk st = Inr st1" using deadline_calm [OF assms] by blast
  from calm_ticked [OF assms deadline_ticked [OF 1]] 1 assms show ?thesis
    by (auto simp: publish_window_def bind_sum_def Let_def calm_def)
qed

lemma take_chunk_calm:
  assumes "calm lm clk st" "pending_pos st \<le> length (pending st)" "rest_of st = c @ crlf @ x" "c \<noteq> []"
  shows "\<exists>st'. take_chunk lm clk (length c) st = Inr (True, st') \<and> calm lm clk st'"
proof -
  have "length c + 2 \<le> length (rest_of st)" using assms(3) by (simp add: crlf_def)
  from ensure_available_calm [OF assms(1,2) this] obtain st1 where
    st1: "ensure_available lm clk (length c + 2) st = Inr (True, st1)" "calm lm clk st1" by blast
  note e = ensure_available_result [OF st1(1) assms(2)]
  have "rest_of st1 = (c @ crlf) @ x" "length (c @ crlf) \<le> length (buffered st1)" using e assms(3) by (simp_all add: took_def crlf_def)
  then have "take (length (c @ crlf)) (buffered st1) = c @ crlf" by (metis append_eq_conv_conj rest_of_def take_append diff_is_0_eq' take0 append_Nil2)
  then have "take 2 (drop (length c) (buffered st1)) = crlf" by (simp add: crlf_def take_drop drop_take)
  then have ends: "substr (pending st1) (pending_pos st1 + length c) 2 = crlf" by (simp add: substr_def buffered_def add.commute)
  let ?st2 = "st1\<lparr>get_area := [], served_chunk := substr (pending st1) (pending_pos st1) (length c),
    pending_pos := pending_pos st1 + length c + 2\<rparr>"
  have "connection_events (compact_pending ?st2) = connection_events st1" by (simp add: compact_pending_def)
  then have "calm lm clk ((compact_pending ?st2)\<lparr>chunk_pos := 0\<rparr>)" using st1(2) by (subst calm_fields [of _ st1]) simp_all
  from publish_window_calm [OF this] st1(1) ends show ?thesis
    by (auto simp: take_chunk_def bind_sum_def Let_def)
qed

lemma next_chunk_calm:
  assumes "calm lm clk st" "pending_pos st \<le> length (pending st)" "\<not> stream_finished st" "rest_of st = body_text cs l ts @ left"
    "valid_body lm 8191 cs l ts"
  shows "\<exists>st'. next_chunk lm clk st = Some (Inr (cs \<noteq> [], st')) \<and>
    (cs \<noteq> [] \<longrightarrow> calm lm clk st' \<and> rest_of st' = body_text (tl cs) l ts @ left \<and> get_area st' @ unread_chunk st' = snd (hd cs))"
proof -
  obtain st0 where 0: "require_within_deadline lm clk st = Inr st0" using deadline_calm [OF assms(1)] by blast
  have c0: "calm lm clk st0" "took lm st [] st0" "\<not> stream_finished st0"
    using calm_ticked [OF assms(1) deadline_ticked [OF 0]] took_ticked [OF deadline_ticked [OF 0] assms(2)] assms(3)
    by (auto simp: same_chunk_def)
  have r0: "rest_of st0 = body_text cs l ts @ left" using c0(2) assms(4) by (simp add: took_def)
  show ?thesis
  proof (cases cs)
    case Nil
    have "line_ok 8191 l" "rest_of st0 = l @ crlf @ (trailer_text ts @ left)"
      using assms(5) r0 Nil by (simp_all add: valid_body_def body_text_def)
    from read_body_line_calm [OF c0(1) took_pos [OF c0(2)] this] obtain st1 where st1: "read_body_line lm clk st0 = Inr (Some l, st1)"
      "calm lm clk st1" "rest_of st1 = trailer_text ts @ left" by blast
    let ?st1 = "st1\<lparr>stream_finished := True\<rparr>"
    have pos1: "pending_pos st1 \<le> length (pending st1)" using read_body_line_result [OF st1(1) took_pos [OF c0(2)]] took_pos by blast
    have "\<exists>st'. read_trailers lm clk 0 ?st1 = Some (Inr st')"
      by (rule read_trailers_calm [of lm clk _ ts _ left])
         (use st1 pos1 assms(5) in \<open>auto simp: calm_def rest_of_def buffered_def valid_body_def valid_trailers_def\<close>)
    with 0 st1(1) assms(3,5) Nil show ?thesis by (auto simp: next_chunk_def bind_sum_def valid_body_def)
  next
    case (Cons hc cs')
    obtain h c where hc: "hc = (h, c)" by fastforce
    have ok: "line_ok 8191 h" "c \<noteq> []" "size_of_line lm h = Inr (length c)" and r: "rest_of st0 = h @ crlf @ (c @ crlf @ body_text cs' l ts @ left)"
      using assms(5) r0 by (simp_all add: Cons hc valid_body_def valid_chunk_def body_text_Cons)
    from read_body_line_calm [OF c0(1) took_pos [OF c0(2)] ok(1) r] obtain st1 where st1: "read_body_line lm clk st0 = Inr (Some h, st1)"
      "calm lm clk st1" "rest_of st1 = c @ crlf @ (body_text cs' l ts @ left)" by blast
    have pos1: "pending_pos st1 \<le> length (pending st1)" using read_body_line_result [OF st1(1) took_pos [OF c0(2)]] took_pos by blast
    from take_chunk_calm [OF st1(2) pos1 st1(3) ok(2)] obtain st' where st': "take_chunk lm clk (length c) st1 = Inr (True, st')" "calm lm clk st'"
      by blast
    from take_chunk_result [OF st'(1) pos1] ok(2) obtain c' where c': "length c' = length c" "took lm st1 (c' @ crlf) st'"
      "c' = get_area st' @ unread_chunk st'" by auto
    have "c' @ crlf @ rest_of st' = c @ crlf @ (body_text cs' l ts @ left)" using c'(2) st1(3) by (simp add: took_def)
    with c'(1) have "c' = c" "rest_of st' = body_text cs' l ts @ left" by simp_all
    with 0 st1(1) st' ok assms(3) c'(3) show ?thesis by (auto simp: Cons hc next_chunk_def bind_sum_def)
  qed
qed

lemma read_body_calm:
  assumes "calm lm clk st" "pending_pos st \<le> length (pending st)" "\<not> stream_finished st" "get_area st = []"
    "rest_of st = body_text cs l ts @ left" "valid_body lm 8191 cs l ts"
  shows "read_body lm clk st = Some (unread_chunk st @ concat (map snd cs), None)"
  using assms
proof (induction "length (rest_of st) + length (unread_chunk st)" arbitrary: st cs rule: less_induct)
  case less
  have cap: "require_within_body_cap lm st = Inr st" using less.prems(1) by (auto simp: require_within_body_cap_def calm_def)
  have step: "read_body lm clk st = Some (get_area st1 @ unread_chunk st1 @ concat (map snd cs'), None)"
    if "underflow lm clk st = Some (Inr (True, st1))" "calm lm clk st1" "pending_pos st1 \<le> length (pending st1)" "\<not> stream_finished st1"
      "rest_of st1 = body_text cs' l ts @ left" "valid_body lm 8191 cs' l ts"
      "length (rest_of st1) + length (unread_chunk st1) < length (rest_of st) + length (unread_chunk st)" for st1 cs'
  proof -
    let ?st = "st1\<lparr>get_area := []\<rparr>"
    have f: "rest_of ?st = rest_of st1" "unread_chunk ?st = unread_chunk st1" "calm lm clk ?st = calm lm clk st1"
      by (simp_all add: rest_of_def buffered_def unread_chunk_def calm_def)
    have "read_body lm clk ?st = Some (unread_chunk st1 @ concat (map snd cs'), None)"
      using less.hyps [of ?st cs'] that unfolding f by simp
    with that(1) show ?thesis by (subst read_body.simps) simp
  qed
  obtain got st1 where pub: "publish_window lm clk st = Inr (got, st1)" "calm lm clk st1" using publish_window_calm [OF less.prems(1)] by blast
  note p = publish_window_result [OF pub(1) less.prems(2)]
  show ?case
  proof (cases got)
    case True
    with pub cap less.prems(4) have "underflow lm clk st = Some (Inr (True, st1))" by (simp add: underflow_def bind_sum_def)
    from step [OF this pub(2), of cs] p True less.prems show ?thesis by (auto simp: took_def)
  next
    case False
    with p have un: "unread_chunk st = []" by simp
    have "st1 = st" using pub(1) False by (auto simp: publish_window_def bind_sum_def Let_def split: if_splits sum.splits)
    with pub False cap less.prems(4) have eq: "underflow lm clk st = next_chunk lm clk st" by (simp add: underflow_def bind_sum_def)
    from next_chunk_calm [OF less.prems(1,2,3,5,6)] obtain st2 where st2: "next_chunk lm clk st = Some (Inr (cs \<noteq> [], st2))"
      "cs \<noteq> [] \<longrightarrow> calm lm clk st2 \<and> rest_of st2 = body_text (tl cs) l ts @ left \<and> get_area st2 @ unread_chunk st2 = snd (hd cs)" by blast
    show ?thesis
    proof (cases cs)
      case Nil
      with st2(1) eq un show ?thesis by (subst read_body.simps) simp
    next
      case (Cons hc cs')
      with next_chunk_result [OF less.prems(2,3), of lm clk] st2(1) have
        n: "\<not> stream_finished st2" "get_area st2 \<noteq> []" "pending_pos st2 \<le> length (pending st2)" by (auto simp: took_def)
      have "length (rest_of st2) + length (get_area st2 @ unread_chunk st2) < length (rest_of st)"
        using st2(2) less.prems(5) Cons by (cases hc) (simp add: body_text_Cons crlf_def)
      moreover have "valid_body lm 8191 cs' l ts" using less.prems(6) Cons by (simp add: valid_body_def)
      moreover have u: "underflow lm clk st = Some (Inr (True, st2))" "calm lm clk st2" "rest_of st2 = body_text cs' l ts @ left"
        using st2 eq Cons by simp_all
      ultimately have "read_body lm clk st = Some (get_area st2 @ unread_chunk st2 @ concat (map snd cs'), None)"
        by (intro step [OF u(1,2) n(3,1) u(3)]) auto
      also have "get_area st2 @ unread_chunk st2 @ concat (map snd cs') = (get_area st2 @ unread_chunk st2) @ concat (map snd cs')" by simp
      also have "get_area st2 @ unread_chunk st2 = snd hc" using st2(2) Cons by simp
      finally show ?thesis using un Cons by simp
    qed
  qed
qed

lemma open_body_fields [simp]:
  "pending_pos (open_body pre evs) = 0" "\<not> stream_finished (open_body pre evs)" "get_area (open_body pre evs) = []"
  "rest_of (open_body pre evs) = pre @ arriving evs" "unread_chunk (open_body pre evs) = []" "buffered (open_body pre evs) = pre"
  "received_bytes (open_body pre evs) = length pre" "connection_events (open_body pre evs) = evs"
  by (simp_all add: open_body_def rest_of_def buffered_def unread_chunk_def)

lemma open_body_read:
  assumes "pre @ arriving evs = body_text cs l ts @ left" "valid_body lm 8191 cs l ts" "Silent \<notin> set evs"
    "total_timeout_ms lm \<le> 0 \<or> (\<forall>n. clk n < total_timeout_ms lm)"
    "max_body_bytes lm = 0 \<or> length (pre @ arriving evs) \<le> max_body_bytes lm"
  shows "read_body lm clk (open_body pre evs) = Some (concat (map snd cs), None)"
proof -
  have "calm lm clk (open_body pre evs)" using assms(3-5) by (simp add: calm_def)
  from read_body_calm [OF this _ _ _ _ assms(2), of left] assms(1) show ?thesis by simp
qed

subsection \<open>The chunked writer\<close>

text \<open>\<^verbatim>\<open>std::hex\<close>.\<close>

definition hex_char :: "nat \<Rightarrow> char" where
  "hex_char d = char_of (if d < 10 then 48 + d else 87 + d)"

function hex_str :: "nat \<Rightarrow> string" where
  "hex_str n = (if n < 16 then [hex_char n] else hex_str (n div 16) @ [hex_char (n mod 16)])"
  by pat_completeness auto
termination
  by (relation "measure id") auto

declare hex_str.simps [simp del]

definition write_chunk :: "string \<Rightarrow> string" where
  "write_chunk data = (if data = [] then [] else hex_str (length data) @ crlf @ data @ crlf)"

definition finish_chunks :: string where
  "finish_chunks = ''0'' @ crlf @ crlf"

definition written_body :: "string list \<Rightarrow> string" where
  "written_body ds = concat (map write_chunk ds) @ finish_chunks"

lemma hex_char_digit:
  assumes "d < 16"
  shows "hex_digit (hex_char d) = Some d" "hex_value (hex_char d) = Some d" "hex_char d \<noteq> CHR '';''"
    "\<not> is_space_byte (hex_char d)" "hex_char d \<noteq> CHR 0x0D"
proof -
  have b: "byte_of (hex_char d) = (if d < 10 then 48 + d else 87 + d)" using assms by (simp add: hex_char_def byte_of_char_of)
  have lower: "to_lower (hex_char d) = hex_char d" using assms by (auto simp: to_lower_def is_upper_def b)
  show "hex_digit (hex_char d) = Some d" using assms by (auto simp: hex_digit_def b)
  show "hex_value (hex_char d) = Some d" using assms by (auto simp: hex_value_def lower b Let_def)
  show "\<not> is_space_byte (hex_char d)" using assms by (auto simp: is_space_byte_def b)
  have "byte_of (CHR '';'') = 59" "byte_of (CHR 0x0D) = 13" by (simp_all add: byte_of_def)
  with assms b show "hex_char d \<noteq> CHR '';''" "hex_char d \<noteq> CHR 0x0D" by (auto split: if_splits)
qed

lemma hex_str_chars: "c \<in> set (hex_str n) \<Longrightarrow> \<exists>d < 16. c = hex_char d"
proof (induction n rule: hex_str.induct)
  case (1 n)
  then show ?case by (cases "n < 16") (auto simp: hex_str.simps [of n] intro: exI [of _ "n mod 16"])
qed

lemma hex_str_clean: "CHR '';'' \<notin> set (hex_str n)" "CHR 0x0D \<notin> set (hex_str n)" "c \<in> set (hex_str n) \<Longrightarrow> \<not> is_space_byte c"
proof -
  show "CHR '';'' \<notin> set (hex_str n)"
  proof
    assume "CHR '';'' \<in> set (hex_str n)"
    then obtain d where "d < 16" "CHR '';'' = hex_char d" using hex_str_chars by blast
    with hex_char_digit(3) [of d] show False by metis
  qed
  show "CHR 0x0D \<notin> set (hex_str n)"
  proof
    assume "CHR 0x0D \<in> set (hex_str n)"
    then obtain d where "d < 16" "CHR 0x0D = hex_char d" using hex_str_chars by blast
    with hex_char_digit(5) [of d] show False by metis
  qed
  show "\<not> is_space_byte c" if "c \<in> set (hex_str n)" using hex_str_chars [OF that] hex_char_digit(4) by auto
qed

lemma hex_str_not_Nil [simp]: "hex_str n \<noteq> []"
  by (simp add: hex_str.simps [of n])

lemma takeWhile_clean: "x \<notin> set s \<Longrightarrow> takeWhile (\<lambda>c. c \<noteq> x) s = s"
  by (auto simp: takeWhile_eq_all_conv)

lemma foldl_hex_str:
  "n < 2 ^ 64 \<Longrightarrow> foldl (\<lambda>r c. case hex_value c of None \<Rightarrow> r | Some v \<Rightarrow> (r * 16 + v) mod 2 ^ 64) 0 (hex_str n) = n"
proof (induction n rule: hex_str.induct)
  case (1 n)
  show ?case
  proof (cases "n < 16")
    case True
    with 1 show ?thesis by (simp add: hex_str.simps [of n] hex_char_digit)
  next
    case False
    moreover have "n div 16 < 2 ^ 64" using 1(2) by simp
    ultimately show ?thesis using 1 by (simp add: hex_str.simps [of n] hex_char_digit)
  qed
qed

lemma chunk_size_hex: "n < 2 ^ 64 \<Longrightarrow> chunk_size (hex_str n) = n"
  using foldl_hex_str [of n] by (simp add: chunk_size_def takeWhile_clean hex_str_clean)

lemma size_digits_append:
  "size_digits cap h (xs @ ys) n = bind_sum (size_digits cap h xs n) (size_digits cap h ys)"
  by (induction xs arbitrary: n) (auto simp: bind_sum_def split: option.splits)

lemma size_digits_hex: "n \<le> cap \<Longrightarrow> size_digits cap h (hex_str n) 0 = Inr n"
proof (induction n rule: hex_str.induct)
  case (1 n)
  show ?case
  proof (cases "n < 16")
    case True
    with 1(2) show ?thesis by (simp add: hex_str.simps [of n] hex_char_digit)
  next
    case False
    have "size_digits cap h (hex_str (n div 16)) 0 = Inr (n div 16)" using 1(1) [OF False] 1(2) by linarith
    moreover have "n div 16 \<le> cap div 16" by (rule div_le_mono [OF 1(2)])
    moreover have "\<not> n mod 16 > cap - n div 16 * 16" using 1(2) div_mult_mod_eq [of n 16] by linarith
    ultimately show ?thesis using False by (simp add: hex_str.simps [of n] size_digits_append bind_sum_def hex_char_digit)
  qed
qed

lemma size_of_hex: "n \<le> chunk_cap lm \<Longrightarrow> size_of_line lm (hex_str n) = Inr n"
proof -
  assume n: "n \<le> chunk_cap lm"
  have "dropWhile is_space_byte (hex_str n) = hex_str n" "dropWhile is_space_byte (rev (hex_str n)) = rev (hex_str n)"
    using hex_str_clean(3) by (metis dropWhile_eq_self_iff list.set_sel(1), metis dropWhile_eq_self_iff list.set_sel(1) set_rev rev_is_Nil_conv)
  then have "trim (hex_str n) = hex_str n" by (simp add: trim_def)
  moreover have "find_idx (\<lambda>c. c = CHR '';'') (hex_str n) = None" using hex_str_clean(1) by (auto simp: find_idx_None)
  ultimately show ?thesis using n by (simp add: size_of_line_def size_digits_hex)
qed

lemma line_ok_clean: "CHR 0x0D \<notin> set l \<Longrightarrow> length l \<le> n \<Longrightarrow> line_ok n l"
  using find_sub_skip [of "CHR 0x0D" l "[CHR 0x0A]" crlf] by (simp add: line_ok_def crlf_def)

lemma hex_str_length: "n < 16 ^ k \<Longrightarrow> length (hex_str n) \<le> max 1 k"
proof (induction n arbitrary: k rule: hex_str.induct)
  case (1 n)
  show ?case
  proof (cases "n < 16")
    case True
    then show ?thesis by (simp add: hex_str.simps [of n])
  next
    case False
    then obtain j where k: "k = Suc j" using 1(2) by (cases k) auto
    have "j \<noteq> 0" using False 1(2) k by (cases j) auto
    moreover have "n div 16 < 16 ^ j" using 1(2) k by (simp add: less_mult_imp_div_less)
    ultimately show ?thesis using 1(1) [OF False, of j] False k by (simp add: hex_str.simps [of n])
  qed
qed

definition pieces :: "string list \<Rightarrow> (string \<times> string) list" where
  "pieces ds = map (\<lambda>d. (hex_str (length d), d)) (filter (\<lambda>d. d \<noteq> []) ds)"

lemma pieces_payload: "concat (map snd (pieces ds)) = concat ds"
  by (induction ds) (auto simp: pieces_def)

lemma written_body_chunks: "written_body ds = chunk_encode (pieces ds) ''0''" "written_body ds = body_text (pieces ds) ''0'' []"
  by (induction ds) (auto simp: written_body_def pieces_def chunk_encode_def body_text_def write_chunk_def finish_chunks_def trailer_text_def)

lemma pieces_valid_chunks: "\<forall>d\<in>set ds. length d < 2 ^ 64 \<Longrightarrow> valid_chunks (pieces ds) ''0''"
  by (auto simp: valid_chunks_def pieces_def hex_str_clean chunk_size_hex) (simp add: chunk_size_def hex_value_def ctype_defs to_lower_def)

lemma pieces_valid_body:
  assumes "\<forall>d\<in>set ds. length d \<le> chunk_cap lm" "chunk_cap lm < 2 ^ 64"
  shows "valid_body lm 8191 (pieces ds) ''0'' []"
proof -
  have "line_ok 8191 (hex_str (length d))" if "d \<in> set ds" for d
  proof (rule line_ok_clean [OF hex_str_clean(2)])
    have "length d < 16 ^ 16" using assms that by (auto simp: power_mult [symmetric] dest!: bspec)
    from hex_str_length [OF this] show "length (hex_str (length d)) \<le> 8191" by simp
  qed
  moreover have "line_ok 8191 ''0''" by (rule line_ok_clean) simp_all
  moreover have "size_of_line lm ''0'' = Inr 0" proof -
    have "hex_str 0 = ''0''" by (simp add: hex_str.simps [of 0] hex_char_def char_of_def bit_Suc_0_iff)
    with size_of_hex [of 0 lm] show ?thesis by simp
  qed
  ultimately show ?thesis using assms(1) by (auto simp: valid_body_def valid_chunk_def valid_trailers_def pieces_def size_of_hex)
qed

subsection \<open>Which requests are read incrementally\<close>

function chunked_codings :: "string \<Rightarrow> bool \<Rightarrow> bool" where
  "chunked_codings v saw =
     (let comma = find_idx (\<lambda>c. c = CHR '','') v;
          coding = trim (case comma of Some i \<Rightarrow> take i v | None \<Rightarrow> v)
      in if coding \<noteq> [] \<and> (saw \<or> lower_ascii coding \<noteq> ''chunked'') then False
         else case comma of
           None \<Rightarrow> saw \<or> coding \<noteq> []
         | Some i \<Rightarrow> chunked_codings (drop (i + 1) v) (saw \<or> coding \<noteq> []))"
  by pat_completeness auto
termination
  by (relation "measure (\<lambda>(v, saw). length v)") (auto dest!: find_idx_Some [OF sym])

declare chunked_codings.simps [simp del]

definition is_chunked_only :: "string \<Rightarrow> bool" where
  "is_chunked_only value = chunked_codings value False"

definition wants_incremental_body :: "string \<Rightarrow> (string \<rightharpoonup> string) \<Rightarrow> bool" where
  "wants_incremental_body path headers =
     (if path \<noteq> ''/v1/audio/transcriptions/live'' \<and> path \<noteq> ''/v1/voice/live'' then False
      else case headers ''transfer-encoding'' of None \<Rightarrow> False | Some v \<Rightarrow> is_chunked_only v)"

text \<open>The comma-separated elements of a field.\<close>

function split_commas :: "string \<Rightarrow> string list" where
  "split_commas v =
     (case find_idx (\<lambda>c. c = CHR '','') v of None \<Rightarrow> [v] | Some i \<Rightarrow> take i v # split_commas (drop (i + 1) v))"
  by pat_completeness auto
termination
  by (relation "measure length") (auto dest!: find_idx_Some)

declare split_commas.simps [simp del]

definition codings_of :: "string \<Rightarrow> string list" where
  "codings_of v = filter (\<lambda>c. c \<noteq> []) (map trim (split_commas v))"

lemma chunked_codings_iff:
  "chunked_codings v saw \<longleftrightarrow> (if saw then codings_of v = [] else \<exists>c. codings_of v = [c] \<and> lower_ascii c = ''chunked'')"
proof (induction v saw rule: chunked_codings.induct)
  case (1 v saw)
  show ?case
  proof (cases "find_idx (\<lambda>c. c = CHR '','') v")
    case None
    then show ?thesis
      by (auto simp: chunked_codings.simps [of v saw] split_commas.simps [of v] codings_of_def Let_def)
  next
    case (Some i)
    have c: "codings_of v = (if trim (take i v) = [] then [] else [trim (take i v)]) @ codings_of (drop (i + 1) v)"
      using Some by (simp add: codings_of_def split_commas.simps [of v])
    show ?thesis
    proof (cases "trim (take i v) \<noteq> [] \<and> (saw \<or> lower_ascii (trim (take i v)) \<noteq> ''chunked'')")
      case True
      then have "\<not> chunked_codings v saw" using Some by (simp add: chunked_codings.simps [of v saw] Let_def)
      with True c show ?thesis by auto
    next
      case False
      then have "chunked_codings v saw = chunked_codings (drop (i + 1) v) (saw \<or> trim (take i v) \<noteq> [])"
        using Some False by (subst chunked_codings.simps) (auto simp: Let_def)
      moreover have "chunked_codings (drop (i + 1) v) (saw \<or> trim (take i v) \<noteq> []) =
        (if saw \<or> trim (take i v) \<noteq> [] then codings_of (drop (i + 1) v) = []
         else \<exists>c. codings_of (drop (i + 1) v) = [c] \<and> lower_ascii c = ''chunked'')"
        using 1 [OF refl refl _ Some] Some False by (simp add: Let_def)
      ultimately show ?thesis using c False by auto
    qed
  qed
qed

lemma is_chunked_only_iff: "is_chunked_only v \<longleftrightarrow> (\<exists>c. codings_of v = [c] \<and> lower_ascii c = ''chunked'')"
  by (simp add: is_chunked_only_def chunked_codings_iff)

subsection \<open>What a client can make of the connection\<close>

text \<open>
  C20. However the client behaves, reading a live body ends, hands out at most the allowed number of
  bytes, and reports a clean end only if the bytes that arrived are a complete chunked body - size
  lines that name their chunks, a last chunk, a bounded trailer - whose chunks are exactly what was
  handed out: a truncated or malformed body is always an exception.
\<close>

theorem live_body_sound:
  "\<exists>out r. read_body lm clk (open_body pre evs) = Some (out, r) \<and>
    (r = None \<longrightarrow> (\<exists>cs l ts left. pre @ arriving evs = body_text cs l ts @ left \<and> valid_body lm 8192 cs l ts \<and>
       out = concat (map snd cs))) \<and>
    (0 < max_body_bytes lm \<longrightarrow> length out \<le> max_body_bytes lm)"
  using read_body_result [of "open_body pre evs" lm clk] by auto

definition hello_events :: "recv_event list" where
  "hello_events = [Arrives (''5'' @ crlf @ ''he''), Arrives (''llo'' @ [CHR 0x0D]), Arrives (CHR 0x0A # ''0'' @ crlf @ crlf), Hung_Up]"

lemma hello_text: "[] @ arriving hello_events = body_text [(''5'', ''hello'')] ''0'' [] @ []"
  by (simp add: hello_events_def body_text_def trailer_text_def crlf_def)

lemma hello_valid: "valid_body default_ingest_limits 8191 [(''5'', ''hello'')] ''0'' []"
proof -
  have "hex_str 5 = ''5''" "hex_str 0 = ''0''" by (simp_all add: hex_str.simps [of 5] hex_str.simps [of 0] hex_char_def char_of_def bit_Suc_0_iff)
  then have "size_of_line default_ingest_limits ''5'' = Inr 5" "size_of_line default_ingest_limits ''0'' = Inr 0"
    using size_of_hex [of 5 default_ingest_limits] size_of_hex [of 0 default_ingest_limits]
    by (simp_all add: chunk_cap_def default_ingest_limits_def)
  then show ?thesis by (simp add: valid_body_def valid_chunk_def valid_trailers_def line_ok_clean)
qed

theorem live_body_sound_witness:
  "\<exists>out r. read_body default_ingest_limits (\<lambda>_. 0) (open_body [] hello_events) = Some (out, r) \<and>
    length out \<le> 536870912 \<and>
    (\<exists>cs l ts left. arriving hello_events = body_text cs l ts @ left \<and> out = concat (map snd cs))"
proof -
  have "read_body default_ingest_limits (\<lambda>_. 0) (open_body [] hello_events) = Some (concat (map snd [(''5'', ''hello'')]), None)"
    by (rule open_body_read [OF hello_text hello_valid])
       (simp_all add: hello_events_def default_ingest_limits_def crlf_def)
  with live_body_sound [of default_ingest_limits "\<lambda>_. 0" "[]" hello_events] show ?thesis
    by (auto simp: default_ingest_limits_def)
qed

text \<open>
  A complete chunked body within the limits is read back exactly, wherever the network cuts it -
  also in the middle of a size line, a line end or a chunk - and whatever follows it, provided no
  timeout strikes: size lines and trailer lines of up to 8191 bytes, chunks of any size up to the cap.
\<close>

lemma live_body_faithful:
  assumes "pre @ arriving evs = body_text cs l ts @ left" "valid_body lm 8191 cs l ts" "Silent \<notin> set evs"
    "total_timeout_ms lm \<le> 0 \<or> (\<forall>n. clk n < total_timeout_ms lm)"
    "max_body_bytes lm = 0 \<or> length (pre @ arriving evs) \<le> max_body_bytes lm"
  shows "read_body lm clk (open_body pre evs) = Some (concat (map snd cs), None)"
  using assms by (rule open_body_read)

text \<open>
  C31. What the server streams, every reader of this program gets: the chunked body that the writer
  makes of any pieces is decoded to their concatenation by the language model client's decoder,
  however the network cuts it, and by the server's own reader.
\<close>

theorem chunked_writer_roundtrip:
  assumes "\<forall>d\<in>set ds. length d \<le> chunk_cap lm" "chunk_cap lm < 2 ^ 64" "concat blocks = written_body ds" "[] \<notin> set blocks"
    "total_timeout_ms lm \<le> 0" "max_body_bytes lm = 0"
  shows "fst (chunk_feed (concat blocks) new_chunked_decoder) = concat ds \<and>
    cd_state (snd (chunk_feed (concat blocks) new_chunked_decoder)) = Done \<and>
    read_body lm clk (open_body [] (map Arrives blocks)) = Some (concat ds, None)"
proof -
  have "\<forall>d\<in>set ds. length d < 2 ^ 64" using assms(1,2) by auto
  from chunk_decode_encode [OF _ _ pieces_valid_chunks [OF this], of new_chunked_decoder]
  have "fst (chunk_feed (concat blocks) new_chunked_decoder) = concat ds \<and>
      cd_state (snd (chunk_feed (concat blocks) new_chunked_decoder)) = Done"
    unfolding assms(3) written_body_chunks(1) by (simp add: new_chunked_decoder_def pieces_payload)
  moreover have "arriving (map Arrives blocks) = concat blocks" using assms(4) by (induction blocks) auto
  then have "[] @ arriving (map Arrives blocks) = body_text (pieces ds) ''0'' [] @ []"
    unfolding append_Nil append_Nil2 assms(3) written_body_chunks(2) [symmetric] by simp
  from open_body_read [OF this pieces_valid_body [OF assms(1,2)]] assms(5,6)
  have "read_body lm clk (open_body [] (map Arrives blocks)) = Some (concat ds, None)" by (auto simp: pieces_payload)
  ultimately show ?thesis by blast
qed

theorem chunked_writer_roundtrip_witness:
  "read_body \<lparr>idle_timeout_ms = 0, total_timeout_ms = 0, max_body_bytes = 0, max_chunk_bytes = 100, send_timeout_ms = 0\<rparr> (\<lambda>_. 0)
     (open_body [] (map Arrives [written_body [''data: x'', [], ''y'']])) = Some (''data: xy'', None)"
  using chunked_writer_roundtrip [of "[''data: x'', [], ''y'']"
      "\<lparr>idle_timeout_ms = 0, total_timeout_ms = 0, max_body_bytes = 0, max_chunk_bytes = 100, send_timeout_ms = 0\<rparr>"
      "[written_body [''data: x'', [], ''y'']]" "\<lambda>_. 0"]
  by (simp add: chunk_cap_def written_body_def finish_chunks_def)

end
