(* ===== verification/Http_Request.thy ===== *)
theory Http_Request
  imports Http_Body
begin

text \<open>
  Requests and responses of the server (\<^verbatim>\<open>app/server/http.cpp\<close>): reading a request off a connection, writing a
  response, and the life of one connection.

  The connection is the list of events of \<open>Http_Body\<close>. The handler is a function of the request and, for a live request,
  of what reading its body stream gives; a header map is a partial function, the headers of a response are listed in
  the order in which the hash map is iterated. Sends succeed: a failing send only ends the connection. The quoting of
  JSON strings is the argument \<open>jquote\<close>.
\<close>

subsection \<open>Reading a request\<close>

record http_request =
  req_method :: string
  req_path :: string
  req_query :: string
  req_headers :: "string \<rightharpoonup> string"
  req_body :: string

datatype request_error =
  Closed_Before_Headers | Headers_Too_Large | Empty_Request | Invalid_Request_Line | Invalid_Content_Length
| Body_Exceeds nat | Closed_In_Body

function receive_head :: "string \<Rightarrow> recv_event list \<Rightarrow> request_error + string \<times> nat \<times> recv_event list" where
  "receive_head data evs =
     (let (d, evs') = recv_bytes evs in
      if d = [] then Inl Closed_Before_Headers
      else case find_sub (crlf @ crlf) (data @ d) of
        Some header_end \<Rightarrow> Inr (data @ d, header_end, evs')
      | None \<Rightarrow> if length (data @ d) > 1024 * 1024 then Inl Headers_Too_Large else receive_head (data @ d) evs')"
  by pat_completeness auto
termination
  by (relation "measure (\<lambda>(data, evs). length evs)") (auto dest: recv_bytes_shorter [OF sym])

declare receive_head.simps [simp del]

text \<open>\<^verbatim>\<open>operator>>\<close> into a string: blanks are skipped, then a word is taken.\<close>

definition next_word :: "string \<Rightarrow> string \<times> string" where
  "next_word s =
     (let t = dropWhile is_space_byte s in (takeWhile (\<lambda>c. \<not> is_space_byte c) t, dropWhile (\<lambda>c. \<not> is_space_byte c) t))"

definition parse_request_line :: "string \<Rightarrow> request_error + http_request" where
  "parse_request_line line =
     (let (m, rest) = next_word line; (target, _) = next_word rest in
      if m = [] \<or> target = [] then Inl Invalid_Request_Line
      else case find_idx (\<lambda>c. c = CHR ''?'') target of
        None \<Rightarrow> Inr \<lparr>req_method = m, req_path = target, req_query = [], req_headers = Map.empty, req_body = []\<rparr>
      | Some q \<Rightarrow> Inr \<lparr>req_method = m, req_path = take q target, req_query = drop (q + 1) target,
                       req_headers = Map.empty, req_body = []\<rparr>)"

definition put_header :: "string \<Rightarrow> string \<Rightarrow> (string \<rightharpoonup> string) \<Rightarrow> (string \<rightharpoonup> string)" where
  "put_header name v hs =
     (if name = ''transfer-encoding''
      then let slot = (case hs name of None \<Rightarrow> [] | Some s \<Rightarrow> s)
           in hs(name \<mapsto> (if slot \<noteq> [] then slot @ '', '' else slot) @ v)
      else hs(name \<mapsto> v))"

definition header_field :: "string \<Rightarrow> (string \<times> string) option" where
  "header_field line =
     (let l = drop_cr line in
      case find_idx (\<lambda>c. c = CHR '':'') l of
        None \<Rightarrow> None
      | Some pos \<Rightarrow> Some (lower_ascii (trim (take pos l)), trim (drop (pos + 1) l)))"

definition add_header :: "string \<Rightarrow> (string \<rightharpoonup> string) \<Rightarrow> (string \<rightharpoonup> string)" where
  "add_header line hs = (case header_field line of None \<Rightarrow> hs | Some (name, v) \<Rightarrow> put_header name v hs)"

text \<open>\<^verbatim>\<open>std::from_chars\<close> over the whole value, then the limit.\<close>

definition content_length_of :: "nat \<Rightarrow> string \<Rightarrow> request_error + nat" where
  "content_length_of max_body v =
     (let ds = takeWhile is_digit v in
      if ds = [] \<or> digits_nat ds \<ge> 2 ^ 64 \<or> length ds \<noteq> length v then Inl Invalid_Content_Length
      else if digits_nat ds > max_body then Inl (Body_Exceeds max_body)
      else Inr (digits_nat ds))"

function receive_body :: "nat \<Rightarrow> string \<Rightarrow> recv_event list \<Rightarrow> request_error + string \<times> recv_event list" where
  "receive_body n body evs =
     (if length body < n
      then let (d, evs') = recv_bytes evs in
           if d = [] then Inl Closed_In_Body else receive_body n (body @ d) evs'
      else Inr (if length body > n then take n body else body, evs))"
  by pat_completeness auto
termination
  by (relation "measure (\<lambda>(n, body, evs). length evs)") (auto dest: recv_bytes_shorter [OF sym])

declare receive_body.simps [simp del]

definition parse_head :: "string \<Rightarrow> request_error + http_request" where
  "parse_head head =
     (case getlines head of
        [] \<Rightarrow> Inl Empty_Request
      | line # lines \<Rightarrow>
          bind_sum (parse_request_line (drop_cr line)) (\<lambda>req. Inr (req\<lparr>req_headers := fold add_header lines (req_headers req)\<rparr>)))"

text \<open>The request, the bytes of an incremental body that came with the head, and the rest of the connection.\<close>

definition read_http_request :: "nat \<Rightarrow> recv_event list \<Rightarrow> request_error + http_request \<times> string \<times> recv_event list" where
  "read_http_request max_body evs =
     bind_sum (receive_head [] evs) (\<lambda>(data, header_end, evs1).
     bind_sum (parse_head (take header_end data)) (\<lambda>req.
       if wants_incremental_body (req_path req) (req_headers req) then Inr (req, drop (header_end + 4) data, evs1)
       else bind_sum (case req_headers req ''content-length'' of None \<Rightarrow> Inr 0 | Some v \<Rightarrow> content_length_of max_body v) (\<lambda>n.
            bind_sum (receive_body n (drop (header_end + 4) data) evs1) (\<lambda>(body, evs2).
              Inr (req\<lparr>req_body := body\<rparr>, [], evs2)))))"

subsection \<open>Writing a response\<close>

record http_response =
  resp_status :: int
  resp_type :: string
  resp_headers :: "(string \<times> string) list"
  resp_body :: string

definition status_text :: "int \<Rightarrow> string" where
  "status_text s =
     (if s = 200 then ''OK'' else if s = 202 then ''Accepted'' else if s = 204 then ''No Content''
      else if s = 400 then ''Bad Request'' else if s = 403 then ''Forbidden'' else if s = 404 then ''Not Found''
      else if s = 405 then ''Method Not Allowed'' else if s = 413 then ''Payload Too Large''
      else if s = 500 then ''Internal Server Error'' else if s = 503 then ''Service Unavailable'' else ''Error'')"

definition status_line :: "http_response \<Rightarrow> string" where
  "status_line r = ''HTTP/1.1 '' @ int_str (resp_status r) @ '' '' @ status_text (resp_status r)"

definition extra_headers :: "http_response \<Rightarrow> string" where
  "extra_headers r = concat (map (\<lambda>(k, v). k @ '': '' @ v @ crlf) (resp_headers r))"

definition serialize_response :: "http_response \<Rightarrow> string" where
  "serialize_response r =
     status_line r @ crlf @ ''Content-Type: '' @ resp_type r @ crlf @ ''Content-Length: '' @ nat_str (length (resp_body r)) @ crlf @
     ''Connection: close'' @ crlf @ extra_headers r @ crlf @ resp_body r"

definition serialize_stream_headers :: "http_response \<Rightarrow> string" where
  "serialize_stream_headers r =
     status_line r @ crlf @ ''Content-Type: '' @ resp_type r @ crlf @ ''Transfer-Encoding: chunked'' @ crlf @
     ''Cache-Control: no-cache'' @ crlf @ ''Connection: close'' @ crlf @ extra_headers r @ crlf"

definition json_response :: "string \<Rightarrow> int \<Rightarrow> http_response" where
  "json_response body s = \<lparr>resp_status = s, resp_type = ''application/json'', resp_headers = [], resp_body = body\<rparr>"

definition error_response :: "(string \<Rightarrow> string) \<Rightarrow> int \<Rightarrow> string \<Rightarrow> string \<Rightarrow> http_response" where
  "error_response jquote s message kind =
     json_response (''{\"error\":{\"message\":'' @ jquote message @ '',\"type\":'' @ jquote kind @ ''}}'') s"

subsection \<open>One connection\<close>

text \<open>What the handler does: answer, stream pieces until it returns or throws, or throw.\<close>

datatype handler_result = Responds http_response | Streams http_response "string list" "string option" | Raises string

fun error_text :: "request_error \<Rightarrow> string" where
  "error_text Closed_Before_Headers = ''socket receive failed before HTTP headers''"
| "error_text Headers_Too_Large = ''HTTP headers exceed 1 MiB''"
| "error_text Empty_Request = ''empty HTTP request''"
| "error_text Invalid_Request_Line = ''invalid HTTP request line''"
| "error_text Invalid_Content_Length = ''invalid Content-Length header''"
| "error_text (Body_Exceeds n) = ''request body exceeds the maximum of '' @ nat_str n @ '' bytes''"
| "error_text Closed_In_Body = ''socket receive failed while reading HTTP body''"

definition stream_error_event :: "(string \<Rightarrow> string) \<Rightarrow> string \<Rightarrow> string" where
  "stream_error_event jquote message =
     ''data: {\"type\":\"error\",\"error\":{\"message\":'' @ jquote message @ ''}}'' @ [CHR 0x0A, CHR 0x0A]"

definition server_error :: "(string \<Rightarrow> string) \<Rightarrow> string \<Rightarrow> string" where
  "server_error jquote message = serialize_response (error_response jquote 500 message ''server_error'')"

fun answer_bytes :: "(string \<Rightarrow> string) \<Rightarrow> handler_result \<Rightarrow> string" where
  "answer_bytes jquote (Responds r) = serialize_response r"
| "answer_bytes jquote (Streams r ds err) =
     serialize_stream_headers r @ written_body (ds @
       (case err of Some message \<Rightarrow> if starts_with ''text/event-stream'' (resp_type r) then [stream_error_event jquote message] else []
        | None \<Rightarrow> []))"
| "answer_bytes jquote (Raises message) = server_error jquote message"

definition handle_client ::
  "(nat \<Rightarrow> int) \<Rightarrow> (string \<Rightarrow> string) \<Rightarrow> (http_request \<Rightarrow> ingest_limits) \<Rightarrow>
   (http_request \<Rightarrow> (string \<times> body_error option) option \<Rightarrow> handler_result) \<Rightarrow> nat \<Rightarrow> recv_event list \<Rightarrow> string" where
  "handle_client clk jquote limits_of handler max_body evs =
     (case read_http_request max_body evs of
        Inl e \<Rightarrow> server_error jquote (error_text e)
      | Inr (req, leftover, evs1) \<Rightarrow>
          let stream = (if wants_incremental_body (req_path req) (req_headers req)
                        then read_body (limits_of req) clk (open_body leftover evs1) else None)
          in answer_bytes jquote (handler req stream))"

subsection \<open>What arrives is what is read\<close>

lemma recv_bytes_set: "recv_bytes evs = (d, evs') \<Longrightarrow> set evs' \<subseteq> set evs"
  by (induction evs rule: recv_bytes.induct) (auto split: if_splits)

lemma receive_head_result:
  assumes "data @ arriving evs = full" "find_sub (crlf @ crlf) full = Some n" "n + 4 \<le> 1024 * 1024"
    "find_sub (crlf @ crlf) data = None"
  shows "\<exists>data' evs'. receive_head data evs = Inr (data', n, evs') \<and> data' @ arriving evs' = full \<and> set evs' \<subseteq> set evs \<and> n + 4 \<le> length data'"
  using assms(1,4)
proof (induction data evs rule: receive_head.induct)
  case (1 data evs)
  obtain d evs' where r: "recv_bytes evs = (d, evs')" by fastforce
  have full: "(data @ d) @ arriving evs' = full" using 1(2) recv_bytes_arriving [OF r] by simp
  have "d \<noteq> []"
  proof
    assume "d = []"
    then have "data = full" using r recv_bytes_closed 1(2) by auto
    with assms(2) 1(3) show False by simp
  qed
  have p: "find_sub (crlf @ crlf) (data @ d) = (if n + 4 \<le> length (data @ d) then Some n else None)"
    using find_sub_prefix [of "crlf @ crlf" "data @ d" "arriving evs'" n] assms(2) full by (simp add: crlf_def)
  show ?case
  proof (cases "n + 4 \<le> length (data @ d)")
    case True
    with p r \<open>d \<noteq> []\<close> full recv_bytes_set [OF r] show ?thesis by (subst receive_head.simps) (auto simp: Let_def)
  next
    case False
    then have none: "find_sub (crlf @ crlf) (data @ d) = None" "\<not> length (data @ d) > 1024 * 1024" using p assms(3) by auto
    from 1(1) [OF r [symmetric] refl \<open>d \<noteq> []\<close> none(1) none(2) full none(1)]
    obtain data' evs'' where "receive_head (data @ d) evs' = Inr (data', n, evs'')" "data' @ arriving evs'' = full" "set evs'' \<subseteq> set evs'"
      "n + 4 \<le> length data'" by blast
    with none r \<open>d \<noteq> []\<close> recv_bytes_set [OF r] show ?thesis by (subst receive_head.simps) (auto simp: Let_def)
  qed
qed

lemma receive_body_result:
  "body @ arriving evs = full \<Longrightarrow> n \<le> length full \<Longrightarrow> \<exists>evs'. receive_body n body evs = Inr (take n full, evs')"
proof (induction n body evs rule: receive_body.induct)
  case (1 n body evs)
  show ?case
  proof (cases "length body < n")
    case True
    obtain d evs' where r: "recv_bytes evs = (d, evs')" by fastforce
    have "d \<noteq> []" using r recv_bytes_closed 1(2,3) True by auto
    moreover have full: "(body @ d) @ arriving evs' = full" using 1(2) recv_bytes_arriving [OF r] by simp
    ultimately show ?thesis using 1(1) [OF True r [symmetric] refl _ full 1(3)] True r by (simp add: receive_body.simps [of n body evs])
  next
    case False
    with 1(2) show ?thesis by (auto simp: receive_body.simps [of n body evs])
  qed
qed

subsection \<open>Requests as clients send them\<close>

definition word_text :: "string \<Rightarrow> bool" where
  "word_text s \<longleftrightarrow> s \<noteq> [] \<and> (\<forall>c\<in>set s. \<not> is_space_byte c)"

text \<open>A field name is a word without a colon, a value is trimmed text on one line.\<close>

definition valid_field :: "string \<times> string \<Rightarrow> bool" where
  "valid_field f \<longleftrightarrow> word_text (fst f) \<and> CHR '':'' \<notin> set (fst f) \<and> trim (snd f) = snd f \<and>
     CHR 0x0D \<notin> set (snd f) \<and> CHR 0x0A \<notin> set (snd f)"

definition field_line :: "string \<times> string \<Rightarrow> string" where
  "field_line f = fst f @ '': '' @ snd f"

definition head_lines :: "string \<Rightarrow> string \<Rightarrow> (string \<times> string) list \<Rightarrow> string list" where
  "head_lines m target fs = (m @ '' '' @ target @ '' HTTP/1.1'') # map field_line fs"

definition request_text :: "string \<Rightarrow> string \<Rightarrow> (string \<times> string) list \<Rightarrow> string \<Rightarrow> string" where
  "request_text m target fs body = concat (map (\<lambda>l. l @ crlf) (head_lines m target fs)) @ crlf @ body"

definition field_map :: "(string \<times> string) list \<Rightarrow> (string \<rightharpoonup> string)" where
  "field_map fs = fold (\<lambda>(n, v). put_header (lower_ascii n) v) fs Map.empty"

definition path_of :: "string \<Rightarrow> string" where
  "path_of target = takeWhile (\<lambda>c. c \<noteq> CHR ''?'') target"

definition query_of :: "string \<Rightarrow> string" where
  "query_of target = drop 1 (dropWhile (\<lambda>c. c \<noteq> CHR ''?'') target)"

lemma line_bytes: "is_space_byte (CHR 0x0D)" "is_space_byte (CHR 0x0A)" "is_space_byte (CHR '' '')" "\<not> is_space_byte (CHR '':'')"
  by (simp_all add: ctype_defs)

lemma word_no_line: "word_text s \<Longrightarrow> CHR 0x0D \<notin> set s \<and> CHR 0x0A \<notin> set s \<and> CHR '' '' \<notin> set s"
  using line_bytes by (auto simp: word_text_def)

lemma takeWhile_word: "\<forall>c\<in>set s. \<not> is_space_byte c \<Longrightarrow> takeWhile (\<lambda>c. \<not> is_space_byte c) (s @ CHR '' '' # r) = s \<and>
    dropWhile (\<lambda>c. \<not> is_space_byte c) (s @ CHR '' '' # r) = CHR '' '' # r"
  by (simp add: line_bytes takeWhile_append2 dropWhile_append2)

lemma dropWhile_word: "word_text s \<Longrightarrow> dropWhile is_space_byte (s @ r) = s @ r"
  by (cases s) (auto simp: word_text_def)

lemma next_word_word: "word_text s \<Longrightarrow> next_word (s @ CHR '' '' # r) = (s, CHR '' '' # r)"
  using takeWhile_word [of s r] dropWhile_word [of s] by (simp add: next_word_def Let_def word_text_def)

lemma next_word_blank: "next_word (CHR '' '' # s) = next_word s"
  by (simp add: next_word_def line_bytes)

lemma find_idx_takeWhile:
  "find_idx P s = (if \<exists>c\<in>set s. P c then Some (length (takeWhile (\<lambda>c. \<not> P c) s)) else None)"
  by (induction s) auto

lemma drop_takeWhile: "\<exists>c\<in>set s. P c \<Longrightarrow> drop (length (takeWhile (\<lambda>c. \<not> P c) s) + 1) s = drop 1 (dropWhile (\<lambda>c. \<not> P c) s)"
  by (induction s) auto

lemma take_takeWhile: "take (length (takeWhile Q s)) s = takeWhile Q s"
  by (metis takeWhile_eq_take)

lemma parse_request_line_ok:
  assumes "word_text m" "word_text target"
  shows "parse_request_line (m @ '' '' @ target @ '' HTTP/1.1'') =
    Inr \<lparr>req_method = m, req_path = path_of target, req_query = query_of target, req_headers = Map.empty, req_body = []\<rparr>"
proof -
  have "next_word (m @ '' '' @ target @ '' HTTP/1.1'') = (m, '' '' @ target @ '' HTTP/1.1'')" using next_word_word [OF assms(1)] by simp
  moreover have "next_word ('' '' @ target @ '' HTTP/1.1'') = (target, '' HTTP/1.1'')"
    using next_word_word [OF assms(2), of "''HTTP/1.1''"] by (simp add: next_word_blank)
  moreover have "m \<noteq> []" "target \<noteq> []" using assms by (simp_all add: word_text_def)
  moreover have "find_idx (\<lambda>c. c = CHR ''?'') target = (if CHR ''?'' \<in> set target then Some (length (path_of target)) else None)"
    by (simp add: find_idx_takeWhile path_of_def)
  moreover have "take (length (path_of target)) target = path_of target" by (simp add: path_of_def take_takeWhile)
  moreover have "drop (length (path_of target) + 1) target = query_of target" if "CHR ''?'' \<in> set target"
    unfolding path_of_def query_of_def by (rule drop_takeWhile) (use that in blast)
  moreover have "path_of target = target" "query_of target = []" if "CHR ''?'' \<notin> set target"
  proof -
    have "\<forall>c\<in>set target. c \<noteq> CHR ''?''" using that by blast
    then show "path_of target = target" "query_of target = []"
      by (simp_all only: path_of_def query_of_def takeWhile_eq_all_conv dropWhile_eq_Nil_conv [THEN iffD2] drop_Nil)
  qed
  ultimately show ?thesis by (cases "CHR ''?'' \<in> set target") (simp_all add: parse_request_line_def del: One_nat_def)
qed

lemma trim_word: "word_text s \<Longrightarrow> trim s = s"
  by (rule trim_id) (auto simp: word_text_def)

lemma header_field_line:
  assumes "valid_field f"
  shows "header_field (field_line f) = Some (lower_ascii (fst f), snd f)"
proof -
  obtain n v where f: "f = (n, v)" by fastforce
  have n: "word_text n" "CHR '':'' \<notin> set n" and v: "trim v = v" "CHR 0x0D \<notin> set v" using assms by (auto simp: f valid_field_def)
  have "List.last (n @ '': '' @ v) \<noteq> CHR 0x0D" using v(2) by (cases v rule: rev_cases) auto
  then have "drop_cr (n @ '': '' @ v) = n @ '': '' @ v" by (simp add: drop_cr_def)
  moreover have "find_idx (\<lambda>c. c = CHR '':'') (n @ '': '' @ v) = Some (length n)"
    using find_idx_append [of n "\<lambda>c. c = CHR '':''" "CHR '':''" "CHR '' '' # v"] n(2) by auto
  moreover have "trim (CHR '' '' # v) = v" using v(1) trim_lead [OF line_bytes(3)] by simp
  ultimately show ?thesis using trim_word [OF n(1)] by (simp add: f field_line_def header_field_def)
qed

lemma head_lines_plain:
  assumes "word_text m" "word_text target" "\<forall>f\<in>set fs. valid_field f"
  shows "\<forall>l\<in>set (head_lines m target fs). plain_line l"
  using assms word_no_line by (auto simp: head_lines_def plain_line_def field_line_def valid_field_def)

lemma parse_head_ok:
  assumes "word_text m" "word_text target" "\<forall>f\<in>set fs. valid_field f"
  shows "parse_head (joined (head_lines m target fs)) =
    Inr \<lparr>req_method = m, req_path = path_of target, req_query = query_of target, req_headers = field_map fs, req_body = []\<rparr>"
proof -
  have ls: "map drop_cr (getlines (joined (head_lines m target fs))) = head_lines m target fs"
    by (rule getlines_joined [OF head_lines_plain [OF assms]])
  then obtain line lines where g: "getlines (joined (head_lines m target fs)) = line # lines"
    by (cases "getlines (joined (head_lines m target fs))") (auto simp: head_lines_def)
  have line: "drop_cr line = m @ '' '' @ target @ '' HTTP/1.1''" and lines: "map drop_cr lines = map field_line fs"
    using ls g by (simp_all add: head_lines_def)
  have idem: "drop_cr (drop_cr l) = drop_cr l" if "plain_line (drop_cr l)" for l
  proof -
    have "drop_cr l \<noteq> []" "CHR 0x0D \<notin> set (drop_cr l)" using that by (simp_all add: plain_line_def)
    then have "List.last (drop_cr l) \<noteq> CHR 0x0D" by (metis last_in_set)
    then show ?thesis by (simp add: drop_cr_def [of "drop_cr l"])
  qed
  have "add_header l = add_header (drop_cr l)" if "plain_line (drop_cr l)" for l
    using idem [OF that] by (intro ext) (simp add: add_header_def header_field_def)
  moreover have "\<forall>l\<in>set lines. plain_line (drop_cr l)"
  proof -
    have "\<forall>l\<in>set (map drop_cr lines). plain_line l" unfolding lines using head_lines_plain [OF assms] by (simp add: head_lines_def)
    then show ?thesis by simp
  qed
  ultimately have "fold add_header lines hs = fold add_header (map drop_cr lines) hs" for hs
    by (induction lines arbitrary: hs) auto
  then have "fold add_header lines Map.empty = fold add_header (map field_line fs) Map.empty" using lines by simp
  also have "fold add_header (map field_line fs) hs = fold (\<lambda>(n, v). put_header (lower_ascii n) v) fs hs" for hs
    using assms(3) header_field_line by (induction fs arbitrary: hs) (auto simp: add_header_def)
  finally have "fold add_header lines Map.empty = field_map fs" by (simp add: field_map_def)
  then show ?thesis using g line parse_request_line_ok [OF assms(1,2)] by (simp add: parse_head_def bind_sum_def)
qed

lemma read_head_ok:
  assumes "word_text m" "word_text target" "\<forall>f\<in>set fs. valid_field f" "arriving evs = request_text m target fs body @ left"
    "length (joined (head_lines m target fs)) + 4 \<le> 1024 * 1024"
  shows "\<exists>data evs'. receive_head [] evs = Inr (data, length (joined (head_lines m target fs)), evs') \<and> set evs' \<subseteq> set evs \<and>
    take (length (joined (head_lines m target fs))) data = joined (head_lines m target fs) \<and>
    drop (length (joined (head_lines m target fs)) + 4) data @ arriving evs' = body @ left"
proof -
  let ?h = "joined (head_lines m target fs)"
  have ne: "head_lines m target fs \<noteq> []" by (simp add: head_lines_def)
  have arr: "arriving evs = concat (map (\<lambda>l. l @ crlf) (head_lines m target fs)) @ crlf @ (body @ left)"
    by (simp add: assms(4) request_text_def)
  have full: "arriving evs = ?h @ crlf @ crlf @ (body @ left)" and find: "find_sub (crlf @ crlf) (arriving evs) = Some (length ?h)"
    using find_header_end [OF ne head_lines_plain [OF assms(1-3)], of "body @ left"] unfolding arr by blast+
  obtain data evs' where d: "receive_head [] evs = Inr (data, length ?h, evs')" "data @ arriving evs' = arriving evs" "set evs' \<subseteq> set evs"
    "length ?h + 4 \<le> length data"
    using receive_head_result [of "[]" evs, OF _ find assms(5)] by (auto simp: crlf_def)
  have "take (length ?h) (data @ arriving evs') = ?h" "drop (length ?h + 4) (data @ arriving evs') = body @ left"
    unfolding d(2) full by (simp_all add: crlf_def)
  with d(4) have "take (length ?h) data = ?h" "drop (length ?h + 4) data @ arriving evs' = body @ left" by simp_all
  with d(1,3) show ?thesis by blast
qed

lemma content_length_str:
  "n \<le> max_body \<Longrightarrow> n < 2 ^ 64 \<Longrightarrow> content_length_of max_body (nat_str n) = Inr n"
  by (simp add: content_length_of_def Let_def)

definition announces_body :: "(string \<rightharpoonup> string) \<Rightarrow> string \<Rightarrow> bool" where
  "announces_body hs body \<longleftrightarrow> (case hs ''content-length'' of None \<Rightarrow> body = [] | Some v \<Rightarrow> v = nat_str (length body))"

text \<open>
  C7. A request is read as it was sent: for any method, target, well-formed fields and announced body
  within the limits, however the network cuts the bytes and whatever follows them, the reader returns
  that method, the target split at the question mark, the fields under their lower-case names and
  exactly the body.
\<close>

theorem request_reads_back:
  assumes "word_text m" "word_text target" "\<forall>f\<in>set fs. valid_field f" "arriving evs = request_text m target fs body @ left"
    "length (joined (head_lines m target fs)) + 4 \<le> 1024 * 1024" "\<not> wants_incremental_body (path_of target) (field_map fs)"
    "announces_body (field_map fs) body" "length body \<le> max_body" "max_body < 2 ^ 64"
  shows "\<exists>evs'. read_http_request max_body evs =
    Inr (\<lparr>req_method = m, req_path = path_of target, req_query = query_of target, req_headers = field_map fs, req_body = body\<rparr>, [], evs')"
proof -
  let ?h = "joined (head_lines m target fs)"
  obtain data evs1 where d: "receive_head [] evs = Inr (data, length ?h, evs1)" "take (length ?h) data = ?h"
    "drop (length ?h + 4) data @ arriving evs1 = body @ left" using read_head_ok [OF assms(1-5)] by blast
  obtain evs2 where b: "receive_body (length body) (drop (length ?h + 4) data) evs1 = Inr (body, evs2)"
    using receive_body_result [OF d(3), of "length body"] by auto
  have "(case field_map fs ''content-length'' of None \<Rightarrow> Inr 0 | Some v \<Rightarrow> content_length_of max_body v) = Inr (length body)"
    using assms(7-9) content_length_str [of "length body" max_body] by (auto simp: announces_body_def split: option.splits)
  with d b parse_head_ok [OF assms(1-3)] assms(6) show ?thesis
    by (simp add: read_http_request_def bind_sum_def)
qed

definition demo_fields :: "(string \<times> string) list" where
  "demo_fields = [(''Host'', ''me''), (''Content-Length'', ''2'')]"

lemma demo_field_map: "field_map demo_fields = [''host'' \<mapsto> ''me'', ''content-length'' \<mapsto> ''2'']"
  by (simp add: field_map_def demo_fields_def put_header_def lower_ascii_def ctype_defs char_of_def bit_Suc_0_iff)

lemma demo_fields_valid: "\<forall>f\<in>set demo_fields. valid_field f"
  by (simp add: demo_fields_def valid_field_def word_text_def trim_def ctype_defs)

theorem request_reads_back_witness:
  "\<exists>evs'. read_http_request 100 [Arrives (take 20 (request_text ''POST'' ''/v1?a=b'' demo_fields ''hi'')),
      Arrives (drop 20 (request_text ''POST'' ''/v1?a=b'' demo_fields ''hi'')), Hung_Up] =
    Inr (\<lparr>req_method = ''POST'', req_path = ''/v1'', req_query = ''a=b'', req_headers = [''host'' \<mapsto> ''me'', ''content-length'' \<mapsto> ''2''],
      req_body = ''hi''\<rparr>, [], evs')"
proof -
  have words: "word_text ''POST''" "word_text ''/v1?a=b''" by (simp_all add: word_text_def ctype_defs)
  have len: "length (joined (head_lines ''POST'' ''/v1?a=b'' demo_fields)) + 4 \<le> 1024 * 1024"
    by (simp add: head_lines_def demo_fields_def field_line_def crlf_def)
  have "arriving [Arrives (take 20 (request_text ''POST'' ''/v1?a=b'' demo_fields ''hi'')),
      Arrives (drop 20 (request_text ''POST'' ''/v1?a=b'' demo_fields ''hi'')), Hung_Up] = request_text ''POST'' ''/v1?a=b'' demo_fields ''hi'' @ []"
    by (simp add: request_text_def head_lines_def demo_fields_def field_line_def crlf_def)
  from request_reads_back [OF words demo_fields_valid this len, of 100] demo_field_map show ?thesis
    by (simp add: wants_incremental_body_def path_of_def query_of_def announces_body_def nat_str.simps char_of_def bit_Suc_0_iff)
qed

subsection \<open>Live requests\<close>

lemma request_stream:
  assumes "word_text m" "word_text target" "\<forall>f\<in>set fs. valid_field f" "arriving evs = request_text m target fs body @ left"
    "length (joined (head_lines m target fs)) + 4 \<le> 1024 * 1024" "wants_incremental_body (path_of target) (field_map fs)"
  shows "\<exists>leftover evs'. read_http_request max_body evs =
    Inr (\<lparr>req_method = m, req_path = path_of target, req_query = query_of target, req_headers = field_map fs, req_body = []\<rparr>, leftover, evs') \<and>
    leftover @ arriving evs' = body @ left \<and> set evs' \<subseteq> set evs"
  using read_head_ok [OF assms(1-5)] parse_head_ok [OF assms(1-3)] assms(6)
  by (auto simp: read_http_request_def bind_sum_def)

text \<open>
  C38. A live request reaches the handler whole: when a client sends a request to a live endpoint with
  a chunked body, the handler gets the request and a stream that gives exactly the payload of the
  chunks and then ends - wherever the network cuts head and body, also when the first bytes of the body
  arrive with the head - and the client gets what the handler answers.
\<close>

theorem live_request_served:
  assumes "word_text m" "word_text target" "\<forall>f\<in>set fs. valid_field f"
    "arriving evs = request_text m target fs (body_text cs l ts) @ left" "length (joined (head_lines m target fs)) + 4 \<le> 1024 * 1024"
    "wants_incremental_body (path_of target) (field_map fs)"
    "req = \<lparr>req_method = m, req_path = path_of target, req_query = query_of target, req_headers = field_map fs, req_body = []\<rparr>"
    "valid_body (limits_of req) 8191 cs l ts" "Silent \<notin> set evs"
    "total_timeout_ms (limits_of req) \<le> 0 \<or> (\<forall>n. clk n < total_timeout_ms (limits_of req))"
    "max_body_bytes (limits_of req) = 0 \<or> length (body_text cs l ts @ left) \<le> max_body_bytes (limits_of req)"
  shows "handle_client clk jquote limits_of handler max_body evs = answer_bytes jquote (handler req (Some (concat (map snd cs), None)))"
proof -
  obtain leftover evs' where r: "read_http_request max_body evs = Inr (req, leftover, evs')"
    "leftover @ arriving evs' = body_text cs l ts @ left" "set evs' \<subseteq> set evs"
    using request_stream [OF assms(1-6), of max_body] assms(7) by auto
  have "read_body (limits_of req) clk (open_body leftover evs') = Some (concat (map snd cs), None)"
    by (rule open_body_read [OF r(2) assms(8)]) (use assms(9-11) r(2,3) in auto)
  with r(1) assms(6,7) show ?thesis by (simp add: handle_client_def)
qed

definition live_fields :: "(string \<times> string) list" where
  "live_fields = [(''Transfer-Encoding'', ''chunked'')]"

lemma live_field_map: "field_map live_fields = [''transfer-encoding'' \<mapsto> ''chunked'']"
  by (simp add: field_map_def live_fields_def put_header_def lower_ascii_def ctype_defs char_of_def bit_Suc_0_iff)

lemma live_fields_valid: "\<forall>f\<in>set live_fields. valid_field f"
  by (simp add: live_fields_def valid_field_def word_text_def trim_def ctype_defs)

theorem live_request_served_witness:
  "handle_client (\<lambda>_. 0) id (\<lambda>_. default_ingest_limits)
     (\<lambda>req stream. case stream of Some (out, None) \<Rightarrow> Responds (json_response out 200) | _ \<Rightarrow> Raises ''no body'') 100
     [Arrives (request_text ''POST'' ''/v1/voice/live'' live_fields (body_text [(''5'', ''hello'')] ''0'' []))] =
   serialize_response (json_response ''hello'' 200)"
proof -
  have words: "word_text ''POST''" "word_text ''/v1/voice/live''" by (simp_all add: word_text_def ctype_defs)
  have len: "length (joined (head_lines ''POST'' ''/v1/voice/live'' live_fields)) + 4 \<le> 1024 * 1024"
    by (simp add: head_lines_def live_fields_def field_line_def crlf_def)
  have inc: "wants_incremental_body (path_of ''/v1/voice/live'') (field_map live_fields)"
    by (simp add: wants_incremental_body_def path_of_def live_field_map is_chunked_only_def chunked_codings.simps trim_def lower_ascii_def
        ctype_defs)
  have "arriving [Arrives (request_text ''POST'' ''/v1/voice/live'' live_fields (body_text [(''5'', ''hello'')] ''0'' []))] =
      request_text ''POST'' ''/v1/voice/live'' live_fields (body_text [(''5'', ''hello'')] ''0'' []) @ []"
    by (simp add: request_text_def head_lines_def)
  from live_request_served [OF words live_fields_valid this len inc refl, of "\<lambda>_. default_ingest_limits" "\<lambda>_. 0" id] hello_valid
  show ?thesis by (simp add: default_ingest_limits_def body_text_def trailer_text_def crlf_def)
qed

subsection \<open>Transfer codings over several fields\<close>

lemma find_idx_append_Some: "find_idx P u = Some i \<Longrightarrow> find_idx P (u @ w) = Some i"
  by (induction u arbitrary: i) (auto split: if_splits)

lemma split_commas_append: "split_commas (u @ CHR '','' # w) = split_commas u @ split_commas w"
proof (induction u rule: split_commas.induct)
  case (1 u)
  show ?case
  proof (cases "find_idx (\<lambda>c. c = CHR '','') u")
    case None
    then have "\<forall>c\<in>set u. c \<noteq> CHR '',''" by (auto simp: find_idx_takeWhile split: if_splits)
    then have "find_idx (\<lambda>c. c = CHR '','') (u @ CHR '','' # w) = Some (length u)"
      using find_idx_append [of u "\<lambda>c. c = CHR '',''" "CHR '',''" w] by auto
    with None show ?thesis by (simp add: split_commas.simps [of u] split_commas.simps [of "u @ CHR '','' # w"])
  next
    case (Some i)
    then have i: "i < length u" "find_idx (\<lambda>c. c = CHR '','') (u @ CHR '','' # w) = Some i"
      using find_idx_Some [OF Some] find_idx_append_Some by auto
    with 1 [OF Some] show ?thesis
      by (simp add: split_commas.simps [of u] split_commas.simps [of "u @ CHR '','' # w"] Some)
  qed
qed

lemma split_commas_blank: "map trim (split_commas (CHR '' '' # v)) = map trim (split_commas v)"
proof -
  have "find_idx (\<lambda>c. c = CHR '','') (CHR '' '' # v) = map_option Suc (find_idx (\<lambda>c. c = CHR '','') v)"
    by (cases "find_idx (\<lambda>c. c = CHR '','') v") auto
  then show ?thesis using trim_lead [OF line_bytes(3)]
    by (cases "find_idx (\<lambda>c. c = CHR '','') v") (simp_all add: split_commas.simps [of v] split_commas.simps [of "CHR '' '' # v"])
qed

lemma codings_of_join: "codings_of (u @ '', '' @ v) = codings_of u @ codings_of v"
  using split_commas_append [of u "CHR '' '' # v"] split_commas_blank [of v] by (simp add: codings_of_def)

lemma codings_of_Nil: "codings_of [] = []"
  by (simp add: codings_of_def split_commas.simps trim_def)

definition coding_fields :: "string list \<Rightarrow> string list" where
  "coding_fields ls = map snd (filter (\<lambda>f. fst f = ''transfer-encoding'') (List.map_filter header_field ls))"

definition coding_slot :: "(string \<rightharpoonup> string) \<Rightarrow> string" where
  "coding_slot hs = (case hs ''transfer-encoding'' of None \<Rightarrow> [] | Some v \<Rightarrow> v)"

lemma coding_slot_add:
  "codings_of (coding_slot (add_header l hs)) = codings_of (coding_slot hs) @ concat (map codings_of (coding_fields [l]))"
  using codings_of_join codings_of_Nil
  by (cases "header_field l") (auto simp: add_header_def put_header_def coding_slot_def coding_fields_def List.map_filter_def Let_def
      split: option.splits)

lemma coding_slot_fold:
  "codings_of (coding_slot (fold add_header ls hs)) = codings_of (coding_slot hs) @ concat (map codings_of (coding_fields ls))"
proof (induction ls arbitrary: hs)
  case (Cons l ls)
  have "coding_fields (l # ls) = coding_fields [l] @ coding_fields ls" by (simp add: coding_fields_def List.map_filter_def)
  with Cons show ?case by (simp add: coding_slot_add)
qed (simp add: coding_fields_def List.map_filter_def)

text \<open>
  C29. A coding cannot be hidden by repeating the field: a request is read incrementally exactly if it
  is for a live endpoint and all its transfer-encoding fields together, in the order of their lines and
  with empty elements dropped, name the one coding chunked - so a first line with gzip is never
  overwritten by a second one with chunked.
\<close>

theorem transfer_codings_combined:
  "wants_incremental_body path (fold add_header ls Map.empty) =
    ((path = ''/v1/audio/transcriptions/live'' \<or> path = ''/v1/voice/live'') \<and>
     (\<exists>c. concat (map codings_of (coding_fields ls)) = [c] \<and> lower_ascii c = ''chunked''))"
proof -
  have "codings_of (coding_slot (fold add_header ls Map.empty)) = concat (map codings_of (coding_fields ls))"
    using coding_slot_fold [of ls Map.empty] codings_of_Nil by (simp add: coding_slot_def)
  moreover have "wants_incremental_body path hs = ((path = ''/v1/audio/transcriptions/live'' \<or> path = ''/v1/voice/live'') \<and>
      (\<exists>c. codings_of (coding_slot hs) = [c] \<and> lower_ascii c = ''chunked''))" for hs
    by (simp add: wants_incremental_body_def is_chunked_only_iff coding_slot_def codings_of_Nil split: option.splits)
  ultimately show ?thesis by simp
qed

end
