(* ===== verification/Wav.thy ===== *)
theory Wav
  imports Complex_Main Prelude "HOL-Library.Word"
begin

unbundle bit_operations_syntax

text \<open>
  WAV files: the encoder of the server (\<^verbatim>\<open>encode_pcm16_wav\<close> in \<^verbatim>\<open>app/server/runtime.cpp\<close>), the writer and the reader of the
  engine (\<^verbatim>\<open>framework/audio/wav_writer.cpp\<close>, \<^verbatim>\<open>wav_reader.cpp\<close>).

  Bytes are \<^typ>\<open>8 word\<close>, the header fields words of their width, a scalar is read and written in the byte order of a
  little-endian machine, as the source does by copying memory. Samples are reals. A stream is the list of its remaining
  bytes; \<open>is_file\<close> tells a file, where seeking past the end succeeds and leaves nothing to read, from the buffer
  in memory, whose \<^verbatim>\<open>seekoff\<close> refuses it. The value of a binary32 sample is the argument \<open>f32\<close>.
\<close>

datatype wav_error =
  Bad_Riff | Bad_Wave | Scalar_Missing | Seek_Failed | Data_Missing | Incomplete_File | Malformed_PCM24 | Unsupported_Encoding
| Bad_Sample_Rate | Bad_Channel_Count | Bad_Sample_Count | Undefined_Byte_Rate

record wav_data =
  wav_rate :: int
  wav_channels :: int
  wav_samples :: "real list"

subsection \<open>Scalars\<close>

definition u16_bytes :: "16 word \<Rightarrow> 8 word list" where
  "u16_bytes w = [ucast w, ucast (drop_bit 8 w)]"

definition u32_bytes :: "32 word \<Rightarrow> 8 word list" where
  "u32_bytes w = [ucast w, ucast (drop_bit 8 w), ucast (drop_bit 16 w), ucast (drop_bit 24 w)]"

fun read_u16 :: "8 word list \<Rightarrow> wav_error + 16 word \<times> 8 word list" where
  "read_u16 (a # b # r) = Inr (ucast a OR push_bit 8 (ucast b), r)"
| "read_u16 _ = Inl Scalar_Missing"

fun read_u32 :: "8 word list \<Rightarrow> wav_error + 32 word \<times> 8 word list" where
  "read_u32 (a # b # c # d # r) = Inr (ucast a OR push_bit 8 (ucast b) OR push_bit 16 (ucast c) OR push_bit 24 (ucast d), r)"
| "read_u32 _ = Inl Scalar_Missing"

definition tag_bytes :: "string \<Rightarrow> 8 word list" where
  "tag_bytes s = map (\<lambda>c. word_of_nat (byte_of c)) s"

definition skip_bytes :: "bool \<Rightarrow> nat \<Rightarrow> 8 word list \<Rightarrow> wav_error + 8 word list" where
  "skip_bytes is_file n rest = (if n \<le> length rest \<or> is_file then Inr (drop n rest) else Inl Seek_Failed)"

subsection \<open>The writers\<close>

text \<open>\<^verbatim>\<open>std::lrint\<close> in the default rounding mode: to the nearest integer, halves to the even one.\<close>

definition lrint :: "real \<Rightarrow> int" where
  "lrint x = (let n = \<lfloor>x\<rfloor>; d = x - of_int n in if d < 1 / 2 \<or> d = 1 / 2 \<and> even n then n else n + 1)"

definition pcm16 :: "real \<Rightarrow> int" where
  "pcm16 s = lrint (max (- 1) (min 1 s) * 32767)"

definition check_layout :: "wav_data \<Rightarrow> wav_error + unit" where
  "check_layout a =
     (if wav_rate a \<le> 0 then Inl Bad_Sample_Rate
      else if wav_channels a \<le> 0 then Inl Bad_Channel_Count
      else if int (length (wav_samples a)) mod wav_channels a \<noteq> 0 then Inl Bad_Sample_Count
      else Inr ())"

definition wav_bytes :: "16 word \<Rightarrow> 32 word \<Rightarrow> 32 word \<Rightarrow> 16 word \<Rightarrow> 32 word \<Rightarrow> real list \<Rightarrow> 8 word list" where
  "wav_bytes channels rate byte_rate block_align data_bytes samples =
     tag_bytes ''RIFF'' @ u32_bytes (36 + data_bytes) @ tag_bytes ''WAVEfmt '' @ u32_bytes 16 @ u16_bytes 1 @ u16_bytes channels @
     u32_bytes rate @ u32_bytes byte_rate @ u16_bytes block_align @ u16_bytes 16 @ tag_bytes ''data'' @ u32_bytes data_bytes @
     concat (map (\<lambda>s. u16_bytes (word_of_int (pcm16 s))) samples)"

text \<open>The samples alone, as streamed audio is sent.\<close>

definition encode_pcm16_samples :: "wav_data \<Rightarrow> wav_error + 8 word list" where
  "encode_pcm16_samples a =
     bind_sum (check_layout a) (\<lambda>_. Inr (concat (map (\<lambda>s. u16_bytes (word_of_int (pcm16 s))) (wav_samples a))))"

definition encode_pcm16_wav :: "wav_data \<Rightarrow> wav_error + 8 word list" where
  "encode_pcm16_wav a =
     bind_sum (check_layout a) (\<lambda>_.
       let channels = word_of_int (wav_channels a) :: 16 word;
           rate = word_of_int (wav_rate a) :: 32 word
       in Inr (wav_bytes channels rate (rate * ucast channels * 16 div 8) (word_of_int (uint channels * 16 div 8))
                 (word_of_nat (length (wav_samples a) * 2)) (wav_samples a)))"

text \<open>The file writer computes the byte rate in signed arithmetic. The check comes after the file has been created.\<close>

definition write_pcm16_wav :: "wav_data \<Rightarrow> wav_error + 8 word list" where
  "write_pcm16_wav a =
     bind_sum (check_layout a) (\<lambda>_.
       let channels = word_of_int (wav_channels a) :: 16 word;
           product = wav_rate a * uint channels * 16
       in if product \<ge> 2 ^ 31 then Inl Undefined_Byte_Rate
          else Inr (wav_bytes channels (word_of_int (wav_rate a)) (word_of_int (product div 8)) (word_of_int (uint channels * 16 div 8))
                 (word_of_nat (length (wav_samples a) * 2)) (wav_samples a)))"

subsection \<open>The reader\<close>

record wav_head =
  audio_format :: "16 word"
  fmt_channels :: "16 word"
  fmt_rate :: "32 word"
  bits_per_sample :: "16 word"
  wav_payload :: "8 word list"

definition kReadBlock :: nat where
  "kReadBlock = 1048576"

function read_blocks :: "nat \<Rightarrow> 8 word list \<Rightarrow> 8 word list \<Rightarrow> wav_error + 8 word list \<times> 8 word list" where
  "read_blocks remaining got rest =
     (if remaining = 0 then Inr (got, rest)
      else let step = min remaining kReadBlock in
           if length rest < step then Inl Data_Missing
           else read_blocks (remaining - step) (got @ take step rest) (drop step rest))"
  by pat_completeness auto
termination
  by (relation "measure (\<lambda>(n, got, rest). n)") (auto simp: kReadBlock_def)

declare read_blocks.simps [simp del]

definition read_fmt :: "bool \<Rightarrow> nat \<Rightarrow> wav_head \<Rightarrow> 8 word list \<Rightarrow> wav_error + wav_head \<times> 8 word list" where
  "read_fmt is_file chunk_size h r0 =
     bind_sum (read_u16 r0) (\<lambda>(format, r1).
     bind_sum (read_u16 r1) (\<lambda>(channels, r2).
     bind_sum (read_u32 r2) (\<lambda>(rate, r3).
     bind_sum (skip_bytes is_file 6 r3) (\<lambda>r4.
     bind_sum (read_u16 r4) (\<lambda>(depth, r5).
     bind_sum (if chunk_size > 16 then skip_bytes is_file (chunk_size - 16) r5 else Inr r5) (\<lambda>r6.
       Inr (h\<lparr>audio_format := format, fmt_channels := channels, fmt_rate := rate, bits_per_sample := depth\<rparr>, r6)))))))"

text \<open>One chunk, its id (the first four bytes) being there.\<close>

definition read_chunk :: "bool \<Rightarrow> wav_head \<Rightarrow> 8 word list \<Rightarrow> wav_error + wav_head \<times> 8 word list" where
  "read_chunk is_file h rest =
     bind_sum (read_u32 (drop 4 rest)) (\<lambda>(chunk_size, r1).
     bind_sum (if take 4 rest = tag_bytes ''fmt '' then read_fmt is_file (unat chunk_size) h r1
               else if take 4 rest = tag_bytes ''data''
               then bind_sum (read_blocks (unat chunk_size) [] r1) (\<lambda>(got, r2). Inr (h\<lparr>wav_payload := got\<rparr>, r2))
               else bind_sum (skip_bytes is_file (unat chunk_size) r1) (\<lambda>r2. Inr (h, r2))) (\<lambda>(h', r3).
     bind_sum (if odd (unat chunk_size) then skip_bytes is_file 1 r3 else Inr r3) (\<lambda>r4. Inr (h', r4))))"

lemma read_u16_shorter: "read_u16 r = Inr (w, r') \<Longrightarrow> length r' < length r"
  by (cases r rule: read_u16.cases) auto

lemma read_u32_shorter: "read_u32 r = Inr (w, r') \<Longrightarrow> length r' < length r"
  by (cases r rule: read_u32.cases) auto

lemma skip_bytes_shorter: "skip_bytes is_file n r = Inr r' \<Longrightarrow> length r' \<le> length r"
  by (auto simp: skip_bytes_def split: if_splits)

lemma read_blocks_shorter: "read_blocks n got r = Inr (got', r') \<Longrightarrow> length r' \<le> length r"
proof (induction n got r rule: read_blocks.induct)
  case (1 n got r)
  show ?case
  proof (cases "n = 0")
    case True
    with 1(2) show ?thesis by (simp add: read_blocks.simps)
  next
    case False
    with 1(2) have enough: "\<not> length r < min n kReadBlock"
      and "read_blocks (n - min n kReadBlock) (got @ take (min n kReadBlock) r) (drop (min n kReadBlock) r) = Inr (got', r')"
      by (simp_all add: read_blocks.simps [of n] Let_def split: if_splits)
    from 1(1) [OF False refl this] show ?thesis by simp
  qed
qed

lemma read_fmt_shorter: "read_fmt is_file n h r = Inr (h', r') \<Longrightarrow> length r' \<le> length r"
  unfolding read_fmt_def
  by (auto simp: bind_sum_Inr split: if_splits dest!: read_u16_shorter read_u32_shorter skip_bytes_shorter)

lemma read_chunk_shorter: "read_chunk is_file h rest = Inr (h', r') \<Longrightarrow> length r' < length rest"
  unfolding read_chunk_def
  by (fastforce simp: bind_sum_Inr split: if_splits dest!: read_u32_shorter skip_bytes_shorter read_blocks_shorter read_fmt_shorter)

function read_chunks :: "bool \<Rightarrow> wav_head \<Rightarrow> 8 word list \<Rightarrow> wav_error + wav_head" where
  "read_chunks is_file h rest =
     (if length rest < 4 then Inr h
      else case read_chunk is_file h rest of Inl e \<Rightarrow> Inl e | Inr (h', rest') \<Rightarrow> read_chunks is_file h' rest')"
  by pat_completeness auto
termination
  by (relation "measure (\<lambda>(f, h, rest). length rest)") (auto dest: read_chunk_shorter)

declare read_chunks.simps [simp del]

fun words16 :: "8 word list \<Rightarrow> 16 word list" where
  "words16 (a # b # r) = (ucast a OR push_bit 8 (ucast b)) # words16 r"
| "words16 _ = []"

fun words24 :: "8 word list \<Rightarrow> 32 word list" where
  "words24 (a # b # c # r) =
     (let v = ucast a OR push_bit 8 (ucast b) OR push_bit 16 (ucast c) :: 32 word
      in if v AND 0x00800000 \<noteq> 0 then v OR NOT 0x00FFFFFF else v) # words24 r"
| "words24 _ = []"

fun words32 :: "8 word list \<Rightarrow> 32 word list" where
  "words32 (a # b # c # d # r) = (ucast a OR push_bit 8 (ucast b) OR push_bit 16 (ucast c) OR push_bit 24 (ucast d)) # words32 r"
| "words32 _ = []"

definition decode_samples :: "(32 word \<Rightarrow> real) \<Rightarrow> wav_head \<Rightarrow> wav_error + real list" where
  "decode_samples f32 h =
     (if audio_format h = 1 \<and> bits_per_sample h = 16 then Inr (map (\<lambda>w. of_int (sint w) / 32768) (words16 (wav_payload h)))
      else if audio_format h = 1 \<and> bits_per_sample h = 24
      then (if length (wav_payload h) mod 3 \<noteq> 0 then Inl Malformed_PCM24
            else Inr (map (\<lambda>w. of_int (sint w) / 8388608) (words24 (wav_payload h))))
      else if audio_format h = 3 \<and> bits_per_sample h = 32 then Inr (map f32 (words32 (wav_payload h)))
      else Inl Unsupported_Encoding)"

definition read_wav_f32 :: "(32 word \<Rightarrow> real) \<Rightarrow> bool \<Rightarrow> 8 word list \<Rightarrow> wav_error + wav_data" where
  "read_wav_f32 f32 is_file input =
     (if take 4 input \<noteq> tag_bytes ''RIFF'' then Inl Bad_Riff
      else bind_sum (skip_bytes is_file 4 (drop 4 input)) (\<lambda>r1.
        if take 4 r1 \<noteq> tag_bytes ''WAVE'' then Inl Bad_Wave
        else bind_sum (read_chunks is_file \<lparr>audio_format = 0, fmt_channels = 0, fmt_rate = 0, bits_per_sample = 0, wav_payload = []\<rparr> (drop 4 r1)) (\<lambda>h.
          if fmt_channels h = 0 \<or> fmt_rate h = 0 \<or> bits_per_sample h = 0 \<or> wav_payload h = [] then Inl Incomplete_File
          else bind_sum (decode_samples f32 h) (\<lambda>xs.
            Inr \<lparr>wav_rate = sint (fmt_rate h), wav_channels = uint (fmt_channels h), wav_samples = xs\<rparr>))))"

subsection \<open>Reading back\<close>

lemma u16_roundtrip: "(ucast (ucast (w :: 16 word) :: 8 word) :: 16 word) OR push_bit 8 (ucast (ucast (drop_bit 8 w) :: 8 word)) = w"
proof (rule bit_eqI)
  fix n assume "possible_bit TYPE(16 word) n"
  then have "n < 16" by simp
  then show "bit ((ucast (ucast w :: 8 word) :: 16 word) OR push_bit 8 (ucast (ucast (drop_bit 8 w) :: 8 word))) n = bit w n"
    by (auto simp: bit_or_iff bit_push_bit_iff bit_unsigned_iff bit_drop_bit_eq)
qed

lemma u32_roundtrip:
  "(ucast (ucast (w :: 32 word) :: 8 word) :: 32 word) OR push_bit 8 (ucast (ucast (drop_bit 8 w) :: 8 word)) OR
   push_bit 16 (ucast (ucast (drop_bit 16 w) :: 8 word)) OR push_bit 24 (ucast (ucast (drop_bit 24 w) :: 8 word)) = w"
proof (rule bit_eqI)
  fix n assume "possible_bit TYPE(32 word) n"
  then have "n < 32" by simp
  then consider "n < 8" | "8 \<le> n" "n < 16" | "16 \<le> n" "n < 24" | "24 \<le> n" "n < 32" by linarith
  then show "bit ((ucast (ucast w :: 8 word) :: 32 word) OR push_bit 8 (ucast (ucast (drop_bit 8 w) :: 8 word)) OR
     push_bit 16 (ucast (ucast (drop_bit 16 w) :: 8 word)) OR push_bit 24 (ucast (ucast (drop_bit 24 w) :: 8 word))) n = bit w n"
    by cases (auto simp: bit_or_iff bit_push_bit_iff bit_unsigned_iff bit_drop_bit_eq)
qed

lemma read_u16_bytes [simp]: "read_u16 (u16_bytes w @ r) = Inr (w, r)"
  by (simp add: u16_bytes_def u16_roundtrip)

lemma read_u32_bytes [simp]: "read_u32 (u32_bytes w @ r) = Inr (w, r)"
  by (simp add: u32_bytes_def u32_roundtrip)

lemma words16_bytes: "words16 (concat (map u16_bytes ws)) = ws"
  by (induction ws) (simp_all add: u16_bytes_def u16_roundtrip)

lemma length_u16_bytes: "length (concat (map u16_bytes ws)) = 2 * length ws"
  by (induction ws) (simp_all add: u16_bytes_def)

lemma length_tags [simp]: "length (tag_bytes s) = length s" "length (u16_bytes w) = 2" "length (u32_bytes v) = 4"
  by (simp_all add: tag_bytes_def u16_bytes_def u32_bytes_def)

lemma tags_differ: "tag_bytes ''data'' \<noteq> tag_bytes ''fmt ''"
  by (simp add: tag_bytes_def byte_of_def)

lemma take_tag: "length s = n \<Longrightarrow> take n (tag_bytes s @ r) = tag_bytes s" "length s = n \<Longrightarrow> drop n (tag_bytes s @ r) = r"
  by simp_all

text \<open>Reading the data block by block gives the bytes claimed, or fails if they are not there.\<close>

lemma read_blocks_all: "read_blocks n got r = (if n \<le> length r then Inr (got @ take n r, drop n r) else Inl Data_Missing)"
proof (induction n got r rule: read_blocks.induct)
  case (1 n got r)
  show ?case
  proof (cases "n = 0 \<or> length r < min n kReadBlock")
    case True
    then show ?thesis by (auto simp: read_blocks.simps [of n got r] Let_def)
  next
    case False
    then have f: "n \<noteq> 0" "\<not> length r < min n kReadBlock" by auto
    have t: "take (min n kReadBlock) r @ take (n - min n kReadBlock) (drop (min n kReadBlock) r) = take n r"
      by (metis append_take_drop_id min.cobounded1 take_drop take_take append_eq_conv_conj le_add_diff_inverse take_add)
    show ?thesis
      using f 1 [OF f(1) refl f(2)] t by (auto simp: read_blocks.simps [of n got r] Let_def)
  qed
qed

lemma lrint_bounds: "x - 1 / 2 \<le> of_int (lrint x) \<and> of_int (lrint x) \<le> x + 1 / 2"
proof -
  have "real_of_int (lrint x) = of_int \<lfloor>x\<rfloor> \<and> x - of_int \<lfloor>x\<rfloor> \<le> 1 / 2 \<or> real_of_int (lrint x) = of_int \<lfloor>x\<rfloor> + 1 \<and> 1 / 2 \<le> x - of_int \<lfloor>x\<rfloor>"
    by (auto simp: lrint_def Let_def)
  moreover have "of_int \<lfloor>x\<rfloor> \<le> x" "x < of_int \<lfloor>x\<rfloor> + 1" by linarith+
  ultimately show ?thesis by (elim disjE conjE; linarith)
qed

lemma lrint_mono_int: "of_int a \<le> x \<Longrightarrow> x \<le> of_int b \<Longrightarrow> a \<le> lrint x \<and> lrint x \<le> b"
proof -
  assume a: "of_int a \<le> x" and b: "x \<le> of_int b"
  have f: "of_int \<lfloor>x\<rfloor> \<le> x" "x < of_int \<lfloor>x\<rfloor> + 1" by linarith+
  have "a \<le> \<lfloor>x\<rfloor>" using a by (simp add: le_floor_iff)
  moreover have "\<lfloor>x\<rfloor> + 1 \<le> b" if "\<not> x - of_int \<lfloor>x\<rfloor> < 1 / 2"
  proof -
    have "of_int \<lfloor>x\<rfloor> < (of_int b :: real)" using that b f by linarith
    then show ?thesis by simp
  qed
  moreover have "\<lfloor>x\<rfloor> \<le> b" using b f by linarith
  ultimately show ?thesis by (auto simp: lrint_def Let_def)
qed

lemma pcm16_range: "- 32767 \<le> pcm16 s \<and> pcm16 s \<le> 32767"
  unfolding pcm16_def by (rule lrint_mono_int) auto

lemma sint_pcm16: "sint (word_of_int (pcm16 s) :: 16 word) = pcm16 s"
  using pcm16_range [of s] by (simp add: signed_of_int signed_take_bit_int_eq_self)

lemma pcm16_close: "\<bar>of_int (pcm16 s) / 32768 - max (- 1) (min 1 s)\<bar> \<le> 1 / 32768 + 1 / (65534 :: real)"
proof -
  let ?c = "max (- 1) (min 1 s)"
  have "\<bar>of_int (pcm16 s) - ?c * 32767\<bar> \<le> 1 / 2" using lrint_bounds [of "?c * 32767"] unfolding pcm16_def by linarith
  then have a: "\<bar>of_int (pcm16 s) / 32767 - ?c\<bar> \<le> 1 / 65534" by (simp add: abs_le_iff field_simps)
  have "\<bar>real_of_int (pcm16 s)\<bar> \<le> 32767" using pcm16_range [of s] by (simp add: abs_le_iff flip: of_int_minus)
  then have b: "\<bar>of_int (pcm16 s) / 32768 - real_of_int (pcm16 s) / 32767\<bar> \<le> 1 / 32768" by (simp add: abs_le_iff field_simps)
  from a b show ?thesis by linarith
qed

definition storable_wav :: "wav_data \<Rightarrow> bool" where
  "storable_wav a \<longleftrightarrow> 0 < wav_rate a \<and> wav_rate a < 2 ^ 31 \<and> 0 < wav_channels a \<and> wav_channels a < 2 ^ 16 \<and>
     int (length (wav_samples a)) mod wav_channels a = 0 \<and> length (wav_samples a) < 2 ^ 31"

lemma read_data_chunk:
  "unat n = length bs \<Longrightarrow> even (length bs) \<Longrightarrow>
   read_chunk is_file h (tag_bytes ''data'' @ u32_bytes n @ bs) = Inr (h\<lparr>wav_payload := bs\<rparr>, [])"
  using tags_differ by (simp add: read_chunk_def take_tag bind_sum_def read_blocks_all)

lemma read_wav_bytes:
  assumes "channels \<noteq> 0" "rate \<noteq> 0" "length xs < 2 ^ 31"
  shows "read_wav_f32 f32 is_file (wav_bytes channels rate byte_rate align (word_of_nat (length xs * 2)) xs) =
    (if xs = [] then Inl Incomplete_File
     else Inr \<lparr>wav_rate = sint rate, wav_channels = uint channels, wav_samples = map (\<lambda>s. of_int (pcm16 s) / 32768) xs\<rparr>)"
proof -
  let ?h0 = "\<lparr>audio_format = 0, fmt_channels = 0, fmt_rate = 0, bits_per_sample = 0, wav_payload = []\<rparr> :: wav_head"
  let ?h1 = "\<lparr>audio_format = 1, fmt_channels = channels, fmt_rate = rate, bits_per_sample = 16, wav_payload = []\<rparr> :: wav_head"
  let ?pcm = "concat (map u16_bytes (map (\<lambda>s. word_of_int (pcm16 s)) xs))"
  let ?n = "word_of_nat (length xs * 2) :: 32 word"
  let ?data = "tag_bytes ''data'' @ u32_bytes ?n @ ?pcm"
  let ?fmt = "u16_bytes 1 @ u16_bytes channels @ u32_bytes rate @ u32_bytes byte_rate @ u16_bytes align @ u16_bytes 16"
  have n: "unat ?n = length xs * 2" unfolding unsigned_of_nat using assms(3) by (simp add: take_bit_nat_eq_self)
  have fmt: "read_fmt is_file 16 ?h0 (?fmt @ r) = Inr (?h1, r)" for r
    by (simp add: read_fmt_def bind_sum_def skip_bytes_def)
  have c1: "read_chunk is_file ?h0 (tag_bytes ''fmt '' @ u32_bytes 16 @ ?fmt @ ?data) = Inr (?h1, ?data)"
    using fmt [of ?data] by (simp add: read_chunk_def take_tag bind_sum_def)
  have c2: "read_chunk is_file ?h1 ?data = Inr (?h1\<lparr>wav_payload := ?pcm\<rparr>, [])"
    by (rule read_data_chunk) (simp_all only: n length_u16_bytes length_map even_mult_iff, simp_all)
  have "read_chunks is_file ?h1 ?data = Inr (?h1\<lparr>wav_payload := ?pcm\<rparr>)"
    by (subst read_chunks.simps, simp only: c2) (simp add: read_chunks.simps)
  then have "read_chunks is_file ?h0 (tag_bytes ''fmt '' @ u32_bytes 16 @ ?fmt @ ?data) = Inr (?h1\<lparr>wav_payload := ?pcm\<rparr>)"
    by (subst read_chunks.simps, simp only: c1) simp
  moreover have "wav_bytes channels rate byte_rate align ?n xs =
      tag_bytes ''RIFF'' @ u32_bytes (36 + ?n) @ tag_bytes ''WAVE'' @ tag_bytes ''fmt '' @ u32_bytes 16 @ ?fmt @ ?data"
    by (simp add: wav_bytes_def tag_bytes_def comp_def)
  moreover have "decode_samples f32 (?h1\<lparr>wav_payload := ?pcm\<rparr>) = Inr (map (\<lambda>s. of_int (pcm16 s) / 32768) xs)"
  proof -
    have "decode_samples f32 (?h1\<lparr>wav_payload := p\<rparr>) = Inr (map (\<lambda>w. of_int (sint w) / 32768) (words16 p))" for p
      by (simp add: decode_samples_def)
    note this [of ?pcm]
    moreover have "map (\<lambda>w. real_of_int (sint w) / 32768) (words16 ?pcm) = map (\<lambda>s. of_int (pcm16 s) / 32768) xs"
      by (subst words16_bytes) (simp only: map_map comp_def sint_pcm16)
    ultimately show ?thesis by (simp only:)
  qed
  moreover have "?pcm = [] \<longleftrightarrow> xs = []" by (cases xs) (simp_all add: u16_bytes_def)
  ultimately show ?thesis using assms(1,2)
    by (simp add: read_wav_f32_def take_tag skip_bytes_def bind_sum_def comp_def)
qed

text \<open>
  What the server encodes, a reader gets back: for every layout a file can hold the encoder succeeds, and the engine's own
  reader - from memory or from a file - returns the rate, the channels and the samples in their order, each within
  \<open>1/32768 + 1/65534\<close> of the clipped original; only a recording without samples makes a file that the reader refuses.
\<close>

lemma wav_encode_read:
  assumes "storable_wav a"
  shows "\<exists>bytes. encode_pcm16_wav a = Inr bytes \<and>
    (wav_samples a = [] \<longrightarrow> read_wav_f32 f32 is_file bytes = Inl Incomplete_File) \<and>
    (wav_samples a \<noteq> [] \<longrightarrow> (\<exists>xs. read_wav_f32 f32 is_file bytes = Inr (a\<lparr>wav_samples := xs\<rparr>) \<and>
       list_all2 (\<lambda>x s. \<bar>x - max (- 1) (min 1 s)\<bar> \<le> 1 / 32768 + 1 / 65534) xs (wav_samples a)))"
proof -
  have a: "0 < wav_rate a" "wav_rate a < 2 ^ 31" "0 < wav_channels a" "wav_channels a < 2 ^ 16"
    "int (length (wav_samples a)) mod wav_channels a = 0" "length (wav_samples a) < 2 ^ 31" using assms by (auto simp: storable_wav_def)
  have rate: "sint (word_of_int (wav_rate a) :: 32 word) = wav_rate a" using a(1,2) by (simp add: signed_of_int signed_take_bit_int_eq_self)
  have chans: "uint (word_of_int (wav_channels a) :: 16 word) = wav_channels a" using a(3,4) by (simp add: unsigned_of_int take_bit_int_eq_self)
  have ne: "(word_of_int (wav_channels a) :: 16 word) \<noteq> 0" "(word_of_int (wav_rate a) :: 32 word) \<noteq> 0"
    using chans rate a(1,3) by auto
  let ?ys = "map (\<lambda>s. of_int (pcm16 s) / 32768) (wav_samples a)"
  obtain bytes where enc: "encode_pcm16_wav a = Inr bytes" and
    read: "read_wav_f32 f32 is_file bytes = (if wav_samples a = [] then Inl Incomplete_File
      else Inr \<lparr>wav_rate = wav_rate a, wav_channels = wav_channels a, wav_samples = ?ys\<rparr>)"
    using read_wav_bytes [OF ne a(6), of f32 is_file] a by (simp add: encode_pcm16_wav_def check_layout_def bind_sum_def Let_def rate chans)
  have "list_all2 (\<lambda>x s. \<bar>x - max (- 1) (min 1 s)\<bar> \<le> 1 / 32768 + 1 / 65534) (map (\<lambda>s. of_int (pcm16 s) / 32768) xs) xs" for xs
    using pcm16_close by (induction xs) auto
  moreover have "a\<lparr>wav_samples := ?ys\<rparr> = \<lparr>wav_rate = wav_rate a, wav_channels = wav_channels a, wav_samples = ?ys\<rparr>"
    by (cases a) simp
  ultimately show ?thesis using enc read by metis
qed

text \<open>The file writer writes what the encoder returns, where its byte rate is defined.\<close>

lemma byte_rate_words:
  assumes "0 \<le> r" "r * uint c * 16 < 2 ^ 31"
  shows "(word_of_int r :: 32 word) * ucast (c :: 16 word) * 16 div 8 = word_of_int (r * uint c * 16 div 8)"
proof -
  let ?p = "r * uint c * 16"
  have "(ucast c :: 32 word) = word_of_int (uint c)" by simp
  then have "(word_of_int r :: 32 word) * ucast c * 16 = word_of_int ?p" by simp
  moreover have "uint (word_of_int ?p :: 32 word) = ?p"
    using assms by (simp add: uint_word_of_int take_bit_int_eq_self del: of_int_mult)
  ultimately show ?thesis by (simp only: word_div_def) simp
qed

lemma writers_agree:
  assumes "check_layout a = Inr ()" "wav_rate a * uint (word_of_int (wav_channels a) :: 16 word) * 16 < 2 ^ 31"
  shows "write_pcm16_wav a = encode_pcm16_wav a"
proof -
  have "0 \<le> wav_rate a" using assms(1) by (auto simp: check_layout_def split: if_splits)
  from byte_rate_words [OF this assms(2)] assms show ?thesis by (simp add: write_pcm16_wav_def encode_pcm16_wav_def Let_def)
qed

text \<open>An odd data chunk without its pad byte is read from a file and refused from memory.\<close>

definition odd_tail :: "8 word list" where
  "odd_tail = tag_bytes ''data'' @ u32_bytes 1 @ [7]"

lemma odd_tail_depends_on_stream:
  "read_chunk True h odd_tail = Inr (h\<lparr>wav_payload := [7]\<rparr>, [])" "read_chunk False h odd_tail = Inl Seek_Failed"
  using tags_differ by (simp_all add: odd_tail_def read_chunk_def bind_sum_def skip_bytes_def read_blocks_all)

text \<open>The file of the encoder is a header of 44 bytes followed by the streamed samples.\<close>

lemma wav_is_header_and_samples:
  "encode_pcm16_wav a = Inr bytes \<Longrightarrow> encode_pcm16_samples a = Inr (drop 44 bytes)"
  by (auto simp: encode_pcm16_wav_def encode_pcm16_samples_def wav_bytes_def bind_sum_Inr Let_def comp_def)

end
