(* ===== verification/Mcp.thy ===== *)
theory Mcp
  imports Json Base64 Wav Http_Request
begin

text \<open>
  The MCP endpoint (\<^verbatim>\<open>app/server/mcp.cpp\<close>, with \<^verbatim>\<open>run_mcp_speak\<close> and \<^verbatim>\<open>handle_mcp\<close> of \<^verbatim>\<open>runtime.cpp\<close>): a JSON-RPC message is
  answered by text that the server puts together from pieces, not through the JSON library.

  The JSON parser of the engine is the argument \<open>cparse\<close> of \<open>Json\<close>, the speech engine a function from text and seed
  to an error text or the audio. An exception that leaves the handler is the left side of the sum, with
  \<open>Undefined_Conversion\<close> for the conversion of a number outside the range of \<^verbatim>\<open>long long\<close>.
\<close>

record speak_outcome =
  so_ok :: bool
  so_wav_base64 :: string
  so_audio_seconds :: real
  so_error_text :: string

record mcp_reply =
  reply_status :: int
  reply_body :: string

subsection \<open>Text of values\<close>

definition escape_char :: "char \<Rightarrow> string" where
  "escape_char c =
     (if c = CHR 0x22 then [CHR 0x5C, CHR 0x22]
      else if c = CHR 0x5C then [CHR 0x5C, CHR 0x5C]
      else if c = CHR 0x0A then [CHR 0x5C, CHR ''n'']
      else if c = CHR 0x0D then [CHR 0x5C, CHR ''r'']
      else if c = CHR 0x09 then [CHR 0x5C, CHR ''t'']
      else if byte_of c < 32 then [CHR 0x5C, CHR ''u'', CHR ''0'', CHR ''0'', hex_char (byte_of c div 16), hex_char (byte_of c mod 16)]
      else [c])"

definition json_escape :: "string \<Rightarrow> string" where
  "json_escape s = concat (map escape_char s)"

definition quoted :: "string \<Rightarrow> string" where
  "quoted s = CHR 0x22 # json_escape s @ [CHR 0x22]"

text \<open>The format \<open>%.kf\<close>: the exact value rounded to \<open>k\<close> decimals, halves to the even digit.\<close>

definition zero_pad :: "nat \<Rightarrow> string \<Rightarrow> string" where
  "zero_pad k s = replicate (k - length s) (CHR ''0'') @ s"

definition fixed_text :: "nat \<Rightarrow> real \<Rightarrow> string" where
  "fixed_text k r =
     (let n = nat (lrint (\<bar>r\<bar> * 10 ^ k))
      in (if r < 0 then ''-'' else []) @ nat_str (n div 10 ^ k) @ ''.'' @ zero_pad k (nat_str (n mod 10 ^ k)))"

fun serialize_id :: "json option \<Rightarrow> json_error + string" where
  "serialize_id None = Inr ''null''"
| "serialize_id (Some JNull) = Inr ''null''"
| "serialize_id (Some (JString s)) = Inr (quoted s)"
| "serialize_id (Some (JNumber r)) =
     (if r = of_int \<lfloor>r\<rfloor> then bind_sum (to_i64 r) (\<lambda>i. Inr (int_str i)) else Inr (fixed_text 6 r))"
| "serialize_id (Some v) = Inr ''null''"

definition jsonrpc_error :: "int \<Rightarrow> string \<Rightarrow> int \<Rightarrow> string \<Rightarrow> mcp_reply" where
  "jsonrpc_error http_status rid code message =
     \<lparr>reply_status = http_status,
      reply_body = ''{\"jsonrpc\":\"2.0\",\"id\":'' @ rid @ '',\"error\":{\"code\":'' @ int_str code @ '',\"message\":'' @ quoted message @ ''}}''\<rparr>"

definition jsonrpc_result :: "string \<Rightarrow> string \<Rightarrow> mcp_reply" where
  "jsonrpc_result rid result_json =
     \<lparr>reply_status = 200, reply_body = ''{\"jsonrpc\":\"2.0\",\"id\":'' @ rid @ '',\"result\":'' @ result_json @ ''}''\<rparr>"

subsection \<open>The results\<close>

definition kSupportedProtocolVersions :: "string list" where
  "kSupportedProtocolVersions = [''2025-06-18'', ''2025-03-26'', ''2024-11-05'']"

definition negotiated_protocol_version :: "json option \<Rightarrow> string" where
  "negotiated_protocol_version params =
     (case params of
        None \<Rightarrow> hd kSupportedProtocolVersions
      | Some p \<Rightarrow> (case json_find ''protocolVersion'' p of
          Some (JString requested) \<Rightarrow>
            (if requested \<in> set kSupportedProtocolVersions then requested else hd kSupportedProtocolVersions)
        | _ \<Rightarrow> hd kSupportedProtocolVersions))"

definition initialize_result :: "json option \<Rightarrow> string" where
  "initialize_result params =
     ''{\"protocolVersion\":'' @ quoted (negotiated_protocol_version params) @ '',\"capabilities\":{\"tools\":{}}'' @
     '',\"serverInfo\":{\"name\":'' @ quoted ''qwen3-voice-mcp'' @ '',\"title\":'' @ quoted ''Super Fast TTS MCP Server'' @
     '',\"version\":'' @ quoted ''1.0.0'' @ ''}'' @ '',\"instructions\":'' @ quoted
       (''This server turns text into spoken audio with a fast streaming TTS engine. '' @
        ''Call the speak tool with the text to say; it returns a complete WAV clip. '' @
        ''Keep each call to one utterance -- a sentence or short paragraph -- and '' @
        ''make several calls for longer passages.'') @ ''}''"

definition tools_list_result :: string where
  "tools_list_result =
     ''{\"tools\":[{'' @ ''\"name\":\"speak\",'' @ ''\"title\":\"Speak\",'' @ ''\"description\":'' @ quoted
       (''Convert text to spoken audio and return it as a WAV clip. '' @ ''Best for one utterance per call.'') @ '','' @
     ''\"inputSchema\":{'' @ ''\"type\":\"object\",'' @ ''\"properties\":{'' @
     ''\"text\":{\"type\":\"string\",\"description\":\"The text to speak aloud.\"},'' @
     ''\"seed\":{\"type\":\"integer\",\"description\":\"Optional sampling seed for a reproducible delivery.\"}'' @
     ''},'' @ ''\"required\":[\"text\"]'' @ ''}}]}''"

definition tool_error_result :: "string \<Rightarrow> string" where
  "tool_error_result message = ''{\"content\":[{\"type\":\"text\",\"text\":'' @ quoted message @ ''}],\"isError\":true}''"

definition kMaxSpeakChars :: nat where
  "kMaxSpeakChars = 4000"

definition speak_result :: "speak_outcome \<Rightarrow> string" where
  "speak_result oc =
     ''{\"content\":[{\"type\":\"audio\",\"data\":\"'' @ so_wav_base64 oc @
     ''\",\"mimeType\":\"audio/wav\"},{\"type\":\"text\",\"text\":'' @
     quoted (take 63 (''Spoke '' @ fixed_text 1 (so_audio_seconds oc) @ '' seconds of audio.'')) @ ''}],\"isError\":false}''"

subsection \<open>Dispatch\<close>

text \<open>Protocol errors and failures of the tool are replies; only a seed that is not an integer throws.\<close>

definition handle_tools_call ::
  "string \<Rightarrow> json option \<Rightarrow> (string \<Rightarrow> int \<Rightarrow> speak_outcome) \<Rightarrow> json_error + mcp_reply" where
  "handle_tools_call rid params speak =
     (case params of
        Some (JObject ms) \<Rightarrow>
          (case json_find ''name'' (JObject ms) of
             Some (JString name) \<Rightarrow>
               if name \<noteq> ''speak'' then Inr (jsonrpc_error 200 rid (- 32602) (''Unknown tool: '' @ name))
               else (let arguments = json_find ''arguments'' (JObject ms);
                         spoken_text = (case arguments of None \<Rightarrow> None | Some a \<Rightarrow> json_find ''text'' a)
                     in case spoken_text of
                          Some (JString t) \<Rightarrow>
                            if t = [] then Inr (jsonrpc_error 200 rid (- 32602) ''speak requires a non-empty string 'text' argument'')
                            else if length t > kMaxSpeakChars then Inr (jsonrpc_result rid (tool_error_result
                              (''Text is too long for one utterance ('' @ nat_str (length t) @ '' characters; the limit is '' @
                               nat_str kMaxSpeakChars @ ''). Split it into sentences and call speak once per sentence.'')))
                            else bind_sum (case arguments of None \<Rightarrow> Inr (- 1) | Some a \<Rightarrow> optional_i64 a ''seed'' (- 1)) (\<lambda>seed.
                              let oc = speak t seed
                              in if \<not> so_ok oc
                                 then Inr (jsonrpc_result rid (tool_error_result (''Speech generation failed: '' @ so_error_text oc)))
                                 else Inr (jsonrpc_result rid (speak_result oc)))
                        | _ \<Rightarrow> Inr (jsonrpc_error 200 rid (- 32602) ''speak requires a non-empty string 'text' argument''))
           | _ \<Rightarrow> Inr (jsonrpc_error 200 rid (- 32602) (''tools/call requires a string '' @ [CHR 0x27] @ ''name'' @ [CHR 0x27])))
      | _ \<Rightarrow> Inr (jsonrpc_error 200 rid (- 32602) ''tools/call requires params with a tool name''))"

definition handle_mcp_message ::
  "(string \<Rightarrow> cjson option \<times> nat option) \<Rightarrow> string \<Rightarrow> (string \<Rightarrow> int \<Rightarrow> speak_outcome) \<Rightarrow> json_error + mcp_reply" where
  "handle_mcp_message cparse message_text speak =
     (case json_parse cparse message_text of
        Inl _ \<Rightarrow> Inr (jsonrpc_error 400 ''null'' (- 32700) ''Parse error'')
      | Inr (JObject ms) \<Rightarrow>
          (case json_find ''method'' (JObject ms) of
             Some (JString name) \<Rightarrow>
               if json_find ''id'' (JObject ms) = None then Inr \<lparr>reply_status = 202, reply_body = []\<rparr>
               else bind_sum (serialize_id (json_find ''id'' (JObject ms))) (\<lambda>rid.
                      let params = json_find ''params'' (JObject ms)
                      in if name = ''initialize'' then Inr (jsonrpc_result rid (initialize_result params))
                        else if name = ''ping'' then Inr (jsonrpc_result rid ''{}'')
                        else if name = ''tools/list'' then Inr (jsonrpc_result rid tools_list_result)
                        else if name = ''tools/call'' then handle_tools_call rid params speak
                        else Inr (jsonrpc_error 200 rid (- 32601) (''Method not found: '' @ name)))
           | _ \<Rightarrow> bind_sum (serialize_id (json_find ''id'' (JObject ms))) (\<lambda>rid. Inr (jsonrpc_error 400 rid (- 32600) ''Missing method'')))
      | Inr _ \<Rightarrow> Inr (jsonrpc_error 400 ''null'' (- 32600) ''Expected a single JSON-RPC message object''))"

subsection \<open>The endpoint of the server\<close>

text \<open>The product of rate and channels is one of \<^verbatim>\<open>int\<close>s, defined below \<open>2 ^ 31\<close>.\<close>

definition audio_duration_ms :: "wav_data \<Rightarrow> real" where
  "audio_duration_ms a =
     (if wav_rate a \<le> 0 \<or> wav_channels a \<le> 0 then 0
      else 1000 * real (length (wav_samples a)) / of_int (wav_rate a * wav_channels a))"

text \<open>\<open>synth\<close> is finding the model, building the request and running it; \<open>what\<close> gives the text of an exception of the encoder.\<close>

definition run_mcp_speak :: "(wav_error \<Rightarrow> string) \<Rightarrow> (string \<Rightarrow> int option \<Rightarrow> string + wav_data) \<Rightarrow> string \<Rightarrow> int \<Rightarrow> speak_outcome" where
  "run_mcp_speak wav_message synth t seed =
     (let failed = (\<lambda>e. \<lparr>so_ok = False, so_wav_base64 = [], so_audio_seconds = 0, so_error_text = e\<rparr>)
      in case synth t (if seed \<ge> 0 then Some seed else None) of
           Inl e \<Rightarrow> failed e
         | Inr audio \<Rightarrow>
             (case encode_pcm16_wav audio of
                Inl e \<Rightarrow> failed (wav_message e)
              | Inr wav \<Rightarrow> \<lparr>so_ok = True, so_wav_base64 = base64_encode wav,
                            so_audio_seconds = audio_duration_ms audio / 1000, so_error_text = []\<rparr>))"

definition handle_mcp ::
  "(string \<Rightarrow> cjson option \<times> nat option) \<Rightarrow> (string \<Rightarrow> int \<Rightarrow> speak_outcome) \<Rightarrow> http_request \<Rightarrow> json_error + http_response" where
  "handle_mcp cparse speak request =
     (if req_method request \<noteq> ''POST''
      then Inr \<lparr>resp_status = 405, resp_type = ''application/json'', resp_headers = [(''Allow'', ''POST'')],
                resp_body = ''{\"error\":\"POST a JSON-RPC message to this MCP endpoint\"}''\<rparr>
      else bind_sum (handle_mcp_message cparse (req_body request) speak) (\<lambda>reply.
        Inr \<lparr>resp_status = reply_status reply, resp_type = ''application/json'', resp_headers = [], resp_body = reply_body reply\<rparr>))"

subsection \<open>A reader of JSON\<close>

text \<open>What a client needs to read the replies: JSON without blanks between the tokens, escapes up to \<open>\\u007f\<close>.\<close>

fun read_escape :: "string \<Rightarrow> (char \<times> string) option" where
  "read_escape (CHR ''u'' # a # b # c # d # r) =
     (case (hex_digit a, hex_digit b, hex_digit c, hex_digit d) of
        (Some w, Some x, Some y, Some z) \<Rightarrow>
          (let n = ((w * 16 + x) * 16 + y) * 16 + z in if n < 128 then Some (char_of n, r) else None)
      | _ \<Rightarrow> None)"
| "read_escape (e # r) =
     (if e = CHR 0x22 \<or> e = CHR 0x5C \<or> e = CHR 0x2F then Some (e, r)
      else if e = CHR ''b'' then Some (CHR 0x08, r)
      else if e = CHR ''f'' then Some (CHR 0x0C, r)
      else if e = CHR ''n'' then Some (CHR 0x0A, r)
      else if e = CHR ''r'' then Some (CHR 0x0D, r)
      else if e = CHR ''t'' then Some (CHR 0x09, r)
      else None)"
| "read_escape [] = None"

lemma read_escape_shorter: "read_escape s = Some (c, r) \<Longrightarrow> length r < length s"
  by (induction s rule: read_escape.induct) (auto split: if_splits option.splits simp: Let_def)

function read_string :: "string \<Rightarrow> (string \<times> string) option" where
  "read_string s =
     (case s of
        [] \<Rightarrow> None
      | c # r \<Rightarrow>
          if c = CHR 0x22 then Some ([], r)
          else if c = CHR 0x5C
          then (case read_escape r of None \<Rightarrow> None | Some (e, r') \<Rightarrow> map_option (\<lambda>(t, r''). (e # t, r'')) (read_string r'))
          else if byte_of c < 32 then None
          else map_option (\<lambda>(t, r''). (c # t, r'')) (read_string r))"
  by pat_completeness auto
termination
  by (relation "measure length") (auto dest: read_escape_shorter)

declare read_string.simps [simp del]

definition read_number :: "string \<Rightarrow> (json \<times> string) option" where
  "read_number s =
     (let neg = starts_with ''-'' s;
          u = (if neg then drop 1 s else s);
          ds = takeWhile is_digit u;
          r = dropWhile is_digit u;
          sign = (if neg then - 1 else 1)
      in if ds = [] then None
         else if starts_with ''.'' r
         then (let fs = takeWhile is_digit (drop 1 r)
               in if fs = [] then None
                  else Some (JNumber (sign * (real (digits_nat ds) + real (digits_nat fs) / 10 ^ length fs)), dropWhile is_digit (drop 1 r)))
         else Some (JNumber (sign * real (digits_nat ds)), r))"

fun read_value :: "nat \<Rightarrow> string \<Rightarrow> (json \<times> string) option"
  and read_members :: "nat \<Rightarrow> string \<Rightarrow> ((string \<times> json) list \<times> string) option"
  and read_items :: "nat \<Rightarrow> string \<Rightarrow> (json list \<times> string) option" where
  "read_value 0 s = None"
| "read_value (Suc n) s =
     (if starts_with ''{}'' s then Some (JObject [], drop 2 s)
      else if starts_with ''{'' s then map_option (\<lambda>(ms, r). (JObject ms, r)) (read_members n (drop 1 s))
      else if starts_with ''[]'' s then Some (JArray [], drop 2 s)
      else if starts_with ''['' s then map_option (\<lambda>(xs, r). (JArray xs, r)) (read_items n (drop 1 s))
      else if starts_with [CHR 0x22] s then map_option (\<lambda>(t, r). (JString t, r)) (read_string (drop 1 s))
      else if starts_with ''null'' s then Some (JNull, drop 4 s)
      else if starts_with ''true'' s then Some (JBool True, drop 4 s)
      else if starts_with ''false'' s then Some (JBool False, drop 5 s)
      else read_number s)"
| "read_members 0 s = None"
| "read_members (Suc n) s =
     (if \<not> starts_with [CHR 0x22] s then None
      else case read_string (drop 1 s) of
        None \<Rightarrow> None
      | Some (k, r) \<Rightarrow>
          if \<not> starts_with '':'' r then None
          else case read_value n (drop 1 r) of
            None \<Rightarrow> None
          | Some (v, r') \<Rightarrow>
              if starts_with ''}'' r' then Some ([(k, v)], drop 1 r')
              else if starts_with '','' r' then map_option (\<lambda>(ms, r''). ((k, v) # ms, r'')) (read_members n (drop 1 r'))
              else None)"
| "read_items 0 s = None"
| "read_items (Suc n) s =
     (case read_value n s of
        None \<Rightarrow> None
      | Some (v, r) \<Rightarrow>
          if starts_with '']'' r then Some ([v], drop 1 r)
          else if starts_with '','' r then map_option (\<lambda>(xs, r'). (v # xs, r')) (read_items n (drop 1 r))
          else None)"

definition read_json :: "string \<Rightarrow> json option" where
  "read_json s = (case read_value (length s) s of Some (v, []) \<Rightarrow> Some v | _ \<Rightarrow> None)"

subsection \<open>Texts that a reader understands\<close>

text \<open>A text denotes a value if it is read as that value wherever a value may stand.\<close>

definition stops :: "string \<Rightarrow> bool" where
  "stops rest \<longleftrightarrow> rest = [] \<or> hd rest \<in> {CHR '','', CHR ''}'', CHR '']''}"

definition denotes :: "string \<Rightarrow> json \<Rightarrow> bool" where
  "denotes s v \<longleftrightarrow> s \<noteq> [] \<and> (\<forall>n rest. length s \<le> n \<longrightarrow> stops rest \<longrightarrow> read_value n (s @ rest) = Some (v, rest))"

lemma denotesI:
  "s \<noteq> [] \<Longrightarrow> (\<And>n rest. length s \<le> Suc n \<Longrightarrow> stops rest \<Longrightarrow> read_value (Suc n) (s @ rest) = Some (v, rest)) \<Longrightarrow> denotes s v"
  unfolding denotes_def by (metis Suc_le_D length_0_conv not_less_eq_eq Suc_le_eq length_greater_0_conv le_trans)

lemma denotesD: "denotes s v \<Longrightarrow> length s \<le> n \<Longrightarrow> stops rest \<Longrightarrow> read_value n (s @ rest) = Some (v, rest)"
  by (simp add: denotes_def)

lemma read_json_denotes: "denotes s v \<Longrightarrow> read_json s = Some v"
  using denotesD [of s v "length s" "[]"] by (simp add: read_json_def stops_def)

lemma denotes_word:
  "denotes ''null'' JNull" "denotes ''true'' (JBool True)" "denotes ''false'' (JBool False)" "denotes ''{}'' (JObject [])"
  by (rule denotesI; simp add: starts_with.simps)+

lemma hex_value_of: "d < 16 \<Longrightarrow> hex_digit (hex_char d) = Some d"
  by (rule hex_char_digit)

lemma read_string_char:
  "read_string (escape_char c @ s) = map_option (\<lambda>(t, r). (c # t, r)) (read_string s)"
proof -
  have special: "escape_char c = [CHR 0x5C, e] \<Longrightarrow> read_escape (e # s) = Some (c, s) \<Longrightarrow> ?thesis" for e
    by (subst read_string.simps) (simp split: option.splits prod.splits)
  have plain: "escape_char c = [c] \<Longrightarrow> c \<noteq> CHR 0x22 \<Longrightarrow> c \<noteq> CHR 0x5C \<Longrightarrow> \<not> byte_of c < 32 \<Longrightarrow> ?thesis"
    by (subst read_string.simps) simp
  have control: ?thesis if "byte_of c < 32" "escape_char c = [CHR 0x5C, CHR ''u'', CHR ''0'', CHR ''0'', hex_char (byte_of c div 16), hex_char (byte_of c mod 16)]"
  proof -
    have "hex_digit (CHR ''0'') = Some 0" by (simp add: hex_digit_def byte_of_def)
    moreover have "hex_digit (hex_char (byte_of c div 16)) = Some (byte_of c div 16)" "hex_digit (hex_char (byte_of c mod 16)) = Some (byte_of c mod 16)"
      using that(1) by (simp_all add: hex_value_of)
    moreover have "byte_of c div 16 * 16 + byte_of c mod 16 = byte_of c" by simp
    moreover have "char_of (byte_of c) = c" by (simp add: byte_of_def)
    ultimately have "read_escape (drop 1 (escape_char c) @ s) = Some (c, s)" using that by (simp add: Let_def)
    then show ?thesis using that(2) by (subst read_string.simps) (simp split: option.splits prod.splits)
  qed
  show ?thesis
    using special plain control unfolding escape_char_def by (auto split: if_splits)
qed

lemma read_string_escape: "read_string (json_escape s @ CHR 0x22 # r) = Some (s, r)"
proof (induction s)
  case Nil
  show ?case by (simp add: json_escape_def read_string.simps)
next
  case (Cons c s)
  have "read_string (escape_char c @ json_escape s @ CHR 0x22 # r) = Some (c # s, r)"
    using Cons by (simp add: read_string_char)
  then show ?case by (simp add: json_escape_def)
qed

lemma denotes_quoted: "denotes (quoted s) (JString s)"
  by (rule denotesI) (simp_all add: quoted_def starts_with.simps read_string_escape)

definition plain_key :: "string \<Rightarrow> bool" where
  "plain_key k \<longleftrightarrow> (\<forall>c\<in>set k. escape_char c = [c])"

lemma plain_key_escape: "plain_key k \<Longrightarrow> json_escape k = k"
  by (induction k) (auto simp: plain_key_def json_escape_def)

lemma denotes_plain: "plain_key s \<Longrightarrow> denotes (CHR 0x22 # s @ [CHR 0x22]) (JString s)"
  using denotes_quoted [of s] by (simp add: quoted_def plain_key_escape)

subsection \<open>Numbers\<close>

lemma digit_head: "is_digit c \<Longrightarrow> c \<notin> {CHR ''{'', CHR ''['', CHR 0x22, CHR ''n'', CHR ''t'', CHR ''f'', CHR ''-'', CHR '','', CHR ''}'', CHR '']'', CHR ''.''}"
  by (auto simp: is_digit_def byte_of_def)

lemma nat_str_head: "\<exists>c cs. nat_str n = c # cs \<and> is_digit c"
  using nat_str_digits [of _ n] by (cases "nat_str n") (auto simp: nat_str_not_Nil)

lemma stops_digits: "stops rest \<Longrightarrow> takeWhile is_digit rest = [] \<and> dropWhile is_digit rest = rest \<and> \<not> starts_with ''.'' rest"
proof -
  assume "stops rest"
  moreover have "\<not> is_digit (CHR '','')" "\<not> is_digit (CHR ''}'')" "\<not> is_digit (CHR '']'')" by (simp_all add: is_digit_def byte_of_def)
  ultimately show ?thesis by (cases rest) (auto simp: stops_def starts_with.simps)
qed

lemma digits_split: "\<forall>c\<in>set ds. is_digit c \<Longrightarrow> takeWhile is_digit (ds @ r) = ds @ takeWhile is_digit r \<and> dropWhile is_digit (ds @ r) = dropWhile is_digit r"
  by (induction ds) auto

lemma starts_with_char: "starts_with (p # ps) (c # cs) \<longleftrightarrow> c = p \<and> starts_with ps cs"
  by auto

lemma read_value_number:
  assumes "is_digit c \<or> c = CHR ''-''"
  shows "read_value (Suc n) (c # r) = read_number (c # r)"
proof -
  have "c \<noteq> CHR ''{''" "c \<noteq> CHR ''[''" "c \<noteq> CHR 0x22" "c \<noteq> CHR ''n''" "c \<noteq> CHR ''t''" "c \<noteq> CHR ''f''"
    using assms digit_head [of c] by auto
  then show ?thesis by (simp add: starts_with_char del: starts_with.simps)
qed

lemma digits_head: "ds \<noteq> [] \<Longrightarrow> \<forall>c\<in>set ds. is_digit c \<Longrightarrow> \<exists>c cs. ds = c # cs \<and> is_digit c \<and> c \<noteq> CHR ''-''"
  using digit_head by (cases ds) auto

text \<open>An optional minus sign, digits and possibly a fraction.\<close>

lemma read_signed:
  assumes "ds \<noteq> []" "\<forall>c\<in>set ds. is_digit c" "stops rest"
  shows "read_value (Suc n) ((if neg then ''-'' else []) @ ds @ rest) = Some (JNumber ((if neg then - 1 else 1) * real (digits_nat ds)), rest)"
proof -
  obtain c cs where c: "ds = c # cs" "is_digit c" "c \<noteq> CHR ''-''" using digits_head [OF assms(1,2)] by blast
  have ds: "takeWhile is_digit (ds @ rest) = ds" "dropWhile is_digit (ds @ rest) = rest" "\<not> starts_with ''.'' rest"
    using digits_split [OF assms(2), of rest] stops_digits [OF assms(3)] by auto
  have m: "\<not> starts_with ''-'' (ds @ rest)" using c(3) by (simp add: c(1) starts_with_char del: starts_with.simps)
  have "read_number (ds @ rest) = Some (JNumber (real (digits_nat ds)), rest)"
    using m ds assms(1) by (simp add: read_number_def Let_def)
  moreover have "read_number (CHR ''-'' # ds @ rest) = Some (JNumber (- real (digits_nat ds)), rest)"
    using ds assms(1) by (simp add: read_number_def Let_def)
  ultimately show ?thesis using read_value_number [of c n "cs @ rest"] read_value_number [of "CHR ''-''" n "ds @ rest"] c(1,2)
    by (cases neg) (simp_all del: read_value.simps)
qed

lemma read_signed_fraction:
  assumes "ds \<noteq> []" "\<forall>c\<in>set ds. is_digit c" "fs \<noteq> []" "\<forall>c\<in>set fs. is_digit c" "stops rest"
  shows "read_value (Suc n) ((if neg then ''-'' else []) @ ds @ CHR ''.'' # fs @ rest) =
    Some (JNumber ((if neg then - 1 else 1) * (real (digits_nat ds) + real (digits_nat fs) / 10 ^ length fs)), rest)"
proof -
  obtain c cs where c: "ds = c # cs" "is_digit c" "c \<noteq> CHR ''-''" using digits_head [OF assms(1,2)] by blast
  have dot: "\<not> is_digit (CHR ''.'')" by (simp add: is_digit_def byte_of_def)
  have ds: "takeWhile is_digit (ds @ CHR ''.'' # fs @ rest) = ds" "dropWhile is_digit (ds @ CHR ''.'' # fs @ rest) = CHR ''.'' # fs @ rest"
    using digits_split [OF assms(2), of "CHR ''.'' # fs @ rest"] dot by auto
  have fs: "takeWhile is_digit (fs @ rest) = fs" "dropWhile is_digit (fs @ rest) = rest"
    using digits_split [OF assms(4), of rest] stops_digits [OF assms(5)] by auto
  have m: "\<not> starts_with ''-'' (ds @ CHR ''.'' # fs @ rest)" using c(3) by (simp add: c(1) starts_with_char del: starts_with.simps)
  have "read_number (ds @ CHR ''.'' # fs @ rest) = Some (JNumber (real (digits_nat ds) + real (digits_nat fs) / 10 ^ length fs), rest)"
    using m ds fs assms(1,3) by (simp add: read_number_def Let_def)
  moreover have "read_number (CHR ''-'' # ds @ CHR ''.'' # fs @ rest) =
      Some (JNumber (- (real (digits_nat ds) + real (digits_nat fs) / 10 ^ length fs)), rest)"
    using ds fs assms(1,3) by (simp add: read_number_def Let_def)
  ultimately show ?thesis
    using read_value_number [of c n "cs @ CHR ''.'' # fs @ rest"] read_value_number [of "CHR ''-''" n "ds @ CHR ''.'' # fs @ rest"] c(1,2)
    by (cases neg) (simp_all del: read_value.simps)
qed

lemma denotes_int: "denotes (int_str i) (JNumber (of_int i))"
proof (rule denotesI)
  show "int_str i \<noteq> []" by (simp add: int_str_def)
  fix n rest assume st: "stops rest"
  have "int_str i @ rest = (if i < 0 then ''-'' else []) @ nat_str (nat \<bar>i\<bar>) @ rest" by (simp add: int_str_def)
  then show "read_value (Suc n) (int_str i @ rest) = Some (JNumber (of_int i), rest)"
    using read_signed [of "nat_str (nat \<bar>i\<bar>)" rest n "i < 0"] nat_str_digits st by (simp del: read_value.simps)
qed

definition shown_fixed :: "nat \<Rightarrow> real \<Rightarrow> real" where
  "shown_fixed k r = (if r < 0 then - 1 else 1) * of_int (lrint (\<bar>r\<bar> * 10 ^ k)) / 10 ^ k"

lemma zero_pad_length: "length s \<le> k \<Longrightarrow> length (zero_pad k s) = k"
  by (simp add: zero_pad_def)

lemma digits_nat_zeros: "digits_nat (replicate n (CHR ''0'') @ s) = digits_nat s"
  by (induction n) (simp_all add: digits_nat_def byte_of_def)

lemma nat_str_digits_le: "n < 10 ^ k \<Longrightarrow> 0 < k \<Longrightarrow> length (nat_str n) \<le> k"
proof (induction n arbitrary: k rule: nat_str.induct)
  case (1 n)
  show ?case
  proof (cases "n < 10")
    case True
    with 1(3) show ?thesis by (simp add: nat_str.simps [of n])
  next
    case False
    with 1(2,3) obtain j where k: "k = Suc j" "0 < j" by (cases k; cases "k - 1") auto
    then have "n div 10 < 10 ^ j" using 1(2) by (simp add: div_less_iff_less_mult mult.commute)
    from 1(1) [OF False this k(2)] show ?thesis using False k by (simp add: nat_str.simps [of n])
  qed
qed

lemma lrint_nonneg: "0 \<le> x \<Longrightarrow> 0 \<le> lrint x"
  by (auto simp: lrint_def Let_def)

lemma denotes_fixed:
  assumes "0 < k"
  shows "denotes (fixed_text k r) (JNumber (shown_fixed k r))"
proof (rule denotesI)
  let ?n = "nat (lrint (\<bar>r\<bar> * 10 ^ k))"
  let ?w = "nat_str (?n div 10 ^ k)" and ?f = "zero_pad k (nat_str (?n mod 10 ^ k))"
  have tx: "fixed_text k r = (if r < 0 then ''-'' else []) @ ?w @ ''.'' @ ?f" by (simp add: fixed_text_def Let_def)
  then show "fixed_text k r \<noteq> []" by simp
  fix n rest assume st: "stops rest"
  have f: "\<forall>c\<in>set ?f. is_digit c" using nat_str_digits by (auto simp: zero_pad_def is_digit_def byte_of_def)
  have len: "length ?f = k" by (rule zero_pad_length) (rule nat_str_digits_le, simp_all add: assms)
  have "?n = ?n div 10 ^ k * 10 ^ k + ?n mod 10 ^ k" by (rule div_mult_mod_eq [symmetric])
  then have "real ?n = real (?n div 10 ^ k) * 10 ^ k + real (?n mod 10 ^ k)" by (metis of_nat_add of_nat_mult of_nat_power of_nat_numeral)
  then have "real (?n div 10 ^ k) + real (?n mod 10 ^ k) / 10 ^ k = real ?n / 10 ^ k" by (simp add: field_simps)
  moreover have "real ?n = of_int (lrint (\<bar>r\<bar> * 10 ^ k))" using lrint_nonneg [of "\<bar>r\<bar> * 10 ^ k"] by simp
  moreover have "digits_nat ?f = ?n mod 10 ^ k" by (simp add: zero_pad_def digits_nat_zeros)
  ultimately have val: "(if r < 0 then - 1 else 1) * (real (digits_nat ?w) + real (digits_nat ?f) / 10 ^ length ?f) = shown_fixed k r"
    by (simp add: shown_fixed_def len)
  have "?f \<noteq> []" using len assms by auto
  from read_signed_fraction [OF nat_str_not_Nil _ this f st, of "?n div 10 ^ k" n "r < 0"] nat_str_digits
  show "read_value (Suc n) (fixed_text k r @ rest) = Some (JNumber (shown_fixed k r), rest)"
    unfolding val by (simp add: tx del: read_value.simps)
qed

subsection \<open>Objects and arrays\<close>

definition member_text :: "string \<times> string \<Rightarrow> string" where
  "member_text m = CHR 0x22 # fst m @ CHR 0x22 # CHR '':'' # snd m"

fun members_text :: "(string \<times> string) list \<Rightarrow> string" where
  "members_text [] = []"
| "members_text [m] = member_text m"
| "members_text (m # ms) = member_text m @ CHR '','' # members_text ms"

fun items_text :: "string list \<Rightarrow> string" where
  "items_text [] = []"
| "items_text [s] = s"
| "items_text (s # ss) = s @ CHR '','' # items_text ss"

definition member_denotes :: "string \<times> string \<Rightarrow> string \<times> json \<Rightarrow> bool" where
  "member_denotes m v \<longleftrightarrow> fst m = fst v \<and> plain_key (fst m) \<and> denotes (snd m) (snd v)"

lemma stops_simps: "stops (CHR '','' # r)" "stops (CHR ''}'' # r)" "stops (CHR '']'' # r)"
  by (simp_all add: stops_def)

lemma read_member:
  assumes "member_denotes m v" "length (member_text m) \<le> Suc n" "stops r"
  shows "read_members (Suc n) (member_text m @ r) =
    (if starts_with ''}'' r then Some ([v], drop 1 r)
     else if starts_with '','' r then map_option (\<lambda>(ms, r''). (v # ms, r'')) (read_members n (drop 1 r)) else None)"
proof -
  have "read_string (fst m @ CHR 0x22 # CHR '':'' # snd m @ r) = Some (fst v, CHR '':'' # snd m @ r)"
    using read_string_escape [of "fst m" "CHR '':'' # snd m @ r"] plain_key_escape [of "fst m"] assms(1)
    by (auto simp: member_denotes_def)
  moreover have "read_value n (snd m @ r) = Some (snd v, r)"
    by (rule denotesD) (use assms in \<open>simp_all add: member_denotes_def member_text_def\<close>)
  ultimately show ?thesis by (cases v) (simp add: member_text_def)
qed

lemma read_members_text:
  "list_all2 member_denotes ms vs \<Longrightarrow> ms \<noteq> [] \<Longrightarrow> length (members_text ms) \<le> n \<Longrightarrow>
   read_members n (members_text ms @ CHR ''}'' # r) = Some (vs, r)"
proof (induction ms arbitrary: vs n rule: members_text.induct)
  case (2 m)
  then obtain v where v: "vs = [v]" "member_denotes m v" by (auto simp: list_all2_Cons1)
  from 2(3) obtain j where n: "n = Suc j" by (cases n) (auto simp: member_text_def)
  from read_member [OF v(2), of j "CHR ''}'' # r"] 2(3) show ?case by (simp add: n v(1) stops_simps)
next
  case (3 m m2 ms)
  then obtain v vs' where v: "vs = v # vs'" "member_denotes m v" "list_all2 member_denotes (m2 # ms) vs'" by (auto simp: list_all2_Cons1)
  from 3(4) obtain j where n: "n = Suc j" by (cases n) (auto simp: member_text_def)
  have "read_members j (members_text (m2 # ms) @ CHR ''}'' # r) = Some (vs', r)"
    by (rule 3(1)) (use v(3) 3(4) n in simp_all)
  moreover have "length (member_text m) \<le> Suc j" using 3(4) n by simp
  ultimately show ?case using read_member [OF v(2), of j "CHR '','' # members_text (m2 # ms) @ CHR ''}'' # r"]
    by (simp add: n v(1) stops_simps del: read_members.simps)
qed simp

lemma read_items_text:
  "list_all2 denotes ss vs \<Longrightarrow> ss \<noteq> [] \<Longrightarrow> length (items_text ss) < n \<Longrightarrow>
   read_items n (items_text ss @ CHR '']'' # r) = Some (vs, r)"
proof (induction ss arbitrary: vs n rule: items_text.induct)
  case (2 s)
  then obtain v where v: "vs = [v]" "denotes s v" by (auto simp: list_all2_Cons1)
  from 2(3) obtain j where n: "n = Suc j" by (cases n) auto
  have "read_value j (s @ CHR '']'' # r) = Some (v, CHR '']'' # r)" by (rule denotesD [OF v(2)]) (use 2(3) n in \<open>simp_all add: stops_simps\<close>)
  then show ?case by (simp add: n v(1))
next
  case (3 s s2 ss)
  then obtain v vs' where v: "vs = v # vs'" "denotes s v" "list_all2 denotes (s2 # ss) vs'" by (auto simp: list_all2_Cons1)
  from 3(4) obtain j where n: "n = Suc j" by (cases n) auto
  have "read_items j (items_text (s2 # ss) @ CHR '']'' # r) = Some (vs', r)"
    by (rule 3(1)) (use v(3) 3(4) n in simp_all)
  moreover have "read_value j (s @ CHR '','' # items_text (s2 # ss) @ CHR '']'' # r) = Some (v, CHR '','' # items_text (s2 # ss) @ CHR '']'' # r)"
    by (rule denotesD [OF v(2)]) (use 3(4) n in \<open>simp_all add: stops_simps\<close>)
  ultimately show ?case by (simp add: n v(1))
qed simp

definition object_text :: "(string \<times> string) list \<Rightarrow> string" where
  "object_text ms = ''{'' @ members_text ms @ ''}''"

definition array_text :: "string list \<Rightarrow> string" where
  "array_text ss = ''['' @ items_text ss @ '']''"

lemma members_text_head: "ms \<noteq> [] \<Longrightarrow> \<exists>cs. members_text ms = CHR 0x22 # cs"
  by (cases ms rule: members_text.cases) (auto simp: member_text_def)

lemma denotes_object:
  assumes "list_all2 member_denotes ms vs" "ms \<noteq> []"
  shows "denotes (object_text ms) (JObject vs)"
proof (rule denotesI)
  fix n rest assume "length (object_text ms) \<le> Suc n"
  then have "length (members_text ms) \<le> n" by (simp add: object_text_def)
  moreover obtain cs where "members_text ms = CHR 0x22 # cs" using members_text_head [OF assms(2)] by blast
  ultimately show "read_value (Suc n) (object_text ms @ rest) = Some (JObject vs, rest)"
    using read_members_text [OF assms, of n rest] by (simp add: object_text_def)
qed (simp add: object_text_def)

lemma denotes_array:
  assumes "list_all2 denotes ss vs" "ss \<noteq> []" "items_text ss = c # cs" "c \<noteq> CHR '']''"
  shows "denotes (array_text ss) (JArray vs)"
proof (rule denotesI)
  fix n rest assume "length (array_text ss) \<le> Suc n"
  then have "length (items_text ss) < n" by (simp add: array_text_def)
  moreover have "\<not> starts_with ''[]'' (array_text ss @ rest)"
    using assms(3,4) by (simp add: array_text_def)
  ultimately show "read_value (Suc n) (array_text ss @ rest) = Some (JArray vs, rest)"
    using read_items_text [OF assms(1,2), of n rest] by (simp add: array_text_def)
qed (simp add: array_text_def)

subsection \<open>Replies\<close>

lemma plain_keys:
  "plain_key ''jsonrpc''" "plain_key ''id''" "plain_key ''result''" "plain_key ''error''" "plain_key ''code''" "plain_key ''message''"
  "plain_key ''content''" "plain_key ''type''" "plain_key ''text''" "plain_key ''isError''" "plain_key ''data''" "plain_key ''mimeType''"
  "plain_key ''tools''" "plain_key ''name''" "plain_key ''title''" "plain_key ''description''" "plain_key ''inputSchema''"
  "plain_key ''properties''" "plain_key ''seed''" "plain_key ''required''" "plain_key ''protocolVersion''" "plain_key ''capabilities''"
  "plain_key ''serverInfo''" "plain_key ''version''" "plain_key ''instructions''" "plain_key ''2.0''" "plain_key ''audio''"
  "plain_key ''audio/wav''" "plain_key ''speak''" "plain_key ''Speak''" "plain_key ''object''" "plain_key ''string''" "plain_key ''integer''"
  "plain_key ''The text to speak aloud.''" "plain_key ''Optional sampling seed for a reproducible delivery.''"
  by (simp_all add: plain_key_def escape_char_def byte_of_def)

lemma plain_base64: "plain_key (base64_encode bs)"
proof -
  have "c \<in> set (base64_encode bs) \<Longrightarrow> c \<in> set kAlphabet \<or> c = CHR ''=''" for c
  proof (induction bs rule: base64_encode.induct)
    case (2 x xs)
    have "alphabet_at w \<in> set kAlphabet" for w
      unfolding alphabet_at_def by (rule nth_mem) (simp add: length_kAlphabet sextet_less)
    with 2 show ?case by (auto simp: encode_group_def Let_def)
  qed simp
  moreover have "\<forall>c\<in>set kAlphabet. escape_char c = [c]" by (simp add: kAlphabet_def escape_char_def byte_of_def)
  moreover have "escape_char (CHR ''='') = ''=''" by (simp add: escape_char_def byte_of_def)
  ultimately show ?thesis unfolding plain_key_def by metis
qed

lemma denotes_members:
  "ms \<noteq> [] \<Longrightarrow> list_all2 member_denotes ms vs \<Longrightarrow> object_text ms = s \<Longrightarrow> denotes s (JObject vs)"
  using denotes_object by blast

definition reply_value :: "json \<Rightarrow> string \<Rightarrow> json \<Rightarrow> json" where
  "reply_value i key v = JObject [(''jsonrpc'', JString ''2.0''), (''id'', i), (key, v)]"

lemma denotes_reply:
  assumes "denotes rid i" "denotes s v" "plain_key key"
  shows "denotes (''{\"jsonrpc\":\"2.0\",\"id\":'' @ rid @ CHR '','' # CHR 0x22 # key @ CHR 0x22 # CHR '':'' # s @ ''}'') (reply_value i key v)"
  unfolding reply_value_def
  by (rule denotes_members [of "[(''jsonrpc'', CHR 0x22 # ''2.0'' @ [CHR 0x22]), (''id'', rid), (key, s)]"])
    (use assms denotes_plain plain_keys in \<open>simp_all add: member_denotes_def object_text_def member_text_def del: append_Cons\<close>)

lemma result_denotes:
  "denotes rid i \<Longrightarrow> denotes s v \<Longrightarrow> denotes (reply_body (jsonrpc_result rid s)) (reply_value i ''result'' v)"
  using denotes_reply [of rid i s v "''result''"] plain_keys by (simp add: jsonrpc_result_def)

lemma error_denotes:
  assumes "denotes rid i"
  shows "denotes (reply_body (jsonrpc_error st rid code message))
    (reply_value i ''error'' (JObject [(''code'', JNumber (of_int code)), (''message'', JString message)]))"
proof -
  have "denotes (object_text [(''code'', int_str code), (''message'', quoted message)])
      (JObject [(''code'', JNumber (of_int code)), (''message'', JString message)])"
    by (rule denotes_object) (simp_all add: member_denotes_def plain_keys denotes_int denotes_quoted)
  from denotes_reply [OF assms this, of "''error''"] plain_keys show ?thesis
    by (simp add: jsonrpc_error_def object_text_def member_text_def)
qed

definition str_text :: "string \<Rightarrow> string" where
  "str_text s = CHR 0x22 # s @ [CHR 0x22]"

lemma denotes_str: "plain_key s \<Longrightarrow> denotes (str_text s) (JString s)"
  by (simp add: str_text_def denotes_plain)

definition tool_value :: "json list \<Rightarrow> bool \<Rightarrow> json" where
  "tool_value items failed = JObject [(''content'', JArray items), (''isError'', JBool failed)]"

definition text_item :: "string \<Rightarrow> json" where
  "text_item s = JObject [(''type'', JString ''text''), (''text'', JString s)]"

definition audio_item :: "string \<Rightarrow> json" where
  "audio_item d = JObject [(''type'', JString ''audio''), (''data'', JString d), (''mimeType'', JString ''audio/wav'')]"

lemma denotes_text_item: "denotes (object_text [(''type'', str_text ''text''), (''text'', quoted s)]) (text_item s)"
  unfolding text_item_def by (rule denotes_object) (simp_all add: member_denotes_def plain_keys denotes_str denotes_quoted)

lemma denotes_audio_item:
  "plain_key d \<Longrightarrow> denotes (object_text [(''type'', str_text ''audio''), (''data'', str_text d),
      (''mimeType'', str_text ''audio/wav'')]) (audio_item d)"
  unfolding audio_item_def by (rule denotes_object) (simp_all add: member_denotes_def plain_keys denotes_str)

lemma denotes_objects:
  assumes "list_all2 denotes (object_text ms # ss) vs"
  shows "denotes (array_text (object_text ms # ss)) (JArray vs)"
proof -
  have "\<exists>cs. items_text (object_text ms # ss) = CHR ''{'' # cs" by (cases ss) (simp_all add: object_text_def)
  then obtain cs where "items_text (object_text ms # ss) = CHR ''{'' # cs" by blast
  from denotes_array [OF assms _ this] show ?thesis by simp
qed

lemma denotes_tool_value:
  assumes "list_all2 denotes (object_text ms # ss) vs" "denotes f (JBool b)"
  shows "denotes (object_text [(''content'', array_text (object_text ms # ss)), (''isError'', f)]) (tool_value vs b)"
  unfolding tool_value_def
  by (rule denotes_object) (use assms denotes_objects [OF assms(1)] in \<open>simp_all add: member_denotes_def plain_keys\<close>)

lemma tool_error_denotes: "denotes (tool_error_result message) (tool_value [text_item message] True)"
proof -
  have "denotes (object_text [(''content'', array_text [object_text [(''type'', str_text ''text''), (''text'', quoted message)]]),
      (''isError'', ''true'')]) (tool_value [text_item message] True)"
    by (rule denotes_tool_value) (simp_all add: denotes_text_item denotes_word)
  then show ?thesis by (simp add: tool_error_result_def object_text_def member_text_def array_text_def str_text_def)
qed

definition spoke_summary :: "real \<Rightarrow> string" where
  "spoke_summary t = take 63 (''Spoke '' @ fixed_text 1 t @ '' seconds of audio.'')"

lemma speak_denotes:
  assumes "plain_key (so_wav_base64 oc)"
  shows "denotes (speak_result oc) (tool_value [audio_item (so_wav_base64 oc), text_item (spoke_summary (so_audio_seconds oc))] False)"
proof -
  have "denotes (object_text [(''content'', array_text [object_text [(''type'', str_text ''audio''),
        (''data'', str_text (so_wav_base64 oc)), (''mimeType'', str_text ''audio/wav'')],
      object_text [(''type'', str_text ''text''), (''text'', quoted (spoke_summary (so_audio_seconds oc)))]]),
      (''isError'', ''false'')]) (tool_value [audio_item (so_wav_base64 oc), text_item (spoke_summary (so_audio_seconds oc))] False)"
    by (rule denotes_tool_value) (simp_all add: denotes_text_item denotes_audio_item [OF assms] denotes_word)
  then show ?thesis
    by (simp add: speak_result_def object_text_def member_text_def array_text_def str_text_def spoke_summary_def del: take_append take_Cons')
qed

lemma initialize_denotes: "\<exists>v. denotes (initialize_result params) v"
proof -
  let ?info = "\<lambda>a b c. object_text [(''name'', quoted a), (''title'', quoted b), (''version'', quoted c)]"
  have info: "denotes (?info a b c) (JObject [(''name'', JString a), (''title'', JString b), (''version'', JString c)])" for a b c
    by (rule denotes_object) (simp_all add: member_denotes_def plain_keys denotes_quoted)
  have caps: "denotes (object_text [(''tools'', ''{}'')]) (JObject [(''tools'', JObject [])])"
    by (rule denotes_object) (simp_all add: member_denotes_def plain_keys denotes_word)
  have all: "denotes (object_text [(''protocolVersion'', quoted v), (''capabilities'', object_text [(''tools'', ''{}'')]),
      (''serverInfo'', ?info a b c), (''instructions'', quoted d)])
    (JObject [(''protocolVersion'', JString v), (''capabilities'', JObject [(''tools'', JObject [])]),
      (''serverInfo'', JObject [(''name'', JString a), (''title'', JString b), (''version'', JString c)]), (''instructions'', JString d)])" for v a b c d
    by (rule denotes_object) (use info caps in \<open>simp_all add: member_denotes_def plain_keys denotes_quoted\<close>)
  have "\<exists>v a b c d. initialize_result params = object_text [(''protocolVersion'', quoted v),
      (''capabilities'', object_text [(''tools'', ''{}'')]), (''serverInfo'', ?info a b c), (''instructions'', quoted d)]"
    unfolding initialize_result_def by (intro exI) (simp add: object_text_def member_text_def)
  then show ?thesis using all by metis
qed

lemma tools_list_denotes: "\<exists>v. denotes tools_list_result v"
proof -
  let ?entry = "\<lambda>t d. object_text [(''type'', str_text t), (''description'', str_text d)]"
  let ?fields = "object_text [(''text'', ?entry ''string'' ''The text to speak aloud.''),
    (''seed'', ?entry ''integer'' ''Optional sampling seed for a reproducible delivery.'')]"
  let ?schema = "object_text [(''type'', str_text ''object''), (''properties'', ?fields), (''required'', array_text [str_text ''text''])]"
  let ?tool = "\<lambda>d. object_text [(''name'', str_text ''speak''), (''title'', str_text ''Speak''), (''description'', quoted d), (''inputSchema'', ?schema)]"
  have entry: "plain_key t \<Longrightarrow> plain_key d \<Longrightarrow> denotes (?entry t d) (JObject [(''type'', JString t), (''description'', JString d)])" for t d
    by (rule denotes_object) (simp_all add: member_denotes_def plain_keys denotes_str)
  let ?e = "\<lambda>t d. JObject [(''type'', JString t), (''description'', JString d)]"
  have "denotes ?fields (JObject [(''text'', ?e ''string'' ''The text to speak aloud.''),
      (''seed'', ?e ''integer'' ''Optional sampling seed for a reproducible delivery.'')])"
    by (rule denotes_object) (simp_all add: member_denotes_def entry plain_keys)
  then obtain pv where pv: "denotes ?fields pv" by blast
  have req: "denotes (array_text [str_text ''text'']) (JArray [JString ''text''])"
    by (rule denotes_array [where c = "CHR 0x22" and cs = "''text'' @ [CHR 0x22]"]) (simp_all add: denotes_str plain_keys, simp add: str_text_def)
  have schema: "denotes ?schema (JObject [(''type'', JString ''object''), (''properties'', pv), (''required'', JArray [JString ''text''])])"
    by (rule denotes_object) (use pv req denotes_str plain_keys in \<open>simp_all add: member_denotes_def\<close>)
  have tool: "denotes (?tool d) (JObject [(''name'', JString ''speak''), (''title'', JString ''Speak''), (''description'', JString d),
      (''inputSchema'', JObject [(''type'', JString ''object''), (''properties'', pv), (''required'', JArray [JString ''text''])])])" for d
    by (rule denotes_object) (use schema denotes_str denotes_quoted plain_keys in \<open>simp_all add: member_denotes_def\<close>)
  have tools: "\<exists>v. denotes (array_text [?tool d]) v" for d
    using denotes_objects tool by (metis list_all2_Cons list_all2_Nil)
  have all: "\<exists>v. denotes (object_text [(''tools'', array_text [?tool d])]) v" for d
  proof -
    obtain tv where "denotes (array_text [?tool d]) tv" using tools by blast
    then have "denotes (object_text [(''tools'', array_text [?tool d])]) (JObject [(''tools'', tv)])"
      by (intro denotes_object) (simp_all add: member_denotes_def plain_keys)
    then show ?thesis by blast
  qed
  have "\<exists>d. tools_list_result = object_text [(''tools'', array_text [?tool d])]"
    unfolding tools_list_result_def by (intro exI) (simp add: object_text_def member_text_def array_text_def str_text_def)
  then show ?thesis using all by metis
qed

subsection \<open>Every message is answered\<close>

definition member_of :: "string \<Rightarrow> json_error + json \<Rightarrow> json option" where
  "member_of key m = (case m of Inr (JObject ms) \<Rightarrow> map_of ms key | _ \<Rightarrow> None)"

definition has_method :: "json_error + json \<Rightarrow> bool" where
  "has_method m = (case member_of ''method'' m of Some (JString _) \<Rightarrow> True | _ \<Rightarrow> False)"

definition seed_of :: "json_error + json \<Rightarrow> json option" where
  "seed_of m = Option.bind (Option.bind (member_of ''params'' m) (json_find ''arguments'')) (json_find ''seed'')"

text \<open>What the reply shows of an id: text and whole numbers as they are, other numbers to six decimals, nothing else.\<close>

definition echoed :: "json option \<Rightarrow> json" where
  "echoed v = (case v of Some (JString s) \<Rightarrow> JString s
     | Some (JNumber r) \<Rightarrow> JNumber (if r = of_int \<lfloor>r\<rfloor> then r else shown_fixed 6 r) | _ \<Rightarrow> JNull)"

fun unusual_number :: "json_error \<Rightarrow> json option \<Rightarrow> bool" where
  "unusual_number Not_Integer (Some (JNumber r)) \<longleftrightarrow> r \<noteq> of_int \<lfloor>r\<rfloor>"
| "unusual_number Undefined_Conversion (Some (JNumber r)) \<longleftrightarrow> r = of_int \<lfloor>r\<rfloor> \<and> \<not> (- (2 ^ 63) \<le> r \<and> r < 2 ^ 63)"
| "unusual_number e v \<longleftrightarrow> False"

text \<open>The answer that JSON-RPC asks for: which member it has and, for an error, the code.\<close>

definition error_value :: "int \<Rightarrow> string \<Rightarrow> json" where
  "error_value code message = JObject [(''code'', JNumber (of_int code)), (''message'', JString message)]"

definition is_error :: "string \<Rightarrow> json \<Rightarrow> int \<Rightarrow> bool" where
  "is_error key v code \<longleftrightarrow> key = ''error'' \<and> (\<exists>message. v = error_value code message)"

definition fits_request :: "json_error + json \<Rightarrow> string \<Rightarrow> json \<Rightarrow> bool" where
  "fits_request m key v \<longleftrightarrow>
     (case m of
        Inl _ \<Rightarrow> is_error key v (- 32700)
      | Inr _ \<Rightarrow>
          (case member_of ''method'' m of
             Some (JString name) \<Rightarrow>
               if name = ''ping'' then key = ''result'' \<and> v = JObject []
               else if name = ''initialize'' \<or> name = ''tools/list'' then key = ''result''
               else if name = ''tools/call'' then key = ''result'' \<or> is_error key v (- 32602)
               else is_error key v (- 32601)
           | _ \<Rightarrow> is_error key v (- 32600)))"

definition answered :: "json_error + json \<Rightarrow> mcp_reply \<Rightarrow> json \<Rightarrow> bool" where
  "answered m reply i \<longleftrightarrow> (\<exists>key v. fits_request m key v \<and> read_json (reply_body reply) = Some (reply_value i key v))"

lemma to_i64_iff: "to_i64 r = Inl e \<Longrightarrow> r = of_int \<lfloor>r\<rfloor> \<Longrightarrow> unusual_number e (Some (JNumber r))"
  "to_i64 r = Inr i \<Longrightarrow> i = \<lfloor>r\<rfloor>"
  by (auto simp: to_i64_def le_floor_iff floor_less_iff split: if_splits)

lemma serialize_id_denotes:
  "case serialize_id v of Inl e \<Rightarrow> unusual_number e v | Inr s \<Rightarrow> denotes s (echoed v)"
proof (cases v rule: serialize_id.cases)
  case (4 r)
  show ?thesis
  proof (cases "r = of_int \<lfloor>r\<rfloor>")
    case True
    with 4 show ?thesis using denotes_int [of "\<lfloor>r\<rfloor>"] to_i64_iff [of r] by (auto simp: echoed_def bind_sum_def split: sum.splits)
  next
    case False
    with 4 show ?thesis by (simp add: echoed_def denotes_fixed)
  qed
qed (simp_all add: echoed_def denotes_word denotes_quoted)

lemma answered_error:
  "denotes rid i \<Longrightarrow> fits_request m ''error'' (error_value c message) \<Longrightarrow> answered m (jsonrpc_error st rid c message) i"
  using read_json_denotes [OF error_denotes] unfolding answered_def error_value_def by blast

lemma answered_result: "denotes rid i \<Longrightarrow> denotes s v \<Longrightarrow> fits_request m ''result'' v \<Longrightarrow> answered m (jsonrpc_result rid s) i"
  using read_json_denotes [OF result_denotes] unfolding answered_def by blast

lemma jsonrpc_status: "reply_status (jsonrpc_error st rid c message) = st" "reply_status (jsonrpc_result rid s) = 200"
  by (simp_all add: jsonrpc_error_def jsonrpc_result_def)

lemma speak_plain:
  assumes "so_ok (run_mcp_speak what synth t seed)"
  shows "plain_key (so_wav_base64 (run_mcp_speak what synth t seed))"
proof (cases "synth t (if seed \<ge> 0 then Some seed else None)")
  case (Inr a)
  with assms plain_base64 show ?thesis by (cases "encode_pcm16_wav a") (simp_all add: run_mcp_speak_def Let_def)
qed (use assms in \<open>simp add: run_mcp_speak_def Let_def\<close>)

lemma seed_error: "optional_i64 a ''seed'' d = Inl e \<Longrightarrow> unusual_number e (json_find ''seed'' a)"
  using to_i64_iff by (auto simp: optional_i64_def as_i64_def bind_sum_def split: option.splits json.splits if_splits)

definition reply_ok :: "json_error + json \<Rightarrow> json_error + mcp_reply \<Rightarrow> json \<Rightarrow> json option \<Rightarrow> bool" where
  "reply_ok m res i seed \<longleftrightarrow>
     (case res of Inl e \<Rightarrow> unusual_number e seed | Inr reply \<Rightarrow> reply_status reply = 200 \<and> answered m reply i)"

lemma reply_ok_simps:
  "denotes rid i \<Longrightarrow> fits_request m ''error'' (error_value c message) \<Longrightarrow> reply_ok m (Inr (jsonrpc_error 200 rid c message)) i seed"
  "denotes rid i \<Longrightarrow> denotes s v \<Longrightarrow> fits_request m ''result'' v \<Longrightarrow> reply_ok m (Inr (jsonrpc_result rid s)) i seed"
  "reply_ok m (Inl e) i seed \<longleftrightarrow> unusual_number e seed"
  by (auto simp: reply_ok_def jsonrpc_status answered_error intro: answered_result)

lemma tools_call_answered:
  assumes "denotes rid i" "\<And>v. fits_request m ''result'' v" "\<And>message. fits_request m ''error'' (error_value (- 32602) message)"
  shows "reply_ok m (handle_tools_call rid params (run_mcp_speak what synth)) i
    (Option.bind (Option.bind params (json_find ''arguments'')) (json_find ''seed''))"
proof -
  note error = reply_ok_simps(1) [OF assms(1) assms(3)]
  note tool = reply_ok_simps(2) [OF assms(1) tool_error_denotes assms(2)]
  have spoken: "reply_ok m (bind_sum res (\<lambda>seed.
      if \<not> so_ok (run_mcp_speak what synth t seed)
      then Inr (jsonrpc_result rid (tool_error_result (''Speech generation failed: '' @ so_error_text (run_mcp_speak what synth t seed))))
      else Inr (jsonrpc_result rid (speak_result (run_mcp_speak what synth t seed))))) i seed"
    if "\<And>e. res = Inl e \<Longrightarrow> unusual_number e seed" for res t seed
  proof (cases res)
    case (Inr n)
    then show ?thesis
      using reply_ok_simps(2) [OF assms(1) speak_denotes [OF speak_plain [of what synth t n]] assms(2)] tool
      by (simp add: Let_def)
  qed (simp add: that reply_ok_simps)
  show ?thesis
    by (auto simp: handle_tools_call_def error tool reply_ok_simps(3) Let_def intro!: spoken dest: seed_error split: option.splits json.splits)
qed

lemma bind_reply_ok:
  assumes "case ser of Inl e \<Rightarrow> unusual_number e idv | Inr s \<Rightarrow> denotes s i" "\<And>rid. denotes rid i \<Longrightarrow> reply_ok m (f rid) i seed"
  shows "case bind_sum ser f of Inl e \<Rightarrow> unusual_number e idv \<or> unusual_number e seed
    | Inr reply \<Rightarrow> reply_status reply = 200 \<and> answered m reply i"
proof (cases ser)
  case (Inr s)
  with assms(1) have "reply_ok m (f s) i seed" by (intro assms(2)) simp
  with Inr show ?thesis by (cases "f s") (simp_all add: reply_ok_def)
qed (use assms(1) in simp)

text \<open>The methods, once the id has been printed.\<close>

definition dispatched :: "(string \<Rightarrow> int \<Rightarrow> speak_outcome) \<Rightarrow> string \<Rightarrow> json option \<Rightarrow> string \<Rightarrow> json_error + mcp_reply" where
  "dispatched speak name params rid =
     (if name = ''initialize'' then Inr (jsonrpc_result rid (initialize_result params))
      else if name = ''ping'' then Inr (jsonrpc_result rid ''{}'')
      else if name = ''tools/list'' then Inr (jsonrpc_result rid tools_list_result)
      else if name = ''tools/call'' then handle_tools_call rid params speak
      else Inr (jsonrpc_error 200 rid (- 32601) (''Method not found: '' @ name)))"

lemma dispatched_ok:
  assumes "denotes rid i" "m = Inr (JObject ms)" "map_of ms ''method'' = Some (JString name)"
  shows "reply_ok m (dispatched (run_mcp_speak what synth) name (map_of ms ''params'') rid) i (seed_of m)"
proof -
  have fits: "fits_request m key v \<longleftrightarrow>
      (if name = ''ping'' then key = ''result'' \<and> v = JObject []
       else if name = ''initialize'' \<or> name = ''tools/list'' then key = ''result''
       else if name = ''tools/call'' then key = ''result'' \<or> is_error key v (- 32602) else is_error key v (- 32601))" for key v
    using assms(2,3) by (simp add: fits_request_def member_of_def)
  obtain v where v: "denotes (initialize_result (map_of ms ''params'')) v" using initialize_denotes by blast
  obtain w where w: "denotes tools_list_result w" using tools_list_denotes by blast
  consider "name = ''initialize''" | "name = ''ping''" | "name = ''tools/list''" | "name = ''tools/call''"
    | (other) "name \<notin> {''initialize'', ''ping'', ''tools/list'', ''tools/call''}" by blast
  then show ?thesis
  proof cases
    case 1
    with reply_ok_simps(2) [OF assms(1) v] fits show ?thesis by (simp add: dispatched_def)
  next
    case 2
    with reply_ok_simps(2) [OF assms(1) denotes_word(4)] fits show ?thesis by (simp add: dispatched_def)
  next
    case 3
    with reply_ok_simps(2) [OF assms(1) w] fits show ?thesis by (simp add: dispatched_def)
  next
    case 4
    have "reply_ok m (handle_tools_call rid (map_of ms ''params'') (run_mcp_speak what synth)) i
        (Option.bind (Option.bind (map_of ms ''params'') (json_find ''arguments'')) (json_find ''seed''))"
      by (rule tools_call_answered [OF assms(1)]) (use 4 fits in \<open>auto simp: is_error_def\<close>)
    with 4 assms(2) show ?thesis by (simp add: dispatched_def seed_of_def member_of_def)
  next
    case other
    then have "fits_request m ''error'' (error_value (- 32601) message)" for message by (auto simp: fits is_error_def)
    from reply_ok_simps(1) [OF assms(1) this] have "reply_ok m (Inr (jsonrpc_error 200 rid (- 32601) message)) i seed" for message seed .
    with other show ?thesis unfolding dispatched_def by simp
  qed
qed

lemma mcp_dispatch:
  assumes "m = json_parse cparse message"
  shows "case handle_mcp_message cparse message (run_mcp_speak what synth) of
      Inl e \<Rightarrow> unusual_number e (member_of ''id'' m) \<or> unusual_number e (seed_of m)
    | Inr reply \<Rightarrow> (if has_method m \<and> member_of ''id'' m = None then reply = \<lparr>reply_status = 202, reply_body = []\<rparr>
        else reply_status reply = (if has_method m then 200 else 400) \<and> answered m reply (echoed (member_of ''id'' m)))"
proof (cases "\<exists>ms. m = Inr (JObject ms)")
  case False
  have null: "denotes ''null'' (echoed None)" by (simp add: echoed_def denotes_word)
  show ?thesis
  proof (cases m)
    case (Inl e)
    then have "fits_request m ''error'' (error_value (- 32700) ''Parse error'')" by (auto simp: fits_request_def is_error_def)
    from answered_error [OF null this, of 400] Inl show ?thesis
      by (simp add: handle_mcp_message_def assms [symmetric] member_of_def has_method_def jsonrpc_status)
  next
    case (Inr v)
    let ?message = "''Expected a single JSON-RPC message object''"
    have none: "member_of key m = None" for key using Inr False by (auto simp: member_of_def split: json.splits)
    then have "fits_request m ''error'' (error_value (- 32600) ?message)" using Inr by (auto simp: fits_request_def is_error_def)
    from answered_error [OF null this, of 400] none
    have "answered m (jsonrpc_error 400 ''null'' (- 32600) ?message) (echoed (member_of ''id'' m))" by simp
    moreover have "handle_mcp_message cparse message (run_mcp_speak what synth) = Inr (jsonrpc_error 400 ''null'' (- 32600) ?message)"
      using Inr False by (auto simp: handle_mcp_message_def assms [symmetric] split: json.splits)
    ultimately show ?thesis using none by (simp add: has_method_def jsonrpc_status)
  qed
next
  case True
  then obtain ms where m: "m = Inr (JObject ms)" by blast
  let ?h = "handle_mcp_message cparse message (run_mcp_speak what synth)"
  note ids = serialize_id_denotes [of "map_of ms ''id''"]
  show ?thesis
  proof (cases "has_method m")
    case False
    have "?h = bind_sum (serialize_id (map_of ms ''id'')) (\<lambda>rid. Inr (jsonrpc_error 400 rid (- 32600) ''Missing method''))"
      using False m by (auto simp: handle_mcp_message_def assms [symmetric] has_method_def member_of_def split: option.splits json.splits)
    moreover have "fits_request m ''error'' (error_value (- 32600) ''Missing method'')"
      using False m by (auto simp: fits_request_def is_error_def has_method_def split: option.splits json.splits)
    ultimately show ?thesis using False m ids
      by (cases "serialize_id (map_of ms ''id'')") (auto simp: bind_sum_def member_of_def answered_error jsonrpc_status)
  next
    case has: True
    then obtain name where name: "map_of ms ''method'' = Some (JString name)"
      using m by (auto simp: has_method_def member_of_def split: option.splits json.splits)
    show ?thesis
    proof (cases "map_of ms ''id''")
      case None
      with has m name show ?thesis by (simp add: handle_mcp_message_def assms [symmetric] member_of_def)
    next
      case (Some idv)
      have eq: "?h = bind_sum (serialize_id (map_of ms ''id'')) (dispatched (run_mcp_speak what synth) name (map_of ms ''params''))"
        using m name Some unfolding dispatched_def [abs_def] by (simp add: handle_mcp_message_def assms [symmetric] Let_def)
      have "case ?h of Inl e \<Rightarrow> unusual_number e (map_of ms ''id'') \<or> unusual_number e (seed_of m)
        | Inr reply \<Rightarrow> reply_status reply = 200 \<and> answered m reply (echoed (map_of ms ''id''))"
        unfolding eq by (rule bind_reply_ok [OF ids dispatched_ok [OF _ m name]])
      with Some has m show ?thesis by (simp add: member_of_def split: sum.splits)
    qed
  qed
qed

text \<open>
  An id that the server sends back as it came: text, a whole number in the range of \<^verbatim>\<open>long long\<close>, null or none at all.
  Any other number is printed with six decimals, against the comment of \<open>serialize_id\<close>.
\<close>

fun exact_id :: "json option \<Rightarrow> bool" where
  "exact_id (Some (JNumber r)) \<longleftrightarrow> r = of_int \<lfloor>r\<rfloor> \<and> - (2 ^ 63) \<le> r \<and> r < 2 ^ 63"
| "exact_id (Some (JString t)) \<longleftrightarrow> True"
| "exact_id (Some JNull) \<longleftrightarrow> True"
| "exact_id None \<longleftrightarrow> True"
| "exact_id _ \<longleftrightarrow> False"

lemma exact_id_echoed:
  assumes "exact_id v"
  shows "echoed v = (case v of None \<Rightarrow> JNull | Some i \<Rightarrow> i)" "\<not> unusual_number e v"
  by (use assms in \<open>cases v rule: exact_id.cases; cases e; auto simp: echoed_def\<close>)+

lemma fractional_id_rounded: "r \<noteq> of_int \<lfloor>r\<rfloor> \<Longrightarrow> echoed (Some (JNumber r)) = JNumber (shown_fixed 6 r)"
  by (simp add: echoed_def)

text \<open>
  C25. Every message to the MCP endpoint whose id is a text, a whole number of 64 bits, null or missing is answered as JSON-RPC
  asks, whatever the message, the JSON parser and the speech engine do: a notification with an empty reply and status 202,
  any other message with a text that a JSON reader reads as an object with the version, exactly the id of the message and
  the member the request asks for - the code -32700 for text that is not JSON, -32600 for a message without method, -32601
  for an unknown method, a result for the known ones, a result or the code -32602 for a call of a tool - with status
  400 exactly when there is no method. Only a seed that is no integer leaves the client without a reply.
\<close>

theorem mcp_messages_answered:
  assumes "exact_id (member_of ''id'' (json_parse cparse message))"
  shows "let m = json_parse cparse message in case handle_mcp_message cparse message (run_mcp_speak what synth) of
      Inl e \<Rightarrow> unusual_number e (seed_of m)
    | Inr reply \<Rightarrow> (if has_method m \<and> member_of ''id'' m = None then reply = \<lparr>reply_status = 202, reply_body = []\<rparr>
        else reply_status reply = (if has_method m then 200 else 400) \<and>
          answered m reply (case member_of ''id'' m of None \<Rightarrow> JNull | Some i \<Rightarrow> i))"
  using mcp_dispatch [OF refl, of cparse message what synth, unfolded exact_id_echoed(1) [OF assms]] exact_id_echoed(2) [OF assms]
  by (simp add: Let_def split: sum.splits)

definition demo_ping :: cjson where
  "demo_ping = CObject [(Some ''id'', CString (Some ''a1'')), (Some ''method'', CString (Some ''ping''))]"

lemma demo_ping_parsed:
  "json_parse (\<lambda>_. (Some demo_ping, None)) s = Inr (JObject [(''id'', JString ''a1''), (''method'', JString ''ping'')])"
  by (simp add: json_parse_def demo_ping_def)

theorem mcp_messages_answered_witness:
  "\<exists>reply. handle_mcp_message (\<lambda>_. (Some demo_ping, None)) ''ping'' (run_mcp_speak (\<lambda>_. []) (\<lambda>t s. Inl ''no engine'')) = Inr reply \<and>
    reply_status reply = 200 \<and> read_json (reply_body reply) = Some (reply_value (JString ''a1'') ''result'' (JObject []))"
proof -
  let ?h = "handle_mcp_message (\<lambda>_. (Some demo_ping, None)) ''ping'' (run_mcp_speak (\<lambda>_. []) (\<lambda>t s. Inl ''no engine''))"
  obtain reply where h: "?h = Inr reply" by (simp add: handle_mcp_message_def demo_ping_parsed)
  have "exact_id (member_of ''id'' (json_parse (\<lambda>_. (Some demo_ping, None)) ''ping''))" by (simp add: demo_ping_parsed member_of_def)
  from mcp_messages_answered [OF this, of "\<lambda>_. []" "\<lambda>t s. Inl ''no engine''"] h show ?thesis
    by (simp add: Let_def demo_ping_parsed member_of_def has_method_def answered_def fits_request_def)
qed

subsection \<open>What the agent hears\<close>

text \<open>A call of the tool as the schema asks for: an id, a text of 1 to 4000 bytes and possibly a whole number as seed.\<close>

definition speak_call :: "json_error + json \<Rightarrow> json \<Rightarrow> string \<Rightarrow> int \<Rightarrow> bool" where
  "speak_call m i t seed \<longleftrightarrow>
     member_of ''method'' m = Some (JString ''tools/call'') \<and> member_of ''id'' m = Some i \<and> (\<exists>s. serialize_id (Some i) = Inr s) \<and>
     (case member_of ''params'' m of
        Some (JObject ps) \<Rightarrow> map_of ps ''name'' = Some (JString ''speak'') \<and>
          (case map_of ps ''arguments'' of
             Some a \<Rightarrow> json_find ''text'' a = Some (JString t) \<and> optional_i64 a ''seed'' (- 1) = Inr seed
           | None \<Rightarrow> False)
      | _ \<Rightarrow> False) \<and> t \<noteq> [] \<and> length t \<le> 4000"

lemma speak_call_reply:
  assumes "speak_call (json_parse cparse message) i t seed" "so_ok (speak t seed)" "plain_key (so_wav_base64 (speak t seed))"
  shows "\<exists>reply. handle_mcp_message cparse message speak = Inr reply \<and> reply_status reply = 200 \<and>
    read_json (reply_body reply) = Some (reply_value (echoed (Some i)) ''result''
      (tool_value [audio_item (so_wav_base64 (speak t seed)), text_item (spoke_summary (so_audio_seconds (speak t seed)))] False))"
proof -
  obtain ms where m: "json_parse cparse message = Inr (JObject ms)"
    using assms(1) by (auto simp: speak_call_def member_of_def split: sum.splits json.splits)
  obtain rid where rid: "serialize_id (Some i) = Inr rid" using assms(1) by (auto simp: speak_call_def)
  then have d: "denotes rid (echoed (Some i))" using serialize_id_denotes [of "Some i"] by simp
  obtain ps a where p: "map_of ms ''params'' = Some (JObject ps)" "map_of ps ''name'' = Some (JString ''speak'')"
    "map_of ps ''arguments'' = Some a" "json_find ''text'' a = Some (JString t)" "optional_i64 a ''seed'' (- 1) = Inr seed"
    using assms(1) m by (auto simp: speak_call_def member_of_def split: option.splits json.splits)
  have rest: "map_of ms ''method'' = Some (JString ''tools/call'')" "map_of ms ''id'' = Some i" "t \<noteq> []" "\<not> length t > kMaxSpeakChars"
    using assms(1) m by (auto simp: speak_call_def member_of_def kMaxSpeakChars_def)
  have "handle_mcp_message cparse message speak = Inr (jsonrpc_result rid (speak_result (speak t seed)))"
    using m rid p rest assms(2) by (simp add: handle_mcp_message_def handle_tools_call_def)
  then show ?thesis using read_json_denotes [OF result_denotes [OF d speak_denotes [OF assms(3)]]] by (simp add: jsonrpc_status)
qed

text \<open>
  C13. The agent hears what the engine spoke: a call of the speak tool with a text and a whole seed that
  the engine turns into audio is answered with status 200 by a text that a JSON reader reads as the
  result for that id (one that is no whole number to six decimals), whose data member decodes from base64 to a WAV file that reads back with the rate,
  the channels and all samples of the audio, each within the resolution of 16 bits.
\<close>

theorem mcp_speak_delivers:
  assumes "req_method request = ''POST''" "speak_call (json_parse cparse (req_body request)) i t seed"
    "synth t (if seed \<ge> 0 then Some seed else None) = Inr audio" "storable_wav audio" "wav_samples audio \<noteq> []"
    "wav_rate audio * wav_channels audio < 2 ^ 31"
  shows "\<exists>resp d wav xs. handle_mcp cparse (run_mcp_speak what synth) request = Inr resp \<and> resp_status resp = 200 \<and>
    read_json (resp_body resp) = Some (reply_value (echoed (Some i)) ''result''
      (tool_value [audio_item d, text_item (spoke_summary (audio_duration_ms audio / 1000))] False)) \<and>
    base64_decode d = Inr wav \<and> read_wav_f32 f32 False wav = Inr (audio\<lparr>wav_samples := xs\<rparr>) \<and>
    list_all2 (\<lambda>x s. \<bar>x - max (- 1) (min 1 s)\<bar> \<le> 1 / 32768 + 1 / 65534) xs (wav_samples audio)"
proof -
  obtain wav xs where wav: "encode_pcm16_wav audio = Inr wav" "read_wav_f32 f32 False wav = Inr (audio\<lparr>wav_samples := xs\<rparr>)"
    "list_all2 (\<lambda>x s. \<bar>x - max (- 1) (min 1 s)\<bar> \<le> 1 / 32768 + 1 / 65534) xs (wav_samples audio)"
    using wav_encode_read [OF assms(4), of f32 False] assms(5) by blast
  have oc: "run_mcp_speak what synth t seed = \<lparr>so_ok = True, so_wav_base64 = base64_encode wav,
      so_audio_seconds = audio_duration_ms audio / 1000, so_error_text = []\<rparr>"
    using assms(3) wav(1) by (simp add: run_mcp_speak_def Let_def)
  obtain reply where reply: "handle_mcp_message cparse (req_body request) (run_mcp_speak what synth) = Inr reply" "reply_status reply = 200"
    "read_json (reply_body reply) = Some (reply_value (echoed (Some i)) ''result''
      (tool_value [audio_item (base64_encode wav), text_item (spoke_summary (audio_duration_ms audio / 1000))] False))"
    using speak_call_reply [OF assms(2), of "run_mcp_speak what synth"] by (auto simp: oc plain_base64)
  with wav base64_decode_encode [of wav] assms(1) show ?thesis by (auto simp: handle_mcp_def intro!: exI [of _ "base64_encode wav"] exI [of _ xs])
qed

definition demo_call :: cjson where
  "demo_call = CObject [(Some ''id'', CNumber 7), (Some ''method'', CString (Some ''tools/call'')),
     (Some ''params'', CObject [(Some ''name'', CString (Some ''speak'')), (Some ''arguments'', CObject [(Some ''text'', CString (Some ''hi''))])])]"

lemma demo_call_parsed:
  "json_parse (\<lambda>_. (Some demo_call, None)) s = Inr (JObject [(''id'', JNumber 7), (''method'', JString ''tools/call''),
     (''params'', JObject [(''name'', JString ''speak''), (''arguments'', JObject [(''text'', JString ''hi'')])])])"
  by (simp add: json_parse_def demo_call_def)

theorem mcp_speak_delivers_witness:
  "\<exists>resp v. handle_mcp (\<lambda>_. (Some demo_call, None))
      (run_mcp_speak (\<lambda>_. []) (\<lambda>t s. Inr \<lparr>wav_rate = 24000, wav_channels = 1, wav_samples = [0, 1 / 2]\<rparr>))
      \<lparr>req_method = ''POST'', req_path = ''/mcp'', req_query = [], req_headers = Map.empty, req_body = ''call''\<rparr> = Inr resp \<and>
    resp_status resp = 200 \<and> read_json (resp_body resp) = Some (reply_value (JNumber 7) ''result'' v)"
proof -
  have call: "speak_call (json_parse (\<lambda>_. (Some demo_call, None)) ''call'') (JNumber 7) ''hi'' (- 1)"
    by (simp add: speak_call_def demo_call_parsed member_of_def to_i64_def optional_i64_def)
  have e: "echoed (Some (JNumber 7)) = JNumber 7" by (simp add: echoed_def)
  have stored: "storable_wav \<lparr>wav_rate = 24000, wav_channels = 1, wav_samples = [0, 1 / 2]\<rparr>" by (simp add: storable_wav_def)
  have small: "wav_rate \<lparr>wav_rate = 24000, wav_channels = 1, wav_samples = [0, 1 / 2]\<rparr> * wav_channels \<lparr>wav_rate = 24000, wav_channels = 1, wav_samples = [0, 1 / 2]\<rparr> < 2 ^ 31"
    by simp
  from mcp_speak_delivers [of "\<lparr>req_method = ''POST'', req_path = ''/mcp'', req_query = [], req_headers = Map.empty, req_body = ''call''\<rparr>",
      OF _ _ _ stored _ small, of "\<lambda>_. (Some demo_call, None)" "JNumber 7" "''hi''" "- 1"
        "\<lambda>t s. Inr \<lparr>wav_rate = 24000, wav_channels = 1, wav_samples = [0, 1 / 2]\<rparr>" "\<lambda>_. []" "\<lambda>_. 0"] call
  show "\<exists>resp v. handle_mcp (\<lambda>_. (Some demo_call, None))
      (run_mcp_speak (\<lambda>_. []) (\<lambda>t s. Inr \<lparr>wav_rate = 24000, wav_channels = 1, wav_samples = [0, 1 / 2]\<rparr>))
      \<lparr>req_method = ''POST'', req_path = ''/mcp'', req_query = [], req_headers = Map.empty, req_body = ''call''\<rparr> = Inr resp \<and>
    resp_status resp = 200 \<and> read_json (resp_body resp) = Some (reply_value (JNumber 7) ''result'' v)"
    unfolding e by (simp only: http_request.select_convs wav_data.select_convs simp_thms list.distinct) blast
qed

end
