(* ===== verification/Torch_Random.thy ===== *)
theory Torch_Random
  imports Complex_Main Prelude Rounding "HOL-Library.Word" "HOL-Library.Multiset"
begin

unbundle bit_operations_syntax

text \<open>
  Random numbers that reproduce those of PyTorch on a GPU (\<^verbatim>\<open>framework/sampling/torch_random.cpp\<close>): the counter-based
  generator Philox, the element functions on it, and the fill of an array in the order of PyTorch's tensor iterator.

  Words have the width of the source and wrap. Floats are reals; \<open>bits\<close> and \<open>of_bits\<close> are the binary32 encoding, and \<open>rnd\<close>
  is the rounding of an operation to binary32. The loop over the sequences may run in parallel: its stores are listed, and
  an execution is any order of them. The code on the GPU itself (\<open>cuda_fill\<close>) and the device probe are arguments.
\<close>

subsection \<open>Philox\<close>

definition kPhiloxM0 :: "32 word" where "kPhiloxM0 = 0xD2511F53"
definition kPhiloxM1 :: "32 word" where "kPhiloxM1 = 0xCD9E8D57"
definition kPhiloxW0 :: "32 word" where "kPhiloxW0 = 0x9E3779B9"
definition kPhiloxW1 :: "32 word" where "kPhiloxW1 = 0xBB67AE85"

record philox4 =
  px :: "32 word"
  py :: "32 word"
  pz :: "32 word"
  pw :: "32 word"

text \<open>The high and the low half of a product.\<close>

definition mul_hi_lo :: "32 word \<Rightarrow> 32 word \<Rightarrow> 32 word \<times> 32 word" where
  "mul_hi_lo lhs rhs =
     (let product = (ucast lhs :: 64 word) * ucast rhs in (ucast (drop_bit 32 product), ucast product))"

definition philox_round :: "philox4 \<Rightarrow> 32 word \<Rightarrow> 32 word \<Rightarrow> philox4" where
  "philox_round counter key0 key1 =
     (let (hi0, lo0) = mul_hi_lo kPhiloxM0 (px counter); (hi1, lo1) = mul_hi_lo kPhiloxM1 (pz counter)
      in \<lparr>px = hi1 XOR py counter XOR key0, py = lo1, pz = hi0 XOR pw counter XOR key1, pw = lo0\<rparr>)"

fun philox_rounds :: "nat \<Rightarrow> philox4 \<Rightarrow> 32 word \<Rightarrow> 32 word \<Rightarrow> philox4" where
  "philox_rounds 0 counter key0 key1 = counter"
| "philox_rounds (Suc n) counter key0 key1 =
     philox_rounds n (philox_round counter key0 key1) (key0 + kPhiloxW0) (key1 + kPhiloxW1)"

definition philox_4x32_10 :: "philox4 \<Rightarrow> 64 word \<Rightarrow> philox4" where
  "philox_4x32_10 counter seed = philox_rounds 10 counter (ucast seed) (ucast (drop_bit 32 seed))"

text \<open>The counter of a block number and a sequence number.\<close>

definition philox_counter :: "64 word \<Rightarrow> 64 word \<Rightarrow> philox4" where
  "philox_counter block sequence =
     \<lparr>px = ucast block, py = ucast (drop_bit 32 block), pz = ucast sequence, pw = ucast (drop_bit 32 sequence)\<rparr>"

subsection \<open>Elements\<close>

definition kInvTwoPow32 :: real where
  "kInvTwoPow32 = 2.3283064365386963 / 10 ^ 10"

definition kInvTwoPow32TwoPi :: real where
  "kInvTwoPow32TwoPi = 1.4629180792671596 / 10 ^ 9"

text \<open>A word as a number in the unit interval: the conversion, the product and the sum round.\<close>

definition unit_float :: "(real \<Rightarrow> real) \<Rightarrow> real \<Rightarrow> 32 word \<Rightarrow> real" where
  "unit_float rnd scale u = rnd (rnd (rnd (real (unat u)) * scale) + rnd (scale * (1 / 2)))"

definition box_muller :: "(real \<Rightarrow> real) \<Rightarrow> 32 word \<Rightarrow> 32 word \<Rightarrow> real \<times> real" where
  "box_muller rnd uniform0 uniform1 =
     (let radius_input = unit_float rnd (rnd kInvTwoPow32) uniform0;
          angle = unit_float rnd (rnd kInvTwoPow32TwoPi) uniform1;
          radius = rnd (sqrt (rnd (- 2 * rnd (ln radius_input))))
      in (rnd (radius * rnd (sin angle)), rnd (radius * rnd (cos angle))))"

definition torch_cuda_randn_element :: "(real \<Rightarrow> real) \<Rightarrow> 64 word \<Rightarrow> 64 word \<Rightarrow> real" where
  "torch_cuda_randn_element rnd seed index =
     (let random = philox_4x32_10 (philox_counter 0 index) seed in fst (box_muller rnd (px random) (py random)))"

definition torch_cuda_uniform_element :: "(real \<Rightarrow> real) \<Rightarrow> 64 word \<Rightarrow> 64 word \<Rightarrow> real" where
  "torch_cuda_uniform_element rnd seed index = unit_float rnd (rnd kInvTwoPow32) (px (philox_4x32_10 (philox_counter 0 index) seed))"

datatype torch_error =
  Needs_Device_Properties | Invalid_Component | Cuda_Not_Built | Needs_Elements | Index_Out_Of_Range
| Policy_Text_Invalid | Policy_Not_Positive | Driver_Not_Found | Symbols_Not_Resolved | Attributes_Invalid

fun component_of :: "philox4 \<Rightarrow> nat \<Rightarrow> torch_error + 32 word" where
  "component_of r 0 = Inr (px r)"
| "component_of r (Suc 0) = Inr (py r)"
| "component_of r (Suc (Suc 0)) = Inr (pz r)"
| "component_of r (Suc (Suc (Suc 0))) = Inr (pw r)"
| "component_of r _ = Inl Invalid_Component"

definition torch_cuda_uniform_tensor_iterator_element ::
  "(real \<Rightarrow> real) \<Rightarrow> 64 word \<Rightarrow> 64 word \<Rightarrow> 64 word \<Rightarrow> nat \<Rightarrow> torch_error + real" where
  "torch_cuda_uniform_tensor_iterator_element rnd seed sequence offset_blocks component =
     bind_sum (component_of (philox_4x32_10 (philox_counter offset_blocks sequence) seed) component) (\<lambda>v.
       Inr (unit_float rnd (rnd kInvTwoPow32) v))"

subsection \<open>The layout of the tensor iterator\<close>

record sampling_policy =
  multiprocessor_count :: int
  max_threads_per_multiprocessor :: int
  cuda_fast_path :: bool
  cuda_device_index :: int

definition default_policy :: sampling_policy where
  "default_policy = \<lparr>multiprocessor_count = 1, max_threads_per_multiprocessor = 256, cuda_fast_path = False, cuda_device_index = 0\<rparr>"

text \<open>The number of threads of a launch; the code computes it in three places in the same way.\<close>

definition grid_stride :: "64 word \<Rightarrow> sampling_policy \<Rightarrow> 64 word" where
  "grid_stride total_elements p =
     (let grid = (total_elements + 256 - 1) div 256;
          blocks = word_of_int (max_threads_per_multiprocessor p) div 256;
          blocks_per_sm = (if blocks = 0 then 1 else blocks);
          grid_cap = word_of_int (multiprocessor_count p) * blocks_per_sm
      in 256 * max 1 (min grid_cap grid))"

definition has_device_properties :: "sampling_policy \<Rightarrow> bool" where
  "has_device_properties p \<longleftrightarrow> 0 < multiprocessor_count p \<and> 0 < max_threads_per_multiprocessor p"

definition torch_cuda_tensor_iterator_stride :: "64 word \<Rightarrow> sampling_policy \<Rightarrow> torch_error + 64 word" where
  "torch_cuda_tensor_iterator_stride total_elements p =
     (if \<not> has_device_properties p then Inl Needs_Device_Properties else Inr (grid_stride total_elements p))"

definition torch_cuda_tensor_iterator_offset_blocks :: "64 word \<Rightarrow> sampling_policy \<Rightarrow> torch_error + 64 word" where
  "torch_cuda_tensor_iterator_offset_blocks total_elements p =
     (if total_elements = 0 then Inl Needs_Elements
      else if \<not> has_device_properties p then Inl Needs_Device_Properties
      else Inr ((total_elements - 1) div (grid_stride total_elements p * 4) + 1))"

text \<open>To the nearest \<^verbatim>\<open>bfloat16\<close>, ties to the even one, on the bits of a \<^verbatim>\<open>float\<close>.\<close>

definition round_bits :: "32 word \<Rightarrow> 32 word" where
  "round_bits b = (b + (0x7FFF + (drop_bit 16 b AND 1))) AND 0xFFFF0000"

definition round_to_bfloat16 :: "(real \<Rightarrow> 32 word) \<Rightarrow> (32 word \<Rightarrow> real) \<Rightarrow> real \<Rightarrow> real" where
  "round_to_bfloat16 bits of_bits v = of_bits (round_bits (bits v))"

datatype precision = Float32 | BFloat16

definition to_precision :: "(real \<Rightarrow> 32 word) \<Rightarrow> (32 word \<Rightarrow> real) \<Rightarrow> precision \<Rightarrow> real \<Rightarrow> real" where
  "to_precision bits of_bits prec v = (if prec = BFloat16 then round_to_bfloat16 bits of_bits v else v)"

subsection \<open>Filling arrays\<close>

definition fill_torch_cuda_randn ::
  "(real \<Rightarrow> real) \<Rightarrow> (real \<Rightarrow> real) \<Rightarrow> nat \<Rightarrow> 64 word \<Rightarrow> 64 word \<Rightarrow> real list" where
  "fill_torch_cuda_randn rnd prec n seed start_index =
     map (\<lambda>index. prec (torch_cuda_randn_element rnd seed (start_index + word_of_nat index))) [0..<n]"

definition fill_torch_cuda_uniform :: "(real \<Rightarrow> real) \<Rightarrow> nat \<Rightarrow> 64 word \<Rightarrow> 64 word \<Rightarrow> real list" where
  "fill_torch_cuda_uniform rnd n seed start_index =
     map (\<lambda>index. torch_cuda_uniform_element rnd seed (start_index + word_of_nat index)) [0..<n]"

text \<open>The normal numbers of a block.\<close>

definition block_normals :: "(real \<Rightarrow> real) \<Rightarrow> (real \<Rightarrow> real) \<Rightarrow> philox4 \<Rightarrow> real list" where
  "block_normals rnd prec r =
     (let (n0, n1) = box_muller rnd (px r) (py r); (n2, n3) = box_muller rnd (pz r) (pw r)
      in [prec n0, prec n1, prec n2, prec n3])"

text \<open>The stores of one pass of the inner loop, and of one sequence.\<close>

definition pass_stores ::
  "(real \<Rightarrow> real) \<Rightarrow> (real \<Rightarrow> real) \<Rightarrow> nat \<Rightarrow> 64 word \<Rightarrow> 64 word \<Rightarrow> nat \<Rightarrow> nat \<Rightarrow> nat \<Rightarrow> (nat \<times> real) list" where
  "pass_stores rnd prec n seed offset_blocks stride sequence loop_index =
     (let first_index = loop_index * 4 * stride + sequence in
      if first_index \<ge> n then []
      else let random = philox_4x32_10 (philox_counter (offset_blocks + word_of_nat loop_index) (word_of_nat sequence)) seed;
               second_index = first_index + stride; third_index = second_index + stride; fourth_index = third_index + stride;
               normals = block_normals rnd prec random
           in [(first_index, normals ! 0)] @
              (if second_index < n then [(second_index, normals ! 1)] else []) @
              (if third_index < n then [(third_index, normals ! 2)] else []) @
              (if fourth_index < n then [(fourth_index, normals ! 3)] else []))"

definition sequence_stores ::
  "(real \<Rightarrow> real) \<Rightarrow> (real \<Rightarrow> real) \<Rightarrow> nat \<Rightarrow> 64 word \<Rightarrow> 64 word \<Rightarrow> nat \<Rightarrow> nat \<Rightarrow> (nat \<times> real) list" where
  "sequence_stores rnd prec n seed offset_blocks stride sequence =
     (let loop_count = (n + stride * 4 - 1) div (stride * 4)
      in concat (map (pass_stores rnd prec n seed offset_blocks stride sequence) [0..<loop_count]))"

definition all_stores ::
  "(real \<Rightarrow> real) \<Rightarrow> (real \<Rightarrow> real) \<Rightarrow> nat \<Rightarrow> 64 word \<Rightarrow> 64 word \<Rightarrow> nat \<Rightarrow> (nat \<times> real) list" where
  "all_stores rnd prec n seed offset_blocks stride =
     concat (map (sequence_stores rnd prec n seed offset_blocks stride) [0..<stride])"

definition run_stores :: "(nat \<times> real) list \<Rightarrow> real list \<Rightarrow> real list" where
  "run_stores ws output = fold (\<lambda>(i, v) out. out[i := v]) ws output"

text \<open>
  The fill: its outcome is an error or the array after some order of the stores. Vectors are shorter than \<open>2 ^ 61\<close> floats, so
  the index arithmetic does not wrap; the stride is a word, as the product of the device properties may.
\<close>

definition fill_tensor_iterator_randn ::
  "(real \<Rightarrow> real) \<Rightarrow> (real \<Rightarrow> real) \<Rightarrow> (sampling_policy \<Rightarrow> real list) option \<Rightarrow> real list \<Rightarrow> 64 word \<Rightarrow> 64 word \<Rightarrow> sampling_policy \<Rightarrow>
   torch_error + real list \<Rightarrow> bool" where
  "fill_tensor_iterator_randn rnd prec cuda_fill output seed offset_blocks p res \<longleftrightarrow>
     (let n = length output in
      if n = 0 then res = Inr []
      else if cuda_fast_path p then res = (case cuda_fill of None \<Rightarrow> Inl Cuda_Not_Built | Some fill \<Rightarrow> Inr (fill p))
      else case torch_cuda_tensor_iterator_stride (word_of_nat n) p of
        Inl e \<Rightarrow> res = Inl e
      | Inr stride \<Rightarrow> (\<exists>ws. mset ws = mset (all_stores rnd prec n seed offset_blocks (unat stride)) \<and> res = Inr (run_stores ws output)))"

text \<open>Exponential numbers, by the index of the call or the number of blocks before it.\<close>

definition exponential_element_at_offset ::
  "(real \<Rightarrow> real) \<Rightarrow> 64 word \<Rightarrow> 64 word \<Rightarrow> 64 word \<Rightarrow> 64 word \<Rightarrow> sampling_policy \<Rightarrow> torch_error + real" where
  "exponential_element_at_offset rnd seed total_elements element_index offset_blocks p =
     (if total_elements = 0 \<or> element_index \<ge> total_elements then Inl Index_Out_Of_Range
      else if \<not> has_device_properties p then Inl Needs_Device_Properties
      else let stride = grid_stride total_elements p;
               chunk = element_index div stride;
               component = unat (chunk mod 4);
               loop_index = chunk div 4;
               sequence = element_index mod stride
           in bind_sum (torch_cuda_uniform_tensor_iterator_element rnd seed sequence (offset_blocks + loop_index) component) (\<lambda>uniform.
              Inr (- rnd (ln uniform))))"

definition exponential_element ::
  "(real \<Rightarrow> real) \<Rightarrow> 64 word \<Rightarrow> 64 word \<Rightarrow> 64 word \<Rightarrow> 64 word \<Rightarrow> sampling_policy \<Rightarrow> torch_error + real" where
  "exponential_element rnd seed total_elements element_index call_index p =
     bind_sum (torch_cuda_tensor_iterator_offset_blocks total_elements p) (\<lambda>blocks.
       exponential_element_at_offset rnd seed total_elements element_index (call_index * blocks) p)"

subsection \<open>Choosing the layout\<close>

text \<open>The value of the environment variable, if it is set.\<close>

definition pinned_policy_from_env :: "string option \<Rightarrow> torch_error + sampling_policy option" where
  "pinned_policy_from_env env =
     (case env of
        None \<Rightarrow> Inr None
      | Some v \<Rightarrow>
          if v = [] then Inr None
          else if v = ''default'' then Inr (Some default_policy)
          else case find_idx (\<lambda>c. c = CHR ''x'') v of
            None \<Rightarrow> Inl Policy_Text_Invalid
          | Some cross \<Rightarrow>
              (case (sto_signed 64 (take cross v), sto_signed 64 (drop (cross + 1) v)) of
                 (Inr (sms, _), Inr (threads, _)) \<Rightarrow>
                   (if sms \<le> 0 \<or> threads \<le> 0 then Inl Policy_Not_Positive
                    else Inr (Some (default_policy\<lparr>multiprocessor_count := sms, max_threads_per_multiprocessor := threads\<rparr>)))
               | _ \<Rightarrow> Inl Policy_Text_Invalid))"

text \<open>What probing the CUDA driver finds.\<close>

datatype probe = No_Driver | No_Symbols | Attributes bool int int

definition resolve_torch_cuda_sampling_policy ::
  "string option \<Rightarrow> bool \<Rightarrow> int \<Rightarrow> probe \<Rightarrow> bool \<Rightarrow> torch_error + sampling_policy" where
  "resolve_torch_cuda_sampling_policy env is_cuda device_index found fallback =
     bind_sum (pinned_policy_from_env env) (\<lambda>pinned.
       case pinned of
         Some p \<Rightarrow> Inr p
       | None \<Rightarrow>
           if \<not> is_cuda then Inr default_policy
           else (case found of
               No_Driver \<Rightarrow> (if fallback then Inr default_policy else Inl Driver_Not_Found)
             | No_Symbols \<Rightarrow> (if fallback then Inr default_policy else Inl Symbols_Not_Resolved)
             | Attributes ok sms threads \<Rightarrow>
                 (if \<not> ok \<or> sms \<le> 0 \<or> threads \<le> 0
                  then (if fallback then Inr default_policy else Inl Attributes_Invalid)
                  else Inr \<lparr>multiprocessor_count = sms, max_threads_per_multiprocessor = threads, cuda_fast_path = True,
                            cuda_device_index = device_index\<rparr>)))"

subsection \<open>Philox is a permutation\<close>

lemma low_product: "ucast ((ucast a :: 64 word) * ucast b) = (a * b :: 32 word)"
proof (rule word_unat_eq_iff [THEN iffD2])
  have "unat (ucast ((ucast a :: 64 word) * ucast b) :: 32 word) = (unat a * unat b mod 2 ^ 64) mod 2 ^ 32"
    by (simp add: unsigned_ucast_eq unat_word_ariths take_bit_eq_mod mod_mult_eq)
  also have "\<dots> = unat a * unat b mod 2 ^ 32" by (simp add: mod_mod_cancel)
  finally show "unat (ucast ((ucast a :: 64 word) * ucast b) :: 32 word) = unat (a * b)" by (simp add: unat_word_ariths)
qed

lemma mult_inj:
  assumes "c * m = 1" "m * x = m * (y :: 32 word)"
  shows "x = y"
proof -
  have "c * (m * x) = c * (m * y)" using assms(2) by simp
  then show ?thesis by (simp add: assms(1) mult.assoc [symmetric])
qed

lemma philox_units: "0x991a7cdb * kPhiloxM0 = 1" "0x6d7cae67 * kPhiloxM1 = 1"
  by (simp_all add: kPhiloxM0_def kPhiloxM1_def)

lemma mul_lo_inj: "snd (mul_hi_lo kPhiloxM0 x) = snd (mul_hi_lo kPhiloxM0 y) \<Longrightarrow> x = y"
  "snd (mul_hi_lo kPhiloxM1 x) = snd (mul_hi_lo kPhiloxM1 y) \<Longrightarrow> x = y"
  unfolding mul_hi_lo_def Let_def low_product snd_conv
  by (rule mult_inj [OF philox_units(1)], assumption) (rule mult_inj [OF philox_units(2)])

lemma xor_cancel:
  assumes "a XOR x XOR k = a XOR y XOR k"
  shows "x = (y :: 32 word)"
proof (rule bit_eqI)
  fix n
  show "bit x n = bit y n" using arg_cong [OF assms, of "\<lambda>w. bit w n"] by (auto simp: bit_xor_iff)
qed

lemma philox_round_fields:
  "pw (philox_round c k0 k1) = snd (mul_hi_lo kPhiloxM0 (px c))" "py (philox_round c k0 k1) = snd (mul_hi_lo kPhiloxM1 (pz c))"
  "px (philox_round c k0 k1) = fst (mul_hi_lo kPhiloxM1 (pz c)) XOR py c XOR k0"
  "pz (philox_round c k0 k1) = fst (mul_hi_lo kPhiloxM0 (px c)) XOR pw c XOR k1"
  by (simp_all add: philox_round_def case_prod_unfold Let_def)

lemma philox_round_inj:
  assumes "philox_round a k0 k1 = philox_round b k0 k1"
  shows "a = b"
proof -
  have x: "px a = px b" using arg_cong [OF assms, of pw] unfolding philox_round_fields by (rule mul_lo_inj)
  have z: "pz a = pz b" using arg_cong [OF assms, of py] unfolding philox_round_fields by (rule mul_lo_inj)
  have y: "py a = py b" using arg_cong [OF assms, of px] unfolding philox_round_fields z by (rule xor_cancel)
  have w: "pw a = pw b" using arg_cong [OF assms, of pz] unfolding philox_round_fields x by (rule xor_cancel)
  from x y z w show ?thesis by (cases a; cases b) simp
qed

lemma philox_rounds_inj: "philox_rounds n a k0 k1 = philox_rounds n b k0 k1 \<Longrightarrow> a = b"
proof (induction n arbitrary: a b k0 k1)
  case (Suc n)
  from Suc.prems have "philox_round a k0 k1 = philox_round b k0 k1" unfolding philox_rounds.simps by (rule Suc.IH)
  then show ?case by (rule philox_round_inj)
qed simp

lemma philox_inj: "philox_4x32_10 a seed = philox_4x32_10 b seed \<Longrightarrow> a = b"
  using philox_rounds_inj by (simp add: philox_4x32_10_def)

lemma halves_inj: "(ucast a :: 32 word) = ucast b \<Longrightarrow> (ucast (drop_bit 32 a) :: 32 word) = ucast (drop_bit 32 b) \<Longrightarrow> a = (b :: 64 word)"
proof (rule bit_eqI)
  fix n assume low: "(ucast a :: 32 word) = ucast b" and high: "(ucast (drop_bit 32 a) :: 32 word) = ucast (drop_bit 32 b)"
    and "possible_bit TYPE(64 word) n"
  then have "n < 64" by simp
  have "bit a n = bit b n" if "n < 32"
    using arg_cong [OF low, of "\<lambda>w. bit w n"] that by (simp add: bit_unsigned_iff)
  moreover have "bit a n = bit b n" if "\<not> n < 32"
  proof -
    have "n - 32 < 32" using \<open>n < 64\<close> that by simp
    then show ?thesis using arg_cong [OF high, of "\<lambda>w. bit w (n - 32)"] that by (simp add: bit_unsigned_iff bit_drop_bit_eq)
  qed
  ultimately show "bit a n = bit b n" by blast
qed

lemma philox_counter_inj: "philox_counter a s = philox_counter b t \<Longrightarrow> a = b \<and> s = t"
  using halves_inj by (auto simp: philox_counter_def)

subsection \<open>Where an element comes from\<close>

lemma grid_stride_pos:
  assumes "n < 2 ^ 61"
  shows "0 < unat (grid_stride (word_of_nat n) p) \<and> unat (grid_stride (word_of_nat n) p) \<le> n + 511"
proof -
  let ?g = "(word_of_nat n + 256 - 1) div 256 :: 64 word"
  let ?m = "max 1 (min x ?g)"
  have e: "word_of_nat n + 256 - 1 = (word_of_nat (n + 255) :: 64 word)" by simp
  have "unat (word_of_nat (n + 255) :: 64 word) = n + 255" unfolding unsigned_of_nat using assms by (simp add: take_bit_nat_eq_self)
  then have g: "unat ?g = (n + 255) div 256" unfolding e unat_div by simp
  have bound: "unat (max 1 (min x ?g)) \<le> (n + 255) div 256 + 1 \<and> 0 < unat (max 1 (min x ?g))" for x
  proof -
    have "unat (min x ?g) \<le> (n + 255) div 256" using g by (metis min.cobounded2 word_le_nat_alt)
    then show ?thesis by (auto simp: max_def word_le_nat_alt unat_gt_0 unat_eq_0)
  qed
  have "0 < unat (256 * max 1 (min x ?g)) \<and> unat (256 * max 1 (min x ?g)) \<le> n + 511" for x
  proof -
    have small: "256 * u < 2 ^ 64" if "u \<le> d + 1" "256 * d \<le> n + 255" for u d :: nat using that assms by simp
    have "unat (256 * w) = 256 * unat w" if "256 * unat w < 2 ^ 64" for w :: "64 word"
      using that by (simp add: unat_word_ariths)
    from this [OF small [OF bound [THEN conjunct1]]] have e: "unat (256 * max 1 (min x ?g)) = 256 * unat (max 1 (min x ?g))" by simp
    have "0 < 256 * u \<and> 256 * u \<le> n + 511" if "u \<le> (n + 255) div 256 + 1 \<and> 0 < u" for u :: nat using that by linarith
    from this [OF bound] show ?thesis unfolding e .
  qed
  then show ?thesis unfolding grid_stride_def Let_def by blast
qed

definition noise_element ::
  "(real \<Rightarrow> real) \<Rightarrow> (real \<Rightarrow> real) \<Rightarrow> 64 word \<Rightarrow> 64 word \<Rightarrow> nat \<Rightarrow> nat \<Rightarrow> real" where
  "noise_element rnd prec seed offset_blocks stride i =
     block_normals rnd prec (philox_4x32_10 (philox_counter (offset_blocks + word_of_nat (i div stride div 4)) (word_of_nat (i mod stride))) seed)
       ! (i div stride mod 4)"

lemma store_place:
  assumes "s < (stride :: nat)" "c < 4" "i = l * 4 * stride + s + c * stride"
  shows "i mod stride = s" "i div stride div 4 = l" "i div stride mod 4 = c"
proof -
  have i: "i = s + stride * (4 * l + c)" using assms(3) by (simp add: algebra_simps)
  have "i div stride = 4 * l + c" unfolding i using assms(1) by simp
  then show "i div stride div 4 = l" "i div stride mod 4 = c" using assms(2) by simp_all
  show "i mod stride = s" unfolding i using assms(1) by simp
qed

lemma ex_less_4: "(\<exists>c < 4. P c) \<longleftrightarrow> P 0 \<or> P 1 \<or> P 2 \<or> P (3 :: nat)"
proof -
  have "{..<4} = {0, 1, 2, 3 :: nat}" by auto
  then show ?thesis by (metis insert_iff lessThan_iff singletonD)
qed

lemma block_normals_length: "length (block_normals rnd prec r) = 4"
  by (simp add: block_normals_def case_prod_unfold Let_def)

lemma pass_stores_iff:
  assumes "s < stride"
  shows "(i, v) \<in> set (pass_stores rnd prec n seed off stride s l) \<longleftrightarrow>
    i < n \<and> v = noise_element rnd prec seed off stride i \<and> i mod stride = s \<and> i div stride div 4 = l"
proof -
  let ?N = "block_normals rnd prec (philox_4x32_10 (philox_counter (off + word_of_nat l) (word_of_nat s)) seed)"
  have "(i, v) \<in> set (pass_stores rnd prec n seed off stride s l) \<longleftrightarrow> (\<exists>c < 4. i = l * 4 * stride + s + c * stride \<and> i < n \<and> v = ?N ! c)"
    unfolding ex_less_4 using assms by (auto simp: pass_stores_def Let_def)
  also have "\<dots> \<longleftrightarrow> i < n \<and> v = noise_element rnd prec seed off stride i \<and> i mod stride = s \<and> i div stride div 4 = l"
  proof
    assume "\<exists>c < 4. i = l * 4 * stride + s + c * stride \<and> i < n \<and> v = ?N ! c"
    then obtain c where c: "c < 4" "i = l * 4 * stride + s + c * stride" "i < n" "v = ?N ! c" by blast
    with store_place [OF assms c(1,2)] show "i < n \<and> v = noise_element rnd prec seed off stride i \<and> i mod stride = s \<and> i div stride div 4 = l"
      by (simp add: noise_element_def)
  next
    assume a: "i < n \<and> v = noise_element rnd prec seed off stride i \<and> i mod stride = s \<and> i div stride div 4 = l"
    have "i = (i div stride) * stride + i mod stride" "i div stride = (i div stride div 4) * 4 + i div stride mod 4" by simp_all
    then have "i = (l * 4 + i div stride mod 4) * stride + s" using a by metis
    then have "i = l * 4 * stride + s + (i div stride mod 4) * stride" by (simp add: algebra_simps)
    with a show "\<exists>c < 4. i = l * 4 * stride + s + c * stride \<and> i < n \<and> v = ?N ! c"
      by (intro exI [of _ "i div stride mod 4"]) (auto simp: noise_element_def)
  qed
  finally show ?thesis .
qed

lemma all_stores_iff:
  assumes "0 < stride"
  shows "(i, v) \<in> set (all_stores rnd prec n seed off stride) \<longleftrightarrow> i < n \<and> v = noise_element rnd prec seed off stride i"
proof -
  have loop: "i div stride div 4 < (n + stride * 4 - 1) div (stride * 4)" if "i < n"
  proof -
    have "i div (stride * 4) \<le> (n - 1) div (stride * 4)" using that by (intro div_le_mono) simp
    also have "(n - 1) div (stride * 4) < (n - 1 + stride * 4) div (stride * 4)" using assms by simp
    also have "n - 1 + stride * 4 = n + stride * 4 - 1" using that by simp
    finally show ?thesis by (simp add: div_mult2_eq)
  qed
  show ?thesis using loop assms
    by (auto simp: all_stores_def sequence_stores_def Let_def pass_stores_iff)
qed

lemma run_stores_pointwise:
  "\<forall>(i, v)\<in>set ws. v = f i \<Longrightarrow> length (run_stores ws out) = length out \<and>
    (\<forall>i < length out. run_stores ws out ! i = (if i \<in> fst ` set ws then f i else out ! i))"
  unfolding run_stores_def
  by (induction ws arbitrary: out) (auto simp: nth_list_update image_iff split: prod.splits)

lemma run_all_stores:
  assumes "mset ws = mset (all_stores rnd prec n seed off stride)" "0 < stride" "length out = n"
  shows "run_stores ws out = map (noise_element rnd prec seed off stride) [0..<n]"
proof -
  have s: "(i, v) \<in> set ws \<longleftrightarrow> i < n \<and> v = noise_element rnd prec seed off stride i" for i v
    using all_stores_iff [OF assms(2)] assms(1) by (metis set_mset_mset)
  then have "i \<in> fst ` set ws" if "i < n" for i using that by force
  moreover have "\<forall>(i, v)\<in>set ws. v = noise_element rnd prec seed off stride i" using s by blast
  ultimately show ?thesis using run_stores_pointwise [of ws "noise_element rnd prec seed off stride" out] assms(3)
    by (intro nth_equalityI) auto
qed

lemma distinct_concat_map:
  assumes "distinct xs" "\<And>x. x \<in> set xs \<Longrightarrow> distinct (g x)" "\<And>x i. x \<in> set xs \<Longrightarrow> i \<in> set (g x) \<Longrightarrow> h i = x"
  shows "distinct (concat (map g xs))"
  using assms
proof (induction xs)
  case (Cons x xs)
  have "set (g x) \<inter> set (concat (map g xs)) = {}"
  proof (rule ccontr)
    assume "set (g x) \<inter> set (concat (map g xs)) \<noteq> {}"
    then obtain i y where i: "i \<in> set (g x)" "y \<in> set xs" "i \<in> set (g y)" by auto
    then have "h i = x" "h i = y" using Cons.prems(3) by simp_all
    with i(2) Cons.prems(1) show False by simp
  qed
  moreover have "distinct (concat (map g xs))" by (rule Cons.IH) (use Cons.prems in simp_all)
  ultimately show ?case using Cons.prems(2) by simp
qed simp

lemma stores_distinct:
  assumes "0 < stride"
  shows "distinct (map fst (all_stores rnd prec n seed off stride))"
proof -
  have pass: "distinct (map fst (pass_stores rnd prec n seed off stride s l))" for s l
    using assms by (auto simp: pass_stores_def Let_def)
  have place: "i mod stride = s \<and> i div stride div 4 = l" if "s < stride" "(i, v) \<in> set (pass_stores rnd prec n seed off stride s l)" for i s l v
    using that pass_stores_iff [OF that(1)] by simp
  have seq: "distinct (map fst (sequence_stores rnd prec n seed off stride s))" if "s < stride" for s
    unfolding sequence_stores_def Let_def map_concat map_map comp_def
    by (rule distinct_concat_map [where h = "\<lambda>i. i div stride div 4"]) (use pass place [OF that] in auto)
  show ?thesis
    unfolding all_stores_def map_concat map_map comp_def
    by (rule distinct_concat_map [where h = "\<lambda>i. i mod stride"])
      (use seq place in \<open>auto simp: sequence_stores_def Let_def\<close>)
qed

text \<open>
  C21. The parallel fill has one result: for every order in which the stores of the threads happen, on
  any device layout, each element of the array is stored exactly once and gets the normal number of its
  own place - block \<open>i div stride div 4\<close> of sequence \<open>i mod stride\<close>, component \<open>i div stride mod 4\<close>.
\<close>

theorem tensor_noise_pointwise:
  assumes "has_device_properties p" "\<not> cuda_fast_path p" "length output < 2 ^ 61"
  shows "let n = length output; stride = unat (grid_stride (word_of_nat n) p) in
    (fill_tensor_iterator_randn rnd prec cuda_fill output seed offset_blocks p res \<longleftrightarrow>
      res = Inr (map (noise_element rnd prec seed offset_blocks stride) [0..<n])) \<and>
    distinct (map fst (all_stores rnd prec n seed offset_blocks stride))"
proof -
  let ?stride = "unat (grid_stride (word_of_nat (length output)) p)"
  have pos: "0 < ?stride" using grid_stride_pos [OF assms(3)] by blast
  have "(\<exists>ws. mset ws = mset (all_stores rnd prec (length output) seed offset_blocks ?stride) \<and> res = Inr (run_stores ws output)) \<longleftrightarrow>
      res = Inr (map (noise_element rnd prec seed offset_blocks ?stride) [0..<length output])"
    using run_all_stores [OF _ pos refl] by metis
  then show ?thesis using assms(1,2) stores_distinct [OF pos]
    by (simp add: fill_tensor_iterator_randn_def Let_def torch_cuda_tensor_iterator_stride_def)
qed

theorem tensor_noise_pointwise_witness:
  "fill_tensor_iterator_randn id id None [0, 0, 0] 42 0 default_policy (Inr (map (noise_element id id 42 0 256) [0..<3]))"
proof -
  have "has_device_properties default_policy" "\<not> cuda_fast_path default_policy" by (simp_all add: has_device_properties_def default_policy_def)
  moreover have "unat (grid_stride (word_of_nat (length [0, 0, 0 :: real])) default_policy) = 256"
    by (simp add: grid_stride_def default_policy_def)
  ultimately show ?thesis using tensor_noise_pointwise [of default_policy "[0, 0, 0]" id id None 42 0 "Inr (map (noise_element id id 42 0 256) [0..<3])"]
    by (simp add: numeral_3_eq_3)
qed

subsection \<open>No number is used twice\<close>

text \<open>The block of random words and the component that element \<open>i\<close> of call \<open>k\<close> is made of.\<close>

definition blocks_per_call :: "sampling_policy \<Rightarrow> nat \<Rightarrow> nat" where
  "blocks_per_call p n = (n - 1) div (unat (grid_stride (word_of_nat n) p) * 4) + 1"

definition draw_of :: "64 word \<Rightarrow> sampling_policy \<Rightarrow> nat \<Rightarrow> nat \<times> nat \<Rightarrow> philox4 \<times> nat" where
  "draw_of seed p n = (\<lambda>(k, i). let stride = unat (grid_stride (word_of_nat n) p) in
     (philox_4x32_10 (philox_counter (word_of_nat (k * blocks_per_call p n + i div stride div 4)) (word_of_nat (i mod stride))) seed,
      i div stride mod 4))"

fun word_of_draw :: "philox4 \<times> nat \<Rightarrow> 32 word" where
  "word_of_draw (r, c) = (if c = 0 then px r else if c = 1 then py r else if c = 2 then pz r else pw r)"

lemma component_of_draw: "c < 4 \<Longrightarrow> component_of r c = Inr (word_of_draw (r, c))"
  by (auto simp: numeral_eq_Suc less_Suc_eq)

lemma unat_of_nat64: "a < 2 ^ 64 \<Longrightarrow> unat (word_of_nat a :: 64 word) = a"
  by (simp add: unsigned_of_nat take_bit_nat_eq_self)

lemma word_of_nat_inj: "a < 2 ^ 64 \<Longrightarrow> b < 2 ^ 64 \<Longrightarrow> (word_of_nat a :: 64 word) = word_of_nat b \<longleftrightarrow> a = b"
  by (metis unat_of_nat64)

lemma offset_blocks_of:
  assumes "has_device_properties p" "0 < n" "n < 2 ^ 61"
  shows "torch_cuda_tensor_iterator_offset_blocks (word_of_nat n) p = Inr (word_of_nat (blocks_per_call p n))"
proof -
  let ?s = "grid_stride (word_of_nat n) p"
  have s: "unat ?s \<le> n + 511" using grid_stride_pos [OF assms(3)] by blast
  have n: "unat (word_of_nat n :: 64 word) = n" using assms(3) by (intro unat_of_nat64) simp
  have "unat (?s * 4) = unat ?s * 4" using s assms(3) by (simp add: unat_word_ariths)
  moreover have "word_of_nat n - 1 = (word_of_nat (n - 1) :: 64 word)" using assms(2) by (simp add: of_nat_diff)
  moreover have "unat (word_of_nat (n - 1) :: 64 word) = n - 1" using assms(3) by (intro unat_of_nat64) simp
  ultimately have "(word_of_nat n - 1) div (?s * 4) = word_of_nat ((n - 1) div (unat ?s * 4))"
    by (metis word_arith_nat_div)
  moreover have "(word_of_nat n :: 64 word) \<noteq> 0" using n assms(2) by auto
  ultimately show ?thesis using assms(1) by (simp add: torch_cuda_tensor_iterator_offset_blocks_def blocks_per_call_def)
qed

lemma exponential_element_draw:
  assumes "has_device_properties p" "i < n" "n < 2 ^ 61"
  shows "exponential_element rnd seed (word_of_nat n) (word_of_nat i) (word_of_nat k) p =
    Inr (- rnd (ln (unit_float rnd (rnd kInvTwoPow32) (word_of_draw (draw_of seed p n (k, i))))))"
proof -
  let ?s = "grid_stride (word_of_nat n) p"
  have n: "unat (word_of_nat n :: 64 word) = n" and i: "unat (word_of_nat i :: 64 word) = i"
    using assms(2,3) by (simp_all add: unat_of_nat64)
  have ne: "(word_of_nat n :: 64 word) \<noteq> 0" "\<not> (word_of_nat n :: 64 word) \<le> word_of_nat i"
    using n i assms(2) by (auto simp: word_le_nat_alt)
  have chunk: "word_of_nat i div ?s = word_of_nat (i div unat ?s)" by (metis i word_arith_nat_div)
  have "i div unat ?s < 2 ^ 64" by (rule le_less_trans [OF div_le_dividend]) (use assms(2,3) in simp)
  then have c: "unat (word_of_nat (i div unat ?s) :: 64 word) = i div unat ?s" by (rule unat_of_nat64)
  have comp: "unat (word_of_nat (i div unat ?s) mod 4 :: 64 word) = i div unat ?s mod 4" by (simp add: unat_mod c)
  have loop: "word_of_nat (i div unat ?s) div 4 = (word_of_nat (i div unat ?s div 4) :: 64 word)"
    using word_arith_nat_div [of "word_of_nat (i div unat ?s) :: 64 word" 4] by (simp add: c)
  have seq: "word_of_nat i mod ?s = word_of_nat (i mod unat ?s)" by (metis i word_arith_nat_mod)
  have "0 < n" using assms(2) by simp
  from offset_blocks_of [OF assms(1) this assms(3)] show ?thesis
    using ne assms(1)
    by (simp add: exponential_element_def exponential_element_at_offset_def Let_def chunk comp loop seq
        torch_cuda_uniform_tensor_iterator_element_def component_of_draw draw_of_def del: component_of.simps word_of_draw.simps)
qed

text \<open>
  C34. Sampling never uses a random number twice: the exponential number of vocabulary entry \<open>i\<close> in the
  \<open>k\<close>-th call is made of one component of one Philox block, and over all calls and all entries of a
  vocabulary no two of them share block and component - Philox maps different counters to different blocks,
  and the blocks of a call begin where those of the previous one end.
\<close>

theorem sampling_noise_never_reused:
  assumes "has_device_properties p" "0 < n" "n < 2 ^ 61" "calls * blocks_per_call p n < 2 ^ 64"
  shows "(\<forall>k i. i < n \<longrightarrow> exponential_element rnd seed (word_of_nat n) (word_of_nat i) (word_of_nat k) p =
      Inr (- rnd (ln (unit_float rnd (rnd kInvTwoPow32) (word_of_draw (draw_of seed p n (k, i))))))) \<and>
    inj_on (draw_of seed p n) ({..<calls} \<times> {..<n})"
proof (intro conjI)
  show "\<forall>k i. i < n \<longrightarrow> exponential_element rnd seed (word_of_nat n) (word_of_nat i) (word_of_nat k) p =
      Inr (- rnd (ln (unit_float rnd (rnd kInvTwoPow32) (word_of_draw (draw_of seed p n (k, i))))))"
    using exponential_element_draw [OF assms(1) _ assms(3)] by blast
  let ?s = "unat (grid_stride (word_of_nat n) p)" and ?b = "blocks_per_call p n"
  have s: "0 < ?s" "?s \<le> n + 511" using grid_stride_pos [OF assms(3)] by blast+
  have block: "i div ?s div 4 < ?b" if "i < n" for i
    using that by (simp add: blocks_per_call_def div_mult2_eq [symmetric] less_Suc_eq_le div_le_mono)
  have place: "k * ?b + i div ?s div 4 < 2 ^ 64 \<and> i mod ?s < 2 ^ 64" if "k < calls" "i < n" for k i
  proof -
    have "k * ?b + i div ?s div 4 < (k + 1) * ?b" using block [OF that(2)] by simp
    also have "\<dots> \<le> calls * ?b" using that(1) by (intro mult_le_mono1) simp
    finally have block_small: "k * ?b + i div ?s div 4 < calls * ?b" .
    have "(2 :: nat) ^ 61 + 511 < 2 ^ 64" by simp
    with block_small show ?thesis using assms(3,4) s mod_less_divisor [OF s(1), of i] by (intro conjI) linarith+
  qed
  show "inj_on (draw_of seed p n) ({..<calls} \<times> {..<n})"
  proof (rule inj_onI, clarify)
    fix k i k' i' assume k: "k < calls" "k' < calls" and i: "i < n" "i' < n" and eq: "draw_of seed p n (k, i) = draw_of seed p n (k', i')"
    from eq have c: "i div ?s mod 4 = i' div ?s mod 4" and "philox_counter (word_of_nat (k * ?b + i div ?s div 4)) (word_of_nat (i mod ?s)) =
        philox_counter (word_of_nat (k' * ?b + i' div ?s div 4)) (word_of_nat (i' mod ?s))"
      by (auto simp: draw_of_def Let_def dest: philox_inj)
    from philox_counter_inj [OF this(2)] have blocks: "k * ?b + i div ?s div 4 = k' * ?b + i' div ?s div 4" and seq: "i mod ?s = i' mod ?s"
      using word_of_nat_inj place [OF k(1) i(1)] place [OF k(2) i(2)] by blast+
    have div: "(k * ?b + i div ?s div 4) div ?b = k" "(k' * ?b + i' div ?s div 4) div ?b = k'"
      using block [OF i(1)] block [OF i(2)] by (simp_all add: div_add1_eq)
    with blocks have kk: "k = k'" by metis
    with blocks have "i div ?s div 4 = i' div ?s div 4" by simp
    with c have "i div ?s = i' div ?s" by (metis div_mult_mod_eq)
    with seq have "i = i'" by (metis div_mult_mod_eq)
    with kk show "k = k' \<and> i = i'" by blast
  qed
qed

theorem sampling_noise_never_reused_witness:
  "inj_on (draw_of 7 default_policy 1000) ({..<1000} \<times> {..<1000})"
proof -
  have "has_device_properties default_policy" by (simp add: has_device_properties_def default_policy_def)
  moreover have "blocks_per_call default_policy 1000 = 1" by (simp add: blocks_per_call_def grid_stride_def default_policy_def)
  ultimately show ?thesis using sampling_noise_never_reused [of default_policy 1000 1000 id 7] by simp
qed

end
