(* ===== verification/Hf_Sampler.thy ===== *)
theory Hf_Sampler
  imports Torch_Random Options "HOL-Library.Product_Lexorder"
begin

text \<open>
  Choosing the next token from the scores of a language model (\<^verbatim>\<open>framework/sampling/hf_sampler.cpp\<close>): repetition penalty,
  temperature, top-k and top-p filters, and the draw, with the random numbers of PyTorch on the GPU (\<open>Torch_Random\<close>), of
  PyTorch on the CPU (a Mersenne twister, here) or of the standard library (the argument \<open>pick\<close>).

  A score is a \<^typ>\<open>c_float\<close>, a real or one of the special values; \<open>rnd\<close> is the rounding to binary32, and no operation leaves its
  range. Sums of probabilities are exact. The scratch object keeps the address of the scores its candidates belong to; a vector of scores therefore comes
  with an address.
\<close>

subsection \<open>Scores\<close>

abbreviation Pos_Inf :: c_float where "Pos_Inf \<equiv> Infinite False"

abbreviation Neg_Inf :: c_float where "Neg_Inf \<equiv> Infinite True"

fun fin_val :: "c_float \<Rightarrow> real" where
  "fin_val (Finite x) = x"
| "fin_val _ = 0"

text \<open>An operation with a positive finite factor leaves the special values as they are.\<close>

fun fl_map :: "(real \<Rightarrow> real) \<Rightarrow> c_float \<Rightarrow> c_float" where
  "fl_map f (Finite x) = Finite (f x)"
| "fl_map f v = v"

subsection \<open>The Mersenne twister\<close>

definition kStateN :: nat where "kStateN = 624"
definition kStateM :: nat where "kStateM = 397"

record mt19937 =
  mt_left :: nat
  mt_next :: nat
  mt_state :: "32 word list"

definition init_step :: "32 word \<Rightarrow> nat \<Rightarrow> 32 word" where
  "init_step prev index = 1812433253 * (prev XOR drop_bit 30 prev) + word_of_nat index"

definition mt_init :: "64 word \<Rightarrow> mt19937" where
  "mt_init seed =
     \<lparr>mt_left = 1, mt_next = 0,
      mt_state = fold (\<lambda>index st. st @ [init_step (last st) index]) [1..<kStateN] [ucast (seed AND 0xffffffff)]\<rparr>"

definition mix_bits :: "32 word \<Rightarrow> 32 word \<Rightarrow> 32 word" where
  "mix_bits lhs rhs = (lhs AND 0x80000000) OR (rhs AND 0x7fffffff)"

definition twist :: "32 word \<Rightarrow> 32 word \<Rightarrow> 32 word" where
  "twist lhs rhs = drop_bit 1 (mix_bits lhs rhs) XOR (if rhs AND 1 \<noteq> 0 then 0x9908b0df else 0)"

definition next_state :: "mt19937 \<Rightarrow> mt19937" where
  "next_state g =
     (let st0 = mt_state g;
          st1 = fold (\<lambda>p st. st[p := st ! (p + kStateM) XOR twist (st ! p) (st ! (p + 1))]) [0..<kStateN - kStateM] st0;
          st2 = fold (\<lambda>p st. st[p := st ! (p + kStateM - kStateN) XOR twist (st ! p) (st ! (p + 1))]) [kStateN - kStateM..<kStateN - 1] st1;
          p = kStateN - 1
      in g\<lparr>mt_left := kStateN, mt_next := 0, mt_state := st2[p := st2 ! (p + kStateM - kStateN) XOR twist (st2 ! p) (st2 ! 0)]\<rparr>)"

definition temper :: "32 word \<Rightarrow> 32 word" where
  "temper y0 =
     (let y1 = y0 XOR drop_bit 11 y0;
          y2 = y1 XOR (push_bit 7 y1 AND 0x9d2c5680);
          y3 = y2 XOR (push_bit 15 y2 AND 0xefc60000)
      in y3 XOR drop_bit 18 y3)"

definition mt_random :: "mt19937 \<Rightarrow> 32 word \<times> mt19937" where
  "mt_random g =
     (let g1 = (if mt_left g - 1 = 0 then next_state g else g\<lparr>mt_left := mt_left g - 1\<rparr>)
      in (temper (mt_state g1 ! mt_next g1), g1\<lparr>mt_next := mt_next g1 + 1\<rparr>))"

definition mt_random64 :: "mt19937 \<Rightarrow> 64 word \<times> mt19937" where
  "mt_random64 g =
     (let (high, g1) = mt_random g; (low, g2) = mt_random g1 in (push_bit 32 (ucast high) OR ucast low, g2))"

fun mt_discard :: "nat \<Rightarrow> mt19937 \<Rightarrow> mt19937" where
  "mt_discard 0 g = g"
| "mt_discard (Suc n) g = mt_discard n (snd (mt_random g))"

text \<open>From 53 random bits; \<^verbatim>\<open>log1p(-u)\<close> is the logarithm of \<open>1 - u\<close>.\<close>

definition exponential_of_bits :: "(real \<Rightarrow> real) \<Rightarrow> 64 word \<Rightarrow> real" where
  "exponential_of_bits rnd w = rnd (- ln (1 - real (unat (w AND (2 ^ 53 - 1))) / 2 ^ 53))"

definition torch_cpu_exponential_float :: "(real \<Rightarrow> real) \<Rightarrow> mt19937 \<Rightarrow> real \<times> mt19937" where
  "torch_cpu_exponential_float rnd g = (let (w, g1) = mt_random64 g in (exponential_of_bits rnd w, g1))"

subsection \<open>The draw on the CPU\<close>

datatype sampler_error =
  Empty_Logits | Penalty_Invalid | Min_Keep_Invalid | Top_P_Invalid | Mass_Invalid | Temperature_Invalid | No_Finite_Logits
| Cuda_Selects_None | Cpu_Selects_None | Torch_Failed torch_error | Undefined_Order

text \<open>The greatest finite score, if any.\<close>

definition max_finite :: "c_float list \<Rightarrow> real option" where
  "max_finite scores =
     (let xs = map fin_val (filter is_finite scores) in if xs = [] then None else Some (fold max (tl xs) (hd xs)))"

definition token_weight :: "(real \<Rightarrow> real) \<Rightarrow> real \<Rightarrow> c_float \<Rightarrow> real" where
  "token_weight rnd max_score s = exp (rnd (fin_val s - max_score))"

text \<open>A positive weight divided by zero: the CPU's exponential is \<open>0.0\<close>, the one of the GPU layout \<open>-0.0\<close>.\<close>

definition rank_of :: "c_float \<Rightarrow> real \<Rightarrow> real \<Rightarrow> c_float" where
  "rank_of at_zero weight e = (if e = 0 then at_zero else Finite (weight / e))"

text \<open>The best rank so far and its token.\<close>

definition better :: "nat \<times> c_float \<Rightarrow> c_float \<times> nat option \<Rightarrow> c_float \<times> nat option" where
  "better cand best = (case cand of (token, rank) \<Rightarrow> if fl_less (fst best) rank then (rank, Some token) else best)"

fun cpu_loop :: "(real \<Rightarrow> real) \<Rightarrow> real \<Rightarrow> nat \<Rightarrow> c_float list \<Rightarrow> mt19937 \<Rightarrow> c_float \<times> nat option \<Rightarrow> c_float \<times> nat option" where
  "cpu_loop rnd max_score token [] g best = best"
| "cpu_loop rnd max_score token (s # scores) g best =
     (let (e, g1) = torch_cpu_exponential_float rnd g in
      cpu_loop rnd max_score (token + 1) scores g1
        (if \<not> is_finite s then best else better (token, rank_of Pos_Inf (token_weight rnd max_score s) e) best))"

definition sample_torch_cpu_multinomial ::
  "(real \<Rightarrow> real) \<Rightarrow> c_float list \<Rightarrow> 64 word \<Rightarrow> 64 word \<Rightarrow> sampler_error + nat" where
  "sample_torch_cpu_multinomial rnd scores seed call_index =
     (let g = mt_discard (unat (call_index * word_of_nat (length scores) * 2)) (mt_init seed) in
      case max_finite scores of
        None \<Rightarrow> Inl No_Finite_Logits
      | Some max_score \<Rightarrow>
          (case snd (cpu_loop rnd max_score 0 scores g (Neg_Inf, None)) of None \<Rightarrow> Inl Cpu_Selects_None | Some t \<Rightarrow> Inr t))"

subsection \<open>The processors\<close>

record hf_options =
  do_sample :: bool
  temperature :: c_float
  top_k :: int
  top_p :: c_float
  min_tokens_to_keep :: int
  repetition_penalty :: c_float

record hf_scratch =
  candidates :: "nat list"
  weights :: "real list"
  seen :: "32 word list"
  seen_generation :: "32 word"
  probabilities_ready :: bool
  probabilities_scores :: "nat option \<times> nat"

definition not_ready :: "hf_scratch \<Rightarrow> hf_scratch" where
  "not_ready sc = sc\<lparr>probabilities_ready := False, probabilities_scores := (None, 0)\<rparr>"

definition reset_vocab :: "nat \<Rightarrow> hf_scratch \<Rightarrow> hf_scratch" where
  "reset_vocab vocab_size sc0 =
     (let sc = not_ready (sc0\<lparr>candidates := [], weights := []\<rparr>) in
      if length (seen sc) \<noteq> vocab_size then sc\<lparr>seen := replicate vocab_size 0, seen_generation := 1\<rparr>
      else if seen_generation sc = 0 then sc\<lparr>seen := map (\<lambda>_. 0) (seen sc), seen_generation := 1\<rparr>
      else sc)"

fun argmax_loop :: "c_float list \<Rightarrow> nat \<Rightarrow> nat \<Rightarrow> nat \<Rightarrow> nat" where
  "argmax_loop logits best index 0 = best"
| "argmax_loop logits best index (Suc n) =
     argmax_loop logits (if fl_less (logits ! best) (logits ! index) then index else best) (index + 1) n"

definition argmax :: "c_float list \<Rightarrow> sampler_error + nat" where
  "argmax logits = (if logits = [] then Inl Empty_Logits else Inr (argmax_loop logits 0 1 (length logits - 1)))"

definition penalise :: "(real \<Rightarrow> real) \<Rightarrow> c_float \<Rightarrow> c_float \<Rightarrow> c_float" where
  "penalise rnd penalty s =
     (if fl_less s (Finite 0) then fl_map (\<lambda>x. rnd (x * fin_val penalty)) s else fl_map (\<lambda>x. rnd (x / fin_val penalty)) s)"

definition penalty_step :: "(real \<Rightarrow> real) \<Rightarrow> c_float \<Rightarrow> 32 word \<Rightarrow> int \<Rightarrow> c_float list \<times> 32 word list \<Rightarrow> c_float list \<times> 32 word list" where
  "penalty_step rnd penalty generation token = (\<lambda>(scores, marks).
     if token < 0 \<or> nat token \<ge> length scores then (scores, marks)
     else if marks ! nat token = generation then (scores, marks)
     else (scores[nat token := penalise rnd penalty (scores ! nat token)], marks[nat token := generation]))"

definition apply_repetition_penalty ::
  "(real \<Rightarrow> real) \<Rightarrow> c_float list \<Rightarrow> int list \<Rightarrow> c_float \<Rightarrow> hf_scratch \<Rightarrow> sampler_error + c_float list \<times> hf_scratch" where
  "apply_repetition_penalty rnd scores history penalty sc0 =
     (if penalty = Finite 1 \<or> history = [] then Inr (scores, sc0)
      else if \<not> fl_less (Finite 0) penalty \<or> \<not> is_finite penalty then Inl Penalty_Invalid
      else let sc1 = reset_vocab (length scores) sc0;
               generation = seen_generation sc1;
               (scores', marks) = fold (penalty_step rnd penalty generation) history (scores, seen sc1)
           in Inr (scores', not_ready (sc1\<lparr>seen_generation := generation + 1, seen := marks\<rparr>)))"

text \<open>
  \<^verbatim>\<open>std::nth_element\<close> puts an element in place before which there are no smaller ones in the order given: its score is
  the one above which fewer than \<open>keep\<close> scores lie. With a NaN the comparison is no order and the call undefined.
  The order it leaves the other candidates in is not read by anything.
\<close>

definition kth_score :: "c_float list \<Rightarrow> nat \<Rightarrow> c_float option" where
  "kth_score scores keep =
     List.find (\<lambda>s. length (filter (fl_less s) scores) < keep \<and> keep \<le> length (filter (\<lambda>x. \<not> fl_less x s) scores)) scores"

definition apply_top_k :: "c_float list \<Rightarrow> int \<Rightarrow> int \<Rightarrow> hf_scratch \<Rightarrow> sampler_error + c_float list \<times> hf_scratch" where
  "apply_top_k scores k min_keep sc =
     (if min_keep \<le> 0 then Inl Min_Keep_Invalid
      else if k \<le> 0 \<or> scores = [] then Inr (scores, sc)
      else let keep = min (int (length scores)) (max k min_keep) in
           if keep \<ge> int (length scores) then Inr (scores, sc)
           else if NaN \<in> set scores then Inl Undefined_Order
           else case kth_score scores (nat keep) of
             None \<Rightarrow> Inl Undefined_Order
           | Some threshold \<Rightarrow>
               Inr (map (\<lambda>s. if fl_less s threshold then Neg_Inf else s) scores, not_ready (sc\<lparr>candidates := [0..<length scores]\<rparr>)))"

fun nucleus_loop ::
  "real \<Rightarrow> nat \<Rightarrow> real \<Rightarrow> nat \<Rightarrow> real \<Rightarrow> (nat \<times> real) list \<Rightarrow> c_float list \<Rightarrow> c_float list \<times> (nat \<times> real) list" where
  "nucleus_loop remove_mass protected_from total_weight index cumulative [] scores = (scores, [])"
| "nucleus_loop remove_mass protected_from total_weight index cumulative ((token, w) # rest) scores =
     (let c = cumulative + w / total_weight in
      if index < protected_from \<and> c \<le> remove_mass
      then nucleus_loop remove_mass protected_from total_weight (index + 1) c rest (scores[token := Neg_Inf])
      else let (scores', kept) = nucleus_loop remove_mass protected_from total_weight (index + 1) c rest scores
           in (scores', (token, w) # kept))"

definition apply_top_p :: "(real \<Rightarrow> real) \<Rightarrow> nat \<Rightarrow> c_float list \<Rightarrow> c_float \<Rightarrow> int \<Rightarrow> hf_scratch \<Rightarrow> sampler_error + c_float list \<times> hf_scratch" where
  "apply_top_p rnd addr scores p min_keep sc =
     (if min_keep \<le> 0 then Inl Min_Keep_Invalid
      else if \<not> fl_less p (Finite 1) then Inr (scores, sc)
      else if fl_less p (Finite 0) \<or> \<not> is_finite p then Inl Top_P_Invalid
      else if scores = [] then Inr (scores, sc)
      else let order = sort_key (\<lambda>i. (fin_val (scores ! i), i)) (filter (\<lambda>i. is_finite (scores ! i)) [0..<length scores]) in
           if order = [] then Inr (scores, sc\<lparr>candidates := []\<rparr>)
           else let max_score = fin_val (scores ! last order);
                    ws = map (\<lambda>i. token_weight rnd max_score (scores ! i)) order;
                    total_weight = sum_list ws
                in if \<not> total_weight > 0 then Inl Mass_Invalid
                   else let protected_from = length order - min (nat min_keep) (length order);
                            (scores', kept) = nucleus_loop (1 - fin_val p) protected_from total_weight 0 0 (zip order ws) scores
                        in Inr (scores', sc\<lparr>candidates := map fst kept, weights := map snd kept, probabilities_ready := True,
                                            probabilities_scores := (Some addr, length scores)\<rparr>))"

definition apply_temperature :: "(real \<Rightarrow> real) \<Rightarrow> c_float list \<Rightarrow> c_float \<Rightarrow> sampler_error + c_float list" where
  "apply_temperature rnd scores t =
     (if \<not> fl_less (Finite 0) t \<or> \<not> is_finite t then Inl Temperature_Invalid
      else if t = Finite 1 then Inr scores
      else Inr (map (fl_map (\<lambda>x. rnd (x / fin_val t))) scores))"

definition build_candidates :: "(real \<Rightarrow> real) \<Rightarrow> nat \<Rightarrow> c_float list \<Rightarrow> hf_scratch \<Rightarrow> sampler_error + hf_scratch" where
  "build_candidates rnd addr scores sc =
     (case max_finite scores of
        None \<Rightarrow> Inl No_Finite_Logits
      | Some max_score \<Rightarrow>
          let cs = filter (\<lambda>i. is_finite (scores ! i)) [0..<length scores]
          in Inr (sc\<lparr>candidates := cs, weights := map (\<lambda>i. token_weight rnd max_score (scores ! i)) cs,
                     probabilities_ready := True, probabilities_scores := (Some addr, length scores)\<rparr>))"

subsection \<open>The sampler\<close>

record torch_sampling_state =
  ts_policy :: "sampling_policy option"
  ts_seed :: "64 word"
  ts_call_index :: "64 word"
  ts_offset_blocks :: "64 word"
  ts_use_offset_blocks :: bool

definition cuda_exponential :: "(real \<Rightarrow> real) \<Rightarrow> torch_sampling_state \<Rightarrow> sampling_policy \<Rightarrow> nat \<Rightarrow> nat \<Rightarrow> torch_error + real" where
  "cuda_exponential rnd ts p n token =
     (if ts_use_offset_blocks ts
      then exponential_element_at_offset rnd (ts_seed ts) (word_of_nat n) (word_of_nat token) (ts_offset_blocks ts) p
      else exponential_element rnd (ts_seed ts) (word_of_nat n) (word_of_nat token) (ts_call_index ts) p)"

fun cuda_loop :: "(nat \<Rightarrow> torch_error + real) \<Rightarrow> (nat \<times> real) list \<Rightarrow> c_float \<times> nat option \<Rightarrow> sampler_error + c_float \<times> nat option" where
  "cuda_loop draw [] best = Inr best"
| "cuda_loop draw ((token, w) # rest) best =
     (case draw token of
        Inl e \<Rightarrow> Inl (Torch_Failed e)
      | Inr e \<Rightarrow> cuda_loop draw rest (better (token, rank_of Neg_Inf w e) best))"

definition sample_from_processed_scores ::
  "(real \<Rightarrow> real) \<Rightarrow> (real list \<Rightarrow> nat) \<Rightarrow> nat \<Rightarrow> c_float list \<Rightarrow> hf_scratch \<Rightarrow> torch_sampling_state option \<Rightarrow> bool \<Rightarrow> sampler_error + nat \<times> hf_scratch" where
  "sample_from_processed_scores rnd pick addr scores sc torch use_ready =
     (let matches = use_ready \<and> probabilities_ready sc \<and> probabilities_scores sc = (Some addr, length scores);
          from_candidates = (\<lambda>k. bind_sum (build_candidates rnd addr scores sc) k)
      in case torch of
           Some ts \<Rightarrow>
             (case ts_policy ts of
                Some p \<Rightarrow>
                  if cuda_fast_path p
                  then bind_sum (if matches then Inr sc else build_candidates rnd addr scores sc) (\<lambda>sc1.
                       bind_sum (cuda_loop (cuda_exponential rnd ts p (length scores)) (zip (candidates sc1) (weights sc1)) (Neg_Inf, None)) (\<lambda>best.
                         case snd best of None \<Rightarrow> Inl Cuda_Selects_None | Some t \<Rightarrow> Inr (t, sc1)))
                  else bind_sum (sample_torch_cpu_multinomial rnd scores (ts_seed ts) (ts_call_index ts)) (\<lambda>t. Inr (t, sc))
              | None \<Rightarrow> bind_sum (sample_torch_cpu_multinomial rnd scores (ts_seed ts) (ts_call_index ts)) (\<lambda>t. Inr (t, sc)))
         | None \<Rightarrow> from_candidates (\<lambda>sc1. Inr (candidates sc1 ! pick (weights sc1), sc1)))"

text \<open>The scores of the scratch object are at address 0, those of the caller elsewhere.\<close>

definition hf_sample ::
  "(real \<Rightarrow> real) \<Rightarrow> (real list \<Rightarrow> nat) \<Rightarrow> c_float list \<Rightarrow> int list \<Rightarrow> hf_options \<Rightarrow> hf_scratch \<Rightarrow> torch_sampling_state option \<Rightarrow>
   sampler_error + nat \<times> hf_scratch" where
  "hf_sample rnd pick logits history opts sc torch =
     (if logits = [] then Inl Empty_Logits
      else let needs_penalty = repetition_penalty opts \<noteq> Finite 1 \<and> history \<noteq> [];
               needs_processors = do_sample opts \<and> (temperature opts \<noteq> Finite 1 \<or> top_k opts > 0 \<or> fl_less (top_p opts) (Finite 1))
           in if \<not> needs_penalty \<and> \<not> needs_processors
              then (if \<not> do_sample opts then bind_sum (argmax logits) (\<lambda>t. Inr (t, sc))
                    else sample_from_processed_scores rnd pick 1 logits (sc\<lparr>probabilities_ready := False\<rparr>) torch False)
              else bind_sum (apply_repetition_penalty rnd logits history (repetition_penalty opts) (sc\<lparr>probabilities_ready := False\<rparr>)) (\<lambda>(s1, sc1).
                   if \<not> do_sample opts then bind_sum (argmax s1) (\<lambda>t. Inr (t, sc1))
                   else bind_sum (apply_temperature rnd s1 (temperature opts)) (\<lambda>s2.
                        bind_sum (apply_top_k s2 (top_k opts) (min_tokens_to_keep opts) sc1) (\<lambda>(s3, sc3).
                        bind_sum (apply_top_p rnd 0 s3 (top_p opts) (min_tokens_to_keep opts) sc3) (\<lambda>(s4, sc4).
                          sample_from_processed_scores rnd pick 0 s4 sc4 torch True)))))"

subsection \<open>The penalty is applied once\<close>

text \<open>No mark is ahead of the counter, or the counter has wrapped and the next use clears the marks.\<close>

definition scratch_ok :: "hf_scratch \<Rightarrow> bool" where
  "scratch_ok sc \<longleftrightarrow> seen_generation sc = 0 \<or> (\<forall>g\<in>set (seen sc). g < seen_generation sc)"

definition penalised :: "(real \<Rightarrow> real) \<Rightarrow> c_float list \<Rightarrow> int list \<Rightarrow> c_float \<Rightarrow> c_float list" where
  "penalised rnd scores history penalty =
     (if penalty = Finite 1 then scores
      else map (\<lambda>i. if int i \<in> set history then penalise rnd penalty (scores ! i) else scores ! i) [0..<length scores])"

lemma penalty_fold:
  assumes "length marks = length scores" "\<forall>g\<in>set marks. g \<noteq> generation"
    "fold (penalty_step rnd penalty generation) history (scores, marks) = (scores', marks')"
  shows "length scores' = length scores \<and> length marks' = length scores \<and>
    (\<forall>i < length scores. scores' ! i = (if int i \<in> set history then penalise rnd penalty (scores ! i) else scores ! i) \<and>
       marks' ! i = (if int i \<in> set history then generation else marks ! i))"
  using assms(3)
proof (induction history arbitrary: scores' marks' rule: rev_induct)
  case Nil
  then show ?case using assms(1) by auto
next
  case (snoc h hs)
  obtain s1 m1 where f: "fold (penalty_step rnd penalty generation) hs (scores, marks) = (s1, m1)" by fastforce
  note ih = snoc.IH [OF f]
  have step: "(scores', marks') = penalty_step rnd penalty generation h (s1, m1)" using snoc.prems f by simp
  show ?case
  proof (cases "h < 0 \<or> nat h \<ge> length scores")
    case True
    then have "(scores', marks') = (s1, m1)" using step ih by (auto simp: penalty_step_def)
    with ih True show ?thesis by auto
  next
    case False
    then have h: "nat h < length scores" "int (nat h) = h" by auto
    have "m1 ! nat h = generation \<longleftrightarrow> h \<in> set hs" using ih h assms(1,2) by (metis nth_mem)
    with step ih False h show ?thesis
      by (cases "h \<in> set hs") (auto simp: penalty_step_def nth_list_update)
  qed
qed

lemma reset_vocab_ok:
  assumes "scratch_ok sc"
  shows "length (seen (reset_vocab n sc)) = n \<and> (\<forall>g\<in>set (seen (reset_vocab n sc)). g < seen_generation (reset_vocab n sc))"
  using assms by (auto simp: reset_vocab_def not_ready_def scratch_ok_def Let_def)

lemma apply_repetition_penalty_ok:
  assumes "scratch_ok sc" "fl_less (Finite 0) penalty" "is_finite penalty"
  shows "\<exists>sc'. apply_repetition_penalty rnd scores history penalty sc = Inr (penalised rnd scores history penalty, sc') \<and> scratch_ok sc' \<and>
    (probabilities_ready sc' \<longrightarrow> probabilities_ready sc)"
proof (cases "penalty = Finite 1 \<or> history = []")
  case True
  then have "penalised rnd scores history penalty = scores" by (auto simp: penalised_def map_nth)
  with True assms(1) show ?thesis by (auto simp: apply_repetition_penalty_def)
next
  case False
  let ?sc = "reset_vocab (length scores) sc" and ?g = "seen_generation (reset_vocab (length scores) sc)"
  note r = reset_vocab_ok [OF assms(1), of "length scores"]
  obtain s' m' where f: "fold (penalty_step rnd penalty ?g) history (scores, seen ?sc) = (s', m')" by fastforce
  have ne: "\<forall>g\<in>set (seen ?sc). g \<noteq> ?g" using r by auto
  have p: "length s' = length scores" "length m' = length scores"
    "\<forall>i < length scores. s' ! i = (if int i \<in> set history then penalise rnd penalty (scores ! i) else scores ! i)"
    "\<forall>i < length scores. m' ! i = (if int i \<in> set history then ?g else seen ?sc ! i)"
    using penalty_fold [OF _ ne f] r by simp_all
  have "s' = penalised rnd scores history penalty" using p(1,3) False by (intro nth_equalityI) (auto simp: penalised_def)
  moreover have "scratch_ok (not_ready (?sc\<lparr>seen_generation := ?g + 1, seen := m'\<rparr>))"
  proof (cases "?g + 1 = 0")
    case no_wrap: False
    have "x < ?g + 1" if "x \<in> set m'" for x
    proof -
      from that obtain i where i: "i < length scores" "x = m' ! i" unfolding in_set_conv_nth p(2) by blast
      then have "x \<le> ?g" using p(4) r by (auto simp: less_imp_le)
      moreover have "unat (?g + 1) = unat ?g + 1" using no_wrap unatSuc [of ?g] by (simp add: add.commute)
      ultimately show ?thesis by (simp add: word_less_nat_alt word_le_nat_alt)
    qed
    then show ?thesis by (simp add: scratch_ok_def not_ready_def)
  qed (simp add: scratch_ok_def not_ready_def)
  ultimately show ?thesis using f False assms(2,3) by (auto simp: apply_repetition_penalty_def Let_def not_ready_def)
qed

subsection \<open>Top-k keeps the best\<close>

lemma length_filter_mono: "(\<And>x. x \<in> set xs \<Longrightarrow> P x \<Longrightarrow> Q x) \<Longrightarrow> length (filter P xs) \<le> length (filter Q xs)"
  by (induction xs) auto

text \<open>Scores without NaN are ordered like reals.\<close>

fun fl_key :: "c_float \<Rightarrow> real" where
  "fl_key (Finite x) = arctan x"
| "fl_key (Infinite neg) = (if neg then - 2 else 2)"
| "fl_key NaN = 0"

lemma fl_less_key: "a \<noteq> NaN \<Longrightarrow> b \<noteq> NaN \<Longrightarrow> fl_less a b \<longleftrightarrow> fl_key a < fl_key b"
proof -
  have "- 2 < arctan x" "arctan x < 2" for x :: real using arctan_bounded [of x] pi_less_4 by linarith+
  then show "a \<noteq> NaN \<Longrightarrow> b \<noteq> NaN \<Longrightarrow> fl_less a b \<longleftrightarrow> fl_key a < fl_key b"
    by (cases a; cases b) (auto simp: not_less arctan_less_iff intro: less_imp_le)
qed

definition n_above :: "c_float list \<Rightarrow> c_float \<Rightarrow> nat" where
  "n_above scores s = length (filter (fl_less s) scores)"

lemma n_above_mono:
  assumes "NaN \<notin> set scores" "s \<noteq> NaN" "t \<noteq> NaN"
  shows "\<not> fl_less s t \<Longrightarrow> n_above scores s \<le> n_above scores t"
    "fl_less s t \<Longrightarrow> length (filter (\<lambda>x. \<not> fl_less x t) scores) \<le> n_above scores s"
proof -
  have k: "fl_less a b \<longleftrightarrow> fl_key a < fl_key b" if "a \<in> insert s (insert t (set scores))" "b \<in> insert s (insert t (set scores))" for a b
    using that assms by (intro fl_less_key) auto
  show "\<not> fl_less s t \<Longrightarrow> n_above scores s \<le> n_above scores t"
    unfolding n_above_def by (rule length_filter_mono) (auto simp: k)
  show "fl_less s t \<Longrightarrow> length (filter (\<lambda>x. \<not> fl_less x t) scores) \<le> n_above scores s"
    unfolding n_above_def by (rule length_filter_mono) (auto simp: k)
qed

lemma greatest_by:
  fixes f :: "'a \<Rightarrow> real"
  assumes "finite A" "A \<noteq> {}"
  shows "\<exists>x\<in>A. \<forall>y\<in>A. f y \<le> f x"
proof -
  have "Max (f ` A) \<in> f ` A" using assms by (intro Max_in) auto
  then obtain x where "x \<in> A" "f x = Max (f ` A)" by auto
  with assms(1) show ?thesis by (intro bexI [of _ x]) auto
qed

lemma kth_score_exists:
  assumes "NaN \<notin> set scores" "0 < keep" "keep \<le> length scores"
  shows "\<exists>s\<in>set scores. n_above scores s < keep \<and> keep \<le> length (filter (\<lambda>x. \<not> fl_less x s) scores)"
proof -
  have k: "fl_less a b \<longleftrightarrow> fl_key a < fl_key b" if "a \<in> set scores" "b \<in> set scores" for a b
    using that assms(1) by (intro fl_less_key) auto
  let ?A = "{s \<in> set scores. n_above scores s < keep}"
  have ne: "set scores \<noteq> {}" using assms by auto
  obtain top where top: "top \<in> set scores" "\<forall>x\<in>set scores. fl_key x \<le> fl_key top"
    using greatest_by [OF _ ne, of fl_key] by auto
  have "n_above scores top = 0" using top k by (auto simp: n_above_def filter_empty_conv not_less)
  with top(1) assms(2) have "?A \<noteq> {}" by auto
  moreover have "finite ?A" by simp
  ultimately obtain s where s: "s \<in> ?A" "\<forall>x\<in>?A. fl_key s \<le> fl_key x"
    using greatest_by [of ?A "\<lambda>x. - fl_key x"] by auto
  have "keep \<le> length (filter (\<lambda>x. \<not> fl_less x s) scores)"
  proof (rule ccontr)
    assume "\<not> keep \<le> length (filter (\<lambda>x. \<not> fl_less x s) scores)"
    then have few: "length (filter (\<lambda>x. \<not> fl_less x s) scores) < keep" by simp
    let ?B = "{x \<in> set scores. fl_less x s}"
    have "?B \<noteq> {}"
    proof
      assume "?B = {}"
      then have "filter (\<lambda>x. \<not> fl_less x s) scores = scores" by (auto simp: filter_id_conv)
      with few assms(3) show False by simp
    qed
    moreover have "finite ?B" by simp
    ultimately obtain x where x: "x \<in> ?B" "\<forall>y\<in>?B. fl_key y \<le> fl_key x"
      using greatest_by [of ?B fl_key] by blast
    have "n_above scores x \<le> length (filter (\<lambda>x. \<not> fl_less x s) scores)"
    proof -
      have "\<not> fl_less y s" if "y \<in> set scores" "fl_less x y" for y
      proof
        assume "fl_less y s"
        with that(1) x(2) have "fl_key y \<le> fl_key x" by simp
        with that k x(1) show False by auto
      qed
      then show ?thesis unfolding n_above_def by (intro length_filter_mono) blast
    qed
    with few x(1) have "x \<in> ?A" by simp
    with s x(1) k [of x s] show False by auto
  qed
  with s(1) show ?thesis by blast
qed

text \<open>The filter as a function of the scores alone: a score stays if fewer than \<open>keep\<close> are above it.\<close>

definition best_k :: "c_float list \<Rightarrow> int \<Rightarrow> int \<Rightarrow> c_float list" where
  "best_k scores k min_keep =
     (if k \<le> 0 then scores else map (\<lambda>s. if int (n_above scores s) < max k min_keep then s else Neg_Inf) scores)"

lemma n_above_less: "s \<in> set scores \<Longrightarrow> n_above scores s < length scores"
proof -
  assume "s \<in> set scores"
  moreover have "\<not> fl_less s s" by (cases s) auto
  ultimately show ?thesis unfolding n_above_def by (rule length_filter_less)
qed

lemma apply_top_k_ok:
  assumes "NaN \<notin> set scores" "0 < min_keep" "scratch_ok sc"
  shows "\<exists>sc'. apply_top_k scores k min_keep sc = Inr (best_k scores k min_keep, sc') \<and> scratch_ok sc' \<and>
    (probabilities_ready sc' \<longrightarrow> probabilities_ready sc)"
proof (cases "k \<le> 0 \<or> scores = [] \<or> max k min_keep \<ge> int (length scores)")
  case True
  have "best_k scores k min_keep = scores"
  proof (cases "k \<le> 0 \<or> scores = []")
    case False
    then have "\<forall>s\<in>set scores. int (n_above scores s) < max k min_keep"
      using True n_above_less [of _ scores] by (fastforce simp: less_imp_of_nat_less)
    then show ?thesis by (auto simp: best_k_def intro: map_idI)
  qed (auto simp: best_k_def)
  with True assms show ?thesis by (auto simp: apply_top_k_def Let_def)
next
  case False
  let ?keep = "nat (max k min_keep)"
  have keep: "min (int (length scores)) (max k min_keep) = max k min_keep" "0 < ?keep" "?keep \<le> length scores" "int ?keep = max k min_keep"
    using False by auto
  obtain t where t: "kth_score scores ?keep = Some t"
    using kth_score_exists [OF assms(1) keep(2,3)] unfolding kth_score_def n_above_def [symmetric]
    by (cases "List.find (\<lambda>s. n_above scores s < ?keep \<and> ?keep \<le> length (filter (\<lambda>x. \<not> fl_less x s) scores)) scores")
      (auto simp: find_None_iff)
  then have tp: "t \<in> set scores" "n_above scores t < ?keep" "?keep \<le> length (filter (\<lambda>x. \<not> fl_less x t) scores)"
    by (auto simp: kth_score_def find_Some_iff n_above_def)
  have "fl_less s t \<longleftrightarrow> \<not> int (n_above scores s) < max k min_keep" if "s \<in> set scores" for s
  proof -
    have ne: "s \<noteq> NaN" "t \<noteq> NaN" using that tp(1) assms(1) by auto
    have "n_above scores s < ?keep" if "\<not> fl_less s t" using n_above_mono(1) [OF assms(1) ne that] tp(2) by simp
    moreover have "?keep \<le> n_above scores s" if "fl_less s t" using n_above_mono(2) [OF assms(1) ne that] tp(3) by simp
    moreover have "int (n_above scores s) < max k min_keep \<longleftrightarrow> n_above scores s < ?keep" by linarith
    ultimately show ?thesis by (auto simp: not_less)
  qed
  then have "map (\<lambda>s. if fl_less s t then Neg_Inf else s) scores = best_k scores k min_keep"
    using False by (auto simp: best_k_def)
  with False t assms keep(1) show ?thesis
    by (auto simp: apply_top_k_def Let_def not_ready_def scratch_ok_def)
qed

subsection \<open>The twister is one stream\<close>

text \<open>The sequence of words of a seed by its recurrence; the generator keeps 624 of them in place.\<close>

function mt_word :: "64 word \<Rightarrow> nat \<Rightarrow> 32 word" where
  "mt_word seed n =
     (if n = 0 then ucast (seed AND 0xffffffff)
      else if n < kStateN then init_step (mt_word seed (n - 1)) n
      else mt_word seed (n - (kStateN - kStateM)) XOR twist (mt_word seed (n - kStateN)) (mt_word seed (n - kStateN + 1)))"
  by pat_completeness auto
termination by (relation "measure snd") (auto simp: kStateN_def kStateM_def)

declare mt_word.simps [simp del]

lemma mt_word_rec:
  "mt_word seed (n + 624) = mt_word seed (n + 397) XOR twist (mt_word seed n) (mt_word seed (n + 1))"
  by (subst mt_word.simps) (simp add: kStateN_def kStateM_def add.commute)

text \<open>The first \<open>p\<close> places are those of the next round.\<close>

definition mixed :: "64 word \<Rightarrow> nat \<Rightarrow> nat \<Rightarrow> 32 word list \<Rightarrow> bool" where
  "mixed seed b p st \<longleftrightarrow> length st = 624 \<and> (\<forall>i < 624. st ! i = mt_word seed (b + i + (if i < p then 624 else 0)))"

lemma mixed_step: "mixed seed b p st \<Longrightarrow> p < 624 \<Longrightarrow> w = mt_word seed (b + p + 624) \<Longrightarrow> mixed seed b (Suc p) (st[p := w])"
  by (auto simp: mixed_def nth_list_update less_Suc_eq)

lemma mixed_fold:
  assumes "mixed seed b a st" "a \<le> c" "c \<le> 624"
    "\<And>p st. a \<le> p \<Longrightarrow> p < c \<Longrightarrow> mixed seed b p st \<Longrightarrow> f p st = mt_word seed (b + p + 624)"
  shows "mixed seed b c (fold (\<lambda>p st. st[p := f p st]) [a..<c] st)"
  using assms(2,3,4)
proof (induction c rule: dec_induct)
  case base
  then show ?case using assms(1) by simp
next
  case (step c)
  then have "mixed seed b c (fold (\<lambda>p st. st[p := f p st]) [a..<c] st)" by simp
  from mixed_step [OF this, of "f c (fold (\<lambda>p st. st[p := f p st]) [a..<c] st)"] this step show ?case by simp
qed

lemma mixed_round: "mixed seed b 624 st \<longleftrightarrow> mixed seed (b + 624) 0 st"
  by (simp add: mixed_def ac_simps)

lemma next_state_round:
  assumes "mixed seed b 0 (mt_state g)"
  shows "mixed seed (b + 624) 0 (mt_state (next_state g)) \<and> mt_left (next_state g) = 624 \<and> mt_next (next_state g) = 0"
proof -
  let ?f1 = "\<lambda>p st. st ! (p + 397) XOR twist (st ! p) (st ! (p + 1))"
  let ?f2 = "\<lambda>p st. st ! (p + 397 - 624) XOR twist (st ! p) (st ! (p + 1))"
  define st1 where "st1 = fold (\<lambda>p st. st[p := ?f1 p st]) [0..<227] (mt_state g)"
  define st2 where "st2 = fold (\<lambda>p st. st[p := ?f2 p st]) [227..<623] st1"
  have rec: "mt_word seed (b + p + 624) = mt_word seed (b + p + 397) XOR twist (mt_word seed (b + p)) (mt_word seed (b + p + 1))" for p
    by (rule mt_word_rec)
  have "mixed seed b 227 st1"
    unfolding st1_def
  proof (rule mixed_fold [OF assms])
    fix p :: nat and st assume p: "p < 227" "mixed seed b p st"
    then have "st ! (p + 397) = mt_word seed (b + p + 397)" "st ! p = mt_word seed (b + p)" "st ! (p + 1) = mt_word seed (b + p + 1)"
      by (simp_all add: mixed_def add.assoc)
    then show "?f1 p st = mt_word seed (b + p + 624)" unfolding rec by simp
  qed simp_all
  then have "mixed seed b 623 st2"
    unfolding st2_def
  proof (rule mixed_fold)
    fix p :: nat and st assume p: "227 \<le> p" "p < 623" "mixed seed b p st"
    have e: "b + (p + 397 - 624) + 624 = b + p + 397" using p by simp
    have "st ! (p + 397 - 624) = mt_word seed (b + (p + 397 - 624) + 624)" using p by (simp add: mixed_def)
    moreover have "st ! p = mt_word seed (b + p)" "st ! (p + 1) = mt_word seed (b + p + 1)" using p by (simp_all add: mixed_def)
    ultimately show "?f2 p st = mt_word seed (b + p + 624)" unfolding rec e by simp
  qed simp_all
  then have m: "mixed seed b 623 st2" .
  then have "st2 ! 396 = mt_word seed (b + 623 + 397)" "st2 ! 623 = mt_word seed (b + 623)" "st2 ! 0 = mt_word seed (b + 623 + 1)"
    using m by (simp_all add: mixed_def ac_simps)
  then have "st2 ! 396 XOR twist (st2 ! 623) (st2 ! 0) = mt_word seed (b + 623 + 624)" by (simp only: rec)
  from mixed_step [OF m _ this] have "mixed seed b 624 (st2[623 := st2 ! 396 XOR twist (st2 ! 623) (st2 ! 0)])" by simp
  moreover have "mt_state (next_state g) = st2[623 := st2 ! 396 XOR twist (st2 ! 623) (st2 ! 0)]"
    by (simp add: next_state_def Let_def kStateN_def kStateM_def st1_def st2_def del: upt_rec_numeral)
  moreover have "mt_left (next_state g) = 624" "mt_next (next_state g) = 0"
    by (simp_all add: next_state_def Let_def kStateN_def del: upt_rec_numeral)
  ultimately show ?thesis by (simp only: mixed_round simp_thms)
qed

text \<open>After \<open>k\<close> words have been drawn.\<close>

definition mt_at :: "64 word \<Rightarrow> nat \<Rightarrow> mt19937 \<Rightarrow> bool" where
  "mt_at seed k g \<longleftrightarrow>
     (if k = 0 then mt_left g = 1 \<and> mixed seed 0 0 (mt_state g)
      else mt_next g = (k - 1) mod 624 + 1 \<and> mt_left g + mt_next g = 625 \<and>
           mixed seed (((k - 1) div 624 + 1) * 624) 0 (mt_state g))"

lemma mt_init_at: "mt_at seed 0 (mt_init seed)"
proof -
  have "fold (\<lambda>index st. st @ [init_step (last st) index]) [1..<n] [ucast (seed AND 0xffffffff)] = map (mt_word seed) [0..<n]"
    if "1 \<le> n" "n \<le> 624" for n
    using that
  proof (induction n rule: dec_induct)
    case base
    then show ?case by (simp add: mt_word.simps)
  next
    case (step n)
    then have "last (map (mt_word seed) [0..<n]) = mt_word seed (n - 1)" by (simp add: last_map last_upt)
    with step show ?case by (simp add: mt_word.simps [of seed n] kStateN_def)
  qed
  from this [of 624] show ?thesis by (simp add: mt_at_def mt_init_def mixed_def kStateN_def)
qed

lemma mt_random_at:
  assumes "mt_at seed k g"
  shows "fst (mt_random g) = temper (mt_word seed (624 + k)) \<and> mt_at seed (Suc k) (snd (mt_random g))"
proof (cases "k mod 624 = 0")
  case True
  then obtain q where q: "k = q * 624" by (auto simp: mod_eq_0_iff_dvd)
  have "mt_left g - 1 = 0 \<and> mixed seed k 0 (mt_state g)"
  proof (cases "k = 0")
    case False
    then obtain r where r: "q = Suc r" using q by (cases q) auto
    then have "(k - 1) mod 624 = 623" "(k - 1) div 624 = r" using q by simp_all
    with assms False r q show ?thesis by (simp add: mt_at_def)
  qed (use assms in \<open>simp add: mt_at_def\<close>)
  then have left: "mt_left g - 1 = 0" and st: "mixed seed k 0 (mt_state g)" by simp_all
  note n = next_state_round [OF st]
  have "k div 624 = q" using q by simp
  with n left q show ?thesis
    by (simp add: mt_random_def Let_def mt_at_def) (simp add: mixed_def add.commute)
next
  case False
  then have k: "0 < k" by (cases k) auto
  obtain r where r: "k mod 624 = Suc r" using False by (cases "k mod 624") auto
  have "k - 1 = k div 624 * 624 + r" "r < 624" using r div_mult_mod_eq [of k 624] mod_less_divisor [of 624 k] by linarith+
  then have e: "(k - 1) mod 624 + 1 = k mod 624" "(k - 1) div 624 = k div 624" using r by simp_all
  have m: "k mod 624 < 624" by simp
  have g0: "mt_next g = k mod 624" "mt_left g + mt_next g = 625" "mixed seed ((k div 624 + 1) * 624) 0 (mt_state g)"
    using assms k e by (auto simp: mt_at_def)
  then have g: "mt_next g = k mod 624" "mt_left g = 625 - k mod 624" "mixed seed ((k div 624 + 1) * 624) 0 (mt_state g)"
    by linarith+
  have b: "(k div 624 + 1) * 624 + k mod 624 = 624 + k" by simp
  have "mt_state g ! (k mod 624) = mt_word seed ((k div 624 + 1) * 624 + k mod 624)" using g(3) m by (simp add: mixed_def)
  then have "mt_state g ! (k mod 624) = mt_word seed (624 + k)" unfolding b .
  moreover have "(624 \<le> k mod 624) = False" using m by simp
  ultimately show ?thesis using g by (simp add: mt_random_def Let_def mt_at_def)
qed

lemma mt_discard_at: "mt_at seed k g \<Longrightarrow> mt_at seed (k + n) (mt_discard n g)"
proof (induction n arbitrary: k g)
  case (Suc n)
  then show ?case using mt_random_at [OF Suc.prems] Suc.IH [of "Suc k"] by simp
qed simp

text \<open>The \<open>j\<close>-th exponential number of a seed.\<close>

definition cpu_draw :: "(real \<Rightarrow> real) \<Rightarrow> 64 word \<Rightarrow> nat \<Rightarrow> real" where
  "cpu_draw rnd seed j =
     exponential_of_bits rnd (push_bit 32 (ucast (temper (mt_word seed (624 + 2 * j)))) OR ucast (temper (mt_word seed (625 + 2 * j))))"

lemma exponential_at:
  assumes "mt_at seed (2 * j) g"
  shows "\<exists>g'. torch_cpu_exponential_float rnd g = (cpu_draw rnd seed j, g') \<and> mt_at seed (2 * Suc j) g'"
  using mt_random_at [OF assms] mt_random_at [OF conjunct2 [OF mt_random_at [OF assms]]]
  by (auto simp: torch_cpu_exponential_float_def mt_random64_def cpu_draw_def split: prod.splits)

lemma cpu_loop_draws:
  "mt_at seed (2 * j) g \<Longrightarrow>
   cpu_loop rnd m token scores g best =
     fold (\<lambda>i best. if is_finite (scores ! i) then better (token + i, rank_of Pos_Inf (token_weight rnd m (scores ! i)) (cpu_draw rnd seed (j + i))) best else best)
       [0..<length scores] best"
proof (induction scores arbitrary: j g token best)
  case (Cons s scores)
  obtain g' where g': "torch_cpu_exponential_float rnd g = (cpu_draw rnd seed j, g')" "mt_at seed (2 * Suc j) g'"
    using exponential_at [OF Cons.prems] by blast
  have "[0..<length (s # scores)] = 0 # map Suc [0..<length scores]" by (simp add: upt_conv_Cons map_Suc_upt del: upt_Suc)
  then show ?case using g'(1) Cons.IH [OF g'(2), of "token + 1"]
    by (simp add: fold_map comp_def del: upt_Suc cong: if_cong)
qed simp
subsection \<open>Top-p keeps the nucleus\<close>

definition finite_ids :: "c_float list \<Rightarrow> nat list" where
  "finite_ids s = filter (\<lambda>i. is_finite (s ! i)) [0..<length s]"

definition score_key :: "c_float list \<Rightarrow> nat \<Rightarrow> real \<times> nat" where
  "score_key s i = (fin_val (s ! i), i)"

definition weight_of :: "(real \<Rightarrow> real) \<Rightarrow> c_float list \<Rightarrow> nat \<Rightarrow> real" where
  "weight_of rnd s i = token_weight rnd (the (max_finite s)) (s ! i)"

text \<open>The tokens with a better score (of equal ones, the later), and the share of the mass they have.\<close>

definition better_tokens :: "c_float list \<Rightarrow> nat \<Rightarrow> nat set" where
  "better_tokens s t = {u \<in> set (finite_ids s). score_key s t < score_key s u}"

definition mass_above :: "(real \<Rightarrow> real) \<Rightarrow> c_float list \<Rightarrow> nat \<Rightarrow> real" where
  "mass_above rnd s t = (\<Sum>u\<in>better_tokens s t. weight_of rnd s u) / (\<Sum>u\<in>set (finite_ids s). weight_of rnd s u)"

definition nucleus :: "(real \<Rightarrow> real) \<Rightarrow> c_float list \<Rightarrow> c_float \<Rightarrow> int \<Rightarrow> c_float list" where
  "nucleus rnd s p min_keep =
     (if \<not> fl_less p (Finite 1) then s
      else map (\<lambda>t. if is_finite (s ! t) \<and> \<not> int (card (better_tokens s t)) < min_keep \<and> \<not> mass_above rnd s t < fin_val p
                    then Neg_Inf else s ! t) [0..<length s])"

lemma in_finite_ids: "i \<in> set (finite_ids s) \<longleftrightarrow> i < length s \<and> is_finite (s ! i)"
  by (auto simp: finite_ids_def)

lemma nucleus_all: "\<not> fl_less p (Finite 1) \<or> finite_ids s = [] \<Longrightarrow> nucleus rnd s p min_keep = s"
proof (cases "fl_less p (Finite 1)")
  case True
  assume "\<not> fl_less p (Finite 1) \<or> finite_ids s = []"
  with True have "\<not> is_finite (s ! i)" if "i < length s" for i using that in_finite_ids [of i s] by simp
  with True show ?thesis by (intro nth_equalityI) (auto simp: nucleus_def)
qed (simp add: nucleus_def)

lemma finite_nucleus:
  assumes "fl_less p (Finite 1)"
  shows "i \<in> set (finite_ids (nucleus rnd s p min_keep)) \<longleftrightarrow>
    i \<in> set (finite_ids s) \<and> (int (card (better_tokens s i)) < min_keep \<or> mass_above rnd s i < fin_val p)"
proof -
  have len: "length (nucleus rnd s p min_keep) = length s" by (simp add: nucleus_def)
  have "nucleus rnd s p min_keep ! i =
      (if is_finite (s ! i) \<and> \<not> int (card (better_tokens s i)) < min_keep \<and> \<not> mass_above rnd s i < fin_val p then Neg_Inf else s ! i)"
    if "i < length s"
    using that assms by (simp add: nucleus_def)
  then show ?thesis unfolding in_finite_ids len by (auto split: if_splits)
qed

lemma max_finite_Max: "max_finite s = (if finite_ids s = [] then None else Some (Max ((\<lambda>i. fin_val (s ! i)) ` set (finite_ids s))))"
proof -
  have "map fin_val (filter is_finite s) = map (\<lambda>i. fin_val (s ! i)) (finite_ids s)"
    unfolding finite_ids_def by (subst map_nth [symmetric, of s]) (simp add: filter_map comp_def del: map_nth)
  moreover have "fold max (tl xs) (hd xs) = Max (set xs)" if "xs \<noteq> []" for xs :: "real list"
    using that Max.set_eq_fold [of "hd xs" "tl xs"] by (simp del: Max.set_eq_fold)
  ultimately show ?thesis by (simp add: max_finite_def Let_def)
qed

definition removed :: "real \<Rightarrow> nat \<Rightarrow> real \<Rightarrow> nat \<Rightarrow> real \<Rightarrow> (nat \<times> real) list \<Rightarrow> nat \<Rightarrow> bool" where
  "removed rm pf tot idx cum ps j \<longleftrightarrow> idx + j < pf \<and> cum + sum_list (map snd (take (Suc j) ps)) / tot \<le> rm"

lemma removed_Cons:
  "removed rm pf tot idx cum ((token, w) # ps) 0 \<longleftrightarrow> idx < pf \<and> cum + w / tot \<le> rm"
  "removed rm pf tot idx cum ((token, w) # ps) (Suc j) \<longleftrightarrow> removed rm pf tot (idx + 1) (cum + w / tot) ps j"
  by (simp_all add: removed_def add_divide_distrib add.assoc)

lemma nucleus_loop_result:
  assumes "nucleus_loop rm pf tot idx cum ps s = (s', kept)"
  shows "length s' = length s \<and>
    (\<forall>i < length s. s' ! i = (if \<exists>j < length ps. fst (ps ! j) = i \<and> removed rm pf tot idx cum ps j then Neg_Inf else s ! i)) \<and>
    (\<forall>q. q \<in> set kept \<longleftrightarrow> (\<exists>j < length ps. q = ps ! j \<and> \<not> removed rm pf tot idx cum ps j))"
  using assms
proof (induction ps arbitrary: idx cum s s' kept)
  case (Cons q ps)
  obtain token w where q: "q = (token, w)" by fastforce
  show ?case
  proof (cases "idx < pf \<and> cum + w / tot \<le> rm")
    case True
    then have "nucleus_loop rm pf tot (idx + 1) (cum + w / tot) ps (s[token := Neg_Inf]) = (s', kept)"
      using Cons.prems by (simp add: q Let_def)
    from Cons.IH [OF this] True show ?thesis
      by (auto simp: q Ex_less_Suc2 removed_Cons nth_list_update)
  next
    case False
    then obtain rest where r: "nucleus_loop rm pf tot (idx + 1) (cum + w / tot) ps s = (s', rest)" "kept = q # rest"
      using Cons.prems by (auto simp: q Let_def split: prod.splits)
    from Cons.IH [OF r(1)] False show ?thesis unfolding r(2)
      by (auto simp: q Ex_less_Suc2 removed_Cons)
  qed
qed simp

lemma sort_key_Nil: "sort_key f xs = [] \<longleftrightarrow> xs = []"
  by (metis length_0_conv length_sort)

lemma drop_is_above:
  assumes "sorted_wrt (<) (map k xs)" "j < length xs"
  shows "set (drop (Suc j) xs) = {u \<in> set xs. (k (xs ! j) :: 'a :: linorder) < k u}"
proof -
  have lt: "k (xs ! a) < k (xs ! b)" if "a < b" "b < length xs" for a b
    using sorted_wrt_nth_less [OF assms(1), of a b] that by simp
  have "u \<in> set (drop (Suc j) xs)" if u: "u \<in> set xs" "k (xs ! j) < k u" for u
  proof -
    obtain i where i: "i < length xs" "u = xs ! i" using u(1) by (metis in_set_conv_nth)
    then have "j < i" using u(2) lt [of i j] assms(2) by (cases i j rule: linorder_cases) auto
    then have "drop (Suc j) xs ! (i - Suc j) = u" "i - Suc j < length (drop (Suc j) xs)" using i by simp_all
    then show ?thesis by (metis nth_mem)
  qed
  moreover have "k (xs ! j) < k u \<and> u \<in> set xs" if "u \<in> set (drop (Suc j) xs)" for u
  proof -
    from that obtain i where "i < length (drop (Suc j) xs)" "drop (Suc j) xs ! i = u" unfolding in_set_conv_nth by blast
    moreover have "u \<in> set xs" using that by (rule in_set_dropD)
    ultimately show ?thesis using lt [of j "Suc (j + i)"] by auto
  qed
  ultimately show ?thesis by blast
qed

lemma order_facts:
  fixes s :: "c_float list"
  defines "order \<equiv> sort_key (\<lambda>i. (fin_val (s ! i), i)) (finite_ids s)"
  shows "set order = set (finite_ids s)" "distinct order"
    "j < length order \<Longrightarrow> better_tokens s (order ! j) = set (drop (Suc j) order)"
    "order \<noteq> [] \<Longrightarrow> max_finite s = Some (fin_val (s ! last order))"
proof -
  show set: "set order = set (finite_ids s)" and dist: "distinct order"
    by (simp_all add: order_def finite_ids_def)
  have key: "score_key s = (\<lambda>i. (fin_val (s ! i), i))" by (simp add: score_key_def fun_eq_iff)
  have "sorted (map (score_key s) order)" unfolding key order_def by simp
  moreover have "distinct (map (score_key s) order)" using dist by (auto simp: distinct_map score_key_def inj_on_def)
  ultimately have strict: "sorted_wrt (<) (map (score_key s) order)" by (simp add: strict_sorted_iff)
  show "better_tokens s (order ! j) = set (drop (Suc j) order)" if "j < length order" for j
    using drop_is_above [OF strict that] set by (simp add: better_tokens_def)
  show "max_finite s = Some (fin_val (s ! last order))" if ne: "order \<noteq> []"
  proof -
    have "fin_val (s ! i) \<le> fin_val (s ! last order)" if "i \<in> set order" for i
    proof (cases "i = last order")
      case False
      then have "score_key s i < score_key s (last order)"
        using that ne strict by (cases order rule: rev_cases) (auto simp: sorted_wrt_append)
      then show ?thesis by (auto simp: score_key_def)
    qed simp
    then have "Max ((\<lambda>i. fin_val (s ! i)) ` set order) = fin_val (s ! last order)"
      using ne by (intro Max_eqI) auto
    then show ?thesis using ne set by (auto simp: max_finite_Max)
  qed
qed
text \<open>The candidates belong to these scores.\<close>

definition fresh :: "(real \<Rightarrow> real) \<Rightarrow> c_float list \<Rightarrow> hf_scratch \<Rightarrow> bool" where
  "fresh rnd s sc \<longleftrightarrow> set (candidates sc) = set (finite_ids s) \<and>
     weights sc = map (weight_of rnd s) (candidates sc)"

lemma weight_of_pos: "0 < weight_of rnd s i"
  by (simp add: weight_of_def token_weight_def)

lemma total_pos: "xs \<noteq> [] \<Longrightarrow> 0 < sum_list (map (weight_of rnd s) xs)"
  by (induction xs rule: list_nonempty_induct) (auto intro: add_pos_pos weight_of_pos)

text \<open>The tokens of a run over the sorted candidates that are removed are those outside the nucleus.\<close>

lemma removed_outside:
  fixes s :: "c_float list"
  defines "order \<equiv> sort_key (\<lambda>i. (fin_val (s ! i), i)) (finite_ids s)"
  assumes "j < length order" "0 < min_keep"
  shows "removed (1 - p) (length order - min (nat min_keep) (length order)) (sum_list (map (weight_of rnd s) order)) 0 0
      (zip order (map (weight_of rnd s) order)) j \<longleftrightarrow>
    \<not> int (card (better_tokens s (order ! j))) < min_keep \<and> \<not> mass_above rnd s (order ! j) < p"
proof -
  note ord = order_facts [where s = s, folded order_def]
  let ?w = "weight_of rnd s"
  let ?total = "sum_list (map ?w order)"
  have "map snd (take (Suc j) (zip order (map ?w order))) = map ?w (take (Suc j) order)"
    using assms(2) by (simp add: take_zip take_map)
  moreover have "?total = sum_list (map ?w (take (Suc j) order)) + sum_list (map ?w (drop (Suc j) order))"
    by (metis append_take_drop_id map_append sum_list_append)
  moreover have "sum_list (map ?w (drop (Suc j) order)) = (\<Sum>u\<in>better_tokens s (order ! j). ?w u)"
    unfolding ord(3) [OF assms(2)] using ord(2) by (simp add: sum_list_distinct_conv_sum_set)
  moreover have total: "?total = (\<Sum>u\<in>set (finite_ids s). ?w u)"
    using ord(1,2) by (simp add: sum_list_distinct_conv_sum_set)
  moreover have pos: "0 < ?total"
    by (rule total_pos) (use assms(2) in auto)
  ultimately have mass: "sum_list (map snd (take (Suc j) (zip order (map ?w order)))) / ?total = 1 - mass_above rnd s (order ! j)"
    by (simp add: mass_above_def field_simps)
  have "card (better_tokens s (order ! j)) = length order - Suc j"
    unfolding ord(3) [OF assms(2)] using ord(2) by (simp add: distinct_card)
  then have "j < length order - min (nat min_keep) (length order) \<longleftrightarrow> \<not> int (card (better_tokens s (order ! j))) < min_keep"
    using assms(2,3) by linarith
  then show ?thesis unfolding removed_def mass by auto
qed

lemma max_finite_nucleus:
  assumes "0 < min_keep"
  shows "max_finite (nucleus rnd s p min_keep) = max_finite s"
proof (cases "finite_ids s = [] \<or> \<not> fl_less p (Finite 1)")
  case True
  then show ?thesis using nucleus_all by metis
next
  case False
  let ?n = "nucleus rnd s p min_keep"
  define order where "order = sort_key (\<lambda>i. (fin_val (s ! i), i)) (finite_ids s)"
  note ord = order_facts [where s = s, folded order_def]
  have ne: "order \<noteq> []" using False by (simp add: order_def sort_key_Nil)
  let ?t = "last order"
  have t: "?t \<in> set (finite_ids s)" using ne ord(1) last_in_set by blast
  have "better_tokens s ?t = {}" using ord(3) [of "length order - 1"] ne by (simp add: last_conv_nth)
  then have keep: "?n ! ?t = s ! ?t" using t False assms by (simp add: nucleus_def in_finite_ids)
  have sub: "set (finite_ids ?n) \<subseteq> set (finite_ids s)" and same: "\<And>i. i \<in> set (finite_ids ?n) \<Longrightarrow> ?n ! i = s ! i"
    using False by (auto simp: in_finite_ids nucleus_def split: if_splits)
  have in_n: "?t \<in> set (finite_ids ?n)" using t keep False by (auto simp: in_finite_ids nucleus_def)
  have max: "fin_val (s ! i) \<le> fin_val (s ! ?t)" if "i \<in> set (finite_ids s)" for i
    using ord(4) [OF ne] that by (auto simp: max_finite_Max split: if_splits) (metis Max_ge List.finite_set finite_imageI image_eqI)
  have "Max ((\<lambda>i. fin_val (?n ! i)) ` set (finite_ids ?n)) = fin_val (s ! ?t)"
    using in_n keep sub same max by (intro Max_eqI) (auto simp: image_iff intro!: bexI [of _ ?t])
  then show ?thesis using in_n ord(4) [OF ne] by (auto simp: max_finite_Max)
qed

lemma apply_top_p_ok:
  assumes "0 < min_keep" "\<not> fl_less p (Finite 0)" "scratch_ok sc" "\<not> probabilities_ready sc"
  shows "\<exists>sc'. apply_top_p rnd addr s p min_keep sc = Inr (nucleus rnd s p min_keep, sc') \<and> scratch_ok sc' \<and>
    (probabilities_ready sc' \<longrightarrow> fresh rnd (nucleus rnd s p min_keep) sc')"
proof (cases "\<not> fl_less p (Finite 1) \<or> finite_ids s = []")
  case True
  then have "nucleus rnd s p min_keep = s" by (rule nucleus_all)
  moreover have "is_finite p" if "fl_less p (Finite 1)" using that assms(2) by (cases p) auto
  moreover have "finite_ids s = [] \<Longrightarrow> sort_key (\<lambda>i. (fin_val (s ! i), i)) (filter (\<lambda>i. is_finite (s ! i)) [0..<length s]) = []"
    by (simp add: finite_ids_def)
  ultimately show ?thesis using True assms
    by (auto simp: apply_top_p_def Let_def scratch_ok_def sort_key_Nil finite_ids_def)
next
  case False
  then obtain q where p: "p = Finite q" using assms(2) by (cases p) auto
  define order where "order = sort_key (\<lambda>i. (fin_val (s ! i), i)) (finite_ids s)"
  note ord = order_facts [where s = s, folded order_def]
  have ne: "order \<noteq> []" "s \<noteq> []" using False by (auto simp: order_def sort_key_Nil finite_ids_def)
  let ?ws = "map (weight_of rnd s) order"
  let ?pf = "length order - min (nat min_keep) (length order)"
  let ?ps = "zip order ?ws"
  let ?n = "nucleus rnd s p min_keep"
  obtain s' kept where l: "nucleus_loop (1 - q) ?pf (sum_list ?ws) 0 0 ?ps s = (s', kept)" by fastforce
  note r = nucleus_loop_result [OF l]
  have rem: "removed (1 - q) ?pf (sum_list ?ws) 0 0 ?ps j \<longleftrightarrow>
      \<not> int (card (better_tokens s (order ! j))) < min_keep \<and> \<not> mass_above rnd s (order ! j) < q" if "j < length order" for j
    using removed_outside [of j s min_keep q rnd, folded order_def] that assms(1) by simp
  have "s' ! i = ?n ! i" if "i < length s" for i
  proof -
    have "(\<exists>j < length ?ps. fst (?ps ! j) = i \<and> removed (1 - q) ?pf (sum_list ?ws) 0 0 ?ps j) \<longleftrightarrow>
        is_finite (s ! i) \<and> \<not> int (card (better_tokens s i)) < min_keep \<and> \<not> mass_above rnd s i < q"
        (is "?L \<longleftrightarrow> ?R")
    proof
      show "?L \<Longrightarrow> ?R" using rem ord(1) in_finite_ids nth_mem [of _ order] by auto
      assume ?R
      then have "i \<in> set order" using that ord(1) by (simp add: in_finite_ids)
      then obtain j where "j < length order" "order ! j = i" by (auto simp: in_set_conv_nth)
      with \<open>?R\<close> rem [of j] show ?L by (intro exI [of _ j]) simp
    qed
    with r that show ?thesis using False p by (simp add: nucleus_def)
  qed
  then have n: "s' = ?n" using r by (intro nth_equalityI) (auto simp: nucleus_def)
  have kept: "q' \<in> set kept \<longleftrightarrow> (\<exists>i\<in>set (finite_ids ?n). q' = (i, weight_of rnd ?n i))" for q'
  proof -
    have w: "weight_of rnd ?n i = weight_of rnd s i" if "i \<in> set (finite_ids ?n)" for i
    proof -
      have "?n ! i = s ! i" using that False by (auto simp: in_finite_ids nucleus_def split: if_splits)
      then show ?thesis by (simp add: weight_of_def max_finite_nucleus [OF assms(1)])
    qed
    have iff: "i \<in> set (finite_ids ?n) \<longleftrightarrow> (\<exists>j < length order. order ! j = i \<and> \<not> removed (1 - q) ?pf (sum_list ?ws) 0 0 ?ps j)" for i
    proof -
      have "i \<in> set (finite_ids ?n) \<longleftrightarrow> i \<in> set order \<and> (int (card (better_tokens s i)) < min_keep \<or> mass_above rnd s i < q)"
        using False p ord(1) by (simp add: finite_nucleus)
      then show ?thesis using rem by (auto simp: in_set_conv_nth)
    qed
    have nth: "?ps ! j = (order ! j, weight_of rnd s (order ! j))" if "j < length order" for j using that by simp
    have len: "length ?ps = length order" by simp
    have k: "q' \<in> set kept \<longleftrightarrow> (\<exists>j < length order. q' = ?ps ! j \<and> \<not> removed (1 - q) ?pf (sum_list ?ws) 0 0 ?ps j)"
      using r len by metis
    show ?thesis
    proof
      assume "q' \<in> set kept"
      then obtain j where "j < length order" "q' = ?ps ! j" "\<not> removed (1 - q) ?pf (sum_list ?ws) 0 0 ?ps j" unfolding k by blast
      moreover from this have "order ! j \<in> set (finite_ids ?n)" unfolding iff by blast
      ultimately show "\<exists>i\<in>set (finite_ids ?n). q' = (i, weight_of rnd ?n i)" using w nth by (intro bexI [of _ "order ! j"]) auto
    next
      assume "\<exists>i\<in>set (finite_ids ?n). q' = (i, weight_of rnd ?n i)"
      then obtain i where i: "i \<in> set (finite_ids ?n)" "q' = (i, weight_of rnd s i)" using w by auto
      then obtain j where "j < length order" "order ! j = i" "\<not> removed (1 - q) ?pf (sum_list ?ws) 0 0 ?ps j" unfolding iff by blast
      then show "q' \<in> set kept" unfolding k using i nth by (intro exI [of _ j]) simp
    qed
  qed
  have fresh: "fresh rnd ?n (sc\<lparr>candidates := map fst kept, weights := map snd kept, probabilities_ready := True,
      probabilities_scores := (Some addr, length s)\<rparr>)"
    using kept by (force simp: fresh_def)
  have pos: "0 < sum_list ?ws" using ne(1) by (rule total_pos)
  have ws: "map (\<lambda>i. token_weight rnd (fin_val (s ! last order)) (s ! i)) order = ?ws"
    using ord(4) [OF ne(1)] by (simp add: weight_of_def)
  have "apply_top_p rnd addr s p min_keep sc = Inr (?n, sc\<lparr>candidates := map fst kept, weights := map snd kept,
      probabilities_ready := True, probabilities_scores := (Some addr, length s)\<rparr>)"
    unfolding apply_top_p_def Let_def finite_ids_def [symmetric] order_def [symmetric] ws
    using assms(1,2) False ne l n p pos by simp
  with assms(3) fresh show ?thesis by (simp add: scratch_ok_def)
qed
subsection \<open>The draw\<close>

text \<open>The best rank over the tokens seen so far, and the first token that has it.\<close>

definition best_so_far :: "(nat \<Rightarrow> c_float) \<Rightarrow> nat list \<Rightarrow> c_float \<times> nat option \<Rightarrow> bool" where
  "best_so_far R xs b \<longleftrightarrow>
     (case snd b of
        None \<Rightarrow> fst b = Neg_Inf \<and> (\<forall>x\<in>set xs. R x = Neg_Inf)
      | Some t \<Rightarrow> fst b = R t \<and> R t \<noteq> Neg_Inf \<and> (\<exists>k < length xs. xs ! k = t \<and> (\<forall>x\<in>set (take k xs). fl_less (R x) (R t))) \<and>
          (\<forall>x\<in>set xs. \<not> fl_less (R t) (R x)))"

lemma fl_less_trans':
  assumes "a \<noteq> NaN" "b \<noteq> NaN" "c \<noteq> NaN"
  shows "\<not> fl_less b a \<Longrightarrow> fl_less b c \<Longrightarrow> fl_less a c" "fl_less a b \<Longrightarrow> \<not> fl_less b a"
  using assms by (simp_all add: fl_less_key)

lemma fold_better:
  assumes "\<And>x. R x \<noteq> NaN"
  shows "best_so_far R xs (fold (\<lambda>x. better (x, R x)) xs (Neg_Inf, None))"
proof (induction xs rule: rev_induct)
  case (snoc y xs)
  obtain r bt where b: "fold (\<lambda>x. better (x, R x)) xs (Neg_Inf, None) = (r, bt)" by fastforce
  have nn: "fl_less Neg_Inf v \<longleftrightarrow> v \<noteq> Neg_Inf" if "v \<noteq> NaN" for v using that by (cases v) auto
  show ?case
  proof (cases "fl_less r (R y)")
    case True
    have "fl_less (R x) (R y)" if "x \<in> set xs" for x
    proof (cases bt)
      case None
      with snoc b that True show ?thesis by (auto simp: best_so_far_def)
    next
      case (Some t)
      with snoc b have "r = R t" "\<not> fl_less (R t) (R x)" using that by (auto simp: best_so_far_def)
      with True show ?thesis using fl_less_trans'(1) [OF assms assms assms] by metis
    qed
    moreover from this have "\<not> fl_less (R y) (R x)" if "x \<in> set xs" for x using that fl_less_trans'(2) assms by metis
    moreover have "R y \<noteq> Neg_Inf" using True by (cases r) auto
    moreover have "\<not> fl_less (R y) (R y)" by (cases "R y") auto
    moreover have "fold (\<lambda>x. better (x, R x)) (xs @ [y]) (Neg_Inf, None) = (R y, Some y)" using b True by (simp add: better_def)
    ultimately show ?thesis by (auto simp: best_so_far_def intro!: exI [of _ "length xs"])
  next
    case False
    have f: "fold (\<lambda>x. better (x, R x)) (xs @ [y]) (Neg_Inf, None) = (r, bt)" using b False by (simp add: better_def)
    show ?thesis
    proof (cases bt)
      case None
      with snoc b False show ?thesis unfolding f using nn [OF assms] by (auto simp: best_so_far_def)
    next
      case (Some t)
      with snoc b obtain k where k: "r = R t" "R t \<noteq> Neg_Inf" "k < length xs" "xs ! k = t"
        "\<forall>x\<in>set (take k xs). fl_less (R x) (R t)" "\<forall>x\<in>set xs. \<not> fl_less (R t) (R x)"
        by (auto simp: best_so_far_def)
      then have "\<exists>k < length (xs @ [y]). (xs @ [y]) ! k = t \<and> (\<forall>x\<in>set (take k (xs @ [y])). fl_less (R x) (R t))"
        by (intro exI [of _ k]) (simp add: nth_append)
      with k False Some show ?thesis unfolding f by (simp add: best_so_far_def)
    qed
  qed
qed (simp add: best_so_far_def)

lemma fold_filter: "fold (\<lambda>i b. if P i then f i b else b) xs b = fold f (filter P xs) b"
  by (induction xs arbitrary: b) auto

definition cpu_rank :: "(real \<Rightarrow> real) \<Rightarrow> c_float list \<Rightarrow> 64 word \<Rightarrow> nat \<Rightarrow> nat \<Rightarrow> c_float" where
  "cpu_rank rnd s seed call t = rank_of Pos_Inf (weight_of rnd s t) (cpu_draw rnd seed (call * length s + t))"

lemma cpu_multinomial:
  assumes "call * length s * 2 < 2 ^ 64" "finite_ids s \<noteq> []"
  shows "\<exists>t. sample_torch_cpu_multinomial rnd s seed (word_of_nat call) = Inr t \<and>
    t \<in> set (finite_ids s) \<and> (\<forall>u\<in>set (finite_ids s). \<not> fl_less (cpu_rank rnd s seed call t) (cpu_rank rnd s seed call u) \<and>
      (u < t \<longrightarrow> fl_less (cpu_rank rnd s seed call u) (cpu_rank rnd s seed call t)))"
proof -
  let ?R = "cpu_rank rnd s seed call" and ?n = "call * length s"
  obtain m where m: "max_finite s = Some m" using assms(2) by (auto simp: max_finite_Max)
  have w: "weight_of rnd s t = token_weight rnd m (s ! t)" for t by (simp add: weight_of_def m)
  have "(word_of_nat call :: 64 word) * word_of_nat (length s) * 2 = word_of_nat (?n * 2)" by simp
  then have "unat ((word_of_nat call :: 64 word) * word_of_nat (length s) * 2) = 2 * ?n"
    using unat_of_nat64 [OF assms(1)] by (simp add: mult.commute)
  then have g: "mt_at seed (2 * ?n) (mt_discard (unat ((word_of_nat call :: 64 word) * word_of_nat (length s) * 2)) (mt_init seed))"
    using mt_discard_at [OF mt_init_at, of seed "2 * ?n"] by simp
  let ?b = "fold (\<lambda>x. better (x, ?R x)) (finite_ids s) (Neg_Inf, None)"
  have loop: "cpu_loop rnd m 0 s (mt_discard (unat ((word_of_nat call :: 64 word) * word_of_nat (length s) * 2)) (mt_init seed)) (Neg_Inf, None) = ?b"
    unfolding cpu_loop_draws [OF g] by (simp add: fold_filter finite_ids_def cpu_rank_def w)
  have R: "?R x \<noteq> NaN" "?R x \<noteq> Neg_Inf" for x by (simp_all add: cpu_rank_def rank_of_def)
  note best = fold_better [of ?R "finite_ids s", OF R(1)]
  have "snd ?b \<noteq> None"
  proof
    assume "snd ?b = None"
    with best have "\<forall>x\<in>set (finite_ids s). ?R x = Neg_Inf" by (simp add: best_so_far_def)
    with R(2) assms(2) show False by (metis list.set_intros(1) neq_Nil_conv)
  qed
  then obtain t where t: "snd ?b = Some t" by blast
  with best obtain k where k: "k < length (finite_ids s)" "finite_ids s ! k = t" "\<forall>x\<in>set (take k (finite_ids s)). fl_less (?R x) (?R t)"
    "\<forall>x\<in>set (finite_ids s). \<not> fl_less (?R t) (?R x)"
    by (auto simp: best_so_far_def)
  have "u \<in> set (take k (finite_ids s))" if "u \<in> set (finite_ids s)" "u < t" for u
  proof -
    have sorted: "sorted (finite_ids s)" by (simp add: finite_ids_def sorted_wrt_filter)
    from that(1) obtain i where i: "i < length (finite_ids s)" "finite_ids s ! i = u" unfolding in_set_conv_nth by blast
    have "i < k" using sorted_nth_mono [OF sorted, of k i] i k that(2) by (cases "k \<le> i") auto
    then show ?thesis using i k(1) by (auto simp: in_set_conv_nth)
  qed
  then show ?thesis using k t loop m by (auto simp: sample_torch_cpu_multinomial_def Let_def)
qed

lemma build_candidates_ok:
  "case build_candidates rnd addr s sc of
     Inl e \<Rightarrow> e = No_Finite_Logits \<and> finite_ids s = []
   | Inr sc' \<Rightarrow> fresh rnd s sc' \<and> finite_ids s \<noteq> [] \<and> (scratch_ok sc \<longrightarrow> scratch_ok sc')"
proof (cases "finite_ids s = []")
  case False
  then obtain m where "max_finite s = Some m" by (auto simp: max_finite_Max)
  with False show ?thesis
    by (simp add: build_candidates_def Let_def fresh_def finite_ids_def weight_of_def scratch_ok_def)
qed (simp add: build_candidates_def max_finite_Max)

definition cuda_rank :: "(real \<Rightarrow> real) \<Rightarrow> c_float list \<Rightarrow> torch_sampling_state \<Rightarrow> sampling_policy \<Rightarrow> nat \<Rightarrow> c_float" where
  "cuda_rank rnd s ts p t = rank_of Neg_Inf (weight_of rnd s t) (projr (cuda_exponential rnd ts p (length s) t))"

lemma cuda_loop_result:
  "case cuda_loop draw ps best of
     Inl e \<Rightarrow> (\<exists>t\<in>set (map fst ps). \<exists>te. draw t = Inl te \<and> e = Torch_Failed te)
   | Inr b \<Rightarrow> b = fold (\<lambda>(t, w). better (t, rank_of Neg_Inf w (projr (draw t)))) ps best"
  by (induction draw ps best rule: cuda_loop.induct) (auto split: sum.splits)

lemma cuda_loop_fresh:
  assumes "fresh rnd s sc"
  shows "case cuda_loop (cuda_exponential rnd ts p (length s)) (zip (candidates sc) (weights sc)) (Neg_Inf, None) of
     Inl e \<Rightarrow> (\<exists>u\<in>set (finite_ids s). \<exists>te. cuda_exponential rnd ts p (length s) u = Inl te \<and> e = Torch_Failed te)
   | Inr b \<Rightarrow> (case snd b of None \<Rightarrow> \<forall>u\<in>set (finite_ids s). cuda_rank rnd s ts p u = Neg_Inf
      | Some t \<Rightarrow> t \<in> set (finite_ids s) \<and> (\<forall>u\<in>set (finite_ids s). \<not> fl_less (cuda_rank rnd s ts p t) (cuda_rank rnd s ts p u)))"
proof -
  let ?R = "cuda_rank rnd s ts p"
  have "zip (candidates sc) (weights sc) = map (\<lambda>t. (t, weight_of rnd s t)) (candidates sc)"
    using assms by (simp add: fresh_def zip_map2 zip_same_conv_map)
  then have e: "fold (\<lambda>(t, w). better (t, rank_of Neg_Inf w (projr (cuda_exponential rnd ts p (length s) t)))) (zip (candidates sc) (weights sc)) b =
      fold (\<lambda>x. better (x, ?R x)) (candidates sc) b" for b
    by (simp add: fold_map comp_def cuda_rank_def)
  have "?R x \<noteq> NaN" for x by (simp add: cuda_rank_def rank_of_def)
  note best = fold_better [of ?R "candidates sc", OF this]
  have "set (candidates sc) = set (finite_ids s)" "map fst (zip (candidates sc) (weights sc)) = candidates sc" using assms by (simp_all add: fresh_def)
  then have zip: "map fst (zip (candidates sc) (weights sc)) = candidates sc" and ids: "set (candidates sc) = set (finite_ids s)" by simp_all
  note loop = cuda_loop_result [where draw = "cuda_exponential rnd ts p (length s)" and ps = "zip (candidates sc) (weights sc)" and best = "(Neg_Inf, None)", unfolded e zip ids]
  show ?thesis
  proof (cases "cuda_loop (cuda_exponential rnd ts p (length s)) (zip (candidates sc) (weights sc)) (Neg_Inf, None)")
    case (Inl err)
    with loop show ?thesis by simp
  next
    case (Inr b)
    with loop best have b: "best_so_far ?R (candidates sc) b" by simp
    show ?thesis
    proof (cases "snd b")
      case None
      with b Inr ids show ?thesis by (simp add: best_so_far_def)
    next
      case (Some t)
      with b obtain k where "k < length (candidates sc)" "candidates sc ! k = t" by (auto simp: best_so_far_def)
      then have "t \<in> set (finite_ids s)" using ids nth_mem by metis
      with b Inr Some ids show ?thesis by (simp add: best_so_far_def)
    qed
  qed
qed
subsection \<open>Sampling\<close>

lemma argmax_loop_ok:
  assumes "NaN \<notin> set s" "best < index" "index + n = length s"
    "\<forall>u < index. \<not> fl_less (s ! best) (s ! u)" "\<forall>u < best. fl_less (s ! u) (s ! best)"
  shows "let t = argmax_loop s best index n in
    t < length s \<and> (\<forall>u < length s. \<not> fl_less (s ! t) (s ! u) \<and> (u < t \<longrightarrow> fl_less (s ! u) (s ! t)))"
  using assms(2-)
proof (induction n arbitrary: best index)
  case (Suc n)
  have nn: "s ! u \<noteq> NaN" if "u < length s" for u using that assms(1) nth_mem by metis
  have bi: "best < length s" "index < length s" using Suc.prems by simp_all
  show ?case
  proof (cases "fl_less (s ! best) (s ! index)")
    case True
    have less: "fl_less (s ! u) (s ! index)" if "u < index" for u
    proof -
      have "u < length s" "\<not> fl_less (s ! best) (s ! u)" using that Suc.prems by auto
      then show ?thesis using fl_less_trans'(1) [OF nn nn nn] True bi by metis
    qed
    moreover have "\<not> fl_less (s ! index) (s ! u)" if "u < index + 1" for u
    proof (cases "u = index")
      case True
      then show ?thesis by (cases "s ! index") auto
    next
      case False
      then have "u < index" using that by simp
      then show ?thesis using less fl_less_trans'(2) nn bi by (metis less_trans)
    qed
    ultimately show ?thesis using Suc.IH [of index "index + 1"] Suc.prems(2) True by simp
  next
    case False
    have "\<not> fl_less (s ! best) (s ! u)" if "u < index + 1" for u using that Suc.prems(3) False by (cases "u = index") auto
    then show ?thesis using Suc.IH [of best "index + 1"] Suc.prems False by simp
  qed
qed auto

lemma argmax_ok:
  assumes "NaN \<notin> set s" "s \<noteq> []"
  shows "\<exists>t. argmax s = Inr t \<and> t < length s \<and> (\<forall>u < length s. \<not> fl_less (s ! t) (s ! u) \<and> (u < t \<longrightarrow> fl_less (s ! u) (s ! t)))"
proof -
  have "\<not> fl_less (s ! 0) (s ! 0)" by (cases "s ! 0") auto
  then show ?thesis using argmax_loop_ok [OF assms(1), of 0 1 "length s - 1"] assms(2) by (simp add: argmax_def Let_def)
qed

definition tempered :: "(real \<Rightarrow> real) \<Rightarrow> c_float list \<Rightarrow> c_float \<Rightarrow> c_float list" where
  "tempered rnd s t = (if t = Finite 1 then s else map (fl_map (\<lambda>x. rnd (x / fin_val t))) s)"

text \<open>The scores after the filters.\<close>

definition processed :: "(real \<Rightarrow> real) \<Rightarrow> c_float list \<Rightarrow> int list \<Rightarrow> hf_options \<Rightarrow> c_float list" where
  "processed rnd logits history opts =
     (let s = penalised rnd logits history (repetition_penalty opts) in
      if \<not> do_sample opts then s
      else nucleus rnd (best_k (tempered rnd s (temperature opts)) (top_k opts) (min_tokens_to_keep opts))
             (top_p opts) (min_tokens_to_keep opts))"

lemma fl_map_nan: "fl_map f v = NaN \<longleftrightarrow> v = NaN"
  by (cases v) auto

lemma no_nan:
  assumes "NaN \<notin> set s"
  shows "NaN \<notin> set (penalised rnd s history penalty)" "NaN \<notin> set (tempered rnd s t)"
proof -
  have "s ! i \<noteq> NaN" if "i < length s" for i using that assms nth_mem by metis
  then show "NaN \<notin> set (penalised rnd s history penalty)"
    using assms by (auto simp: penalised_def penalise_def fl_map_nan dest!: sym [of NaN])
  show "NaN \<notin> set (tempered rnd s t)"
    using assms by (auto simp: tempered_def fl_map_nan dest!: sym [of NaN])
qed

text \<open>What a draw from the scores gives.\<close>

definition drawn :: "(real \<Rightarrow> real) \<Rightarrow> c_float list \<Rightarrow> torch_sampling_state option \<Rightarrow> sampler_error + nat \<times> hf_scratch \<Rightarrow> bool" where
  "drawn rnd s torch res \<longleftrightarrow>
     (case res of
        Inl e \<Rightarrow> e = No_Finite_Logits \<and> finite_ids s = [] \<or>
          (\<exists>ts p. torch = Some ts \<and> ts_policy ts = Some p \<and> cuda_fast_path p \<and>
            (e = Cuda_Selects_None \<and> (\<forall>u\<in>set (finite_ids s). cuda_rank rnd s ts p u = Neg_Inf) \<or>
             (\<exists>u\<in>set (finite_ids s). \<exists>te. cuda_exponential rnd ts p (length s) u = Inl te \<and> e = Torch_Failed te)))
      | Inr (t, sc) \<Rightarrow> scratch_ok sc \<and> t \<in> set (finite_ids s) \<and>
          (\<forall>ts p. torch = Some ts \<longrightarrow> ts_policy ts = Some p \<longrightarrow> cuda_fast_path p \<longrightarrow>
             (\<forall>u\<in>set (finite_ids s). \<not> fl_less (cuda_rank rnd s ts p t) (cuda_rank rnd s ts p u))))"

text \<open>The calls on the CPU stay within the 64 bits of the number of words to discard.\<close>

definition call_in_range :: "nat \<Rightarrow> torch_sampling_state option \<Rightarrow> bool" where
  "call_in_range n torch \<longleftrightarrow> (case torch of None \<Rightarrow> True | Some ts \<Rightarrow> unat (ts_call_index ts) * n * 2 < 2 ^ 64)"

lemma sample_drawn:
  assumes "scratch_ok sc" "use_ready \<Longrightarrow> probabilities_ready sc \<Longrightarrow> fresh rnd s sc" "call_in_range (length s) torch"
    "\<And>ws. ws \<noteq> [] \<Longrightarrow> pick ws < length ws"
  shows "drawn rnd s torch (sample_from_processed_scores rnd pick addr s sc torch use_ready)"
proof -
  have cpu: "drawn rnd s torch (bind_sum (sample_torch_cpu_multinomial rnd s (ts_seed ts) (ts_call_index ts)) (\<lambda>t. Inr (t, sc)))"
    if ts: "torch = Some ts" "\<And>p. ts_policy ts = Some p \<Longrightarrow> \<not> cuda_fast_path p" for ts
  proof (cases "finite_ids s = []")
    case True
    then show ?thesis by (simp add: sample_torch_cpu_multinomial_def max_finite_Max drawn_def)
  next
    case False
    then obtain t where "sample_torch_cpu_multinomial rnd s (ts_seed ts) (ts_call_index ts) = Inr t" "t \<in> set (finite_ids s)"
      using cpu_multinomial [where call = "unat (ts_call_index ts)" and s = s and rnd = rnd and seed = "ts_seed ts"] assms(3) ts(1) by (auto simp: call_in_range_def)
    then show ?thesis using assms(1) ts by (auto simp: drawn_def)
  qed
  have cuda: "drawn rnd s torch (bind_sum (if m then Inr sc else build_candidates rnd addr s sc) (\<lambda>sc1.
      bind_sum (cuda_loop (cuda_exponential rnd ts p (length s)) (zip (candidates sc1) (weights sc1)) (Neg_Inf, None)) (\<lambda>best.
        case snd best of None \<Rightarrow> Inl Cuda_Selects_None | Some t \<Rightarrow> Inr (t, sc1))))"
    if ts: "torch = Some ts" "ts_policy ts = Some p" "cuda_fast_path p" and m: "m \<Longrightarrow> fresh rnd s sc" for ts p m
  proof -
    have result: "drawn rnd s torch (bind_sum (cuda_loop (cuda_exponential rnd ts p (length s)) (zip (candidates sc1) (weights sc1)) (Neg_Inf, None)) (\<lambda>best.
        case snd best of None \<Rightarrow> Inl Cuda_Selects_None | Some t \<Rightarrow> Inr (t, sc1)))" if "fresh rnd s sc1" "scratch_ok sc1" for sc1
      using cuda_loop_fresh [OF that(1), where ts = ts and p = p] that(2) ts by (auto simp: drawn_def split: sum.splits option.splits)
    show ?thesis
    proof (cases m)
      case True
      then show ?thesis using result [OF m assms(1)] by simp
    next
      case False
      then show ?thesis using result build_candidates_ok [where rnd = rnd and addr = addr and s = s and sc = sc] assms(1)
        by (cases "build_candidates rnd addr s sc") (auto simp: drawn_def)
    qed
  qed
  show ?thesis
  proof (cases torch)
    case None
    have "candidates sc1 ! pick (weights sc1) \<in> set (finite_ids s)" if "fresh rnd s sc1" "finite_ids s \<noteq> []" for sc1
    proof -
      have "weights sc1 \<noteq> []" using that by (auto simp: fresh_def)
      from assms(4) [OF this] that(1) show ?thesis using nth_mem [of "pick (weights sc1)" "candidates sc1"] by (simp add: fresh_def)
    qed
    then show ?thesis using None build_candidates_ok [where rnd = rnd and addr = addr and s = s and sc = sc] assms(1)
      by (cases "build_candidates rnd addr s sc") (auto simp: sample_from_processed_scores_def drawn_def)
  next
    case torch: (Some ts)
    show ?thesis
    proof (cases "\<exists>p. ts_policy ts = Some p \<and> cuda_fast_path p")
      case True
      then obtain p where p: "ts_policy ts = Some p" "cuda_fast_path p" by blast
      let ?m = "use_ready \<and> probabilities_ready sc \<and> probabilities_scores sc = (Some addr, length s)"
      have "?m \<Longrightarrow> fresh rnd s sc" using assms(2) by blast
      from cuda [OF torch p this] show ?thesis
        unfolding sample_from_processed_scores_def Let_def torch option.case p(1) if_P [OF p(2)] .
    next
      case False
      then have "sample_from_processed_scores rnd pick addr s sc torch use_ready =
          bind_sum (sample_torch_cpu_multinomial rnd s (ts_seed ts) (ts_call_index ts)) (\<lambda>t. Inr (t, sc))"
        unfolding sample_from_processed_scores_def Let_def torch option.case by (cases "ts_policy ts") simp_all
      with cpu [OF torch] False show ?thesis by simp
    qed
  qed
qed
text \<open>A NaN in the first place wins every greedy call: no comparison with it holds.\<close>

lemma leading_nan_chosen: "argmax (NaN # s) = Inr 0"
proof -
  have "argmax_loop (NaN # s) 0 index n = 0" for index n
    by (induction n arbitrary: index) auto
  then show ?thesis by (simp add: argmax_def)
qed
text \<open>
  C30. Sampling respects every filter: after the repetition penalty (once for each token of the history,
  however often it occurs and whatever earlier calls left in the scratch object) a greedy call returns the
  first token of the greatest score; a sampling call divides by the temperature, keeps the scores above which
  fewer than \<open>max top_k min_keep\<close> lie, keeps of these the tokens above which less than \<open>top_p\<close> of the mass or fewer
  than \<open>min_keep\<close> tokens lie, and returns one of the kept tokens - on the GPU layout one of the greatest rank.
  It fails only if no score is finite or the random numbers are all zero or refused, and leaves the scratch
  object fit for the next call.
\<close>

theorem sample_respects_filters:
  assumes "logits \<noteq> []" "NaN \<notin> set logits" "scratch_ok sc"
    "fl_less (Finite 0) (repetition_penalty opts)" "is_finite (repetition_penalty opts)"
    "do_sample opts \<Longrightarrow> fl_less (Finite 0) (temperature opts) \<and> is_finite (temperature opts) \<and> 0 < min_tokens_to_keep opts \<and> \<not> fl_less (top_p opts) (Finite 0)"
    "call_in_range (length logits) torch" "\<And>ws. ws \<noteq> [] \<Longrightarrow> pick ws < length ws"
  shows "let s = processed rnd logits history opts; res = hf_sample rnd pick logits history opts sc torch in
    if do_sample opts then drawn rnd s torch res
    else \<exists>t sc'. res = Inr (t, sc') \<and> scratch_ok sc' \<and> t < length s \<and>
      (\<forall>u < length s. \<not> fl_less (s ! t) (s ! u) \<and> (u < t \<longrightarrow> fl_less (s ! u) (s ! t)))"
proof -
  let ?p = "penalised rnd logits history (repetition_penalty opts)"
  let ?sc = "sc\<lparr>probabilities_ready := False\<rparr>"
  have sc: "scratch_ok ?sc" "\<not> probabilities_ready ?sc" using assms(3) by (simp_all add: scratch_ok_def)
  obtain sc1 where pen: "apply_repetition_penalty rnd logits history (repetition_penalty opts) ?sc = Inr (?p, sc1)" "scratch_ok sc1"
    "\<not> probabilities_ready sc1"
    using apply_repetition_penalty_ok [OF sc(1) assms(4,5), of rnd logits history] sc(2) by auto
  have p: "NaN \<notin> set ?p" "length ?p = length logits" using no_nan(1) [OF assms(2)] by (auto simp: penalised_def)
  have unchanged: "?p = logits" if "repetition_penalty opts = Finite 1 \<or> history = []"
    using that by (auto simp: penalised_def map_nth)
  show ?thesis
  proof (cases "do_sample opts")
    case greedy: False
    obtain t where "argmax ?p = Inr t" "t < length ?p" "\<forall>u < length ?p. \<not> fl_less (?p ! t) (?p ! u) \<and> (u < t \<longrightarrow> fl_less (?p ! u) (?p ! t))"
      using argmax_ok [OF p(1)] p(2) assms(1) by (metis length_0_conv)
    with greedy assms(1,3) pen unchanged show ?thesis by (auto simp: hf_sample_def Let_def processed_def)
  next
    case sampling: True
    note v = assms(6) [OF sampling]
    let ?t = "tempered rnd ?p (temperature opts)"
    let ?k = "best_k ?t (top_k opts) (min_tokens_to_keep opts)"
    let ?s = "processed rnd logits history opts"
    have t: "apply_temperature rnd ?p (temperature opts) = Inr ?t" using v by (simp add: apply_temperature_def tempered_def)
    obtain sc3 where k: "apply_top_k ?t (top_k opts) (min_tokens_to_keep opts) sc1 = Inr (?k, sc3)" "scratch_ok sc3" "\<not> probabilities_ready sc3"
      using apply_top_k_ok [OF no_nan(2) [OF p(1)], of "min_tokens_to_keep opts" sc1 rnd "temperature opts" "top_k opts"] v pen(2,3) by auto
    have s: "?s = nucleus rnd ?k (top_p opts) (min_tokens_to_keep opts)" using sampling by (simp add: processed_def Let_def)
    obtain sc4 where n: "apply_top_p rnd 0 ?k (top_p opts) (min_tokens_to_keep opts) sc3 = Inr (?s, sc4)" "scratch_ok sc4"
        "probabilities_ready sc4 \<Longrightarrow> fresh rnd ?s sc4"
      using apply_top_p_ok [of "min_tokens_to_keep opts" "top_p opts" sc3 rnd 0 ?k] v k(2,3) unfolding s by auto
    have len: "length ?s = length logits" unfolding s by (simp add: nucleus_def best_k_def tempered_def p(2))
    have full: "drawn rnd ?s torch (sample_from_processed_scores rnd pick 0 ?s sc4 torch True)"
      by (rule sample_drawn) (use n assms(7,8) len in auto)
    show ?thesis
    proof (cases "(repetition_penalty opts \<noteq> Finite 1 \<and> history \<noteq> []) \<or> temperature opts \<noteq> Finite 1 \<or> top_k opts > 0 \<or> fl_less (top_p opts) (Finite 1)")
      case True
      then have "hf_sample rnd pick logits history opts sc torch = sample_from_processed_scores rnd pick 0 ?s sc4 torch True"
        using assms(1) sampling pen(1) t k(1) n(1) by (auto simp: hf_sample_def Let_def)
      with full sampling show ?thesis by (simp add: Let_def)
    next
      case False
      then have "?s = logits" unfolding s by (simp add: nucleus_def best_k_def tempered_def unchanged)
      moreover have "drawn rnd logits torch (sample_from_processed_scores rnd pick 1 logits ?sc torch False)"
        by (rule sample_drawn) (use sc assms(7,8) in auto)
      moreover have "hf_sample rnd pick logits history opts sc torch = sample_from_processed_scores rnd pick 1 logits ?sc torch False"
        using False assms(1) sampling by (simp add: hf_sample_def)
      ultimately show ?thesis using sampling by (simp add: Let_def)
    qed
  qed
qed

text \<open>A call that keeps one token.\<close>

definition example_options :: hf_options where
  "example_options = \<lparr>do_sample = True, temperature = Finite 1, top_k = 1, top_p = Finite 1, min_tokens_to_keep = 1, repetition_penalty = Finite 1\<rparr>"

definition example_scratch :: hf_scratch where
  "example_scratch = \<lparr>candidates = [], weights = [], seen = [], seen_generation = 1, probabilities_ready = False, probabilities_scores = (None, 0)\<rparr>"

theorem sample_respects_filters_witness:
  "\<exists>sc'. hf_sample id (\<lambda>_. 0) [Finite 1, Finite 3, Neg_Inf] [] example_options example_scratch None = Inr (1, sc')"
proof -
  let ?res = "hf_sample id (\<lambda>_. 0) [Finite 1, Finite 3, Neg_Inf] [] example_options example_scratch None"
  have "finite_ids (processed id [Finite 1, Finite 3, Neg_Inf] [] example_options) = [1]"
    by (simp add: processed_def Let_def example_options_def penalised_def map_nth tempered_def best_k_def n_above_def nucleus_def finite_ids_def upt_rec)
  moreover have "drawn id (processed id [Finite 1, Finite 3, Neg_Inf] [] example_options) None ?res"
    using sample_respects_filters [of "[Finite 1, Finite 3, Neg_Inf]" example_scratch example_options None "\<lambda>_. 0" id "[]"]
    by (simp add: example_options_def example_scratch_def scratch_ok_def call_in_range_def Let_def)
  ultimately show ?thesis by (cases ?res) (auto simp: drawn_def)
qed

text \<open>
  C40. Sampling on the CPU reads one stream of random numbers: call \<open>c\<close> over \<open>n\<close> scores compares the finite ones by
  weight over the exponential number at place \<open>c n + t\<close> of the sequence of the seed, defined by the recurrence of the
  Mersenne twister alone - the generator in place, made anew and advanced in each call, continues where
  the previous call ended - and returns the first token of the greatest rank.
\<close>

theorem cpu_sampling_one_stream:
  assumes "call * length s * 2 < 2 ^ 64" "finite_ids s \<noteq> []"
  shows "\<exists>t. sample_torch_cpu_multinomial rnd s seed (word_of_nat call) = Inr t \<and>
    t \<in> set (finite_ids s) \<and> (\<forall>u\<in>set (finite_ids s). \<not> fl_less (cpu_rank rnd s seed call t) (cpu_rank rnd s seed call u) \<and>
      (u < t \<longrightarrow> fl_less (cpu_rank rnd s seed call u) (cpu_rank rnd s seed call t)))"
  using assms by (rule cpu_multinomial)

theorem cpu_sampling_one_stream_witness:
  "sample_torch_cpu_multinomial id [Neg_Inf, Finite 2] 7 5 = Inr 1"
proof -
  have "finite_ids [Neg_Inf, Finite 2] = [1]" by (simp add: finite_ids_def upt_rec)
  then show ?thesis using cpu_sampling_one_stream [of 5 "[Neg_Inf, Finite 2]" id 7] by auto
qed

end
