(* ===== verification/Spec2Isabelle.thy ===== *)
theory Spec2Isabelle
  imports Base64 Segmenter Voice_Stability Busy_Guard Chat_Hygiene Voice_Live Options Text_Chunking Cache_Slots KV_Cache Subtitle Midi Multipart Audio_Spans Overlap_Add LLM_Client Chat_Stream Tdt_Decoder Forced_Align Silero_VAD Http_Body Http_Request Wav Mcp Torch_Random Hf_Sampler
begin

text \<open>
  \<^bold>\<open>A verification library for the Super Fast Voice server and its speech engine\<close>

  The program is a C++ speech stack. \<^verbatim>\<open>app/server\<close> is a server that turns a microphone stream into a spoken
  conversation: frames go through voice-activity detection and a recogniser (\<^verbatim>\<open>voice.cpp\<close>), a stable
  prefix of the hypotheses is reported (\<^verbatim>\<open>voice_stability.cpp\<close>), the transcript is answered by a language model
  whose deltas are scrubbed (\<^verbatim>\<open>chat_hygiene.cpp\<close>), cut into sentences (\<^verbatim>\<open>segmenter.cpp\<close>) and synthesised, with a
  reply generated ahead of time when the draft looks finished (\<^verbatim>\<open>runtime.cpp\<close>); a guard serialises the models
  (\<^verbatim>\<open>busy_guard.h\<close>). \<^verbatim>\<open>src/framework\<close> is the engine under it: options, text and audio chunking, caches,
  subtitles and MIDI around networks that ggml evaluates. The networks themselves, the sockets and the vendored
  libraries are outside the model; where a modelled part calls them they are arguments.

  \<^bold>\<open>Theories and sources\<close>

  \<^item> \<open>Prelude\<close>: bytes, searches in strings, the C number readers, error plumbing, and three interfaces
    that the components instantiate: \<open>transition_invariant\<close> (a step relation and what it keeps), \<open>codec\<close> (decode undoes
    encode) and \<open>data_refinement\<close> (runs of an implementation against runs of an abstract object). \<open>Rounding\<close>: \<^verbatim>\<open>llround\<close> on
    reals. \<open>Std_Sort\<close>: the contract of \<^verbatim>\<open>std::sort\<close>, a locale that insertion sort satisfies.
  \<^item> \<open>Base64\<close> (\<^verbatim>\<open>app/server/base64.cpp\<close>): encoder and decoder with every error; decoding undoes encoding.
  \<^item> \<open>Segmenter\<close> (\<^verbatim>\<open>app/server/segmenter.cpp\<close>): boundaries, cuts, the loop, markup. The loop returns, nothing is lost,
    and no markup is spoken.
  \<^item> \<open>Voice_Stability\<close> (\<^verbatim>\<open>app/server/voice_stability.cpp\<close>): what is reported stable is what the hypotheses agree on.
  \<^item> \<open>Busy_Guard\<close> (\<^verbatim>\<open>app/server/busy_guard.h\<close>): the lock protocol as an interleaving of threads; mutual exclusion, and a
    refusal is founded on a real overrun.
  \<^item> \<open>Chat_Hygiene\<close> (\<^verbatim>\<open>app/server/chat_hygiene.cpp\<close>): sanitising of finished replies, the steering note and the streaming
    scrubber, which drops markup, invents nothing and holds back a bounded number of bytes.
  \<^item> \<open>Chat_Stream\<close> (\<^verbatim>\<open>app/server/runtime.cpp\<close>, \<^verbatim>\<open>runtime.h\<close>): scrubber and segmenter composed. \<open>reply_ok\<close> is the abstract
    promise of a reply; the direct path keeps it, also over any cut of the bytes that carry the model's answer, and
    every interleaving of the speculative worker with the sends and its replay refines the direct path and reports the
    worker's own result.
  \<^item> \<open>Json\<close> (\<^verbatim>\<open>framework/io/json.cpp\<close>) and \<open>LLM_Client\<close> (\<^verbatim>\<open>app/server/llm_client.cpp\<close>): JSON values with their typed
    accessors, and the client of the language model: chunked bodies, event lines, the deltas and the outcome of a stream,
    which do not depend on how the network cuts the bytes.
  \<^item> \<open>Voice_Live\<close> (\<^verbatim>\<open>app/server/voice.cpp\<close>): the two threads of a live connection; utterances are numbered, finals are
    unique, an ended connection has settled every utterance, and the threads cannot deadlock.
  \<^item> \<open>Multipart\<close> (\<^verbatim>\<open>app/server/multipart.cpp\<close>): a form body parses back to its parts.
  \<^item> \<open>Http_Body\<close> (\<^verbatim>\<open>app/server/http.cpp\<close>): request bodies read while they are sent. Reading ends within its bounds, a truncated body
    is never taken for a whole one, a whole one is read exactly, and what the server writes both decoders read.
    \<open>Http_Request\<close> (same file): requests, responses and the life of a connection. A request is read as it was sent, a live
    one reaches its handler whole, and no repeated field hides a transfer coding.
  \<^item> \<open>Mcp\<close> (\<^verbatim>\<open>app/server/mcp.cpp\<close>): the JSON-RPC endpoint of the speak tool. Every message is answered by text that a JSON
    reader understands, that carries its id (exactly, unless it is a fraction) and the member or the error code that the
    request asks for, and the audio of a reply decodes to what the engine spoke, over \<open>Base64\<close>
    and \<open>Wav\<close> (\<^verbatim>\<open>framework/audio/wav_reader.cpp\<close>, \<^verbatim>\<open>wav_writer.cpp\<close>, \<^verbatim>\<open>encode_pcm16_wav\<close>): a file reads back within the
    resolution of its samples.
  \<^item> \<open>Options\<close> (\<^verbatim>\<open>framework/runtime/options.cpp\<close>): readers of string options; agreement between aliases, exact sizes, round trips.
  \<^item> \<open>Text_Chunking\<close> (\<^verbatim>\<open>framework/text/chunking.cpp\<close>): four splitting modes; text kept, budgets kept but for
    single units that are longer, errors characterised.
  \<^item> \<open>Cache_Slots\<close> (\<^verbatim>\<open>runtime/cache_slots.h\<close>): refines a list in order of recency. \<open>KV_Cache\<close>
    (\<^verbatim>\<open>framework/runtime/kv_cache.cpp\<close>): import, export, append and rollback of the transformer caches.
  \<^item> \<open>Subtitle\<close> (\<^verbatim>\<open>framework/text/subtitle.cpp\<close>) and \<open>Midi\<close> (\<^verbatim>\<open>framework/midi/midi_file.cpp\<close>): block building and time stamps;
    note cleaning and a file that a reader with numbers of at most four bytes gets the tempo, the titles, programs and
    channels of the tracks and all notes back from.
  \<^item> \<open>Audio_Spans\<close> and \<open>Overlap_Add\<close> (\<^verbatim>\<open>framework/audio/chunking.cpp\<close>): the planners cover the speech or tile the recording,
    merging returns every word once, and overlap-adding reconstructs the signal.
  \<^item> \<open>Silero_VAD\<close> (\<^verbatim>\<open>models/silero_vad/runtime.cpp\<close>): the voice-activity detector around its network. Its segments are in
    order inside the recording, the chunks planned from them cover them, and the streaming detector finds the same
    speech as the offline run.
  \<^item> \<open>Torch_Random\<close> (\<^verbatim>\<open>framework/sampling/torch_random.cpp\<close>): random numbers in the layout of PyTorch on a GPU. The
    parallel fill has one result in every order of its stores, and no random number is used twice.
    \<open>Hf_Sampler\<close> (\<^verbatim>\<open>framework/sampling/hf_sampler.cpp\<close>): the choice of the next token. The token is one that the penalty and
    the filters allow, and the draws on the CPU read one stream of the Mersenne twister, whose loop over the array is
    proved equal to its recurrence.
  \<^item> \<open>Tdt_Decoder\<close> (\<^verbatim>\<open>framework/decoders\<close>): the two greedy transducer decoders agree, and their tokens are placed inside
    the utterance. \<open>Forced_Align\<close> (\<^verbatim>\<open>models/qwen3_forced_aligner\<close>): the repair of predicted time stamps keeps a
    longest ordered subsequence, and the aligned words are accepted by \<open>Subtitle\<close>.

  \<^bold>\<open>Conventions\<close>

  Structs are records, enums are datatypes, thrown exceptions are the left side of a sum; the text of an
  error message is kept where the code composes it from its input. Strings are byte lists, as \<^verbatim>\<open>std::string\<close> is. \<^verbatim>\<open>size_t\<close> and \<^verbatim>\<open>int64_t\<close> values are
  \<^typ>\<open>nat\<close> or \<^typ>\<open>int\<close> where the code cannot wrap, with the modulus written out where it can (ticks, sizes,
  casts), and words in the bit-level code. \<^verbatim>\<open>float\<close> and \<^verbatim>\<open>double\<close> are reals: rounding of samples and times is not
  modelled. Threads are rules of an inductive step relation, one rule per critical section
  or, outside one, per read of a clock or store to an atomic.

  Loops that the source writes without an evident bound (\<open>take_ready_loop\<close>, \<open>cover_loop\<close>) are
  \<^theory_text>\<open>partial_function (option)\<close>, and that they return is proved. Other loops are total functions by a measure; where the
  source's loop needs a fact that its callers establish (a positive hop in \<open>plan_loop\<close>, a window shorter than the signal
  in \<open>quiet_scan\<close>, a non-empty signal in \<open>reflect_loop\<close>), the guard in the definition only makes it total and is
  satisfied on every path that the callers reach. The search for the longest ordered subsequence (\<open>lis_chain\<close>) and the
  repair of a run of stamps (\<open>repair_from\<close>) are total by such guards; the duration loop of the transducer is a
  \<^theory_text>\<open>partial_function\<close>, as negative durations really make it run for ever.

  Arguments that stand for code outside the repository's own sources: the half-precision conversions of ggml
  (\<open>KV_Cache\<close>), the speech engine behind the speak tool (\<open>Mcp\<close>), the recogniser and the voice-activity session (\<open>Voice_Live\<close>, \<open>Audio_Spans\<close>), the networks of the
  voice-activity detector, the aligner and the transducer (\<open>Silero_VAD\<close>, \<open>Forced_Align\<close>, \<open>Tdt_Decoder\<close>) with the
  aligner's tokenizer, cJSON's parser and printer (\<open>LLM_Client\<close>, \<open>Mcp\<close>), the blocks a socket returns (\<open>LLM_Client\<close>), the rounding
  of binary32 arithmetic (\<open>Silero_VAD\<close>, \<open>Torch_Random\<close>, \<open>Hf_Sampler\<close>), the draw of \<^verbatim>\<open>std::discrete_distribution\<close> (\<open>Hf_Sampler\<close>), \<^verbatim>\<open>std::stof\<close> (\<open>Options\<close>) and the order in which \<^verbatim>\<open>std::sort\<close> leaves equal
  elements (\<open>Std_Sort\<close>).

  \<^bold>\<open>Not modelled\<close>

  Builders of ggml graphs and the models made of them, numerical signal processing, weight loading, sockets and processes,
  debug output, and vendored code: they have no discrete state of their own, or their source is not in the
  repository. Within the modelled parts: timing numbers of event payloads, the speculative synthesis of the
  first sentence, debug traces. Planned next: the YAML and
  safetensors readers, and the command line and batch parsers.
\<close>

end
